(* ===== verification/Prelude.thy ===== *)
theory Prelude
  imports Main "HOL-Library.Word" "HOL-Library.Monad_Syntax"
begin

unbundle bit_operations_syntax

text \<open>
  Shared vocabulary of the development: the machine types of the Rust sources, the
  representation of panics, byte order conversions of the standard library, and the lemmas
  about lists and words that several components use.

  \<^item> A Rust \<^verbatim>\<open>u8\<close>/\<^verbatim>\<open>u16\<close>/\<^verbatim>\<open>u32\<close>/\<^verbatim>\<open>u64\<close> is a word of that width.
  \<^item> A \<^verbatim>\<open>usize\<close> that only indexes a buffer is a \<^typ>\<open>nat\<close>.
  \<^item> An expression that may panic (an index out of range, a remainder by zero) has type
    \<open>'a panics\<close>, an option whose \<^const>\<open>None\<close> is the panic; results are sequenced with
    the option monad of \<^verbatim>\<open>Monad_Syntax\<close>, so "does not panic" is a provable statement.
  \<^item> \<^verbatim>\<open>Instant\<close> and \<^verbatim>\<open>Duration\<close> are numbers of nanoseconds; \<^verbatim>\<open>duration_since\<close>
    saturates at zero, which is subtraction on \<^typ>\<open>nat\<close>.
\<close>

named_theorems no_panic \<open>an operation returns, it does not panic\<close>
named_theorems len_simps \<open>lengths of the byte buffers the operations build\<close>

type_synonym u8 = "8 word"
type_synonym u16 = "16 word"
type_synonym u32 = "32 word"
type_synonym u64 = "64 word"
type_synonym 'a panics = "'a option"
type_synonym instant = nat
type_synonym duration = nat

definition secs :: "nat \<Rightarrow> duration" where
  "secs n = n * 1000000000"

definition duration_since :: "instant \<Rightarrow> instant \<Rightarrow> duration" where
  "duration_since later earlier = later - earlier"

lemma duration_since_self [simp]: "duration_since t t = 0"
  by (simp add: duration_since_def)

subsection \<open>Checked buffer access\<close>

definition byte_at :: "'a list \<Rightarrow> nat \<Rightarrow> 'a panics" where
  "byte_at d i = (if i < length d then Some (d ! i) else None)"

definition store_at :: "'a list \<Rightarrow> nat \<Rightarrow> 'a \<Rightarrow> 'a list panics" where
  "store_at d i v = (if i < length d then Some (d[i := v]) else None)"

text \<open>\<^verbatim>\<open>buf[at..at+n].copy_from_slice(src)\<close> with \<open>n\<close> the length of \<open>src\<close>.\<close>

definition store_slice :: "'a list \<Rightarrow> nat \<Rightarrow> 'a list \<Rightarrow> 'a list panics" where
  "store_slice d at src =
     (if at + length src \<le> length d
      then Some (take at d @ src @ drop (at + length src) d) else None)"

lemma byte_at_Some [simp]: "i < length d \<Longrightarrow> byte_at d i = Some (d ! i)"
  by (simp add: byte_at_def)

lemma byte_at_eq_Some [simp]: "byte_at d i = Some v \<longleftrightarrow> i < length d \<and> v = d ! i"
  by (auto simp: byte_at_def)

lemma store_at_Some [simp]: "i < length d \<Longrightarrow> store_at d i v = Some (d[i := v])"
  by (simp add: store_at_def)

lemma store_slice_Some [simp]:
  "at + length src \<le> length d \<Longrightarrow>
   store_slice d at src = Some (take at d @ src @ drop (at + length src) d)"
  by (simp add: store_slice_def)

text \<open>A buffer cut at \<open>n\<close> and \<open>n + k\<close>, and a store that replaces the middle part.\<close>

lemma cut_middle: "n + k \<le> length d \<Longrightarrow> d = take n d @ take k (drop n d) @ drop (n + k) d"
  by (metis append_take_drop_id drop_drop add.commute)

lemma store_slice_middle:
  "length a = n \<Longrightarrow> length b = length v \<Longrightarrow> store_slice (a @ b @ r) n v = Some (a @ v @ r)"
  by (simp add: store_slice_def)

lemma store_slice_front:
  "length b = length v \<Longrightarrow> store_slice (b @ r) 0 v = Some (v @ r)"
  by (simp add: store_slice_def)

subsection \<open>Bytes and big-endian words\<close>

definition from_be16 :: "u8 \<Rightarrow> u8 \<Rightarrow> u16" where
  "from_be16 h l = word_of_nat (256 * unat h + unat l)"

definition hi_byte :: "u16 \<Rightarrow> u8" where
  "hi_byte w = word_of_nat (unat w div 256)"

definition lo_byte :: "u16 \<Rightarrow> u8" where
  "lo_byte w = word_of_nat (unat w mod 256)"

definition to_be16 :: "u16 \<Rightarrow> u8 list" where
  "to_be16 w = [hi_byte w, lo_byte w]"

lemma unat_u8_less [simp]: "unat (b :: u8) < 256"
  using unsigned_less [of b, where 'a = nat] by simp

lemma unat_u16_less [simp]: "unat (w :: u16) < 65536"
  using unsigned_less [of w, where 'a = nat] by simp

lemma unat_u8_le [simp]: "unat (b :: u8) \<le> 255"
  using unat_u8_less [of b] by linarith

lemma unat_u16_le [simp]: "unat (w :: u16) \<le> 65535"
  using unat_u16_less [of w] by linarith

lemma unat_of_nat_u8: "n < 256 \<Longrightarrow> unat (word_of_nat n :: u8) = n"
  by (simp add: unat_of_nat)

lemma unat_of_nat_u16: "n < 65536 \<Longrightarrow> unat (word_of_nat n :: u16) = n"
  by (simp add: unat_of_nat)

lemma unat_from_be16: "unat (from_be16 h l) = 256 * unat h + unat l"
proof -
  have "256 * unat h + unat l < 65536"
    using unat_u8_less [of h] unat_u8_less [of l] by linarith
  then show ?thesis unfolding from_be16_def by (rule unat_of_nat_u16)
qed

lemma unat_hi_byte: "unat (hi_byte w) = unat w div 256"
proof -
  have "unat w div 256 < 256"
    using unat_u16_less [of w] by (simp add: less_mult_imp_div_less)
  then show ?thesis by (simp add: hi_byte_def unat_of_nat_u8)
qed

lemma unat_lo_byte: "unat (lo_byte w) = unat w mod 256"
  by (simp add: lo_byte_def unat_of_nat_u8)

lemma from_be16_to_be [simp]: "from_be16 (hi_byte w) (lo_byte w) = w"
  by (simp add: word_unat_eq_iff unat_from_be16 unat_hi_byte unat_lo_byte)

lemma hi_byte_from_be16 [simp]: "hi_byte (from_be16 h l) = h"
  by (simp add: word_unat_eq_iff unat_hi_byte unat_from_be16)

lemma lo_byte_from_be16 [simp]: "lo_byte (from_be16 h l) = l"
  by (simp add: word_unat_eq_iff unat_lo_byte unat_from_be16)

lemma length_to_be16 [simp]: "length (to_be16 w) = 2"
  by (simp add: to_be16_def)

lemma unat_and_15: "unat (b AND 15 :: u8) = unat b mod 16"
proof -
  have "b AND 15 = take_bit 4 b"
    by (simp add: take_bit_eq_mask mask_numeral)
  then show ?thesis by (simp add: take_bit_eq_mod unat_mod)
qed

lemma unat_drop_4: "unat (drop_bit 4 b :: u8) = unat b div 16"
  by (simp add: drop_bit_eq_div unat_div)

subsection \<open>Decimal numbers and strings\<close>

definition digit :: "nat \<Rightarrow> char" where
  "digit n = char_of (48 + n)"

fun dec :: "nat \<Rightarrow> string" where
  "dec n = (if n < 10 then [digit n] else dec (n div 10) @ [digit (n mod 10)])"

declare dec.simps [simp del]

definition str_bytes :: "string \<Rightarrow> u8 list" where
  "str_bytes s = map (\<lambda>c. word_of_nat (of_char c)) s"

definition is_digit :: "char \<Rightarrow> bool" where
  "is_digit c \<longleftrightarrow> 48 \<le> (of_char c :: nat) \<and> (of_char c :: nat) \<le> 57"

fun dec_value :: "nat \<Rightarrow> string \<Rightarrow> nat" where
  "dec_value acc [] = acc"
| "dec_value acc (c # cs) = dec_value (10 * acc + (of_char c - 48)) cs"

text \<open>
  \<^verbatim>\<open>str::parse::<uN>()\<close>: an optional plus sign, then at least one decimal digit, and a value
  below \<open>2 ^ N\<close>; anything else is an error.
\<close>

definition parse_uint :: "nat \<Rightarrow> string \<Rightarrow> nat option" where
  "parse_uint w s =
     (let ds = (case s of c # cs \<Rightarrow> if c = CHR ''+'' then cs else s | [] \<Rightarrow> [])
      in if ds \<noteq> [] \<and> list_all is_digit ds \<and> dec_value 0 ds < 2 ^ w
         then Some (dec_value 0 ds) else None)"

lemma of_char_digit: "n < 10 \<Longrightarrow> (of_char (digit n) :: nat) = 48 + n"
  by (simp add: digit_def)

lemma is_digit_digit: "n < 10 \<Longrightarrow> is_digit (digit n)"
  by (simp add: is_digit_def of_char_digit)

lemma dec_nonempty [simp]: "dec n \<noteq> []"
  by (subst dec.simps) simp

lemma dec_digits: "list_all is_digit (dec n)"
proof (induction n rule: dec.induct)
  case (1 n)
  then show ?case
    by (cases "n < 10") (simp_all add: dec.simps [of n] is_digit_digit)
qed

lemma dec_value_append: "dec_value acc (xs @ [c]) = 10 * dec_value acc xs + (of_char c - 48)"
  by (induction xs arbitrary: acc) simp_all

lemma dec_value_dec [simp]: "dec_value 0 (dec n) = n"
proof (induction n rule: dec.induct)
  case (1 n)
  show ?case
  proof (cases "n < 10")
    case True
    then show ?thesis by (simp add: dec.simps [of n] of_char_digit)
  next
    case False
    have "dec_value 0 (dec n) = 10 * dec_value 0 (dec (n div 10)) + (of_char (digit (n mod 10)) - 48)"
      using False by (simp add: dec.simps [of n] dec_value_append)
    also have "\<dots> = 10 * (n div 10) + n mod 10"
      using 1 False by (simp add: of_char_digit)
    finally show ?thesis by simp
  qed
qed

lemma dec_inject [simp]: "dec m = dec n \<longleftrightarrow> m = n"
  by (metis dec_value_dec)

lemma plus_not_digit: "\<not> is_digit (CHR ''+'')"
  by (simp add: is_digit_def)

lemma parse_uint_dec: "n < 2 ^ w \<Longrightarrow> parse_uint w (dec n) = Some n"
proof -
  assume n: "n < 2 ^ w"
  obtain c cs where d: "dec n = c # cs"
    using dec_nonempty by (meson neq_Nil_conv)
  with dec_digits [of n] have "c \<noteq> CHR ''+''"
    using plus_not_digit by auto
  with d dec_digits [of n] n dec_value_dec [of n] show ?thesis
    by (simp add: parse_uint_def Let_def)
qed

subsection \<open>Lists\<close>

text \<open>Where two strings agree and a separator occurs in neither left part, the parts agree.\<close>

lemma append_sep_inject:
  assumes "xs @ c # ys = xs' @ c # ys'" and "c \<notin> set xs" and "c \<notin> set xs'"
  shows "xs = xs' \<and> ys = ys'"
  using assms
proof (induction xs arbitrary: xs')
  case Nil
  then show ?case by (cases xs') auto
next
  case (Cons x xs)
  then show ?case by (cases xs') auto
qed

lemma dec_no_sep:
  assumes "\<not> is_digit c"
  shows "c \<notin> set (dec n)"
  using dec_digits [of n] assms by (auto simp: list_all_iff)

lemma drop_list_update_take:
  "i < length xs \<Longrightarrow> xs = take i xs @ [xs ! i] @ drop (Suc i) xs"
  by (simp add: id_take_nth_drop)

lemma list_all_update: "list_all P xs \<Longrightarrow> P v \<Longrightarrow> list_all P (xs[i := v])"
  by (induction xs arbitrary: i) (auto split: nat.splits)

lemma count_update:
  "i < length xs \<Longrightarrow> length (filter P (xs[i := v])) + (if P (xs ! i) then 1 else 0) =
   length (filter P xs) + (if P v then 1 else 0)"
proof (induction xs arbitrary: i)
  case (Cons x xs)
  then show ?case using Cons.IH [of "i - 1"] by (cases i) auto
qed simp

end
