(* ===== verification/NetTypes.thy ===== *)
theory NetTypes
  imports Prelude "HOL-Library.Char_ord"
begin

text \<open>
  The shared vocabulary of the load balancer (crate lb-types: vip.rs, backend.rs, mtu.rs,
  error.rs) and the parts of \<^verbatim>\<open>std::net\<close> it uses: IP addresses with their textual form and
  their order, protocols, VIPs and services, backends and pools, and the MTU parameters of
  the GRE tunnel derived from the operator's \<^verbatim>\<open>network_mtu\<close>.
\<close>

subsection \<open>Addresses (std::net)\<close>

datatype ipv4_addr = Ipv4 (octet_a: u8) (octet_b: u8) (octet_c: u8) (octet_d: u8)

datatype ipv6_addr = Ipv6 u16 u16 u16 u16 u16 u16 u16 u16

datatype ip_addr = V4 ipv4_addr | V6 ipv6_addr

fun octets4 :: "ipv4_addr \<Rightarrow> u8 list" where
  "octets4 (Ipv4 a b c d) = [a, b, c, d]"

fun segments6 :: "ipv6_addr \<Rightarrow> u16 list" where
  "segments6 (Ipv6 a b c d e f g h) = [a, b, c, d, e, f, g, h]"

definition octets6 :: "ipv6_addr \<Rightarrow> u8 list" where
  "octets6 a = concat (map to_be16 (segments6 a))"

definition unspecified4 :: ipv4_addr where
  "unspecified4 = Ipv4 0 0 0 0"

lemma length_octets4 [simp]: "length (octets4 a) = 4"
  by (cases a) simp

lemma length_octets6 [simp]: "length (octets6 a) = 16"
  by (cases a) (simp add: octets6_def)

lemma octets4_inject [simp]: "octets4 a = octets4 b \<longleftrightarrow> a = b"
  by (cases a; cases b) simp

text \<open>
  \<^verbatim>\<open>Ipv4Addr\<close> is ordered by its octets, most significant first; a \<^verbatim>\<open>BTreeSet<Ipv4Addr>\<close> is
  iterated in that order.
\<close>

definition ipv4_value :: "ipv4_addr \<Rightarrow> nat" where
  "ipv4_value a =
     ((unat (octet_a a) * 256 + unat (octet_b a)) * 256 + unat (octet_c a)) * 256 + unat (octet_d a)"

lemma ipv4_value_inject [simp]: "ipv4_value a = ipv4_value b \<longleftrightarrow> a = b"
proof
  assume eq: "ipv4_value a = ipv4_value b"
  have step: "x = x' \<and> y = y'"
    if "x * 256 + unat y = x' * 256 + unat y'" for x x' :: nat and y y' :: u8
  proof -
    have "x = (x * 256 + unat y) div 256" "unat y = (x * 256 + unat y) mod 256" by simp_all
    moreover have "x' = (x' * 256 + unat y') div 256" "unat y' = (x' * 256 + unat y') mod 256"
      by simp_all
    ultimately show ?thesis using that by (metis word_unat_eq_iff)
  qed
  from eq show "a = b"
    unfolding ipv4_value_def by (metis ipv4_addr.expand step word_unat_eq_iff)
qed simp

instantiation ipv4_addr :: linorder
begin

definition less_eq_ipv4_addr :: "ipv4_addr \<Rightarrow> ipv4_addr \<Rightarrow> bool" where
  "less_eq_ipv4_addr a b \<longleftrightarrow> ipv4_value a \<le> ipv4_value b"

definition less_ipv4_addr :: "ipv4_addr \<Rightarrow> ipv4_addr \<Rightarrow> bool" where
  "less_ipv4_addr a b \<longleftrightarrow> ipv4_value a < ipv4_value b"

instance
  by standard (auto simp: less_eq_ipv4_addr_def less_ipv4_addr_def)

end

subsection \<open>Textual form of an address (Display)\<close>

fun join_str :: "string \<Rightarrow> string list \<Rightarrow> string" where
  "join_str sep [] = []"
| "join_str sep [s] = s"
| "join_str sep (s # t # ts) = s @ sep @ join_str sep (t # ts)"

definition hex_digit :: "nat \<Rightarrow> char" where
  "hex_digit n = (if n < 10 then char_of (48 + n) else char_of (87 + n))"

fun hex :: "nat \<Rightarrow> string" where
  "hex n = (if n < 16 then [hex_digit n] else hex (n div 16) @ [hex_digit (n mod 16)])"

declare hex.simps [simp del]

definition show_ipv4 :: "ipv4_addr \<Rightarrow> string" where
  "show_ipv4 a = join_str ''.'' (map (\<lambda>o8. dec (unat o8)) (octets4 a))"

text \<open>
  The longest run of zero segments, the first one among equals: \<open>(start, len)\<close> of the
  longest and of the current run, folded over the eight segments.
\<close>

fun zero_runs :: "nat \<Rightarrow> u16 list \<Rightarrow> (nat \<times> nat) \<Rightarrow> (nat \<times> nat) \<Rightarrow> nat \<times> nat" where
  "zero_runs i [] longest cur = longest"
| "zero_runs i (s # ss) longest cur =
     (if s = 0
      then let cur' = (if snd cur = 0 then i else fst cur, snd cur + 1)
           in zero_runs (Suc i) ss (if snd longest < snd cur' then cur' else longest) cur'
      else zero_runs (Suc i) ss longest (0, 0))"

definition show_ipv6 :: "ipv6_addr \<Rightarrow> string" where
  "show_ipv6 a =
     (let ss = segments6 a;
          sub = (\<lambda>xs. join_str '':'' (map (\<lambda>s. hex (unat s)) xs))
      in if take 5 ss = replicate 5 0 \<and> ss ! 5 = 0xFFFF
         then ''::ffff:'' @ show_ipv4 (Ipv4 (hi_byte (ss ! 6)) (lo_byte (ss ! 6))
                                            (hi_byte (ss ! 7)) (lo_byte (ss ! 7)))
         else let (start, len) = zero_runs 0 ss (0, 0) (0, 0)
              in if 1 < len then sub (take start ss) @ ''::'' @ sub (drop (start + len) ss)
                 else sub ss)"

fun show_ip :: "ip_addr \<Rightarrow> string" where
  "show_ip (V4 a) = show_ipv4 a"
| "show_ip (V6 a) = show_ipv6 a"

lemma show_ipv4_simp [simp]:
  "show_ipv4 (Ipv4 a b c d) =
     dec (unat a) @ CHR ''.'' # dec (unat b) @ CHR ''.'' # dec (unat c) @ CHR ''.'' # dec (unat d)"
  by (simp add: show_ipv4_def)

lemma dot_colon_not_digit [simp]: "\<not> is_digit (CHR ''.'')" "\<not> is_digit (CHR '':'')"
  by (simp_all add: is_digit_def)

lemma show_ipv4_inject: "show_ipv4 a = show_ipv4 b \<Longrightarrow> a = b"
proof (cases a; cases b)
  fix a1 a2 a3 a4 b1 b2 b3 b4
  assume ab: "a = Ipv4 a1 a2 a3 a4" "b = Ipv4 b1 b2 b3 b4" and eq: "show_ipv4 a = show_ipv4 b"
  note sep = append_sep_inject [where c = "CHR ''.''", OF _ dec_no_sep dec_no_sep]
  from eq ab have "dec (unat a1) = dec (unat b1)"
    and r1: "dec (unat a2) @ CHR ''.'' # dec (unat a3) @ CHR ''.'' # dec (unat a4) =
             dec (unat b2) @ CHR ''.'' # dec (unat b3) @ CHR ''.'' # dec (unat b4)"
    by (auto dest: sep)
  moreover from r1 have "dec (unat a2) = dec (unat b2)"
    and r2: "dec (unat a3) @ CHR ''.'' # dec (unat a4) = dec (unat b3) @ CHR ''.'' # dec (unat b4)"
    by (auto dest: sep)
  moreover from r2 have "dec (unat a3) = dec (unat b3)" "dec (unat a4) = dec (unat b4)"
    by (auto dest: sep)
  ultimately show "a = b" by (simp add: ab word_unat_eq_iff)
qed

lemma show_ipv4_no_colon: "CHR '':'' \<notin> set (show_ipv4 a)"
  by (cases a) (simp add: dec_no_sep)

subsection \<open>VIPs and services (vip.rs)\<close>

type_synonym vip_id = string
type_synonym backend_pool_id = string

datatype protocol = Tcp | Udp

fun protocol_num :: "protocol \<Rightarrow> u8" where
  "protocol_num Tcp = 6"
| "protocol_num Udp = 17"

definition protocol_from_ip_proto :: "u8 \<Rightarrow> protocol option" where
  "protocol_from_ip_proto proto =
     (if proto = 6 then Some Tcp else if proto = 17 then Some Udp else None)"

record vip_service =
  svc_protocol :: protocol
  svc_port :: u16
  svc_backend_pool :: string

record vip =
  vip_ident :: vip_id
  vip_address :: ip_addr
  vip_services :: "vip_service list"
  vip_owner :: string
  vip_description :: string

lemma protocol_from_num [simp]: "protocol_from_ip_proto (protocol_num p) = Some p"
  by (cases p) (simp_all add: protocol_from_ip_proto_def)

lemma protocol_from_SomeD: "protocol_from_ip_proto b = Some p \<Longrightarrow> b = protocol_num p"
  by (auto simp: protocol_from_ip_proto_def split: if_splits)

subsection \<open>Backends and pools (backend.rs)\<close>

datatype health_status = Unknown | Healthy | Unhealthy

record backend =
  be_ip :: ip_addr
  be_port :: u16
  be_weight :: u32
  be_drain :: bool

definition backend_new :: "ip_addr \<Rightarrow> u16 \<Rightarrow> backend" where
  "backend_new ip port = \<lparr>be_ip = ip, be_port = port, be_weight = 1, be_drain = False\<rparr>"

definition backend_name :: "backend \<Rightarrow> string" where
  "backend_name b = show_ip (be_ip b) @ '':'' @ dec (unat (be_port b))"

record health_check_config =
  hc_interval :: duration
  hc_timeout :: duration
  hc_healthy_threshold :: u32
  hc_unhealthy_threshold :: u32

record backend_pool =
  pool_id :: backend_pool_id
  pool_backends :: "backend list"
  pool_health_check :: "health_check_config option"

text \<open>
  The name that seeds a backend's Maglev permutation identifies it: two IPv4 backends
  with the same name have the same address and the same port.
\<close>

theorem backend_name_inject:
  assumes "be_ip b1 = V4 a1" and "be_ip b2 = V4 a2" and "backend_name b1 = backend_name b2"
  shows "be_ip b1 = be_ip b2 \<and> be_port b1 = be_port b2"
proof -
  from assms have "show_ipv4 a1 @ CHR '':'' # dec (unat (be_port b1)) =
                   show_ipv4 a2 @ CHR '':'' # dec (unat (be_port b2))"
    by (simp add: backend_name_def)
  then have "show_ipv4 a1 = show_ipv4 a2" and "dec (unat (be_port b1)) = dec (unat (be_port b2))"
    using append_sep_inject show_ipv4_no_colon by metis+
  with assms(1,2) show ?thesis by (simp add: show_ipv4_inject word_unat_eq_iff)
qed

subsection \<open>Errors (error.rs)\<close>

datatype lb_error =
    ConfigError string
  | ValidationError string
  | IoError string
  | NoHealthyBackends string
  | VipNotFound string
  | PoolNotFound string

subsection \<open>MTU parameters (mtu.rs)\<close>

definition GRE_OVERHEAD :: u16 where "GRE_OVERHEAD = 24"
definition IP_TCP_HEADER_SIZE :: u16 where "IP_TCP_HEADER_SIZE = 40"
definition MIN_MSS :: u16 where "MIN_MSS = 536"

record mtu_config =
  network_mtu :: u16
  effective_inner_mtu :: u16
  tcp_mss_clamp :: u16

definition mtu_config_new :: "u16 \<Rightarrow> lb_error + mtu_config" where
  "mtu_config_new mtu =
     (if mtu < 1280
      then Inl (ConfigError (''network_mtu '' @ dec (unat mtu) @ '' is below minimum 1280''))
      else
        let inner = mtu - GRE_OVERHEAD;
            clamp = inner - IP_TCP_HEADER_SIZE
        in if clamp < MIN_MSS
           then Inl (ConfigError (''derived tcp_mss_clamp '' @ dec (unat clamp) @
                  '' is below RFC 879 minimum '' @ dec (unat MIN_MSS) @
                  '' (network_mtu must be >= 600)''))
           else Inr \<lparr>network_mtu = mtu, effective_inner_mtu = inner, tcp_mss_clamp = clamp\<rparr>)"

lemma unat_sub_u16: "b \<le> a \<Longrightarrow> unat (a - b :: u16) = unat a - unat b"
  by (simp add: unat_sub_if_size word_le_nat_alt)

text \<open>
  \<^verbatim>\<open>MtuConfig::new\<close> fails exactly below 1280, always with the first error (the check
  against the RFC 879 minimum never fires), and otherwise derives the inner MTU and the MSS
  clamp by subtracting 24 and 64 without wrap-around.
\<close>

theorem mtu_config_new_spec:
  "case mtu_config_new mtu of
     Inl e \<Rightarrow> unat mtu < 1280 \<and>
       e = ConfigError (''network_mtu '' @ dec (unat mtu) @ '' is below minimum 1280'')
   | Inr c \<Rightarrow> 1280 \<le> unat mtu \<and> network_mtu c = mtu \<and>
       unat (effective_inner_mtu c) + 24 = unat mtu \<and> unat (tcp_mss_clamp c) + 64 = unat mtu"
proof (cases "unat mtu < 1280")
  case True
  then show ?thesis by (simp add: mtu_config_new_def word_less_nat_alt)
next
  case False
  then have le: "24 \<le> mtu" "64 \<le> mtu" by (simp_all add: word_le_nat_alt)
  then have inner: "unat (mtu - 24) = unat mtu - 24" and clamp: "unat (mtu - 64) = unat mtu - 64"
    by (simp_all add: unat_sub_u16)
  from False clamp have big: "\<not> mtu - 64 < 536" by (simp add: word_less_nat_alt)
  with False show ?thesis
    by (simp add: mtu_config_new_def GRE_OVERHEAD_def IP_TCP_HEADER_SIZE_def MIN_MSS_def Let_def
        word_less_nat_alt inner clamp)
qed

subsection \<open>Connection TTLs\<close>

record conn_ttls =
  ttl_tcp_handshake :: duration
  ttl_tcp_established :: duration
  ttl_tcp_closing :: duration
  ttl_udp :: duration
  ttl_other :: duration

definition conn_ttls_with_established :: "duration \<Rightarrow> conn_ttls" where
  "conn_ttls_with_established established =
     \<lparr>ttl_tcp_handshake = secs 5, ttl_tcp_established = established, ttl_tcp_closing = secs 10,
      ttl_udp = secs 30, ttl_other = secs 30\<rparr>"

end
