(* ===== verification/Health.thy ===== *)
theory Health
  imports NetTypes
begin

text \<open>
  Health checking (crate lb-health: state_machine.rs, checker.rs, probe.rs).

  \<^item> \<open>record_result\<close> is the per-backend state machine; \<open>reference_status\<close> states what it promises
    over the whole history of probe results, and \<open>record_result_spec\<close> that it does.
  \<^item> The checker's tasks only share the status map, so a run of the checker is a sequence of probe
    results, each with the key of its task; the map is keyed by address alone.
  \<^item> A probe is a function of what the network answers: each I/O call of the source is an argument.
    The response is decoded with \<^verbatim>\<open>from_utf8_lossy\<close>, which is modelled on UTF-8 bytes.
  \<^item> TLS and PEM parsing belong to rustls and are parameters.
\<close>

subsection \<open>The state machine (state\_machine.rs)\<close>

record health_state =
  hs_status :: health_status
  hs_successes :: u32
  hs_failures :: u32

definition health_state_new :: health_state where
  "health_state_new = \<lparr>hs_status = Unknown, hs_successes = 0, hs_failures = 0\<rparr>"

definition record_result ::
  "health_state \<Rightarrow> bool \<Rightarrow> u32 \<Rightarrow> u32 \<Rightarrow> health_status option \<times> health_state" where
  "record_result s success healthy_threshold unhealthy_threshold =
     (let s = (if success then s\<lparr>hs_successes := hs_successes s + 1, hs_failures := 0\<rparr>
               else s\<lparr>hs_failures := hs_failures s + 1, hs_successes := 0\<rparr>)
      in case hs_status s of
           Unknown \<Rightarrow>
             if healthy_threshold \<le> hs_successes s then (Some Healthy, s\<lparr>hs_status := Healthy\<rparr>)
             else if unhealthy_threshold \<le> hs_failures s then (Some Unhealthy, s\<lparr>hs_status := Unhealthy\<rparr>)
             else (None, s)
         | Healthy \<Rightarrow>
             if unhealthy_threshold \<le> hs_failures s then (Some Unhealthy, s\<lparr>hs_status := Unhealthy\<rparr>)
             else (None, s)
         | Unhealthy \<Rightarrow>
             if healthy_threshold \<le> hs_successes s then (Some Healthy, s\<lparr>hs_status := Healthy\<rparr>)
             else (None, s))"

text \<open>Histories are newest first.\<close>

fun health_after :: "u32 \<Rightarrow> u32 \<Rightarrow> bool list \<Rightarrow> health_state" where
  "health_after h u [] = health_state_new"
| "health_after h u (r # rs) = snd (record_result (health_after h u rs) r h u)"

fun streak :: "bool \<Rightarrow> bool list \<Rightarrow> nat" where
  "streak b [] = 0"
| "streak b (r # rs) = (if r = b then Suc (streak b rs) else 0)"

text \<open>
  The contract: the status is that of the most recent moment at which one kind of result had
  come often enough in a row.
\<close>

fun reference_status :: "nat \<Rightarrow> nat \<Rightarrow> bool list \<Rightarrow> health_status" where
  "reference_status h u [] = Unknown"
| "reference_status h u (r # rs) =
     (if h \<le> streak True (r # rs) then Healthy
      else if u \<le> streak False (r # rs) then Unhealthy
      else reference_status h u rs)"

lemma streak_le: "streak b rs \<le> length rs"
  by (induction rs) auto

lemma unat_inc_u32: "unat (w :: u32) < 2 ^ 32 - 1 \<Longrightarrow> unat (w + 1) = unat w + 1"
  by (simp add: unat_word_ariths)

lemma record_result_counters:
  "record_result s r h u = (c, s') \<Longrightarrow>
     hs_successes s' = (if r then hs_successes s + 1 else 0) \<and>
     hs_failures s' = (if r then 0 else hs_failures s + 1)"
  by (auto simp: record_result_def Let_def split: health_status.splits if_splits)

lemma record_result_report:
  "record_result s r h u = (c, s') \<Longrightarrow>
     (case c of None \<Rightarrow> hs_status s' = hs_status s
      | Some st \<Rightarrow> hs_status s' = st \<and> st \<noteq> Unknown)"
  by (auto simp: record_result_def Let_def split: health_status.splits if_splits)

lemma health_after_counters:
  assumes "length rs < 2 ^ 32"
  shows "unat (hs_successes (health_after h u rs)) = streak True rs \<and>
         unat (hs_failures (health_after h u rs)) = streak False rs"
  using assms
proof (induction rs)
  case (Cons r rs)
  obtain c s' where rr: "record_result (health_after h u rs) r h u = (c, s')"
    by (cases "record_result (health_after h u rs) r h u")
  have "streak b rs < 2 ^ 32 - 1" for b
    using streak_le [of b rs] Cons.prems by simp
  with Cons record_result_counters [OF rr] show ?case
    by (simp add: rr unat_inc_u32)
qed (simp add: health_state_new_def)

lemma record_result_step:
  assumes h: "0 < h" and u: "0 < u" and len: "length rs < 2 ^ 32 - 1"
    and st: "hs_status (health_after h u rs) = reference_status (unat h) (unat u) rs"
    and rr: "record_result (health_after h u rs) r h u = (c, s')"
  shows "hs_status s' = reference_status (unat h) (unat u) (r # rs) \<and>
     (c = None \<longleftrightarrow> reference_status (unat h) (unat u) (r # rs) = reference_status (unat h) (unat u) rs)"
proof -
  have ls: "length rs < 2 ^ 32" using len by simp
  note cnt = health_after_counters [OF ls, of h u]
  have small: "streak b rs < 2 ^ 32 - 1" for b
    using streak_le [of b rs] len by simp
  have pos: "0 < unat h" "0 < unat u" using h u by (simp_all add: word_less_nat_alt)
  note le = word_le_nat_alt
  show ?thesis
    using rr st cnt small [of True] small [of False] pos
    by (cases r; cases "hs_status (health_after h u rs)")
      (auto simp: record_result_def Let_def le unat_inc_u32 split: if_splits)
qed

lemma health_after_status:
  assumes "0 < h" and "0 < u" and "length rs < 2 ^ 32 - 1"
  shows "hs_status (health_after h u rs) = reference_status (unat h) (unat u) rs"
  using assms(3)
proof (induction rs)
  case (Cons r rs)
  obtain c s' where rr: "record_result (health_after h u rs) r h u = (c, s')"
    by (cases "record_result (health_after h u rs) r h u")
  from record_result_step [OF assms(1,2) _ _ rr] Cons show ?case by (simp add: rr)
qed (simp add: health_state_new_def)

text \<open>
  C19. After any history of fewer than \<open>2 ^ 32\<close> probe results, with positive thresholds, the state
  machine's status is that of the reference specification, and a new result is reported as a
  transition exactly when it changes that status, with the new status.
\<close>

theorem record_result_spec:
  assumes "0 < h" and "0 < u" and "length rs < 2 ^ 32 - 1"
  shows "hs_status (health_after h u rs) = reference_status (unat h) (unat u) rs \<and>
     fst (record_result (health_after h u rs) r h u) =
       (if reference_status (unat h) (unat u) (r # rs) = reference_status (unat h) (unat u) rs
        then None else Some (reference_status (unat h) (unat u) (r # rs)))"
proof -
  note st = health_after_status [OF assms]
  obtain c s' where rr: "record_result (health_after h u rs) r h u = (c, s')"
    by (cases "record_result (health_after h u rs) r h u")
  from record_result_step [OF assms st rr] record_result_report [OF rr] st show ?thesis
    by (cases c) (simp_all add: rr del: reference_status.simps)
qed

lemma record_result_spec_witness:
  "fst (record_result (health_after 2 3 [True, False]) True 2 3) = Some Healthy"
  using record_result_spec [of 2 3 "[True, False]" True] by simp

subsection \<open>The checker (checker.rs)\<close>

record probe_key =
  pk_ip :: ip_addr
  pk_port :: u16

record health_checker =
  chk_interval :: duration
  chk_timeout :: duration
  chk_healthy_threshold :: u32
  chk_unhealthy_threshold :: u32

text \<open>
  \<open>start\<close> spawns one task per distinct key, for the first backend with that key; the tasks share
  only the map behind the watch channel. \<open>run_tasks\<close> holds what each task owns.
\<close>

record checker_run =
  run_tasks :: "probe_key \<rightharpoonup> backend \<times> health_state"
  run_map :: "ip_addr \<rightharpoonup> health_status"

definition key_of :: "backend \<Rightarrow> probe_key" where
  "key_of b = \<lparr>pk_ip = be_ip b, pk_port = be_port b\<rparr>"

definition or_insert :: "(probe_key \<rightharpoonup> backend) \<Rightarrow> backend \<Rightarrow> (probe_key \<rightharpoonup> backend)" where
  "or_insert m b = (if m (key_of b) = None then m(key_of b \<mapsto> b) else m)"

definition unique_backends :: "backend list \<Rightarrow> (probe_key \<rightharpoonup> backend)" where
  "unique_backends bs = foldl or_insert Map.empty bs"

definition checker_start :: "backend list \<Rightarrow> checker_run" where
  "checker_start bs =
     \<lparr>run_tasks = (\<lambda>k. map_option (\<lambda>b. (b, health_state_new)) (unique_backends bs k)),
      run_map = Map.empty\<rparr>"

text \<open>One turn of a task's loop, with the result its probe returned.\<close>

definition checker_tick :: "health_checker \<Rightarrow> checker_run \<Rightarrow> probe_key \<times> bool \<Rightarrow> checker_run" where
  "checker_tick c run ev =
     (case run_tasks run (fst ev) of
        None \<Rightarrow> run
      | Some (b, s) \<Rightarrow>
          (let (change, s') = record_result s (snd ev) (chk_healthy_threshold c) (chk_unhealthy_threshold c);
               run = run\<lparr>run_tasks := (run_tasks run)(fst ev \<mapsto> (b, s'))\<rparr>
           in case change of
                None \<Rightarrow> run
              | Some st \<Rightarrow> run\<lparr>run_map := (run_map run)(be_ip b \<mapsto> st)\<rparr>))"

definition checker_after :: "health_checker \<Rightarrow> backend list \<Rightarrow> (probe_key \<times> bool) list \<Rightarrow> checker_run" where
  "checker_after c bs evs = foldl (checker_tick c) (checker_start bs) evs"

text \<open>The results of one task, newest first.\<close>

definition results_of :: "probe_key \<Rightarrow> (probe_key \<times> bool) list \<Rightarrow> bool list" where
  "results_of k evs = rev (map snd (filter (\<lambda>e. fst e = k) evs))"

lemma key_of_ip: "key_of b = k \<Longrightarrow> pk_ip k = be_ip b"
  by (auto simp: key_of_def)

lemma unique_backends_keys:
  "unique_backends bs k = Some b \<Longrightarrow> key_of b = k \<and> b \<in> set bs"
proof (induction bs arbitrary: b rule: rev_induct)
  case (snoc x bs)
  then show ?case
    by (auto simp: unique_backends_def or_insert_def split: if_splits)
qed (simp add: unique_backends_def)

lemma unique_backends_dom: "dom (unique_backends bs) = key_of ` set bs"
proof (induction bs rule: rev_induct)
  case (snoc x bs)
  then show ?case by (auto simp: unique_backends_def or_insert_def domIff)
qed (simp add: unique_backends_def)

lemma checker_after_snoc: "checker_after c bs (evs @ [e]) = checker_tick c (checker_after c bs evs) e"
  by (simp add: checker_after_def)

lemma checker_after_tasks:
  "run_tasks (checker_after c bs evs) k =
     map_option (\<lambda>b. (b, health_after (chk_healthy_threshold c) (chk_unhealthy_threshold c) (results_of k evs)))
       (unique_backends bs k)"
proof (induction evs rule: rev_induct)
  case (snoc e evs)
  show ?case
  proof (cases "fst e = k")
    case True
    with snoc show ?thesis
      by (cases "unique_backends bs k")
        (auto simp: checker_after_snoc checker_tick_def results_of_def Let_def split: prod.splits option.splits)
  next
    case False
    with snoc show ?thesis
      by (auto simp: checker_after_snoc checker_tick_def results_of_def Let_def split: prod.splits option.splits)
  qed
qed (simp add: checker_after_def checker_start_def results_of_def)

lemma task_backend:
  "run_tasks (checker_after c bs evs) k = Some (b, s) \<Longrightarrow> key_of b = k \<and> b \<in> set bs"
  using unique_backends_keys [of bs k b] by (auto simp: checker_after_tasks)

definition one_port_per_address :: "backend list \<Rightarrow> bool" where
  "one_port_per_address bs \<longleftrightarrow> (\<forall>a\<in>set bs. \<forall>b\<in>set bs. be_ip a = be_ip b \<longrightarrow> be_port a = be_port b)"

definition shown_status :: "health_status \<Rightarrow> health_status option" where
  "shown_status st = (if st = Unknown then None else Some st)"

lemma checker_map_shows_task:
  assumes one: "one_port_per_address bs"
  shows "run_tasks (checker_after c bs evs) k = Some (b, s) \<Longrightarrow>
     run_map (checker_after c bs evs) (pk_ip k) = shown_status (hs_status s)"
proof (induction evs arbitrary: b s rule: rev_induct)
  case Nil
  then show ?case
    by (auto simp: checker_after_def checker_start_def health_state_new_def shown_status_def)
next
  case (snoc e evs)
  let ?r = "checker_after c bs evs"
  show ?case
  proof (cases "run_tasks ?r (fst e)")
    case None
    with snoc show ?thesis by (simp add: checker_after_snoc checker_tick_def)
  next
    case (Some bs0)
    then obtain b0 s0 where t: "run_tasks ?r (fst e) = Some (b0, s0)" by (cases bs0) auto
    obtain ch s1 where rr: "record_result s0 (snd e) (chk_healthy_threshold c) (chk_unhealthy_threshold c) = (ch, s1)"
      by (cases "record_result s0 (snd e) (chk_healthy_threshold c) (chk_unhealthy_threshold c)")
    note rep = record_result_report [OF rr]
    note b0 = task_backend [OF t]
    have after: "checker_after c bs (evs @ [e]) =
        (let run = ?r\<lparr>run_tasks := (run_tasks ?r)(fst e \<mapsto> (b0, s1))\<rparr>
         in case ch of None \<Rightarrow> run | Some st \<Rightarrow> run\<lparr>run_map := (run_map ?r)(be_ip b0 \<mapsto> st)\<rparr>)"
      by (simp add: checker_after_snoc checker_tick_def t rr Let_def split: option.splits)
    show ?thesis
    proof (cases "fst e = k")
      case True
      with snoc.prems after have "s = s1" by (cases ch) (auto simp: Let_def)
      with True snoc.IH [of b0 s0] t rep after key_of_ip [OF conjunct1 [OF b0]] show ?thesis
        by (cases ch) (auto simp: Let_def shown_status_def)
    next
      case False
      with snoc.prems after have k: "run_tasks ?r k = Some (b, s)" by (cases ch) (auto simp: Let_def)
      note b = task_backend [OF k]
      have "key_of b \<noteq> key_of b0" using b b0 False by simp
      with one b b0 have "be_ip b \<noteq> be_ip b0" unfolding one_port_per_address_def key_of_def by metis
      then have "pk_ip k \<noteq> be_ip b0" using key_of_ip [OF conjunct1 [OF b]] by simp
      with snoc.IH [OF k] after show ?thesis by (cases ch) (auto simp: Let_def)
    qed
  qed
qed

text \<open>
  C20. When the backends of one address share their port, the map the controller reads shows for
  every checked backend the reference status of its own probe results, however the tasks
  interleave; nothing is shown before the first transition.
\<close>

theorem checker_map_spec:
  assumes "one_port_per_address bs" and "b \<in> set bs"
    and "0 < chk_healthy_threshold c" and "0 < chk_unhealthy_threshold c" and "length evs < 2 ^ 32 - 1"
  shows "run_map (checker_after c bs evs) (be_ip b) =
     shown_status (reference_status (unat (chk_healthy_threshold c)) (unat (chk_unhealthy_threshold c))
       (results_of (key_of b) evs))"
proof -
  obtain b0 where "unique_backends bs (key_of b) = Some b0"
    using unique_backends_dom [of bs] assms(2) by blast
  then have t: "run_tasks (checker_after c bs evs) (key_of b) = Some (b0,
      health_after (chk_healthy_threshold c) (chk_unhealthy_threshold c) (results_of (key_of b) evs))"
    by (simp add: checker_after_tasks)
  have "length (results_of (key_of b) evs) < 2 ^ 32 - 1"
    using le_less_trans [OF length_filter_le assms(5)] by (simp add: results_of_def)
  from health_after_status [OF assms(3,4) this] checker_map_shows_task [OF assms(1) t]
  show ?thesis by (simp add: key_of_def)
qed

definition two_ports :: "backend list" where
  "two_ports = [backend_new (V4 (Ipv4 10 0 0 1)) 80, backend_new (V4 (Ipv4 10 0 0 1)) 443]"

definition quick_checker :: health_checker where
  "quick_checker = \<lparr>chk_interval = secs 5, chk_timeout = secs 2, chk_healthy_threshold = 1,
     chk_unhealthy_threshold = 1\<rparr>"

lemma checker_map_spec_witness:
  "run_map (checker_after quick_checker [backend_new (V4 (Ipv4 10 0 0 1)) 80]
     [(key_of (backend_new (V4 (Ipv4 10 0 0 1)) 80), True)]) (V4 (Ipv4 10 0 0 1)) = Some Healthy"
  using checker_map_spec [of "[backend_new (V4 (Ipv4 10 0 0 1)) 80]" "backend_new (V4 (Ipv4 10 0 0 1)) 80"
      quick_checker "[(key_of (backend_new (V4 (Ipv4 10 0 0 1)) 80), True)]"]
  by (simp add: one_port_per_address_def quick_checker_def backend_new_def results_of_def shown_status_def)

text \<open>
  With two ports on one address the map holds the last transition of either: a failing port makes
  the address unhealthy although the other port answers.
\<close>

lemma checker_map_address_collision:
  "run_map (checker_after quick_checker two_ports
     (map (\<lambda>b. (key_of b, be_port b = 80)) two_ports)) (V4 (Ipv4 10 0 0 1)) = Some Unhealthy"
  by (simp add: two_ports_def quick_checker_def checker_after_def checker_start_def unique_backends_def
      or_insert_def checker_tick_def record_result_def health_state_new_def key_of_def backend_new_def)

subsection \<open>Reading an HTTP response (probe.rs)\<close>

datatype probe_result = Success | Failure string

definition is_success :: "probe_result \<Rightarrow> bool" where
  "is_success r = (case r of Success \<Rightarrow> True | Failure _ \<Rightarrow> False)"

text \<open>
  \<^verbatim>\<open>String::from_utf8_lossy\<close> on UTF-8 bytes: a lead byte fixes the ranges of the bytes that must
  follow; a maximal prefix of an ill-formed sequence becomes one U+FFFD (EF BF BD).
\<close>

definition utf8_ranges :: "u8 \<Rightarrow> (u8 \<times> u8) list option" where
  "utf8_ranges b =
     (if b < 0x80 then Some []
      else if 0xC2 \<le> b \<and> b \<le> 0xDF then Some [(0x80, 0xBF)]
      else if b = 0xE0 then Some [(0xA0, 0xBF), (0x80, 0xBF)]
      else if b = 0xED then Some [(0x80, 0x9F), (0x80, 0xBF)]
      else if 0xE1 \<le> b \<and> b \<le> 0xEF then Some [(0x80, 0xBF), (0x80, 0xBF)]
      else if b = 0xF0 then Some [(0x90, 0xBF), (0x80, 0xBF), (0x80, 0xBF)]
      else if 0xF1 \<le> b \<and> b \<le> 0xF3 then Some [(0x80, 0xBF), (0x80, 0xBF), (0x80, 0xBF)]
      else if b = 0xF4 then Some [(0x80, 0x8F), (0x80, 0xBF), (0x80, 0xBF)]
      else None)"

fun take_conts :: "(u8 \<times> u8) list \<Rightarrow> u8 list \<Rightarrow> bool \<times> nat" where
  "take_conts [] bs = (True, 0)"
| "take_conts (r # rs) [] = (False, 0)"
| "take_conts (r # rs) (b # bs) =
     (if fst r \<le> b \<and> b \<le> snd r then (let (ok, k) = take_conts rs bs in (ok, Suc k)) else (False, 0))"

definition replacement_char :: "u8 list" where
  "replacement_char = [0xEF, 0xBF, 0xBD]"

function utf8_lossy :: "u8 list \<Rightarrow> u8 list" where
  "utf8_lossy [] = []"
| "utf8_lossy (b # bs) =
     (case utf8_ranges b of
        None \<Rightarrow> replacement_char @ utf8_lossy bs
      | Some rs \<Rightarrow>
          (let (ok, k) = take_conts rs bs
           in (if ok then b # take k bs else replacement_char) @ utf8_lossy (drop k bs)))"
  by pat_completeness auto
termination by (relation "measure length") auto

definition first_line :: "u8 list \<Rightarrow> u8 list option" where
  "first_line s =
     (if s = [] then None
      else Some (let line = takeWhile (\<lambda>b. b \<noteq> 10) s
                 in if 10 \<in> set s \<and> line \<noteq> [] \<and> last line = 13 then butlast line else line))"

fun contains_bytes :: "u8 list \<Rightarrow> u8 list \<Rightarrow> bool" where
  "contains_bytes p [] = (p = [])"
| "contains_bytes p (b # bs) = (take (length p) (b # bs) = p \<or> contains_bytes p bs)"

definition bytes_str :: "u8 list \<Rightarrow> string" where
  "bytes_str bs = map (\<lambda>b. char_of (unat b)) bs"

text \<open>The test both HTTP probes apply to what one read of at most 1024 bytes returned.\<close>

definition check_response :: "u8 list \<Rightarrow> probe_result" where
  "check_response buf =
     (case first_line (utf8_lossy buf) of
        Some status_line \<Rightarrow>
          if contains_bytes (str_bytes '' 2'') status_line then Success
          else Failure (''non-2xx response: '' @ bytes_str status_line)
      | None \<Rightarrow> Failure ''empty response'')"

lemma str_bytes_space_2: "str_bytes '' 2'' = [32, 50]"
  by (simp add: str_bytes_def)

lemma take_conts_high:
  assumes "list_all (\<lambda>r. 128 \<le> fst r) rs" and "take_conts rs bs = (ok, k)"
  shows "list_all (\<lambda>b. 128 \<le> b) (take k bs)"
  using assms
proof (induction rs bs arbitrary: k rule: take_conts.induct)
  case (3 r rs b bs)
  then show ?case
    by (cases "take_conts rs bs") (auto split: if_splits intro: order_trans)
qed auto

lemma utf8_ranges_high: "utf8_ranges b = Some rs \<Longrightarrow> list_all (\<lambda>r. 128 \<le> fst r) rs"
  by (auto simp: utf8_ranges_def split: if_splits)

text \<open>Bytes from 128 up neither end a line nor take part in a match of ASCII bytes.\<close>

definition seen :: "u8 list \<Rightarrow> bool" where
  "seen s \<longleftrightarrow> contains_bytes [32, 50] (takeWhile (\<lambda>b. b \<noteq> 10) s)"

lemma high_byte: "128 \<le> (b :: u8) \<Longrightarrow> b \<noteq> 10 \<and> b \<noteq> 32 \<and> b \<noteq> 50 \<and> b \<noteq> 13"
  by auto

lemma seen_high: "128 \<le> b \<Longrightarrow> seen (b # s) = seen s"
  using high_byte [of b] by (simp add: seen_def)

lemma seen_highs: "list_all (\<lambda>b. 128 \<le> b) xs \<Longrightarrow> seen (xs @ s) = seen s"
  by (induction xs) (simp_all add: seen_high)

text \<open>Whether a match starts at a byte depends on the next byte only, so decoding must keep it.\<close>

definition next_is_50 :: "u8 list \<Rightarrow> bool" where
  "next_is_50 s \<longleftrightarrow> s \<noteq> [] \<and> hd s = 50"

lemma seen_low: "seen (b # s) \<longleftrightarrow> b \<noteq> 10 \<and> (b = 32 \<and> next_is_50 s \<or> seen s)"
  by (cases s) (auto simp: seen_def next_is_50_def)

lemma next_is_50_highs: "list_all (\<lambda>b. 128 \<le> b) xs \<Longrightarrow> next_is_50 (xs @ s) = (xs = [] \<and> next_is_50 s)"
  by (cases xs) (auto simp: next_is_50_def dest: high_byte)

lemma replacement_high: "list_all (\<lambda>b. 128 \<le> b) replacement_char"
  by (simp add: replacement_char_def)

lemma utf8_lossy_seen:
  "seen (utf8_lossy s) = seen s \<and> next_is_50 (utf8_lossy s) = next_is_50 s"
proof (induction s rule: utf8_lossy.induct)
  case (2 b bs)
  show ?case
  proof (cases "b < 128")
    case True
    then have "utf8_lossy (b # bs) = b # utf8_lossy bs" by (simp add: utf8_ranges_def)
    moreover have "seen (utf8_lossy bs) = seen bs \<and> next_is_50 (utf8_lossy bs) = next_is_50 bs"
      using 2(2) [of "[]" "(True, 0)" True 0] True by (simp add: utf8_ranges_def)
    ultimately show ?thesis by (simp add: seen_low) (simp add: next_is_50_def)
  next
    case False
    then have b: "128 \<le> b" by simp
    show ?thesis
    proof (cases "utf8_ranges b")
      case None
      then have eq: "utf8_lossy (b # bs) = replacement_char @ utf8_lossy bs" by simp
      have "seen (utf8_lossy (b # bs)) = seen (b # bs)"
        unfolding eq seen_highs [OF replacement_high] seen_high [OF b] using 2(1) [OF None] by blast
      moreover have "\<not> next_is_50 (utf8_lossy (b # bs))"
        unfolding eq next_is_50_highs [OF replacement_high] by (simp add: replacement_char_def)
      moreover have "\<not> next_is_50 (b # bs)" using high_byte [OF b] by (simp add: next_is_50_def)
      ultimately show ?thesis by blast
    next
      case (Some rs)
      obtain ok k where tc: "take_conts rs bs = (ok, k)" by (cases "take_conts rs bs")
      let ?c = "if ok then b # take k bs else replacement_char"
      have high: "list_all (\<lambda>b. 128 \<le> b) (take k bs)"
        by (rule take_conts_high [OF utf8_ranges_high [OF Some] tc])
      then have c: "list_all (\<lambda>b. 128 \<le> b) ?c" "?c \<noteq> []"
        using b replacement_high by (simp_all add: replacement_char_def)
      have eq: "utf8_lossy (b # bs) = ?c @ utf8_lossy (drop k bs)" by (simp add: Some tc)
      have "seen (b # bs) = seen ((b # take k bs) @ drop k bs)" by simp
      also have "\<dots> = seen (drop k bs)" using b high by (intro seen_highs) simp
      finally have "seen (utf8_lossy (b # bs)) = seen (b # bs)"
        using 2(2) [OF Some tc [symmetric] refl] seen_highs [OF c(1)] eq by simp
      moreover have "\<not> next_is_50 (b # bs)" using b by (auto simp: next_is_50_def)
      moreover have "\<not> next_is_50 (utf8_lossy (b # bs))"
        unfolding eq next_is_50_highs [OF c(1)] using c(2) by blast
      ultimately show ?thesis by blast
    qed
  qed
qed simp

lemma contains_bytes_snoc:
  "c \<noteq> 50 \<Longrightarrow> contains_bytes [32, 50] (xs @ [c]) = contains_bytes [32, 50] xs"
proof (induction xs)
  case (Cons x xs)
  then show ?case by (cases xs) auto
qed simp

lemma first_line_seen:
  "first_line s = Some line \<Longrightarrow> contains_bytes [32, 50] line = seen s"
  using contains_bytes_snoc [of 13 "butlast (takeWhile (\<lambda>b. b \<noteq> 10) s)"]
  by (auto simp: first_line_def seen_def Let_def split: if_splits)
    (metis append_butlast_last_id)+

lemma utf8_lossy_Nil: "utf8_lossy s = [] \<longleftrightarrow> s = []"
  by (cases s) (auto simp: replacement_char_def split: option.splits prod.splits)

text \<open>
  The verdict depends on the raw bytes only: a response passes if and only if a space followed
  by the digit 2 occurs before its first line feed.
\<close>

lemma check_response_seen: "check_response buf = Success \<longleftrightarrow> buf \<noteq> [] \<and> seen buf"
proof (cases "first_line (utf8_lossy buf)")
  case None
  then show ?thesis by (auto simp: check_response_def first_line_def utf8_lossy_Nil split: if_splits)
next
  case (Some line)
  then have "buf \<noteq> []" by (auto simp: first_line_def utf8_lossy_Nil split: if_splits)
  with Some first_line_seen [OF Some] utf8_lossy_seen [of buf] show ?thesis
    by (simp add: check_response_def str_bytes_space_2)
qed

subsection \<open>The probes (probe.rs)\<close>

text \<open>What \<^verbatim>\<open>timeout(d, call)\<close> returns; the error of a call is its message.\<close>

datatype 'a timed = Elapsed | Finished "string + 'a"

definition tcp_check :: "unit timed \<Rightarrow> probe_result" where
  "tcp_check connect =
     (case connect of
        Finished (Inr _) \<Rightarrow> Success
      | Finished (Inl e) \<Rightarrow> Failure (''tcp connect failed: '' @ e)
      | Elapsed \<Rightarrow> Failure ''tcp connect timed out'')"

definition crlf :: string where
  "crlf = [CHR 0x0D, CHR 0x0A]"

definition http_request :: "string \<Rightarrow> ip_addr \<Rightarrow> string" where
  "http_request path ip = ''GET '' @ path @ '' HTTP/1.1'' @ crlf @ ''Host: '' @ show_ip ip @ crlf @
     ''Connection: close'' @ crlf @ crlf"

definition HTTP_BUF :: nat where "HTTP_BUF = 1024"

text \<open>The calls an HTTP probe makes, with what the socket answers to each.\<close>

record http_socket =
  so_connect :: "unit timed"
  so_writable :: "string + unit"
  so_try_write :: "u8 list \<Rightarrow> string + nat"
  so_readable :: "unit timed"
  so_try_read :: "nat \<Rightarrow> string + u8 list"

definition http_check :: "string \<Rightarrow> backend \<Rightarrow> http_socket \<Rightarrow> probe_result" where
  "http_check path target so =
     (case so_connect so of
        Finished (Inl e) \<Rightarrow> Failure (''connect failed: '' @ e)
      | Elapsed \<Rightarrow> Failure ''connect timed out''
      | Finished (Inr _) \<Rightarrow> (case so_writable so of
          Inl e \<Rightarrow> Failure (''stream not writable: '' @ e)
        | Inr _ \<Rightarrow> (case so_try_write so (str_bytes (http_request path (be_ip target))) of
            Inl e \<Rightarrow> Failure (''write failed: '' @ e)
          | Inr _ \<Rightarrow> (case so_readable so of
              Finished (Inr _) \<Rightarrow> (case so_try_read so HTTP_BUF of
                Inr buf \<Rightarrow> if 0 < length buf then check_response buf else Failure ''no response data''
              | Inl _ \<Rightarrow> Failure ''no response data'')
            | Finished (Inl e) \<Rightarrow> Failure (''read error: '' @ e)
            | Elapsed \<Rightarrow> Failure ''read timed out''))))"

text \<open>
  An HTTP probe succeeds exactly when it connects, can write its request, gets a readable
  socket in time, and the bytes of the one read it makes contain, before any line feed, a space
  followed by the digit 2. The decoding with \<^verbatim>\<open>from_utf8_lossy\<close> does not change the verdict.
\<close>

theorem http_check_success:
  "http_check path b so = Success \<longleftrightarrow>
     so_connect so = Finished (Inr ()) \<and> so_writable so = Inr () \<and>
     (\<exists>n. so_try_write so (str_bytes (http_request path (be_ip b))) = Inr n) \<and>
     so_readable so = Finished (Inr ()) \<and>
     (\<exists>buf. so_try_read so HTTP_BUF = Inr buf \<and> buf \<noteq> [] \<and>
       contains_bytes [32, 50] (takeWhile (\<lambda>b. b \<noteq> 10) buf))"
  by (auto simp: http_check_def check_response_seen seen_def
      split: timed.splits sum.splits if_splits)

text \<open>So a status line other than 2xx passes when its reason phrase has a word that begins with 2.\<close>

lemma check_response_accepts_503:
  "check_response (str_bytes (''HTTP/1.1 503 Over 2 requests'' @ crlf)) = Success"
  unfolding check_response_seen by (simp add: seen_def str_bytes_def crlf_def)

subsection \<open>The HTTPS probe\<close>

text \<open>
  rustls is outside the sources: certificates and keys are of arbitrary types, and its PEM
  readers and checks are parameters.
\<close>

datatype 'c server_trust = WebpkiRoots | Roots "'c list" | NoVerifier

record ('c, 'k) tls_connector =
  tls_trust :: "'c server_trust"
  tls_client_auth :: "('c list \<times> 'k) option"

record ('c, 'k) https_probe =
  hp_path :: string
  hp_connector :: "('c, 'k) tls_connector"

record ('c, 'k) pem_ops =
  pem_certs :: "u8 list \<Rightarrow> (string + 'c) list"
  pem_private_key :: "u8 list \<Rightarrow> string + 'k option"
  root_accepts :: "'c \<Rightarrow> string + unit"
  client_auth_accepts :: "'c server_trust \<Rightarrow> 'c list \<Rightarrow> 'k \<Rightarrow> string + unit"

definition https_new :: "string \<Rightarrow> ('c, 'k) https_probe" where
  "https_new path = \<lparr>hp_path = path,
     hp_connector = \<lparr>tls_trust = WebpkiRoots, tls_client_auth = None\<rparr>\<rparr>"

definition https_insecure :: "string \<Rightarrow> ('c, 'k) https_probe" where
  "https_insecure path = \<lparr>hp_path = path,
     hp_connector = \<lparr>tls_trust = NoVerifier, tls_client_auth = None\<rparr>\<rparr>"

fun add_roots :: "('c, 'k) pem_ops \<Rightarrow> 'c list \<Rightarrow> (string + 'c) list \<Rightarrow> string + 'c list" where
  "add_roots ops store [] = Inr store"
| "add_roots ops store (Inl e # cs) = Inl (''invalid server CA PEM: '' @ e)"
| "add_roots ops store (Inr c # cs) =
     (case root_accepts ops c of
        Inl e \<Rightarrow> Inl (''server CA rejected: '' @ e)
      | Inr _ \<Rightarrow> add_roots ops (store @ [c]) cs)"

fun collect_certs :: "(string + 'c) list \<Rightarrow> string + 'c list" where
  "collect_certs [] = Inr []"
| "collect_certs (Inl e # cs) = Inl e"
| "collect_certs (Inr c # cs) = (case collect_certs cs of Inl e \<Rightarrow> Inl e | Inr ds \<Rightarrow> Inr (c # ds))"

definition mtls_roots :: "('c, 'k) pem_ops \<Rightarrow> u8 list \<Rightarrow> string + 'c server_trust" where
  "mtls_roots ops pem =
     (if pem = [] then Inr WebpkiRoots
      else case add_roots ops [] (pem_certs ops pem) of
        Inl e \<Rightarrow> Inl e
      | Inr store \<Rightarrow> if store = [] then Inl ''server_roots_pem contained no certificates''
                     else Inr (Roots store))"

definition https_with_mtls ::
  "('c, 'k) pem_ops \<Rightarrow> string \<Rightarrow> u8 list \<Rightarrow> u8 list \<Rightarrow> u8 list \<Rightarrow> string + ('c, 'k) https_probe" where
  "https_with_mtls ops path server_roots_pem client_cert_pem client_key_pem =
     (case mtls_roots ops server_roots_pem of
        Inl e \<Rightarrow> Inl e
      | Inr trust \<Rightarrow> (case collect_certs (pem_certs ops client_cert_pem) of
          Inl e \<Rightarrow> Inl (''invalid client cert PEM: '' @ e)
        | Inr client_certs \<Rightarrow>
            if client_certs = [] then Inl ''client_cert_pem contained no certificates''
            else (case pem_private_key ops client_key_pem of
              Inl e \<Rightarrow> Inl (''invalid client key PEM: '' @ e)
            | Inr None \<Rightarrow> Inl ''client_key_pem contained no private key''
            | Inr (Some key) \<Rightarrow> (case client_auth_accepts ops trust client_certs key of
                Inl e \<Rightarrow> Inl (''client auth setup failed: '' @ e)
              | Inr _ \<Rightarrow> Inr \<lparr>hp_path = path,
                  hp_connector = \<lparr>tls_trust = trust, tls_client_auth = Some (client_certs, key)\<rparr>\<rparr>))))"

record ('c, 'k) https_socket =
  tso_connect :: "unit timed"
  tso_handshake :: "('c, 'k) tls_connector \<Rightarrow> ip_addr \<Rightarrow> unit timed"
  tso_write_all :: "u8 list \<Rightarrow> string + unit"
  tso_read :: "nat \<Rightarrow> u8 list timed"

definition https_check ::
  "('c, 'k) https_probe \<Rightarrow> backend \<Rightarrow> ('c, 'k) https_socket \<Rightarrow> probe_result" where
  "https_check p target so =
     (case tso_connect so of
        Finished (Inl e) \<Rightarrow> Failure (''connect failed: '' @ e)
      | Elapsed \<Rightarrow> Failure ''connect timed out''
      | Finished (Inr _) \<Rightarrow> (case tso_handshake so (hp_connector p) (be_ip target) of
          Finished (Inl e) \<Rightarrow> Failure (''TLS handshake failed: '' @ e)
        | Elapsed \<Rightarrow> Failure ''TLS handshake timed out''
        | Finished (Inr _) \<Rightarrow> (case tso_write_all so (str_bytes (http_request (hp_path p) (be_ip target))) of
            Inl e \<Rightarrow> Failure (''write failed: '' @ e)
          | Inr _ \<Rightarrow> (case tso_read so HTTP_BUF of
              Finished (Inr buf) \<Rightarrow> if 0 < length buf then check_response buf else Failure ''no response data''
            | Finished (Inl e) \<Rightarrow> Failure (''read error: '' @ e)
            | Elapsed \<Rightarrow> Failure ''read timed out''))))"

text \<open>
  A probe built for mutual TLS always presents a non-empty certificate chain and never skips the
  verification of the server.
\<close>

lemma mtls_roots_verifies: "mtls_roots ops pem = Inr trust \<Longrightarrow> trust \<noteq> NoVerifier \<and> trust \<noteq> Roots []"
  by (auto simp: mtls_roots_def split: if_splits sum.splits)

lemma https_with_mtls_authenticates:
  "https_with_mtls ops path roots cert key = Inr p \<Longrightarrow>
     tls_trust (hp_connector p) \<noteq> NoVerifier \<and> tls_trust (hp_connector p) \<noteq> Roots [] \<and>
     (\<exists>cs k. tls_client_auth (hp_connector p) = Some (cs, k) \<and> cs \<noteq> [])"
  using mtls_roots_verifies [of ops roots]
  by (auto simp: https_with_mtls_def split: sum.splits if_splits option.splits)

end
