(* ===== verification/Packet.thy ===== *)
theory Packet
  imports NetTypes
begin

text \<open>
  Parsing of raw packets (crate lb-types, packet.rs): the 5-tuple of an IPv4 or IPv6 packet,
  the 3-tuple that identifies the fragments of a datagram, the fragment tests, and the two
  hashes that steer flows. Every read of the buffer is checked (\<^const>\<open>byte_at\<close>), so a read
  past the end would make the parser return \<^const>\<open>None\<close>, a panic. The hash function xxh3 is
  third-party code: it is the parameter \<open>xxh3_64\<close> of the two hashes.
\<close>

subsection \<open>Flow protocol, TCP flow state, TCP flags\<close>

datatype flow_proto = FTcp | FUdp | FOther

fun flow_proto_from :: "protocol \<Rightarrow> flow_proto" where
  "flow_proto_from Tcp = FTcp"
| "flow_proto_from Udp = FUdp"

datatype tcp_flow_state = NotTcp | Handshake | Established | Closing

datatype tcp_flags = TcpFlags (flag_byte: u8)

definition flag_fin :: "tcp_flags \<Rightarrow> bool" where
  "flag_fin f \<longleftrightarrow> flag_byte f AND 0x01 \<noteq> 0"

definition flag_syn :: "tcp_flags \<Rightarrow> bool" where
  "flag_syn f \<longleftrightarrow> flag_byte f AND 0x02 \<noteq> 0"

definition flag_rst :: "tcp_flags \<Rightarrow> bool" where
  "flag_rst f \<longleftrightarrow> flag_byte f AND 0x04 \<noteq> 0"

definition flag_ack :: "tcp_flags \<Rightarrow> bool" where
  "flag_ack f \<longleftrightarrow> flag_byte f AND 0x10 \<noteq> 0"

record packet_meta =
  src_ip :: ip_addr
  dst_ip :: ip_addr
  src_port :: u16
  dst_port :: u16
  proto :: protocol
  meta_flags :: "tcp_flags option"

subsection \<open>Reading fields\<close>

definition be16_at :: "u8 list \<Rightarrow> nat \<Rightarrow> u16 panics" where
  "be16_at d i = do { h \<leftarrow> byte_at d i; l \<leftarrow> byte_at d (i + 1); Some (from_be16 h l) }"

definition ipv4_at :: "u8 list \<Rightarrow> nat \<Rightarrow> ipv4_addr panics" where
  "ipv4_at d i = do {
     a \<leftarrow> byte_at d i; b \<leftarrow> byte_at d (i + 1); c \<leftarrow> byte_at d (i + 2); e \<leftarrow> byte_at d (i + 3);
     Some (Ipv4 a b c e) }"

definition ipv6_at :: "u8 list \<Rightarrow> nat \<Rightarrow> ipv6_addr panics" where
  "ipv6_at d i = do {
     a \<leftarrow> be16_at d i; b \<leftarrow> be16_at d (i + 2); c \<leftarrow> be16_at d (i + 4); e \<leftarrow> be16_at d (i + 6);
     f \<leftarrow> be16_at d (i + 8); g \<leftarrow> be16_at d (i + 10); h \<leftarrow> be16_at d (i + 12); k \<leftarrow> be16_at d (i + 14);
     Some (Ipv6 a b c e f g h k) }"

lemma be16_at_Some [simp]:
  "i + 1 < length d \<Longrightarrow> be16_at d i = Some (from_be16 (d ! i) (d ! (i + 1)))"
  by (simp add: be16_at_def)

lemma ipv4_at_Some [simp]:
  "i + 3 < length d \<Longrightarrow>
   ipv4_at d i = Some (Ipv4 (d ! i) (d ! (i + 1)) (d ! (i + 2)) (d ! (i + 3)))"
  by (simp add: ipv4_at_def)

lemma ipv6_at_Some: "i + 15 < length d \<Longrightarrow> \<exists>a. ipv6_at d i = Some a"
  by (simp add: ipv6_at_def)

subsection \<open>Parsing the 5-tuple\<close>

definition from_ipv4_bytes :: "u8 list \<Rightarrow> packet_meta option panics" where
  "from_ipv4_bytes data =
     (if length data < 24 then Some None
      else do {
        b0 \<leftarrow> byte_at data 0;
        if drop_bit 4 b0 \<noteq> 4 then Some None
        else let ihl = unat (b0 AND 0x0F) * 4 in
          if length data < ihl + 4 then Some None
          else do {
            protocol_byte \<leftarrow> byte_at data 9;
            case protocol_from_ip_proto protocol_byte of
              None \<Rightarrow> Some None
            | Some protocol \<Rightarrow> do {
                src \<leftarrow> ipv4_at data 12;
                dst \<leftarrow> ipv4_at data 16;
                sport \<leftarrow> be16_at data ihl;
                dport \<leftarrow> be16_at data (ihl + 2);
                flags \<leftarrow> (if protocol = Tcp \<and> ihl + 14 \<le> length data
                         then do { fl \<leftarrow> byte_at data (ihl + 13); Some (Some (TcpFlags fl)) }
                         else Some None);
                Some (Some \<lparr>src_ip = V4 src, dst_ip = V4 dst, src_port = sport,
                            dst_port = dport, proto = protocol, meta_flags = flags\<rparr>) } } })"

definition from_ipv6_bytes :: "u8 list \<Rightarrow> packet_meta option panics" where
  "from_ipv6_bytes data =
     (if length data < 44 then Some None
      else do {
        b0 \<leftarrow> byte_at data 0;
        if drop_bit 4 b0 \<noteq> 6 then Some None
        else do {
          next_header \<leftarrow> byte_at data 6;
          case protocol_from_ip_proto next_header of
            None \<Rightarrow> Some None
          | Some protocol \<Rightarrow> do {
              src \<leftarrow> ipv6_at data 8;
              dst \<leftarrow> ipv6_at data 24;
              sport \<leftarrow> be16_at data 40;
              dport \<leftarrow> be16_at data 42;
              flags \<leftarrow> (if protocol = Tcp \<and> 54 \<le> length data
                       then do { fl \<leftarrow> byte_at data 53; Some (Some (TcpFlags fl)) }
                       else Some None);
              Some (Some \<lparr>src_ip = V6 src, dst_ip = V6 dst, src_port = sport,
                          dst_port = dport, proto = protocol, meta_flags = flags\<rparr>) } } })"

definition from_ip_bytes :: "u8 list \<Rightarrow> packet_meta option panics" where
  "from_ip_bytes data =
     (if data = [] then Some None
      else do {
        b0 \<leftarrow> byte_at data 0;
        if drop_bit 4 b0 = 4 then from_ipv4_bytes data
        else if drop_bit 4 b0 = 6 then from_ipv6_bytes data
        else Some None })"

subsection \<open>Hashes\<close>

definition addr_field :: "ip_addr \<Rightarrow> u8 list" where
  "addr_field a = (case a of V4 v4 \<Rightarrow> octets4 v4 @ replicate 12 0 | V6 v6 \<Rightarrow> octets6 v6)"

definition flow_key :: "packet_meta \<Rightarrow> u8 list" where
  "flow_key m = addr_field (src_ip m) @ addr_field (dst_ip m) @
                to_be16 (src_port m) @ to_be16 (dst_port m) @ [protocol_num (proto m)]"

definition flow_hash :: "(u8 list \<Rightarrow> u64) \<Rightarrow> packet_meta \<Rightarrow> u64" where
  "flow_hash xxh3_64 m = xxh3_64 (flow_key m)"

subsection \<open>Fragments\<close>

record fragment_id =
  frag_src :: ip_addr
  frag_dst :: ip_addr
  frag_ip_id :: u16

definition fragment_id_from_ipv4_bytes :: "u8 list \<Rightarrow> fragment_id option panics" where
  "fragment_id_from_ipv4_bytes data =
     (if length data < 20 then Some None
      else do {
        b0 \<leftarrow> byte_at data 0;
        if drop_bit 4 b0 \<noteq> 4 then Some None
        else do {
          ip_id \<leftarrow> be16_at data 4;
          src \<leftarrow> ipv4_at data 12;
          dst \<leftarrow> ipv4_at data 16;
          Some (Some \<lparr>frag_src = V4 src, frag_dst = V4 dst, frag_ip_id = ip_id\<rparr>) } })"

definition fragment_key :: "fragment_id \<Rightarrow> u8 list" where
  "fragment_key f = addr_field (frag_src f) @ addr_field (frag_dst f) @ to_be16 (frag_ip_id f)"

definition fragment_hash :: "(u8 list \<Rightarrow> u64) \<Rightarrow> fragment_id \<Rightarrow> u64" where
  "fragment_hash xxh3_64 f = xxh3_64 (fragment_key f)"

definition is_fragment :: "u8 list \<Rightarrow> bool panics" where
  "is_fragment data =
     (if length data < 20 then Some False
      else do {
        w \<leftarrow> be16_at data 6;
        Some (w AND 0x2000 \<noteq> 0 \<or> w AND 0x1FFF \<noteq> 0) })"

definition is_non_first_fragment :: "u8 list \<Rightarrow> bool panics" where
  "is_non_first_fragment data =
     (if length data < 20 then Some False
      else do { w \<leftarrow> be16_at data 6; Some (w AND 0x1FFF \<noteq> 0) })"

subsection \<open>The parsers never panic\<close>

lemma long_nonempty: "n \<le> length data \<Longrightarrow> 0 < n \<Longrightarrow> data \<noteq> []"
  by auto

lemma from_ipv4_bytes_no_panic [no_panic]: "from_ipv4_bytes data \<noteq> None"
proof (cases "length data < 24")
  case False
  then have "24 \<le> length data" "data \<noteq> []" by auto
  then show ?thesis
    by (auto simp: from_ipv4_bytes_def Let_def split: option.splits)
qed (simp add: from_ipv4_bytes_def)

lemma from_ipv6_bytes_no_panic [no_panic]: "from_ipv6_bytes data \<noteq> None"
proof (cases "length data < 44")
  case False
  then obtain s d where "ipv6_at data 8 = Some s" "ipv6_at data 24 = Some d"
    using ipv6_at_Some [of 8 data] ipv6_at_Some [of 24 data] by auto
  moreover from False have "44 \<le> length data" "data \<noteq> []" by auto
  ultimately show ?thesis
    by (auto simp: from_ipv6_bytes_def split: option.splits)
qed (simp add: from_ipv6_bytes_def)

lemma fragment_id_no_panic [no_panic]: "fragment_id_from_ipv4_bytes data \<noteq> None"
proof (cases "length data < 20")
  case False
  then have "20 \<le> length data" "data \<noteq> []" by auto
  then show ?thesis by (auto simp: fragment_id_from_ipv4_bytes_def)
qed (simp add: fragment_id_from_ipv4_bytes_def)

lemma is_fragment_no_panic [no_panic]: "is_fragment data \<noteq> None"
  by (auto simp: is_fragment_def)

lemma is_non_first_fragment_no_panic [no_panic]: "is_non_first_fragment data \<noteq> None"
  by (auto simp: is_non_first_fragment_def)

lemma from_ip_bytes_no_panic [no_panic]: "from_ip_bytes data \<noteq> None"
  by (cases data) (simp_all add: from_ip_bytes_def no_panic del: not_None_eq)

text \<open>
  No input makes a packet parser panic: every index they read is inside the buffer,
  whatever the length and the header fields of the packet say.
\<close>

theorem packet_parsers_never_panic:
  "from_ip_bytes data \<noteq> None \<and> from_ipv4_bytes data \<noteq> None \<and> from_ipv6_bytes data \<noteq> None \<and>
   fragment_id_from_ipv4_bytes data \<noteq> None \<and> is_fragment data \<noteq> None \<and>
   is_non_first_fragment data \<noteq> None"
  using no_panic by blast

subsection \<open>What the IPv4 parser returns\<close>

lemma version_eq: "drop_bit 4 b = (n :: u8) \<longleftrightarrow> unat b div 16 = unat n"
  by (simp only: word_unat_eq_iff unat_drop_4)

lemma first_byte:
  assumes "k \<le> 10"
  shows "drop_bit 4 (word_of_nat (69 + k) :: u8) = 4"
    and "unat (word_of_nat (69 + k) AND (0x0F :: u8)) = 5 + k"
proof -
  have u: "unat (word_of_nat (69 + k) :: u8) = 69 + k"
    using assms by (intro unat_of_nat_u8) simp
  show "drop_bit 4 (word_of_nat (69 + k) :: u8) = 4"
    unfolding version_eq u using assms by simp
  have "(69 + k) mod 16 = 5 + k" using assms by (simp add: mod_if)
  then show "unat (word_of_nat (69 + k) AND (0x0F :: u8)) = 5 + k"
    unfolding unat_and_15 u .
qed

text \<open>
  A wire-format IPv4 packet with \<open>4 * k\<close> bytes of options: the reference the parser is
  compared with. \<open>mid\<close> are header bytes 1 to 8, \<open>cks\<close> the header checksum.
\<close>

definition ipv4_packet ::
  "nat \<Rightarrow> u8 list \<Rightarrow> protocol \<Rightarrow> u8 list \<Rightarrow> ipv4_addr \<Rightarrow> ipv4_addr \<Rightarrow> u8 list \<Rightarrow>
   u16 \<Rightarrow> u16 \<Rightarrow> u8 list \<Rightarrow> u8 list" where
  "ipv4_packet k mid p cks src dst opts sport dport rest =
     (word_of_nat (69 + k) # mid) @ (protocol_num p # cks) @ (octets4 src @ octets4 dst) @
     opts @ to_be16 sport @ to_be16 dport @ rest"

lemma ipv4_packet_fields:
  assumes "length mid = 8" and "length cks = 2" and "length opts = 4 * k"
    and d_def: "d = ipv4_packet k mid p cks src dst opts sport dport rest"
  shows "length d = 24 + 4 * k + length rest"
    and "d ! 0 = word_of_nat (69 + k)" and "d ! 9 = protocol_num p"
    and "Ipv4 (d ! 12) (d ! 13) (d ! 14) (d ! 15) = src"
    and "Ipv4 (d ! 16) (d ! 17) (d ! 18) (d ! 19) = dst"
    and "from_be16 (d ! (20 + 4 * k)) (d ! (21 + 4 * k)) = sport"
    and "from_be16 (d ! (22 + 4 * k)) (d ! (23 + 4 * k)) = dport"
    and "i < length rest \<Longrightarrow> d ! (24 + 4 * k + i) = rest ! i"
  using assms(1-3) unfolding d_def ipv4_packet_def
  by (cases src; cases dst; simp add: nth_append nth_Cons' to_be16_def)+

text \<open>
  C17. The IPv4 parser inverts the wire format: from a packet with up to 40 bytes of options
  it recovers addresses, ports and protocol, and the TCP flags exactly when 14 bytes of the
  TCP header are present.
\<close>

theorem from_ipv4_bytes_roundtrip:
  assumes "length mid = 8" and "length cks = 2" and "length opts = 4 * k" and "k \<le> 10"
  shows "from_ipv4_bytes (ipv4_packet k mid p cks src dst opts sport dport rest) =
     Some (Some \<lparr>src_ip = V4 src, dst_ip = V4 dst, src_port = sport, dst_port = dport, proto = p,
       meta_flags = (if p = Tcp \<and> 10 \<le> length rest then Some (TcpFlags (rest ! 9)) else None)\<rparr>)"
proof -
  define d where "d = ipv4_packet k mid p cks src dst opts sport dport rest"
  define h where "h = 20 + 4 * k"
  note f = ipv4_packet_fields [OF assms(1-3) d_def]
  have ports: "from_be16 (d ! h) (d ! (h + 1)) = sport" "from_be16 (d ! (h + 2)) (d ! (h + 3)) = dport"
    using f(6,7) by (simp_all add: h_def)
  have len: "length d = h + 4 + length rest" "20 \<le> h" and ihl: "(5 + k) * 4 = h"
    using f(1) by (simp_all add: h_def)
  have fl: "10 \<le> length rest \<Longrightarrow> d ! (h + 13) = rest ! 9"
    using f(8) [of 9] by (simp add: h_def)
  have "d \<noteq> []" "\<not> length d < 24" using len by auto
  then show ?thesis
    using f(2-5) ports len fl first_byte [OF assms(4)] ihl
    unfolding d_def [symmetric] by (auto simp: from_ipv4_bytes_def Let_def)
qed

theorem from_ipv4_bytes_roundtrip_witness:
  "from_ipv4_bytes (ipv4_packet 1 (replicate 8 0) Tcp [0, 0] (Ipv4 10 0 0 1) (Ipv4 10 0 0 2)
     [1, 1, 1, 1] 12345 443 (replicate 16 2)) =
   Some (Some \<lparr>src_ip = V4 (Ipv4 10 0 0 1), dst_ip = V4 (Ipv4 10 0 0 2), src_port = 12345,
     dst_port = 443, proto = Tcp, meta_flags = Some (TcpFlags 2)\<rparr>)"
  by (subst from_ipv4_bytes_roundtrip) simp_all

subsection \<open>The hashed keys\<close>

lemma length_addr_field [simp, len_simps]: "length (addr_field a) = 16"
  by (cases a) (simp_all add: addr_field_def)

lemma length_flow_key [len_simps]: "length (flow_key m) = 37"
  by (simp add: flow_key_def)

lemma length_fragment_key [len_simps]: "length (fragment_key f) = 34"
  by (simp add: fragment_key_def)

lemma to_be16_inject [simp]: "to_be16 a = to_be16 b \<longleftrightarrow> a = b"
  by (metis from_be16_to_be list.inject to_be16_def)

lemma protocol_num_inject [simp]: "protocol_num p = protocol_num q \<longleftrightarrow> p = q"
  by (cases p; cases q) simp_all

lemma addr_field_inject4 [simp]: "addr_field (V4 a) = addr_field (V4 b) \<longleftrightarrow> a = b"
  by (simp add: addr_field_def)

text \<open>
  Between IPv4 flows the buffer that is hashed determines the 5-tuple, and only the
  5-tuple (the TCP flags do not enter it): a collision of flow hashes is one of xxh3.
\<close>

theorem flow_key_inject4:
  assumes "src_ip m = V4 s" "dst_ip m = V4 d" "src_ip m' = V4 s'" "dst_ip m' = V4 d'"
  shows "flow_key m = flow_key m' \<longleftrightarrow>
     s = s' \<and> d = d' \<and> src_port m = src_port m' \<and> dst_port m = dst_port m' \<and> proto m = proto m'"
  using assms by (auto simp: flow_key_def)

theorem flow_key_inject4_witness:
  "flow_key \<lparr>src_ip = V4 (Ipv4 10 0 0 1), dst_ip = V4 (Ipv4 10 0 0 2), src_port = 1, dst_port = 2,
             proto = Tcp, meta_flags = None\<rparr> \<noteq>
   flow_key \<lparr>src_ip = V4 (Ipv4 10 0 0 1), dst_ip = V4 (Ipv4 10 0 0 2), src_port = 1, dst_port = 2,
             proto = Udp, meta_flags = None\<rparr>"
  by (subst flow_key_inject4) auto

end
