(* ===== verification/PacketIo.thy ===== *)
theory PacketIo
  imports Packet
begin

text \<open>
  Packet buffers and packet I/O (crate lb-io, lib.rs and mock.rs).

  \<^item> \<open>packet_buf\<close> is \<^verbatim>\<open>PacketBuf\<close>: a buffer of 2048 bytes and the length of its valid prefix;
    \<open>packet_buf_ok\<close> is the invariant the type's constructors establish.
  \<^item> The locale \<open>packet_io\<close> is the trait \<^verbatim>\<open>PacketIo\<close> with the laws the forwarder relies on. It is
    interpreted on the two in-memory backends, \<^verbatim>\<open>MockIo\<close> and \<^verbatim>\<open>MockIoLockFree\<close>.
  \<^item> crossbeam's \<^verbatim>\<open>ArrayQueue\<close> is third-party code: a record of its operations is a parameter of
    the code that uses it, and the locale \<open>array_queue\<close> states its documented contract, a bounded
    FIFO queue whose \<^verbatim>\<open>push\<close> fails only when the queue is full.
  A mutex and the state behind it are the state; every operation takes it and returns it.
\<close>

subsection \<open>PacketBuf\<close>

definition PACKET_BUF_SIZE :: nat where "PACKET_BUF_SIZE = 2048"

record packet_buf =
  pkt_data :: "u8 list"
  pkt_len :: nat

definition packet_buf_ok :: "packet_buf \<Rightarrow> bool" where
  "packet_buf_ok p \<longleftrightarrow> length (pkt_data p) = PACKET_BUF_SIZE \<and> pkt_len p \<le> PACKET_BUF_SIZE"

definition packet_buf_new :: packet_buf where
  "packet_buf_new = \<lparr>pkt_data = replicate PACKET_BUF_SIZE 0, pkt_len = 0\<rparr>"

definition from_slice :: "u8 list \<Rightarrow> packet_buf" where
  "from_slice src =
     (let copy_len = min (length src) PACKET_BUF_SIZE
      in \<lparr>pkt_data = take copy_len src @ drop copy_len (pkt_data packet_buf_new),
          pkt_len = copy_len\<rparr>)"

definition as_slice :: "packet_buf \<Rightarrow> u8 list panics" where
  "as_slice p = (if pkt_len p \<le> length (pkt_data p) then Some (take (pkt_len p) (pkt_data p)) else None)"

text \<open>
  \<^verbatim>\<open>as_mut_slice\<close> lends the valid prefix to a function that may change it: the prefix is
  replaced by what the function leaves there.
\<close>

definition as_mut_slice :: "packet_buf \<Rightarrow> (u8 list \<Rightarrow> ('r \<times> u8 list) panics) \<Rightarrow> ('r \<times> packet_buf) panics" where
  "as_mut_slice p f = do {
     valid \<leftarrow> as_slice p;
     (r, valid') \<leftarrow> f valid;
     Some (r, p\<lparr>pkt_data := valid' @ drop (pkt_len p) (pkt_data p)\<rparr>) }"

definition valid_bytes :: "packet_buf \<Rightarrow> u8 list" where
  "valid_bytes p = take (pkt_len p) (pkt_data p)"

lemma packet_buf_new_ok [simp]: "packet_buf_ok packet_buf_new"
  by (simp add: packet_buf_ok_def packet_buf_new_def)

lemma from_slice_ok [simp]: "packet_buf_ok (from_slice s)"
  by (simp add: packet_buf_ok_def from_slice_def Let_def packet_buf_new_def)

lemma as_slice_Some [simp]: "packet_buf_ok p \<Longrightarrow> as_slice p = Some (valid_bytes p)"
  by (simp add: as_slice_def packet_buf_ok_def valid_bytes_def)

lemma valid_bytes_from_slice [simp]: "valid_bytes (from_slice s) = take PACKET_BUF_SIZE s"
  by (cases "length s \<le> PACKET_BUF_SIZE")
    (simp_all add: valid_bytes_def from_slice_def Let_def packet_buf_new_def)

lemma length_valid_bytes: "packet_buf_ok p \<Longrightarrow> length (valid_bytes p) = pkt_len p"
  by (simp add: valid_bytes_def packet_buf_ok_def)

subsection \<open>The trait PacketIo\<close>

type_synonym io_error = string

text \<open>
  \<open>pending\<close> is what the backend has received and not yet delivered, \<open>transmitted\<close> what it has
  put on the wire; \<open>ready io bufs\<close> says that it has room to send \<open>bufs\<close>. A receive fills a prefix
  of the buffers with the next packets, truncated to the buffer size; a send appends the
  non-empty packets in order.
\<close>

locale packet_io =
  fixes recv_batch :: "'io \<Rightarrow> packet_buf list \<Rightarrow> (io_error + nat) \<times> packet_buf list \<times> 'io"
    and send_batch :: "'io \<Rightarrow> packet_buf list \<Rightarrow> ((io_error + nat) \<times> 'io) panics"
    and pending :: "'io \<Rightarrow> u8 list list"
    and transmitted :: "'io \<Rightarrow> u8 list list"
    and ready :: "'io \<Rightarrow> packet_buf list \<Rightarrow> bool"
    and invar :: "'io \<Rightarrow> bool"
  assumes recv_bufs: "invar io \<Longrightarrow> list_all packet_buf_ok bufs \<Longrightarrow>
      recv_batch io bufs = (r, bufs', io') \<Longrightarrow>
      invar io' \<and> length bufs' = length bufs \<and> list_all packet_buf_ok bufs' \<and>
      transmitted io' = transmitted io"
    and recv_Ok: "invar io \<Longrightarrow> list_all packet_buf_ok bufs \<Longrightarrow> recv_batch io bufs = (Inr n, bufs', io') \<Longrightarrow>
      n = min (length bufs) (length (pending io)) \<and>
      map valid_bytes (take n bufs') = map (take PACKET_BUF_SIZE) (take n (pending io)) \<and>
      pending io' = drop n (pending io)"
    and send_Ok: "invar io \<Longrightarrow> list_all packet_buf_ok bufs \<Longrightarrow> ready io bufs \<Longrightarrow>
      \<exists>n io'. send_batch io bufs = Some (Inr n, io') \<and> invar io' \<and> pending io' = pending io \<and>
        transmitted io' = transmitted io @ map valid_bytes (filter (\<lambda>p. 0 < pkt_len p) bufs)"

subsection \<open>MockIo\<close>

record mock_io =
  mock_rx :: "u8 list list"
  mock_tx :: "u8 list list"

definition mock_io_new :: mock_io where
  "mock_io_new = \<lparr>mock_rx = [], mock_tx = []\<rparr>"

definition inject_packet :: "mock_io \<Rightarrow> u8 list \<Rightarrow> mock_io" where
  "inject_packet m data = m\<lparr>mock_rx := mock_rx m @ [data]\<rparr>"

definition read_transmitted :: "mock_io \<Rightarrow> u8 list option \<times> mock_io" where
  "read_transmitted m = (case mock_tx m of [] \<Rightarrow> (None, m) | d # ds \<Rightarrow> (Some d, m\<lparr>mock_tx := ds\<rparr>))"

definition tx_count :: "mock_io \<Rightarrow> nat" where
  "tx_count m = length (mock_tx m)"

definition rx_count :: "mock_io \<Rightarrow> nat" where
  "rx_count m = length (mock_rx m)"

fun mock_recv_loop :: "packet_buf list \<Rightarrow> u8 list list \<Rightarrow> nat \<times> packet_buf list \<times> u8 list list" where
  "mock_recv_loop [] rx = (0, [], rx)"
| "mock_recv_loop (slot # slots) [] = (0, slot # slots, [])"
| "mock_recv_loop (slot # slots) (d # ds) =
     (let (n, bufs, rx) = mock_recv_loop slots ds in (Suc n, from_slice d # bufs, rx))"

definition mock_recv_batch ::
  "mock_io \<Rightarrow> packet_buf list \<Rightarrow> (io_error + nat) \<times> packet_buf list \<times> mock_io" where
  "mock_recv_batch m bufs =
     (let (n, bufs', rx) = mock_recv_loop bufs (mock_rx m) in (Inr n, bufs', m\<lparr>mock_rx := rx\<rparr>))"

fun mock_send_loop :: "u8 list list \<Rightarrow> packet_buf list \<Rightarrow> u8 list list panics" where
  "mock_send_loop tx [] = Some tx"
| "mock_send_loop tx (p # ps) =
     (if 0 < pkt_len p then do { s \<leftarrow> as_slice p; mock_send_loop (tx @ [s]) ps }
      else mock_send_loop tx ps)"

definition mock_send_batch :: "mock_io \<Rightarrow> packet_buf list \<Rightarrow> ((io_error + nat) \<times> mock_io) panics" where
  "mock_send_batch m bufs = do {
     tx \<leftarrow> mock_send_loop (mock_tx m) bufs;
     Some (Inr (length (filter (\<lambda>p. 0 < pkt_len p) bufs)), m\<lparr>mock_tx := tx\<rparr>) }"

lemma mock_recv_loop_spec:
  "mock_recv_loop bufs rx = (n, bufs', rx') \<Longrightarrow>
     n = min (length bufs) (length rx) \<and> bufs' = map from_slice (take n rx) @ drop n bufs \<and>
     rx' = drop n rx"
proof (induction bufs rx arbitrary: n bufs' rx' rule: mock_recv_loop.induct)
  case (3 slot slots d ds)
  then show ?case by (cases "mock_recv_loop slots ds") (auto simp: Let_def)
qed auto

lemma mock_send_loop_spec:
  "list_all packet_buf_ok bufs \<Longrightarrow>
   mock_send_loop tx bufs = Some (tx @ map valid_bytes (filter (\<lambda>p. 0 < pkt_len p) bufs))"
  by (induction tx bufs rule: mock_send_loop.induct) simp_all

interpretation mock: packet_io mock_recv_batch mock_send_batch mock_rx mock_tx
  "\<lambda>_ _. True" "\<lambda>_. True"
proof
  fix io io' :: mock_io and bufs bufs' and r :: "io_error + nat"
  assume ok: "list_all packet_buf_ok bufs" and "mock_recv_batch io bufs = (r, bufs', io')"
  then obtain n rx where "mock_recv_loop bufs (mock_rx io) = (n, bufs', rx)"
    and "io' = io\<lparr>mock_rx := rx\<rparr>"
    by (auto simp: mock_recv_batch_def split: prod.splits)
  with mock_recv_loop_spec [of bufs "mock_rx io"] ok
  show "True \<and> length bufs' = length bufs \<and> list_all packet_buf_ok bufs' \<and> mock_tx io' = mock_tx io"
    by (fastforce simp: list_all_iff dest: in_set_dropD)
next
  fix io io' :: mock_io and bufs bufs' n
  assume "mock_recv_batch io bufs = (Inr n, bufs', io')"
  then obtain rx where "mock_recv_loop bufs (mock_rx io) = (n, bufs', rx)" and "io' = io\<lparr>mock_rx := rx\<rparr>"
    by (auto simp: mock_recv_batch_def split: prod.splits)
  with mock_recv_loop_spec [of bufs "mock_rx io" n bufs' rx]
  show "n = min (length bufs) (length (mock_rx io)) \<and>
      map valid_bytes (take n bufs') = map (take PACKET_BUF_SIZE) (take n (mock_rx io)) \<and>
      mock_rx io' = drop n (mock_rx io)"
    by simp
next
  fix io :: mock_io and bufs
  assume "list_all packet_buf_ok bufs"
  then show "\<exists>n io'. mock_send_batch io bufs = Some (Inr n, io') \<and> True \<and> mock_rx io' = mock_rx io \<and>
      mock_tx io' = mock_tx io @ map valid_bytes (filter (\<lambda>p. 0 < pkt_len p) bufs)"
    by (simp add: mock_send_batch_def mock_send_loop_spec)
qed

subsection \<open>crossbeam's ArrayQueue, by its contract\<close>

record ('q, 'a) queue_ops =
  q_push :: "'q \<Rightarrow> 'a \<Rightarrow> 'q option"  \<comment> \<open>None is the error of a full queue\<close>
  q_pop :: "'q \<Rightarrow> ('a \<times> 'q) option"
  q_len :: "'q \<Rightarrow> nat"

locale array_queue =
  fixes ops :: "('q, 'a) queue_ops"
    and contents :: "'q \<Rightarrow> 'a list"
    and cap :: "'q \<Rightarrow> nat"
  assumes push_room: "length (contents q) < cap q \<Longrightarrow>
      \<exists>q'. q_push ops q x = Some q' \<and> contents q' = contents q @ [x] \<and> cap q' = cap q"
    and push_full: "cap q \<le> length (contents q) \<Longrightarrow> q_push ops q x = None"
    and pop_empty: "contents q = [] \<Longrightarrow> q_pop ops q = None"
    and pop_first: "contents q = x # xs \<Longrightarrow>
      \<exists>q'. q_pop ops q = Some (x, q') \<and> contents q' = xs \<and> cap q' = cap q"
    and len_contents: "q_len ops q = length (contents q)"
begin

lemma push_SomeD:
  "q_push ops q x = Some q' \<Longrightarrow>
   contents q' = contents q @ [x] \<and> cap q' = cap q \<and> length (contents q) < cap q"
  using push_room [of q x] push_full [of q x] by (cases "length (contents q) < cap q") auto

lemma push_NoneD: "q_push ops q x = None \<Longrightarrow> cap q \<le> length (contents q)"
  using push_room [of q x] by (cases "length (contents q) < cap q") auto

lemma pop_SomeD: "q_pop ops q = Some (x, q') \<Longrightarrow> contents q = x # contents q' \<and> cap q' = cap q"
  using pop_empty [of q] pop_first [of q] by (cases "contents q") fastforce+

lemma pop_NoneD: "q_pop ops q = None \<Longrightarrow> contents q = []"
  using pop_first [of q] by (cases "contents q") fastforce+

end


subsection \<open>MockIoLockFree\<close>

text \<open>
  Both rings are \<^verbatim>\<open>ArrayQueue<PacketBuf>\<close>s. A send counts every non-empty packet, whether or not
  the ring had room for it: the error of \<^verbatim>\<open>push\<close> is discarded.
\<close>

definition LOCKFREE_RING_SIZE :: nat where "LOCKFREE_RING_SIZE = 8192"

record 'q lockfree_io =
  lf_rx :: 'q
  lf_tx :: 'q
  lf_tx_count :: nat

definition lf_inject_packet ::
  "('q, packet_buf) queue_ops \<Rightarrow> 'q lockfree_io \<Rightarrow> u8 list \<Rightarrow> 'q lockfree_io" where
  "lf_inject_packet ops io data =
     (case q_push ops (lf_rx io) (from_slice data) of
        None \<Rightarrow> io | Some q \<Rightarrow> io\<lparr>lf_rx := q\<rparr>)"

definition lf_read_transmitted ::
  "('q, packet_buf) queue_ops \<Rightarrow> 'q lockfree_io \<Rightarrow> packet_buf option \<times> 'q lockfree_io" where
  "lf_read_transmitted ops io =
     (case q_pop ops (lf_tx io) of
        None \<Rightarrow> (None, io) | Some (p, q) \<Rightarrow> (Some p, io\<lparr>lf_tx := q\<rparr>))"

fun lf_recv_loop :: "('q, packet_buf) queue_ops \<Rightarrow> 'q \<Rightarrow> packet_buf list \<Rightarrow> nat \<times> packet_buf list \<times> 'q" where
  "lf_recv_loop ops q [] = (0, [], q)"
| "lf_recv_loop ops q (slot # slots) =
     (case q_pop ops q of
        None \<Rightarrow> (0, slot # slots, q)
      | Some (p, q') \<Rightarrow>
          (let (n, bufs, q'') = lf_recv_loop ops q' slots in (Suc n, p # bufs, q'')))"

definition lf_recv_batch ::
  "('q, packet_buf) queue_ops \<Rightarrow> 'q lockfree_io \<Rightarrow> packet_buf list \<Rightarrow>
   (io_error + nat) \<times> packet_buf list \<times> 'q lockfree_io" where
  "lf_recv_batch ops io bufs =
     (let (n, bufs', q) = lf_recv_loop ops (lf_rx io) bufs in (Inr n, bufs', io\<lparr>lf_rx := q\<rparr>))"

fun lf_send_loop :: "('q, packet_buf) queue_ops \<Rightarrow> 'q \<Rightarrow> packet_buf list \<Rightarrow> nat \<times> 'q" where
  "lf_send_loop ops q [] = (0, q)"
| "lf_send_loop ops q (p # ps) =
     (if 0 < pkt_len p
      then let q' = (case q_push ops q p of None \<Rightarrow> q | Some q'' \<Rightarrow> q'');
               (n, q3) = lf_send_loop ops q' ps
           in (Suc n, q3)
      else lf_send_loop ops q ps)"

definition lf_send_batch ::
  "('q, packet_buf) queue_ops \<Rightarrow> 'q lockfree_io \<Rightarrow> packet_buf list \<Rightarrow>
   ((io_error + nat) \<times> 'q lockfree_io) panics" where
  "lf_send_batch ops io bufs =
     (let (n, q) = lf_send_loop ops (lf_tx io) bufs
      in Some (Inr n, io\<lparr>lf_tx := q, lf_tx_count := lf_tx_count io + n\<rparr>))"

locale packet_ring = array_queue ops contents cap
  for ops :: "('q, packet_buf) queue_ops" and contents :: "'q \<Rightarrow> packet_buf list" and cap :: "'q \<Rightarrow> nat"
begin

lemma lf_recv_loop_spec:
  "lf_recv_loop ops q bufs = (n, bufs', q') \<Longrightarrow>
     n = min (length bufs) (length (contents q)) \<and> bufs' = take n (contents q) @ drop n bufs \<and>
     contents q' = drop n (contents q)"
proof (induction bufs arbitrary: q n bufs' q')
  case (Cons slot slots)
  show ?case
  proof (cases "q_pop ops q")
    case None
    with Cons.prems pop_NoneD [OF None] show ?thesis by auto
  next
    case (Some r)
    then obtain p q1 where r: "q_pop ops q = Some (p, q1)" by (cases r) auto
    obtain m bs q2 where rec: "lf_recv_loop ops q1 slots = (m, bs, q2)"
      by (metis prod_cases3)
    from Cons.prems r rec have "n = Suc m" "bufs' = p # bs" "q' = q2" by auto
    with Cons.IH [OF rec] pop_SomeD [OF r] show ?thesis by simp
  qed
qed auto

lemma lf_send_loop_spec:
  "length (contents q) + length (filter (\<lambda>p. 0 < pkt_len p) bufs) \<le> cap q \<Longrightarrow>
   lf_send_loop ops q bufs = (n, q') \<Longrightarrow>
   contents q' = contents q @ filter (\<lambda>p. 0 < pkt_len p) bufs"
proof (induction bufs arbitrary: q n q')
  case (Cons p ps)
  show ?case
  proof (cases "0 < pkt_len p")
    case True
    with Cons.prems(1) have "length (contents q) < cap q" by simp
    then obtain q1 where q1: "q_push ops q p = Some q1" "contents q1 = contents q @ [p]" "cap q1 = cap q"
      using push_room by blast
    obtain m q2 where rec: "lf_send_loop ops q1 ps = (m, q2)" by (cases "lf_send_loop ops q1 ps")
    with Cons.prems True q1 Cons.IH [of q1 m q2] show ?thesis by simp
  next
    case False
    with Cons.prems Cons.IH [of q n q'] show ?thesis by simp
  qed
qed simp

end

sublocale packet_ring \<subseteq> lockfree: packet_io "lf_recv_batch ops" "lf_send_batch ops"
  "\<lambda>io. map valid_bytes (contents (lf_rx io))" "\<lambda>io. map valid_bytes (contents (lf_tx io))"
  "\<lambda>io bufs. length (contents (lf_tx io)) + length (filter (\<lambda>p. 0 < pkt_len p) bufs) \<le> cap (lf_tx io)"
  "\<lambda>io. list_all packet_buf_ok (contents (lf_rx io)) \<and> list_all packet_buf_ok (contents (lf_tx io))"
proof
  fix io io' :: "'q lockfree_io" and bufs bufs' and r :: "io_error + nat"
  assume inv: "list_all packet_buf_ok (contents (lf_rx io)) \<and> list_all packet_buf_ok (contents (lf_tx io))"
    and ok: "list_all packet_buf_ok bufs" and "lf_recv_batch ops io bufs = (r, bufs', io')"
  then obtain n q where "lf_recv_loop ops (lf_rx io) bufs = (n, bufs', q)" and "io' = io\<lparr>lf_rx := q\<rparr>"
    by (auto simp: lf_recv_batch_def split: prod.splits)
  with lf_recv_loop_spec [of "lf_rx io" bufs n bufs' q] inv ok
  show "(list_all packet_buf_ok (contents (lf_rx io')) \<and> list_all packet_buf_ok (contents (lf_tx io'))) \<and>
     length bufs' = length bufs \<and> list_all packet_buf_ok bufs' \<and>
     map valid_bytes (contents (lf_tx io')) = map valid_bytes (contents (lf_tx io))"
    by (auto simp: list_all_iff dest: in_set_dropD in_set_takeD)
next
  fix io io' :: "'q lockfree_io" and bufs bufs' n
  assume inv: "list_all packet_buf_ok (contents (lf_rx io)) \<and> list_all packet_buf_ok (contents (lf_tx io))"
    and "lf_recv_batch ops io bufs = (Inr n, bufs', io')"
  then obtain q where "lf_recv_loop ops (lf_rx io) bufs = (n, bufs', q)" and "io' = io\<lparr>lf_rx := q\<rparr>"
    by (auto simp: lf_recv_batch_def split: prod.splits)
  moreover have "take PACKET_BUF_SIZE (valid_bytes p) = valid_bytes p" if "p \<in> set (contents (lf_rx io))" for p
    using that inv by (auto simp: list_all_iff packet_buf_ok_def valid_bytes_def)
  ultimately show "n = min (length bufs) (length (map valid_bytes (contents (lf_rx io)))) \<and>
     map valid_bytes (take n bufs') =
       map (take PACKET_BUF_SIZE) (take n (map valid_bytes (contents (lf_rx io)))) \<and>
     map valid_bytes (contents (lf_rx io')) = drop n (map valid_bytes (contents (lf_rx io)))"
    using lf_recv_loop_spec [of "lf_rx io" bufs n bufs' q]
    by (auto simp: take_map drop_map dest: in_set_takeD)
next
  fix io :: "'q lockfree_io" and bufs
  assume inv: "list_all packet_buf_ok (contents (lf_rx io)) \<and> list_all packet_buf_ok (contents (lf_tx io))"
    and ok: "list_all packet_buf_ok bufs"
    and room: "length (contents (lf_tx io)) + length (filter (\<lambda>p. 0 < pkt_len p) bufs) \<le> cap (lf_tx io)"
  obtain n q where l: "lf_send_loop ops (lf_tx io) bufs = (n, q)" by (cases "lf_send_loop ops (lf_tx io) bufs")
  from lf_send_loop_spec [OF room l] inv ok
  show "\<exists>n io'. lf_send_batch ops io bufs = Some (Inr n, io') \<and>
     (list_all packet_buf_ok (contents (lf_rx io')) \<and> list_all packet_buf_ok (contents (lf_tx io'))) \<and>
     map valid_bytes (contents (lf_rx io')) = map valid_bytes (contents (lf_rx io)) \<and>
     map valid_bytes (contents (lf_tx io')) =
       map valid_bytes (contents (lf_tx io)) @ map valid_bytes (filter (\<lambda>p. 0 < pkt_len p) bufs)"
    by (auto simp: lf_send_batch_def l list_all_iff)
qed

subsection \<open>A queue that meets the contract\<close>

text \<open>
  A list with a bound satisfies the contract of \<^verbatim>\<open>ArrayQueue\<close>: the laws are consistent, and
  properties that assume them have concrete instances.
\<close>

definition list_ring_ops :: "nat \<Rightarrow> ('a list, 'a) queue_ops" where
  "list_ring_ops n = \<lparr>
     q_push = (\<lambda>q x. if length q < n then Some (q @ [x]) else None),
     q_pop = (\<lambda>q. case q of [] \<Rightarrow> None | x # xs \<Rightarrow> Some (x, xs)),
     q_len = length\<rparr>"

interpretation list_ring: array_queue "list_ring_ops n" "\<lambda>q. q" "\<lambda>_. n" for n
  by unfold_locales (auto simp: list_ring_ops_def)

interpretation packet_list_ring: packet_ring "list_ring_ops n" "\<lambda>q. q" "\<lambda>_. n" for n ..

end
