(* ===== verification/Checksum.thy ===== *)
theory Checksum
  imports Prelude
begin

text \<open>
  The ones' complement checksum of the Internet protocols, as gre.rs and icmp.rs (crate
  lb-forwarder) compute it: a 32-bit sum of the big-endian 16-bit words, an odd last byte
  taken as a high byte, carries folded until the sum fits 16 bits, and the complement of that.
  \<open>word_sum\<close> is the sum as a number, the specification the code is compared with: a packet's
  checksum is valid when its \<open>word_sum\<close> is a multiple of 65535.
\<close>

subsection \<open>The code\<close>

fun add_words :: "u32 \<Rightarrow> u8 list \<Rightarrow> u32" where
  "add_words s (a # b # r) = add_words (s + ucast (from_be16 a b)) r"
| "add_words s [a] = s + push_bit 8 (ucast a)"
| "add_words s [] = s"

lemma u32_fold_unat:
  "unat ((s AND 0xFFFF) + drop_bit 16 s :: u32) = unat s mod 65536 + unat s div 65536"
proof -
  have "(s AND 0xFFFF :: u32) = take_bit 16 s"
    by (simp add: take_bit_eq_mask mask_numeral)
  then have m: "unat (s AND 0xFFFF :: u32) = unat s mod 65536"
    by (simp add: take_bit_eq_mod unat_mod)
  have d: "unat (drop_bit 16 s :: u32) = unat s div 65536"
    by (simp add: drop_bit_eq_div unat_div)
  have "unat s < 4294967296" using unsigned_less [of s, where 'a = nat] by simp
  then have "unat s div 65536 < 65536" by (simp add: less_mult_imp_div_less)
  then have "unat s mod 65536 + unat s div 65536 < 4294967296"
    using mod_less_divisor [of 65536 "unat s"] by linarith
  then show ?thesis by (simp add: unat_word_ariths m d)
qed

lemma fold_decreases:
  assumes "65535 < (n :: nat)"
  shows "n mod 65536 + n div 65536 < n"
proof -
  have "0 < n div 65536" using assms by (simp add: div_greater_zero_iff)
  moreover have "n = 65536 * (n div 65536) + n mod 65536" by simp
  ultimately show ?thesis by linarith
qed

function fold_carry :: "u32 \<Rightarrow> u32" where
  "fold_carry s = (if 0xFFFF < s then fold_carry ((s AND 0xFFFF) + drop_bit 16 s) else s)"
  by pat_completeness auto
termination
proof (relation "measure unat")
  fix s :: u32
  assume "0xFFFF < s"
  then have "65535 < unat s" by (simp add: word_less_nat_alt)
  then show "((s AND 0xFFFF) + drop_bit 16 s, s) \<in> measure unat"
    by (simp only: in_measure u32_fold_unat fold_decreases)
qed simp

declare fold_carry.simps [simp del]

definition ip_checksum :: "u8 list \<Rightarrow> u16 panics" where
  "ip_checksum header =
     (if header = [] then None else Some (NOT (ucast (fold_carry (add_words 0 header)))))"

subsection \<open>The sum as a number\<close>

fun word_sum :: "u8 list \<Rightarrow> nat" where
  "word_sum (a # b # r) = 256 * unat a + unat b + word_sum r"
| "word_sum [a] = 256 * unat a"
| "word_sum [] = 0"

definition byte_weight :: "nat \<Rightarrow> nat" where
  "byte_weight i = (if even i then 256 else 1)"

lemma byte_weight_simps [simp]:
  "byte_weight 0 = 256" "byte_weight (Suc 0) = 1" "byte_weight (Suc (Suc i)) = byte_weight i"
  by (simp_all add: byte_weight_def)

lemma word_sum_update:
  assumes "i < length xs"
  shows "word_sum (xs[i := v]) + byte_weight i * unat (xs ! i) =
         word_sum xs + byte_weight i * unat v"
  using assms
proof (induction xs arbitrary: i rule: word_sum.induct)
  case (1 a b r)
  show ?case
  proof (cases i)
    case 0
    then show ?thesis by simp
  next
    case (Suc j)
    with 1 show ?thesis by (cases j) auto
  qed
qed simp_all

lemma word_sum_append: "even (length xs) \<Longrightarrow> word_sum (xs @ ys) = word_sum xs + word_sum ys"
  by (induction xs rule: word_sum.induct) simp_all

lemma word_sum_le: "word_sum xs \<le> 65535 * ((length xs + 1) div 2)"
proof (induction xs rule: word_sum.induct)
  case (1 a b r)
  have "256 * unat a + unat b \<le> 65535"
    using unat_u8_le [of a] unat_u8_le [of b] by linarith
  with 1 show ?case by simp
next
  case (2 a)
  have "256 * unat a \<le> 65535" using unat_u8_le [of a] by linarith
  then show ?case by simp
qed simp

subsection \<open>The code computes the sum\<close>

lemma unat_ucast_u16: "unat (ucast (w :: u16) :: u32) = unat w"
proof -
  have "unat w < 2 ^ 32" using unat_u16_less [of w] by (rule less_trans) simp
  then show ?thesis by (simp add: unsigned_ucast_eq take_bit_nat_eq_self_iff)
qed

lemma unat_ucast_u8: "unat (ucast (b :: u8) :: u32) = unat b"
proof -
  have "unat b < 2 ^ 32" using unat_u8_less [of b] by (rule less_trans) simp
  then show ?thesis by (simp add: unsigned_ucast_eq take_bit_nat_eq_self_iff)
qed

lemma add_words_unat:
  "unat s + word_sum xs < 4294967296 \<Longrightarrow> unat (add_words s xs) = unat s + word_sum xs"
proof (induction s xs rule: add_words.induct)
  case (1 s a b r)
  have "unat (s + ucast (from_be16 a b)) = unat s + (256 * unat a + unat b)"
    using 1(2) by (simp add: unat_word_ariths unat_ucast_u16 unat_from_be16)
  with 1 show ?case by simp
next
  case (2 s a)
  have "unat a * 256 < 4294967296" using unat_u8_le [of a] by linarith
  then have "unat (push_bit 8 (ucast a :: u32)) = 256 * unat a"
    by (simp add: push_bit_eq_mult unat_word_ariths unat_ucast_u8)
  with 2 show ?case by (simp add: unat_word_ariths)
qed simp


lemma fold_mod: "(n mod 65536 + n div 65536) mod 65535 = n mod (65535 :: nat)"
proof -
  have "n = 65535 * (n div 65536) + (n mod 65536 + n div 65536)"
    using div_mult_mod_eq [of n 65536] by linarith
  then show ?thesis by (metis mod_mult_self4)
qed

lemma fold_carry_unat:
  "unat (fold_carry s) \<le> 65535 \<and> unat (fold_carry s) mod 65535 = unat s mod 65535 \<and>
   (unat (fold_carry s) = 0 \<longleftrightarrow> unat s = 0)"
proof (induction s rule: fold_carry.induct)
  case (1 s)
  show ?case
  proof (cases "0xFFFF < s")
    case True
    let ?t = "(s AND 0xFFFF) + drop_bit 16 s"
    have big: "65535 < unat s" using True by (simp add: word_less_nat_alt)
    then have "0 < unat s div 65536" by (simp add: div_greater_zero_iff)
    then have "unat ?t \<noteq> 0" unfolding u32_fold_unat by linarith
    moreover have "unat ?t mod 65535 = unat s mod 65535" unfolding u32_fold_unat by (rule fold_mod)
    moreover have "fold_carry s = fold_carry ?t" using True by (simp add: fold_carry.simps [of s])
    ultimately show ?thesis using 1 [OF True] big by simp
  next
    case False
    then have "unat s \<le> 65535" by (simp add: word_less_nat_alt not_less)
    with False show ?thesis by (simp add: fold_carry.simps [of s])
  qed
qed

lemma unat_not_u16: "unat (NOT w :: u16) = 65535 - unat w"
proof -
  have w: "uint w < 65536" "0 \<le> uint w" using uint_bounded [of w] by simp_all
  have "uint (NOT w) = (- uint w - 1) mod 65536"
    unfolding unsigned_not_eq by (simp add: take_bit_eq_mod not_eq_complement)
  also have "\<dots> = ((- uint w - 1) + 65536) mod 65536" by (rule mod_add_self2 [symmetric])
  also have "\<dots> = ((- uint w - 1) + 65536)"
    by (rule mod_pos_pos_trivial) (use w in linarith)+
  also have "\<dots> = 65535 - uint w" by simp
  finally have "int (unat (NOT w)) = 65535 - int (unat w)" by simp
  then show ?thesis by linarith
qed

definition folded_complement :: "u32 \<Rightarrow> u16" where
  "folded_complement s = NOT (ucast (fold_carry s))"

text \<open>
  The complement of the folded sum makes the total a multiple of 65535, and it is the
  all-ones word only for a zero sum.
\<close>

lemma folded_complement_sum:
  "(unat (folded_complement s) + unat s) mod 65535 = 0 \<and>
   (unat (folded_complement s) = 65535 \<longleftrightarrow> unat s = 0)"
proof -
  let ?f = "unat (fold_carry s)"
  have f: "?f \<le> 65535" "?f mod 65535 = unat s mod 65535" "?f = 0 \<longleftrightarrow> unat s = 0"
    using fold_carry_unat by blast+
  have "unat (ucast (fold_carry s) :: u16) = ?f"
    using f(1) by (simp add: unsigned_ucast_eq take_bit_nat_eq_self_iff)
  then have c: "unat (folded_complement s) = 65535 - ?f"
    by (simp add: folded_complement_def unat_not_u16)
  have "(65535 - ?f + unat s) mod 65535 = (65535 - ?f + ?f) mod 65535"
    using f(2) by (metis mod_add_right_eq)
  with f c show ?thesis by auto
qed

lemma ip_checksum_eq:
  "ip_checksum h = (if h = [] then None else Some (folded_complement (add_words 0 h)))"
  by (simp add: ip_checksum_def folded_complement_def)

lemma ip_checksum_Some:
  assumes "h \<noteq> []" and "length h \<le> 65536"
  obtains c where "ip_checksum h = Some c" and "(unat c + word_sum h) mod 65535 = 0"
    and "unat c = 65535 \<longleftrightarrow> word_sum h = 0"
proof -
  have "(length h + 1) div 2 \<le> 32768" using assms(2) by simp
  then have "word_sum h \<le> 65535 * 32768"
    using word_sum_le [of h] by (meson le_trans mult_le_mono2)
  then have "unat (add_words 0 h) = word_sum h"
    using add_words_unat [of 0 h] by simp
  with assms(1) folded_complement_sum [of "add_words 0 h"] that show ?thesis
    by (simp add: ip_checksum_eq)
qed

text \<open>
  What a receiver checks: a header whose words sum to a positive multiple of 65535 has
  checksum zero.
\<close>

lemma ip_checksum_valid:
  assumes "length h \<le> 65536" and "word_sum h mod 65535 = 0" and "0 < word_sum h"
  shows "ip_checksum h = Some 0"
proof -
  have "h \<noteq> []" using assms(3) by auto
  then obtain c where c: "ip_checksum h = Some c" "(unat c + word_sum h) mod 65535 = 0"
    "unat c = 65535 \<longleftrightarrow> word_sum h = 0"
    using assms(1) by (rule ip_checksum_Some)
  then have "unat c mod 65535 = 0" using assms(2) by (metis add.right_neutral mod_add_right_eq)
  moreover have "unat c \<noteq> 65535" using c(3) assms(3) by simp
  ultimately have "unat c = 0"
    using unat_u16_le [of c] by (metis le_neq_implies_less mod_less)
  with c(1) show ?thesis by (simp add: unat_eq_0)
qed

text \<open>Storing a 16-bit word at an even offset where the buffer held zeros adds its value.\<close>

lemma word_sum_store16:
  assumes "i + 1 < length xs" and "even i" and "xs ! i = 0" and "xs ! (i + 1) = 0"
  shows "word_sum (xs[i := hi_byte w, i + 1 := lo_byte w]) = word_sum xs + unat w"
proof -
  have "word_sum (xs[i := hi_byte w]) = word_sum xs + 256 * (unat w div 256)"
    using word_sum_update [of i xs "hi_byte w"] assms by (simp add: byte_weight_def unat_hi_byte)
  moreover have "word_sum ((xs[i := hi_byte w])[i + 1 := lo_byte w]) =
      word_sum (xs[i := hi_byte w]) + unat w mod 256"
    using word_sum_update [of "i + 1" "xs[i := hi_byte w]" "lo_byte w"] assms
    by (simp add: byte_weight_def unat_lo_byte)
  ultimately show ?thesis by simp
qed

text \<open>So a buffer with a zeroed checksum field becomes one its receiver accepts.\<close>

lemma stored_checksum_valid:
  assumes "ip_checksum h = Some c" and i: "i + 1 < length h" "even i" "h ! i = 0" "h ! (i + 1) = 0"
    and len: "length h \<le> 65536" and pos: "0 < word_sum h"
  shows "ip_checksum (take i h @ to_be16 c @ drop (i + 2) h) = Some 0"
proof -
  have "h \<noteq> []" using i by auto
  then obtain c' where "ip_checksum h = Some c'" "(unat c' + word_sum h) mod 65535 = 0"
    using len by (rule ip_checksum_Some)
  with assms(1) have sum: "(word_sum h + unat c) mod 65535 = 0" by (simp add: add.commute)
  have eq: "take i h @ to_be16 c @ drop (i + 2) h = h[i := hi_byte c, i + 1 := lo_byte c]"
    using i(1) by (intro nth_equalityI)
      (auto simp: nth_append nth_list_update to_be16_def nth_Cons intro!: arg_cong [of _ _ "(!) h"]
        split: nat.splits)
  have "word_sum (h[i := hi_byte c, i + 1 := lo_byte c]) = word_sum h + unat c"
    using i by (rule word_sum_store16)
  with sum pos len show ?thesis unfolding eq by (intro ip_checksum_valid) simp_all
qed

end
