(* ===== verification/Gre.thy ===== *)
theory Gre
  imports PacketIo Checksum
begin

text \<open>
  GRE encapsulation (crate lb-forwarder, gre.rs): the inner packet is shifted right by 24 bytes
  inside its buffer and an outer IPv4 header and a GRE header are written in front of it. The
  lemmas say what the buffer holds afterwards, that the outer header's checksum is the one a
  receiver accepts, and when the operation refuses. \<open>decapsulate\<close> is the reference inverse.
\<close>

definition GRE_HEADER_SIZE :: nat where "GRE_HEADER_SIZE = 4"
definition OUTER_IP_HEADER_SIZE :: nat where "OUTER_IP_HEADER_SIZE = 20"
definition ENCAP_OVERHEAD :: nat where "ENCAP_OVERHEAD = GRE_HEADER_SIZE + OUTER_IP_HEADER_SIZE"
definition GRE_PROTO_IPV4 :: u16 where "GRE_PROTO_IPV4 = 0x0800"
definition GRE_PROTO_IPV6 :: u16 where "GRE_PROTO_IPV6 = 0x86DD"

text \<open>
  The outer header as it is before its checksum is known; the code assigns each of its 20
  bytes.
\<close>

definition outer_header :: "u16 \<Rightarrow> ipv4_addr \<Rightarrow> ipv4_addr \<Rightarrow> u8 list" where
  "outer_header total_len src dst =
     [0x45, 0x00] @ to_be16 total_len @ [0, 0] @ [0x40, 0x00] @ [64, 47] @ [0, 0] @
     octets4 src @ octets4 dst"

definition encapsulate_ipv4_buf ::
  "u8 list \<Rightarrow> nat \<Rightarrow> ipv4_addr \<Rightarrow> ipv4_addr \<Rightarrow> (nat option \<times> u8 list) panics" where
  "encapsulate_ipv4_buf data inner_len src dst =
     (let new_len = inner_len + ENCAP_OVERHEAD in
      if length data < new_len then Some (None, data)
      else do {
        inner_proto \<leftarrow> (if 0 < inner_len
          then do { b \<leftarrow> byte_at data 0;
                    Some (if drop_bit 4 b = 6 then GRE_PROTO_IPV6 else GRE_PROTO_IPV4) }
          else Some GRE_PROTO_IPV4);
        data \<leftarrow> store_slice data ENCAP_OVERHEAD (take inner_len data);
        let total_len = word_of_nat new_len;
        data \<leftarrow> store_slice data 0 (outer_header total_len src dst);
        checksum \<leftarrow> ip_checksum (take OUTER_IP_HEADER_SIZE data);
        data \<leftarrow> store_slice data 10 (to_be16 checksum);
        data \<leftarrow> store_slice data OUTER_IP_HEADER_SIZE ([0, 0] @ to_be16 inner_proto);
        Some (Some new_len, data) })"

definition encapsulate_ipv4 ::
  "packet_buf \<Rightarrow> ipv4_addr \<Rightarrow> ipv4_addr \<Rightarrow> (bool \<times> packet_buf) panics" where
  "encapsulate_ipv4 pkt src dst = do {
     (r, data) \<leftarrow> encapsulate_ipv4_buf (pkt_data pkt) (pkt_len pkt) src dst;
     Some (case r of
       Some new_len \<Rightarrow> (True, pkt\<lparr>pkt_data := data, pkt_len := new_len\<rparr>)
     | None \<Rightarrow> (False, pkt\<lparr>pkt_data := data\<rparr>)) }"

subsection \<open>What the headers contain\<close>

definition inner_proto :: "u8 list \<Rightarrow> u16" where
  "inner_proto inner = (if inner \<noteq> [] \<and> drop_bit 4 (inner ! 0) = 6 then GRE_PROTO_IPV6 else GRE_PROTO_IPV4)"

definition checked_header :: "u16 \<Rightarrow> ipv4_addr \<Rightarrow> ipv4_addr \<Rightarrow> u16 \<Rightarrow> u8 list" where
  "checked_header total_len src dst cks =
     [0x45, 0x00] @ to_be16 total_len @ [0, 0] @ [0x40, 0x00] @ [64, 47] @ to_be16 cks @
     octets4 src @ octets4 dst"

lemma length_headers [simp, len_simps]:
  "length (outer_header t src dst) = 20" "length (checked_header t src dst c) = 20"
  by (simp_all add: outer_header_def checked_header_def)

lemma store_checksum:
  "take 10 (outer_header t src dst @ r) @ to_be16 c @ drop 12 (outer_header t src dst @ r) =
   checked_header t src dst c @ r"
  by (cases src; cases dst) (simp add: outer_header_def checked_header_def to_be16_def)

lemma word_sum_headers:
  "word_sum (checked_header t src dst c) = word_sum (outer_header t src dst) + unat c"
  "0 < word_sum (outer_header t src dst)"
proof -
  have "256 * (unat w div 256) + unat w mod 256 = unat w" for w :: u16 by simp
  then show "word_sum (checked_header t src dst c) = word_sum (outer_header t src dst) + unat c"
    by (cases src; cases dst)
      (simp add: outer_header_def checked_header_def to_be16_def unat_hi_byte unat_lo_byte)
  show "0 < word_sum (outer_header t src dst)"
    by (cases src; cases dst) (simp add: outer_header_def to_be16_def)
qed

text \<open>The checksum the code stores makes the header valid for its receiver.\<close>

lemma checked_header_valid:
  assumes "ip_checksum (outer_header t src dst) = Some c"
  shows "ip_checksum (checked_header t src dst c) = Some 0"
proof -
  have ne: "outer_header t src dst \<noteq> []" by (simp add: outer_header_def)
  obtain c' where "ip_checksum (outer_header t src dst) = Some c'"
    and "(unat c' + word_sum (outer_header t src dst)) mod 65535 = 0"
    by (rule ip_checksum_Some [OF ne]) simp_all
  with assms have "word_sum (checked_header t src dst c) mod 65535 = 0"
    by (simp add: word_sum_headers add.commute)
  moreover have "0 < word_sum (checked_header t src dst c)"
    using word_sum_headers [of t src dst] by simp
  ultimately show ?thesis by (intro ip_checksum_valid) simp_all
qed

subsection \<open>The encapsulated buffer\<close>

lemma encapsulate_ipv4_buf_full:
  "length data < inner_len + 24 \<Longrightarrow> encapsulate_ipv4_buf data inner_len src dst = Some (None, data)"
  by (simp add: encapsulate_ipv4_buf_def ENCAP_OVERHEAD_def GRE_HEADER_SIZE_def
      OUTER_IP_HEADER_SIZE_def)

lemma encapsulate_ipv4_buf_eq:
  assumes fit: "inner_len + 24 \<le> length data"
  obtains c where
    "encapsulate_ipv4_buf data inner_len src dst =
       Some (Some (inner_len + 24),
             checked_header (word_of_nat (inner_len + 24)) src dst c @
             ([0, 0] @ to_be16 (inner_proto (take inner_len data))) @
             take inner_len data @ drop (inner_len + 24) data)"
    and "ip_checksum (checked_header (word_of_nat (inner_len + 24)) src dst c) = Some 0"
proof -
  define t :: u16 where "t = word_of_nat (inner_len + 24)"
  then have t: "word_of_nat inner_len + 24 = t" by simp
  let ?inner = "take inner_len data"
  let ?rest = "?inner @ drop (inner_len + 24) data"
  have ne: "outer_header t src dst \<noteq> []" by (simp add: outer_header_def)
  obtain c where c: "ip_checksum (outer_header t src dst) = Some c"
    by (rule ip_checksum_Some [OF ne]) simp_all
  define p g where "p = take 20 data" and "g = take 4 (drop 20 data)"
  have len: "length p = 20" "length g = 4" using fit by (simp_all add: p_def g_def)
  have data: "take 24 data = p @ g"
    unfolding p_def g_def using take_add [of 20 4 data] by simp
  have proto: "(if 0 < inner_len
      then do { b \<leftarrow> byte_at data 0;
                Some (if drop_bit 4 b = 6 then GRE_PROTO_IPV6 else GRE_PROTO_IPV4) }
      else Some GRE_PROTO_IPV4) = Some (inner_proto ?inner)"
    using fit by (cases data) (auto simp: inner_proto_def take_Cons')
  have s1: "store_slice data 24 ?inner = Some (p @ g @ ?rest)"
    using fit by (simp add: store_slice_def data add.commute)
  have s2: "store_slice (p @ g @ ?rest) 0 (outer_header t src dst) =
      Some (outer_header t src dst @ g @ ?rest)"
    using len by (intro store_slice_front) simp
  have s3: "store_slice (outer_header t src dst @ g @ ?rest) 10 (to_be16 c) =
      Some (checked_header t src dst c @ g @ ?rest)"
    using store_checksum [of t src dst "g @ ?rest" c] by (simp add: store_slice_def)
  have s4: "store_slice (checked_header t src dst c @ g @ ?rest) 20 v =
      Some (checked_header t src dst c @ v @ ?rest)" if "length v = 4" for v
    using len that by (intro store_slice_middle) simp_all
  have "encapsulate_ipv4_buf data inner_len src dst =
      Some (Some (inner_len + 24),
            checked_header t src dst c @ ([0, 0] @ to_be16 (inner_proto ?inner)) @ ?rest)"
    using fit unfolding encapsulate_ipv4_buf_def proto
    by (simp add: ENCAP_OVERHEAD_def GRE_HEADER_SIZE_def OUTER_IP_HEADER_SIZE_def Let_def
        s1 s2 s3 s4 c t del: store_slice_Some)
  with checked_header_valid [OF c] that show ?thesis unfolding t_def by blast
qed

subsection \<open>Round trip\<close>

text \<open>
  The receiving end of the tunnel, as a reference: it accepts a frame whose outer header is a
  20-byte IPv4 header for GRE with the right total length and a valid checksum and whose GRE
  header has no flags, and returns tunnel source, destination, inner protocol and inner packet.
\<close>

definition decapsulate :: "u8 list \<Rightarrow> (ipv4_addr \<times> ipv4_addr \<times> u16 \<times> u8 list) option" where
  "decapsulate f =
     (if 24 \<le> length f \<and> f ! 0 = 0x45 \<and> f ! 9 = 47 \<and>
         unat (from_be16 (f ! 2) (f ! 3)) = length f \<and> ip_checksum (take 20 f) = Some 0 \<and>
         f ! 20 = 0 \<and> f ! 21 = 0
      then Some (Ipv4 (f ! 12) (f ! 13) (f ! 14) (f ! 15), Ipv4 (f ! 16) (f ! 17) (f ! 18) (f ! 19),
                 from_be16 (f ! 22) (f ! 23), drop 24 f)
      else None)"

lemma checked_header_fields:
  "checked_header t src dst c ! 0 = 0x45" "checked_header t src dst c ! 9 = 47"
  "from_be16 (checked_header t src dst c ! 2) (checked_header t src dst c ! 3) = t"
  "Ipv4 (checked_header t src dst c ! 12) (checked_header t src dst c ! 13)
        (checked_header t src dst c ! 14) (checked_header t src dst c ! 15) = src"
  "Ipv4 (checked_header t src dst c ! 16) (checked_header t src dst c ! 17)
        (checked_header t src dst c ! 18) (checked_header t src dst c ! 19) = dst"
  by (cases src; cases dst; simp add: checked_header_def to_be16_def)+

lemma decapsulate_frame:
  assumes "ip_checksum (checked_header t src dst c) = Some 0" and "unat t = length inner + 24"
  shows "decapsulate (checked_header t src dst c @ ([0, 0] @ to_be16 pr) @ inner) =
         Some (src, dst, pr, inner)"
  using assms checked_header_fields [of t src dst c]
  by (simp add: decapsulate_def nth_append to_be16_def)

lemma encapsulate_ipv4_refuses:
  assumes "packet_buf_ok pkt" and "PACKET_BUF_SIZE < pkt_len pkt + ENCAP_OVERHEAD"
  shows "encapsulate_ipv4 pkt src dst = Some (False, pkt)"
  using assms encapsulate_ipv4_buf_full [of "pkt_data pkt" "pkt_len pkt"]
  by (simp add: encapsulate_ipv4_def packet_buf_ok_def PACKET_BUF_SIZE_def ENCAP_OVERHEAD_def
      GRE_HEADER_SIZE_def OUTER_IP_HEADER_SIZE_def)

lemma encapsulate_ipv4_succeeds:
  assumes ok: "packet_buf_ok pkt" and fit: "pkt_len pkt + ENCAP_OVERHEAD \<le> PACKET_BUF_SIZE"
  obtains pkt' where "encapsulate_ipv4 pkt src dst = Some (True, pkt')" and "packet_buf_ok pkt'"
    and "pkt_len pkt' = pkt_len pkt + ENCAP_OVERHEAD"
    and "decapsulate (valid_bytes pkt') =
           Some (src, dst, inner_proto (valid_bytes pkt), valid_bytes pkt)"
proof -
  define n where "n = pkt_len pkt"
  have len: "length (pkt_data pkt) = 2048" "n + 24 \<le> 2048"
    using ok fit by (simp_all add: packet_buf_ok_def PACKET_BUF_SIZE_def ENCAP_OVERHEAD_def
        GRE_HEADER_SIZE_def OUTER_IP_HEADER_SIZE_def n_def)
  then have "n + 24 \<le> length (pkt_data pkt)" by simp
  then obtain c where
    e: "encapsulate_ipv4_buf (pkt_data pkt) n src dst =
       Some (Some (n + 24), checked_header (word_of_nat (n + 24)) src dst c @
             ([0, 0] @ to_be16 (inner_proto (take n (pkt_data pkt)))) @
             take n (pkt_data pkt) @ drop (n + 24) (pkt_data pkt))"
    and c: "ip_checksum (checked_header (word_of_nat (n + 24)) src dst c) = Some 0"
    by (rule encapsulate_ipv4_buf_eq [where src = src and dst = dst])
  define t :: u16 where "t = word_of_nat (n + 24)"
  define frame where "frame = checked_header t src dst c @
      ([0, 0] @ to_be16 (inner_proto (take n (pkt_data pkt)))) @ take n (pkt_data pkt)"
  define pkt' where
    "pkt' = pkt\<lparr>pkt_data := frame @ drop (n + 24) (pkt_data pkt), pkt_len := n + 24\<rparr>"
  have "unat t = n + 24" unfolding t_def using len by (intro unat_of_nat_u16) simp
  moreover have frame: "length frame = n + 24" using len by (simp add: frame_def)
  ultimately have "decapsulate frame =
      Some (src, dst, inner_proto (take n (pkt_data pkt)), take n (pkt_data pkt))"
    unfolding frame_def using c [folded t_def] len by (intro decapsulate_frame) simp_all
  moreover have "encapsulate_ipv4 pkt src dst = Some (True, pkt')"
    unfolding encapsulate_ipv4_def n_def [symmetric] e by (simp add: pkt'_def frame_def t_def)
  moreover have "packet_buf_ok pkt'"
    using frame len by (simp add: packet_buf_ok_def pkt'_def PACKET_BUF_SIZE_def)
  ultimately show ?thesis
    using that [of pkt'] frame
    by (simp add: pkt'_def valid_bytes_def n_def ENCAP_OVERHEAD_def
        GRE_HEADER_SIZE_def OUTER_IP_HEADER_SIZE_def)
qed

text \<open>
  C11. Encapsulation never panics on a well-formed buffer. If 24 more bytes fit, the receiving
  end of the tunnel accepts the frame (header, length and checksum are right) and gets back the
  inner packet unchanged, with the tunnel's addresses; otherwise the packet is left as it was.
\<close>

theorem encapsulate_ipv4_roundtrip:
  assumes "packet_buf_ok pkt"
  shows "if pkt_len pkt + ENCAP_OVERHEAD \<le> PACKET_BUF_SIZE
         then \<exists>pkt'. encapsulate_ipv4 pkt src dst = Some (True, pkt') \<and> packet_buf_ok pkt' \<and>
                decapsulate (valid_bytes pkt') =
                  Some (src, dst, inner_proto (valid_bytes pkt), valid_bytes pkt)
         else encapsulate_ipv4 pkt src dst = Some (False, pkt)"
  using encapsulate_ipv4_succeeds [OF assms] encapsulate_ipv4_refuses [OF assms]
  by (simp add: not_le) metis

theorem encapsulate_ipv4_roundtrip_witness:
  "\<exists>pkt'. encapsulate_ipv4 (from_slice [0x45, 1, 2]) (Ipv4 10 0 0 1) (Ipv4 10 0 0 2) = Some (True, pkt') \<and>
     decapsulate (valid_bytes pkt') = Some (Ipv4 10 0 0 1, Ipv4 10 0 0 2, 0x0800, [0x45, 1, 2])"
proof -
  have v: "take PACKET_BUF_SIZE [0x45, 1, 2] = [0x45, 1, 2 :: u8]" by (simp add: PACKET_BUF_SIZE_def)
  have p: "inner_proto [0x45, 1, 2] = 0x0800"
    by (simp add: inner_proto_def GRE_PROTO_IPV4_def GRE_PROTO_IPV6_def drop_bit_eq_div)
  have l: "pkt_len (from_slice [0x45, 1, 2]) + ENCAP_OVERHEAD \<le> PACKET_BUF_SIZE"
    by (simp add: from_slice_def Let_def PACKET_BUF_SIZE_def ENCAP_OVERHEAD_def
        GRE_HEADER_SIZE_def OUTER_IP_HEADER_SIZE_def)
  show ?thesis
    using encapsulate_ipv4_roundtrip [OF from_slice_ok, of "[0x45, 1, 2]" "Ipv4 10 0 0 1" "Ipv4 10 0 0 2"] l
    by (auto simp: v p)
qed

end
