(* ===== verification/MssClamp.thy ===== *)
theory MssClamp
  imports Packet Checksum
begin

text \<open>
  TCP MSS clamping (crate lb-forwarder, mss_clamp.rs): on a SYN the MSS option is looked up in
  the TCP options, lowered to the tunnel's limit, and the TCP checksum is updated incrementally
  (RFC 1624). The lemmas show that the search stays inside the buffer and stops, that the
  clamped packet passes the same check afterwards, and when the checksum stays valid: for an
  option at an even offset of the TCP header, but not at an odd one.
\<close>

definition TCP_OPT_END :: u8 where "TCP_OPT_END = 0"
definition TCP_OPT_NOP :: u8 where "TCP_OPT_NOP = 1"
definition TCP_OPT_MSS :: u8 where "TCP_OPT_MSS = 2"
definition TCP_OPT_MSS_LEN :: u8 where "TCP_OPT_MSS_LEN = 4"
definition TCP_FLAGS_OFFSET :: nat where "TCP_FLAGS_OFFSET = 13"
definition TCP_SYN :: u8 where "TCP_SYN = 0x02"

lemmas tcp_consts = TCP_OPT_END_def TCP_OPT_NOP_def TCP_OPT_MSS_def TCP_OPT_MSS_LEN_def
  TCP_FLAGS_OFFSET_def TCP_SYN_def

datatype clamp_result = CNotTcp | CNotSyn | CClamped | CNoop | CMssMissing

definition incremental_checksum_update :: "u8 list \<Rightarrow> nat \<Rightarrow> u16 \<Rightarrow> u16 \<Rightarrow> u8 list panics" where
  "incremental_checksum_update data checksum_offset old_word new_word = do {
     old_checksum \<leftarrow> be16_at data checksum_offset;
     let s = (ucast (NOT old_checksum) :: u32) + ucast (NOT old_word) + ucast new_word;
     let new_checksum = NOT (ucast (fold_carry s) :: u16);
     data \<leftarrow> store_at data checksum_offset (hi_byte new_checksum);
     store_at data (checksum_offset + 1) (lo_byte new_checksum) }"

function clamp_options ::
  "u8 list \<Rightarrow> u16 \<Rightarrow> nat \<Rightarrow> nat \<Rightarrow> nat \<Rightarrow> (clamp_result \<times> u8 list) panics" where
  "clamp_options data max_mss ihl offs options_end =
     (if options_end \<le> offs then Some (CMssMissing, data)
      else case byte_at data offs of
        None \<Rightarrow> None
      | Some kind \<Rightarrow>
          if kind = TCP_OPT_END then Some (CMssMissing, data)
          else if kind = TCP_OPT_NOP then clamp_options data max_mss ihl (offs + 1) options_end
          else if options_end \<le> offs + 1 then Some (CMssMissing, data)
          else case byte_at data (offs + 1) of
            None \<Rightarrow> None
          | Some len \<Rightarrow>
              if unat len < 2 then Some (CMssMissing, data)
              else if kind = TCP_OPT_MSS \<and> len = TCP_OPT_MSS_LEN
              then if options_end < offs + 4 then Some (CMssMissing, data)
                   else do {
                     current_mss \<leftarrow> be16_at data (offs + 2);
                     if max_mss < current_mss
                     then do {
                       data \<leftarrow> store_at data (offs + 2) (hi_byte max_mss);
                       data \<leftarrow> store_at data (offs + 3) (lo_byte max_mss);
                       data \<leftarrow> incremental_checksum_update data (ihl + 16) current_mss max_mss;
                       Some (CClamped, data) }
                     else Some (CNoop, data) }
              else clamp_options data max_mss ihl (offs + unat len) options_end)"
  by pat_completeness auto
termination
  by (relation "measure (\<lambda>(data, max_mss, ihl, offs, options_end). options_end - offs)") auto

declare clamp_options.simps [simp del]

definition clamp_mss :: "u8 list \<Rightarrow> u16 \<Rightarrow> (clamp_result \<times> u8 list) panics" where
  "clamp_mss data max_mss =
     (if length data < 40 then Some (CNotTcp, data)
      else do {
        b0 \<leftarrow> byte_at data 0;
        b9 \<leftarrow> byte_at data 9;
        if drop_bit 4 b0 \<noteq> 4 then Some (CNotTcp, data)
        else if b9 \<noteq> 6 then Some (CNotTcp, data)
        else let ihl = unat (b0 AND 0x0F) * 4 in
          if length data < ihl + 20 then Some (CNotTcp, data)
          else do {
            flags \<leftarrow> byte_at data (ihl + TCP_FLAGS_OFFSET);
            if flags AND TCP_SYN = 0 then Some (CNotSyn, data)
            else do {
              b12 \<leftarrow> byte_at data (ihl + 12);
              let data_offset = unat (drop_bit 4 b12) * 4;
              if data_offset < 20 \<or> length data < ihl + data_offset then Some (CMssMissing, data)
              else clamp_options data max_mss ihl (ihl + 20) (ihl + data_offset) } } })"

subsection \<open>The incremental update\<close>

definition updated_checksum :: "u16 \<Rightarrow> u16 \<Rightarrow> u16 \<Rightarrow> u16" where
  "updated_checksum c old new =
     folded_complement (ucast (NOT c) + ucast (NOT old) + ucast new)"

lemma incremental_checksum_update_eq:
  "off + 1 < length d \<Longrightarrow>
   incremental_checksum_update d off old new =
     (let c = updated_checksum (from_be16 (d ! off) (d ! (off + 1))) old new
      in Some (d[off := hi_byte c, off + 1 := lo_byte c]))"
  by (simp add: incremental_checksum_update_def updated_checksum_def folded_complement_def Let_def)

lemma updated_checksum_mod:
  "(unat (updated_checksum c old new) + unat new) mod 65535 = (unat c + unat old) mod 65535"
proof -
  let ?s = "ucast (NOT c) + ucast (NOT old) + ucast new :: u32"
  have b: "unat c \<le> 65535" "unat old \<le> 65535" "unat new \<le> 65535" by simp_all
  have b2: "(65535 - unat c) + (65535 - unat old) < 4294967296"
    "(65535 - unat c) + (65535 - unat old) + unat new < 4294967296"
    using b by linarith+
  have "unat (ucast (NOT c) + ucast (NOT old) :: u32) =
      ((65535 - unat c) + (65535 - unat old)) mod 4294967296"
    by (simp only: unat_word_ariths unat_ucast_u16 unat_not_u16) simp
  then have two: "unat (ucast (NOT c) + ucast (NOT old) :: u32) = (65535 - unat c) + (65535 - unat old)"
    using b2(1) by (simp only: mod_less)
  have "unat ?s = ((65535 - unat c) + (65535 - unat old) + unat new) mod 4294967296"
    unfolding unat_word_ariths(1) [of "ucast (NOT c) + ucast (NOT old)"] two unat_ucast_u16 by simp
  then have s: "unat ?s = (65535 - unat c) + (65535 - unat old) + unat new"
    using b2(2) by (simp only: mod_less)
  obtain k where "unat (folded_complement ?s) + unat ?s = 65535 * k"
    using folded_complement_sum [of ?s] by (auto simp: mod_eq_0_iff_dvd dvd_def)
  then have "unat (updated_checksum c old new) + unat new + 65535 * 2 =
      unat c + unat old + 65535 * k"
    unfolding updated_checksum_def s using b by linarith
  then show ?thesis by (metis mod_mult_self2)
qed

subsection \<open>The option search\<close>

definition clamped_at :: "u8 list \<Rightarrow> nat \<Rightarrow> nat \<Rightarrow> u16 \<Rightarrow> u8 list" where
  "clamped_at data ihl i max_mss =
     (let c = updated_checksum (from_be16 (data ! (ihl + 16)) (data ! (ihl + 17)))
                (from_be16 (data ! (i + 2)) (data ! (i + 3))) max_mss
      in data[i + 2 := hi_byte max_mss, i + 3 := lo_byte max_mss,
              ihl + 16 := hi_byte c, ihl + 17 := lo_byte c])"

definition mss_option_above :: "u8 list \<Rightarrow> nat \<Rightarrow> u16 \<Rightarrow> bool" where
  "mss_option_above data i max_mss \<longleftrightarrow>
     i + 4 \<le> length data \<and> data ! i = TCP_OPT_MSS \<and> data ! (i + 1) = TCP_OPT_MSS_LEN \<and>
     max_mss < from_be16 (data ! (i + 2)) (data ! (i + 3))"

lemma length_clamped_at [simp, len_simps]: "length (clamped_at data ihl i m) = length data"
  by (simp add: clamped_at_def Let_def)

lemma clamped_at_other:
  "j \<notin> {i + 2, i + 3, ihl + 16, ihl + 17} \<Longrightarrow> clamped_at data ihl i m ! j = data ! j"
  by (simp add: clamped_at_def Let_def)

lemma clamped_at_mss:
  assumes "ihl + 20 \<le> i" and "i + 4 \<le> length data"
  shows "clamped_at data ihl i m ! (i + 2) = hi_byte m" "clamped_at data ihl i m ! (i + 3) = lo_byte m"
  using assms by (simp_all add: clamped_at_def Let_def nth_list_update)

lemma clamp_store:
  assumes "ihl + 20 \<le> i" and "i + 4 \<le> length data"
  shows "do { d \<leftarrow> store_at data (i + 2) (hi_byte m);
              d \<leftarrow> store_at d (i + 3) (lo_byte m);
              d \<leftarrow> incremental_checksum_update d (ihl + 16) (from_be16 (data ! (i + 2)) (data ! (i + 3))) m;
              Some (CClamped, d) } = Some (CClamped, clamped_at data ihl i m)"
proof -
  have e: "ihl + 16 + 1 = ihl + 17" by simp
  note upd = incremental_checksum_update_eq [of "ihl + 16", unfolded e]
  have "i + 2 < length data" "i + 3 < length data" using assms by simp_all
  then show ?thesis using assms
    by (simp add: upd clamped_at_def Let_def nth_list_update)
qed

text \<open>One step of the search, with the reads known to be in range.\<close>

lemma clamp_options_step:
  assumes "ihl + 20 \<le> offs" and "offs < options_end" and "options_end \<le> length data"
  shows "clamp_options data m ihl offs options_end =
     (if data ! offs = TCP_OPT_END then Some (CMssMissing, data)
      else if data ! offs = TCP_OPT_NOP then clamp_options data m ihl (offs + 1) options_end
      else if options_end \<le> offs + 1 \<or> unat (data ! (offs + 1)) < 2 then Some (CMssMissing, data)
      else if data ! offs = TCP_OPT_MSS \<and> data ! (offs + 1) = TCP_OPT_MSS_LEN
      then if options_end < offs + 4 then Some (CMssMissing, data)
           else if m < from_be16 (data ! (offs + 2)) (data ! (offs + 3))
           then Some (CClamped, clamped_at data ihl offs m) else Some (CNoop, data)
      else clamp_options data m ihl (offs + unat (data ! (offs + 1))) options_end)"
proof -
  have e: "offs + 2 + 1 = offs + 3" by simp
  have "be16_at data (offs + 2) = Some (from_be16 (data ! (offs + 2)) (data ! (offs + 3)))"
    if "\<not> options_end < offs + 4"
    using be16_at_Some [of "offs + 2" data, unfolded e] that assms by (simp del: be16_at_Some)
  then show ?thesis
    using assms clamp_store [of ihl offs data m]
    by (subst clamp_options.simps) (simp add: not_le del: be16_at_Some)
qed

lemma clamp_options_end:
  "options_end \<le> offs \<Longrightarrow> clamp_options data m ihl offs options_end = Some (CMssMissing, data)"
  by (subst clamp_options.simps) simp

lemma clamp_options_spec:
  assumes "ihl + 20 \<le> offs" and "options_end \<le> length data"
  shows "(\<exists>r. r \<in> {CNoop, CMssMissing} \<and> clamp_options data m ihl offs options_end = Some (r, data)) \<or>
     (\<exists>i. offs \<le> i \<and> i + 4 \<le> options_end \<and> mss_option_above data i m \<and>
        clamp_options data m ihl offs options_end = Some (CClamped, clamped_at data ihl i m) \<and>
        clamp_options (clamped_at data ihl i m) m ihl offs options_end =
          Some (CNoop, clamped_at data ihl i m))"
  using assms
proof (induction "options_end - offs" arbitrary: offs rule: less_induct)
  case less
  show ?case
  proof (cases "offs < options_end")
    case False
    then show ?thesis by (simp add: clamp_options_end)
  next
    case True
    note step = clamp_options_step [OF less.prems(1) True less.prems(2), of m]
    have rec: ?thesis
      if d: "0 < k" and eq: "clamp_options data m ihl offs options_end =
                 clamp_options data m ihl (offs + k) options_end"
        and eq': "\<And>i. offs + k \<le> i \<Longrightarrow> clamp_options (clamped_at data ihl i m) m ihl offs options_end =
                 clamp_options (clamped_at data ihl i m) m ihl (offs + k) options_end" for k
    proof -
      have "options_end - (offs + k) < options_end - offs" "ihl + 20 \<le> offs + k"
        using True d less.prems(1) by simp_all
      from less.hyps [OF this less.prems(2)] eq eq' show ?thesis
        by (metis add_leD1)
    qed
    have other: "clamped_at data ihl i m ! offs = data ! offs"
      "clamped_at data ihl i m ! (offs + 1) = data ! (offs + 1)" if "offs < i" for i
      using less.prems(1) that by (intro clamped_at_other; auto)+
    note step' = clamp_options_step [OF less.prems(1) True, of "clamped_at data ihl i m" m for i]
    consider (stop) "data ! offs = TCP_OPT_END"
      | (nop) "data ! offs = TCP_OPT_NOP"
      | (bad) "data ! offs \<notin> {TCP_OPT_END, TCP_OPT_NOP}" "options_end \<le> offs + 1 \<or> unat (data ! (offs + 1)) < 2"
      | (mss) "data ! offs = TCP_OPT_MSS" "data ! (offs + 1) = TCP_OPT_MSS_LEN" "offs + 1 < options_end"
      | (skip) "data ! offs \<notin> {TCP_OPT_END, TCP_OPT_NOP}" "offs + 1 < options_end"
          "2 \<le> unat (data ! (offs + 1))" "\<not> (data ! offs = TCP_OPT_MSS \<and> data ! (offs + 1) = TCP_OPT_MSS_LEN)"
      by fastforce
    then show ?thesis
    proof cases
      case stop
      then show ?thesis by (simp add: step)
    next
      case nop
      then show ?thesis
        using other less.prems(2) by (intro rec [of 1]) (simp_all add: step step' tcp_consts)
    next
      case bad
      then show ?thesis by (simp add: step)
    next
      case mss
      show ?thesis
      proof (cases "offs + 4 \<le> options_end \<and> m < from_be16 (data ! (offs + 2)) (data ! (offs + 3))")
        case True
        let ?d = "clamped_at data ihl offs m"
        have "?d ! offs = data ! offs" "?d ! (offs + 1) = data ! (offs + 1)"
          using less.prems(1) by (intro clamped_at_other; auto)+
        moreover have "?d ! (offs + 2) = hi_byte m" "?d ! (offs + 3) = lo_byte m"
          using clamped_at_mss [of ihl offs data m] True less.prems by auto
        ultimately have "clamp_options ?d m ihl offs options_end = Some (CNoop, ?d)"
          using mss True less.prems(2) by (simp add: step' tcp_consts)
        moreover have "clamp_options data m ihl offs options_end = Some (CClamped, ?d)"
          using mss True by (simp add: step tcp_consts)
        moreover have "mss_option_above data offs m"
          using mss True less.prems(2) by (simp add: mss_option_above_def)
        ultimately show ?thesis using True by blast
      next
        case False
        with mss show ?thesis by (auto simp: step tcp_consts not_le)
      qed
    next
      case skip
      then show ?thesis
        using other less.prems(2) by (intro rec [of "unat (data ! (offs + 1))"]) (auto simp: step step')
    qed
  qed
qed

subsection \<open>The whole operation\<close>

definition ip_header_len :: "u8 list \<Rightarrow> nat" where
  "ip_header_len data = unat (data ! 0 AND 0x0F) * 4"

text \<open>The guards in front of the option search, with their reads in range.\<close>

lemma clamp_mss_eq:
  assumes "40 \<le> length data"
  shows "clamp_mss data m =
     (let ihl = ip_header_len data; doff = unat (drop_bit 4 (data ! (ihl + 12))) * 4 in
      if drop_bit 4 (data ! 0) \<noteq> 4 \<or> data ! 9 \<noteq> 6 \<or> length data < ihl + 20 then Some (CNotTcp, data)
      else if data ! (ihl + TCP_FLAGS_OFFSET) AND TCP_SYN = 0 then Some (CNotSyn, data)
      else if doff < 20 \<or> length data < ihl + doff then Some (CMssMissing, data)
      else clamp_options data m ihl (ihl + 20) (ihl + doff))"
proof -
  have "data \<noteq> []" using assms by auto
  with assms show ?thesis
    by (simp add: clamp_mss_def ip_header_len_def Let_def TCP_FLAGS_OFFSET_def)
qed

lemma clamp_mss_cases:
  "(\<exists>r. r \<noteq> CClamped \<and> clamp_mss data m = Some (r, data)) \<or>
   (\<exists>i. ip_header_len data + 20 \<le> i \<and> mss_option_above data i m \<and>
      clamp_mss data m = Some (CClamped, clamped_at data (ip_header_len data) i m) \<and>
      clamp_mss (clamped_at data (ip_header_len data) i m) m =
        Some (CNoop, clamped_at data (ip_header_len data) i m))"
proof (cases "40 \<le> length data")
  case False
  then show ?thesis by (auto simp: clamp_mss_def)
next
  case True
  define ihl where "ihl = ip_header_len data"
  define doff where "doff = unat (drop_bit 4 (data ! (ihl + 12))) * 4"
  note eq = clamp_mss_eq [OF True, of m, folded ihl_def, unfolded Let_def, folded doff_def]
  show ?thesis
  proof (cases "drop_bit 4 (data ! 0) \<noteq> 4 \<or> data ! 9 \<noteq> 6 \<or> length data < ihl + 20 \<or>
      data ! (ihl + TCP_FLAGS_OFFSET) AND TCP_SYN = 0 \<or> doff < 20 \<or> length data < ihl + doff")
    case True
    then show ?thesis using eq by (cases "data ! 9 = 6") auto
  next
    case False
    then have run: "clamp_mss data m = clamp_options data m ihl (ihl + 20) (ihl + doff)"
      and len: "ihl + doff \<le> length data" using eq by auto
    from clamp_options_spec [of ihl "ihl + 20" "ihl + doff" data m] len
    consider r where "r \<in> {CNoop, CMssMissing}" "clamp_mss data m = Some (r, data)"
      | i where "ihl + 20 \<le> i" "mss_option_above data i m"
          "clamp_mss data m = Some (CClamped, clamped_at data ihl i m)"
          "clamp_options (clamped_at data ihl i m) m ihl (ihl + 20) (ihl + doff) =
             Some (CNoop, clamped_at data ihl i m)"
      unfolding run by auto
    then show ?thesis
    proof cases
      case (2 i)
      let ?d = "clamped_at data ihl i m"
      have same: "?d ! 0 = data ! 0" "?d ! 9 = data ! 9" "?d ! (ihl + 12) = data ! (ihl + 12)"
        "?d ! (ihl + TCP_FLAGS_OFFSET) = data ! (ihl + TCP_FLAGS_OFFSET)"
        using 2(1) by (intro clamped_at_other; auto simp: TCP_FLAGS_OFFSET_def)+
      then have hl: "ip_header_len ?d = ihl" by (simp add: ip_header_len_def ihl_def)
      have "40 \<le> length ?d" using True by simp
      from clamp_mss_eq [OF this, of m, unfolded hl Let_def same, folded doff_def] False 2(4)
      have "clamp_mss ?d m = Some (CNoop, ?d)" by simp
      with 2 show ?thesis unfolding ihl_def by blast
    qed auto
  qed
qed

text \<open>
  Clamping never panics and never changes the packet's length; it changes bytes only when
  it reports \<^verbatim>\<open>Clamped\<close>; and a clamped packet is within the limit: clamping it again finds the
  same option and reports \<^verbatim>\<open>Noop\<close>.
\<close>

theorem clamp_mss_idempotent:
  "\<exists>r data'. clamp_mss data max_mss = Some (r, data') \<and> length data' = length data \<and>
     (if r = CClamped then clamp_mss data' max_mss = Some (CNoop, data') else data' = data)"
  using clamp_mss_cases [of data max_mss] by fastforce

subsection \<open>The TCP checksum after clamping\<close>

lemma word_sum_update16:
  assumes "i + 1 < length xs" and "even i"
  shows "word_sum (xs[i := hi_byte w, i + 1 := lo_byte w]) +
         unat (from_be16 (xs ! i) (xs ! (i + 1))) = word_sum xs + unat w"
proof -
  let ?ys = "xs[i := hi_byte w]"
  have "word_sum ?ys + 256 * unat (xs ! i) = word_sum xs + 256 * (unat w div 256)"
    using word_sum_update [of i xs "hi_byte w"] assms by (simp add: byte_weight_def unat_hi_byte)
  moreover have "word_sum (?ys[i + 1 := lo_byte w]) + unat (xs ! (i + 1)) = word_sum ?ys + unat w mod 256"
    using word_sum_update [of "i + 1" ?ys "lo_byte w"] assms
    by (simp add: byte_weight_def unat_lo_byte)
  ultimately show ?thesis
    unfolding unat_from_be16 using mult_div_mod_eq [of 256 "unat w"] by linarith
qed

lemma word_sum_clamped:
  assumes i: "ihl + 20 \<le> i" "i + 4 \<le> length data" and even: "even (i - ihl)"
  shows "word_sum (drop ihl (clamped_at data ihl i m)) mod 65535 = word_sum (drop ihl data) mod 65535"
proof -
  define j seg where "j = i + 2 - ihl" and "seg = drop ihl data"
  have j: "even j" "j + 1 < length seg" "18 \<le> j" "i + 2 = ihl + j" "i + 3 = ihl + (j + 1)"
    using i even by (auto simp: j_def seg_def)
  define old c where "old = from_be16 (seg ! j) (seg ! (j + 1))"
    and "c = from_be16 (seg ! 16) (seg ! 17)"
  define seg1 where "seg1 = seg[j := hi_byte m, j + 1 := lo_byte m]"
  define c' where "c' = updated_checksum c old m"
  have at: "data ! (ihl + k) = seg ! k" if "ihl + k < length data" for k
    using that by (simp add: seg_def)
  have in_range: "ihl + j < length data" "ihl + (j + 1) < length data"
    using i j(4,5) by simp_all
  have "clamped_at data ihl i m =
      data[ihl + j := hi_byte m, ihl + (j + 1) := lo_byte m, ihl + 16 := hi_byte c', ihl + 17 := lo_byte c']"
    using i at [of 16] at [of 17] at [OF in_range(1)] at [OF in_range(2)]
    unfolding clamped_at_def Let_def j(4,5) c'_def c_def old_def by simp
  then have seg': "drop ihl (clamped_at data ihl i m) = seg1[16 := hi_byte c', 16 + 1 := lo_byte c']"
    by (simp add: drop_update_swap seg_def seg1_def)
  have c1: "from_be16 (seg1 ! 16) (seg1 ! (16 + 1)) = c"
    using j(3) by (simp add: seg1_def c_def nth_list_update)
  have "word_sum seg1 + unat old = word_sum seg + unat m"
    unfolding seg1_def old_def using j by (intro word_sum_update16) simp_all
  moreover have "word_sum (seg1[16 := hi_byte c', 16 + 1 := lo_byte c']) + unat c = word_sum seg1 + unat c'"
    using word_sum_update16 [of 16 seg1 c'] j unfolding c1 by (simp add: seg1_def)
  ultimately have "word_sum (drop ihl (clamped_at data ihl i m)) + (unat c + unat old) =
      word_sum seg + (unat c' + unat m)"
    unfolding seg' by linarith
  moreover have "(unat c' + unat m) mod 65535 = (unat c + unat old) mod 65535"
    unfolding c'_def by (rule updated_checksum_mod)
  ultimately have "(word_sum (drop ihl (clamped_at data ihl i m)) + (unat c + unat old)) mod 65535 =
      (word_sum seg + (unat c + unat old)) mod 65535"
    by (metis mod_add_right_eq)
  then show ?thesis unfolding seg_def
    by (simp add: nat_mod_eq_iff)
qed

lemma from_be16_hi_lo [simp]: "from_be16 (hi_byte w) (lo_byte w) = w"
  by (rule word_unat_eq_iff [THEN iffD2])
    (simp only: unat_from_be16 unat_hi_byte unat_lo_byte mult_div_mod_eq)

text \<open>
  C13. A packet reported as clamped had an MSS option above the limit; the option now holds the
  limit, no byte but the option's two and the two of the TCP checksum has changed, and when the
  option is at an even offset of the TCP header the one's complement sum of the segment is the
  one of the original, so a checksum that was right is right again.
\<close>

theorem clamp_mss_checksum:
  assumes "clamp_mss data max_mss = Some (CClamped, data')"
  shows "\<exists>i. ip_header_len data + 20 \<le> i \<and> mss_option_above data i max_mss \<and>
     from_be16 (data' ! (i + 2)) (data' ! (i + 3)) = max_mss \<and>
     (\<forall>j. j \<notin> {i + 2, i + 3, ip_header_len data + 16, ip_header_len data + 17} \<longrightarrow>
        data' ! j = data ! j) \<and>
     (even (i - ip_header_len data) \<longrightarrow>
        word_sum (drop (ip_header_len data) data') mod 65535 =
        word_sum (drop (ip_header_len data) data) mod 65535)"
proof -
  obtain i where i: "ip_header_len data + 20 \<le> i" "mss_option_above data i max_mss"
    and d': "data' = clamped_at data (ip_header_len data) i max_mss"
    using clamp_mss_cases [of data max_mss] assms by auto
  have len: "i + 4 \<le> length data" using i(2) by (simp add: mss_option_above_def)
  show ?thesis
    using i clamped_at_mss [OF i(1) len] clamped_at_other word_sum_clamped [OF i(1) len]
    unfolding d' by (intro exI [of _ i]) simp
qed

definition syn_packet :: "u8 list \<Rightarrow> u8 list" where
  "syn_packet opts =
     [0x45, 0, 0, 44, 0, 0, 0, 0, 64, 6, 0, 0, 10, 0, 0, 1, 10, 0, 0, 2,
      0x30, 0x39, 0, 80, 0, 0, 0, 1, 0, 0, 0, 0, 0x70, 2, 0xFF, 0xFF, 0, 0, 0, 0] @ opts"


lemma clamp_mss_even_run:
  "clamp_mss (syn_packet [2, 4, 5, 180, 1, 1, 1, 0]) 1436 =
     Some (CClamped, [69, 0, 0, 44, 0, 0, 0, 0, 64, 6, 0, 0, 10, 0, 0, 1, 10, 0, 0, 2, 48, 57,
      0, 80, 0, 0, 0, 1, 0, 0, 0, 0, 112, 2, 255, 255, 0, 24, 0, 0, 2, 4, 5, 156, 1, 1, 1, 0])"
  by code_simp

lemma clamp_mss_checksum_witness:
  "\<exists>i. mss_option_above (syn_packet [2, 4, 5, 180, 1, 1, 1, 0]) i 1436"
  using clamp_mss_checksum [OF clamp_mss_even_run] by blast

lemma clamp_mss_odd_run:
  "clamp_mss (syn_packet [1, 2, 4, 5, 180, 1, 1, 0]) 1436 =
     Some (CClamped, [69, 0, 0, 44, 0, 0, 0, 0, 64, 6, 0, 0, 10, 0, 0, 1, 10, 0, 0, 2, 48, 57,
      0, 80, 0, 0, 0, 1, 0, 0, 0, 0, 112, 2, 255, 255, 0, 24, 0, 0, 1, 2, 4, 5, 156, 1, 1, 0])"
  by code_simp

text \<open>
  At an odd offset of the TCP header the incremental update is wrong: it treats the option's
  two bytes as one aligned 16-bit word. For a SYN whose options start with one NOP, the clamped
  segment no longer has the checksum of the original.
\<close>

theorem clamp_mss_odd_option_breaks_checksum:
  "\<exists>data'. clamp_mss (syn_packet [1, 2, 4, 5, 180, 1, 1, 0]) 1436 = Some (CClamped, data') \<and>
     word_sum (drop 20 data') mod 65535 \<noteq>
     word_sum (drop 20 (syn_packet [1, 2, 4, 5, 180, 1, 1, 0])) mod 65535"
  unfolding clamp_mss_odd_run option.inject prod.inject
  by (simp add: syn_packet_def)

end
