(* ===== verification/Icmp.thy ===== *)
theory Icmp
  imports PacketIo Packet Checksum
begin

text \<open>
  ICMP Fragmentation Needed (crate lb-forwarder, icmp.rs): when a reply is due, the reply packet
  itself, and the limiter on how many are sent. The lemmas say that the reply is a well-formed
  IPv4/ICMP packet that carries the MTU and the start of the offending packet, and bound the
  number of replies in any second by twice the configured rate: the limiter counts in fixed
  windows, although the source calls it a token bucket.
\<close>

definition DF_FLAG :: u16 where "DF_FLAG = 0x4000"
definition ICMP_TYPE_DEST_UNREACH :: u8 where "ICMP_TYPE_DEST_UNREACH = 3"
definition ICMP_CODE_FRAG_NEEDED :: u8 where "ICMP_CODE_FRAG_NEEDED = 4"

subsection \<open>When a reply is due\<close>

definition should_generate_icmp :: "u8 list \<Rightarrow> u16 \<Rightarrow> bool panics" where
  "should_generate_icmp data net_mtu =
     (if length data < 20 then Some False
      else do {
        b0 \<leftarrow> byte_at data 0;
        if drop_bit 4 b0 \<noteq> 4 then Some False
        else do {
          total_len \<leftarrow> be16_at data 2;
          flags_frag \<leftarrow> be16_at data 6;
          let df_set = (flags_frag AND DF_FLAG \<noteq> 0);
          Some (df_set \<and> net_mtu < total_len + GRE_OVERHEAD) } })"

subsection \<open>The reply\<close>

text \<open>The local copy of the checksum routine, with its own loop over an index.\<close>

function icmp_checksum_loop :: "u8 list \<Rightarrow> nat \<Rightarrow> u32 \<Rightarrow> u32" where
  "icmp_checksum_loop data i s =
     (if i < length data - 1
      then icmp_checksum_loop data (i + 2) (s + ucast (from_be16 (data ! i) (data ! (i + 1))))
      else s)"
  by pat_completeness auto
termination
  by (relation "measure (\<lambda>(data, i, s). length data - i)") auto

declare icmp_checksum_loop.simps [simp del]

definition icmp_ip_checksum :: "u8 list \<Rightarrow> u16 panics" where
  "icmp_ip_checksum data =
     (if data = [] then None
      else let s = icmp_checksum_loop data 0 0;
               s = (if length data mod 2 \<noteq> 0
                    then s + push_bit 8 (ucast (data ! (length data - 1))) else s)
           in Some (NOT (ucast (fold_carry s))))"

text \<open>The 20 bytes the code assigns before the checksum is known, and the 8 of the ICMP header.\<close>

definition icmp_outer_header :: "u16 \<Rightarrow> ipv4_addr \<Rightarrow> ipv4_addr \<Rightarrow> u8 list" where
  "icmp_outer_header total_len vip dst =
     [0x45, 0xC0] @ to_be16 total_len @ [0, 0] @ [0, 0] @ [64, 1] @ [0, 0] @
     octets4 vip @ octets4 dst"

definition icmp_header :: "u16 \<Rightarrow> u8 list" where
  "icmp_header mtu =
     [ICMP_TYPE_DEST_UNREACH, ICMP_CODE_FRAG_NEEDED] @ [0, 0] @ [0, 0] @ to_be16 mtu"

definition generate_icmp_frag_needed :: "u8 list \<Rightarrow> ipv4_addr \<Rightarrow> u16 \<Rightarrow> packet_buf panics" where
  "generate_icmp_frag_needed original vip inner_mtu =
     (let payload_len = min (length original) 28;
          total_len = 20 + 8 + payload_len;
          pkt = packet_buf_new in
      if length (pkt_data pkt) < total_len then None
      else do {
        let dst_ip = (if 16 \<le> length original
          then Ipv4 (original ! 12) (original ! 13) (original ! 14) (original ! 15)
          else unspecified4);
        let buf = take total_len (pkt_data pkt);
        buf \<leftarrow> store_slice buf 0 (icmp_outer_header (word_of_nat total_len) vip dst_ip);
        ip_cksum \<leftarrow> icmp_ip_checksum (take 20 buf);
        buf \<leftarrow> store_slice buf 10 (to_be16 ip_cksum);
        buf \<leftarrow> store_slice buf 20 (icmp_header inner_mtu);
        buf \<leftarrow> store_slice buf 28 (take payload_len original);
        icmp_cksum \<leftarrow> icmp_ip_checksum (drop 20 buf);
        buf \<leftarrow> store_slice buf 22 (to_be16 icmp_cksum);
        Some (pkt\<lparr>pkt_data := buf @ drop total_len (pkt_data pkt), pkt_len := total_len\<rparr>) })"

subsection \<open>The rate limiter\<close>

record icmp_rate_limiter =
  rl_max_per_second :: u32
  rl_count :: u32
  rl_window_start :: instant

definition icmp_rate_limiter_new :: "u32 \<Rightarrow> instant \<Rightarrow> icmp_rate_limiter" where
  "icmp_rate_limiter_new max_per_second now =
     \<lparr>rl_max_per_second = max_per_second, rl_count = 0, rl_window_start = now\<rparr>"

definition rl_roll :: "icmp_rate_limiter \<Rightarrow> instant \<Rightarrow> icmp_rate_limiter" where
  "rl_roll l now =
     (if 1 \<le> duration_since now (rl_window_start l) div secs 1
      then l\<lparr>rl_count := 0, rl_window_start := now\<rparr> else l)"

definition allow :: "icmp_rate_limiter \<Rightarrow> instant \<Rightarrow> bool \<times> icmp_rate_limiter" where
  "allow l now =
     (if rl_max_per_second l = 0 then (False, l)
      else let l = rl_roll l now in
        if rl_count l < rl_max_per_second l then (True, l\<lparr>rl_count := rl_count l + 1\<rparr>)
        else (False, l))"

text \<open>
  The check never panics and says exactly: an IPv4 packet with DF set whose total length
  plus the tunnel overhead, computed modulo 65536, exceeds the network MTU.
\<close>

theorem should_generate_icmp_spec:
  "should_generate_icmp data m = Some
     (20 \<le> length data \<and> unat (data ! 0) div 16 = 4 \<and>
      from_be16 (data ! 6) (data ! 7) AND DF_FLAG \<noteq> 0 \<and>
      unat m < (unat (from_be16 (data ! 2) (data ! 3)) + 24) mod 65536)"
proof (cases "20 \<le> length data")
  case True
  have e: "(2 :: nat) + 1 = 3" "(6 :: nat) + 1 = 7" by simp_all
  have "data \<noteq> []" using True by auto
  moreover have "drop_bit 4 (data ! 0) = 4 \<longleftrightarrow> unat (data ! 0) div 16 = 4"
    by (simp add: word_unat_eq_iff unat_drop_4)
  ultimately show ?thesis
    using True be16_at_Some [of 2 data, unfolded e] be16_at_Some [of 6 data, unfolded e]
    by (simp add: should_generate_icmp_def GRE_OVERHEAD_def word_less_nat_alt unat_word_ariths)
qed (simp add: should_generate_icmp_def)

text \<open>
  The addition wraps: a 65520-byte packet with DF set is not reported on a network with an
  MTU of 1500.
\<close>

theorem should_generate_icmp_wraps:
  "should_generate_icmp ([0x45, 0, 0xFF, 0xF0, 0, 0, 0x40, 0] @ replicate 12 0) 1500 = Some False"
  by (simp add: should_generate_icmp_spec from_be16_def)

subsection \<open>Properties of the reply\<close>

lemma icmp_checksum_loop_eq:
  "(let s = icmp_checksum_loop data i s in
    if (length data - i) mod 2 \<noteq> 0 then s + push_bit 8 (ucast (data ! (length data - 1))) else s) =
   add_words s (drop i data)"
proof (induction data i s rule: icmp_checksum_loop.induct)
  case (1 data i s)
  show ?case
  proof (cases "i < length data - 1")
    case True
    then have d: "drop i data = data ! i # data ! (i + 1) # drop (i + 2) data"
      using Cons_nth_drop_Suc [of i data] Cons_nth_drop_Suc [of "Suc i" data] by simp
    have "(length data - i) mod 2 = (length data - (i + 2)) mod 2"
    proof -
      have "length data - i = (length data - (i + 2)) + 2" using True by simp
      then show ?thesis by (metis mod_add_self2)
    qed
    with 1 [OF True] True show ?thesis
      unfolding d by (simp add: icmp_checksum_loop.simps [of data i] Let_def)
  next
    case False
    then consider "length data \<le> i" | "length data = Suc i" by linarith
    then show ?thesis
    proof cases
      case 2
      then have "drop i data = [data ! i]" using Cons_nth_drop_Suc [of i data] by simp
      with 2 show ?thesis by (simp add: icmp_checksum_loop.simps [of data i])
    qed (use False in \<open>simp add: icmp_checksum_loop.simps [of data i]\<close>)
  qed
qed

text \<open>The copy of the routine in icmp.rs and the one in gre.rs compute the same checksum.\<close>

lemma icmp_ip_checksum_eq [simp]: "icmp_ip_checksum data = ip_checksum data"
  using icmp_checksum_loop_eq [of data 0 0]
  by (simp add: icmp_ip_checksum_def ip_checksum_def Let_def)

lemma length_icmp_headers [simp, len_simps]:
  "length (icmp_outer_header t vip dst) = 20" "length (icmp_header m) = 8"
  by (simp_all add: icmp_outer_header_def icmp_header_def)

lemma icmp_outer_header_split:
  "take 10 (icmp_outer_header t vip dst) = [0x45, 0xC0] @ to_be16 t @ [0, 0, 0, 0, 64, 1]"
  "drop 12 (icmp_outer_header t vip dst) = octets4 vip @ octets4 dst"
  "icmp_outer_header t vip dst ! 10 = 0" "icmp_outer_header t vip dst ! 11 = 0"
  "0 < word_sum (icmp_outer_header t vip dst)"
  by (cases vip; cases dst; simp add: icmp_outer_header_def to_be16_def)+

lemma icmp_header_split:
  "take 2 (icmp_header m @ r) = [3, 4]" "drop 4 (icmp_header m @ r) = [0, 0] @ to_be16 m @ r"
  "(icmp_header m @ r) ! 2 = 0" "(icmp_header m @ r) ! 3 = 0" "0 < word_sum (icmp_header m @ r)"
  by (simp_all add: icmp_header_def to_be16_def ICMP_TYPE_DEST_UNREACH_def ICMP_CODE_FRAG_NEEDED_def)

text \<open>The reply, byte for byte, with its two checksums the ones a receiver accepts.\<close>

lemma generate_icmp_frag_needed_eq:
  fixes original vip mtu
  defines "n \<equiv> min (length original) 28"
    and "dst \<equiv> if 16 \<le> length original
         then Ipv4 (original ! 12) (original ! 13) (original ! 14) (original ! 15) else unspecified4"
  obtains c c' p where "generate_icmp_frag_needed original vip mtu = Some p"
    and "pkt_len p = 28 + n" and "packet_buf_ok p"
    and "valid_bytes p =
        ([0x45, 0xC0] @ to_be16 (word_of_nat (28 + n)) @ [0, 0, 0, 0, 64, 1] @ to_be16 c @
           octets4 vip @ octets4 dst) @
        ([3, 4] @ to_be16 c' @ [0, 0] @ to_be16 mtu @ take n original)"
    and "ip_checksum (take 20 (valid_bytes p)) = Some 0"
    and "ip_checksum (drop 20 (valid_bytes p)) = Some 0"
proof -
  define t :: u16 where "t = word_of_nat (28 + n)"
  define H I where "H = icmp_outer_header t vip dst" and "I = icmp_header mtu @ take n original"
  have n: "n \<le> 28" "n \<le> length original" by (simp_all add: n_def)
  have lens [simp]: "length H = 20" "length I = 8 + n" using n by (simp_all add: H_def I_def)
  obtain c where c: "ip_checksum H = Some c"
    by (rule ip_checksum_Some [of H]) (use lens in \<open>auto simp flip: length_greater_0_conv\<close>)
  obtain c' where c': "ip_checksum I = Some c'"
    by (rule ip_checksum_Some [of I]) (use lens n in \<open>auto simp flip: length_greater_0_conv\<close>)
  define H' I' where "H' = take 10 H @ to_be16 c @ drop 12 H" and "I' = take 2 I @ to_be16 c' @ drop 4 I"
  have valid: "ip_checksum H' = Some 0" "ip_checksum I' = Some 0"
    unfolding H'_def I'_def
    using stored_checksum_valid [OF c, of 10] stored_checksum_valid [OF c', of 2] n
    by (simp_all add: H_def I_def icmp_outer_header_split icmp_header_split)
  have lens' [simp]: "length H' = 20" "length I' = 8 + n" by (simp_all add: H'_def I'_def)
  define p where "p = packet_buf_new\<lparr>pkt_data := (H' @ I') @ drop (28 + n) (pkt_data packet_buf_new), pkt_len := 28 + n\<rparr>"
  let ?Z = "replicate 8 0 @ replicate n (0 :: u8)"
  have zeros: "replicate (28 + n) 0 = replicate 20 0 @ ?Z"
    by (simp flip: replicate_add)
  have steps: "store_slice (replicate 20 0 @ ?Z) 0 H = Some (H @ ?Z)"
    "store_slice (H @ ?Z) 10 (to_be16 c) = Some (H' @ ?Z)"
    "store_slice (H' @ ?Z) 20 (icmp_header mtu) = Some (H' @ icmp_header mtu @ replicate n 0)"
    "store_slice (H' @ icmp_header mtu @ replicate n 0) 28 (take n original) = Some (H' @ I)"
    "store_slice (H' @ I) 22 (to_be16 c') = Some (H' @ I')"
    using store_slice_middle [of "H' @ icmp_header mtu" 28 "replicate n 0" "take n original" "[]"] n
    by (simp_all add: store_slice_def H'_def I'_def I_def)
  have total: "20 + 8 + n = 28 + n" by simp
  have "take (28 + n) (pkt_data packet_buf_new) = replicate 20 0 @ ?Z"
    unfolding zeros [symmetric] using n by (simp add: packet_buf_new_def PACKET_BUF_SIZE_def)
  moreover have "28 + n \<le> length (pkt_data packet_buf_new)"
    using n by (simp add: packet_buf_new_def PACKET_BUF_SIZE_def)
  ultimately have "generate_icmp_frag_needed original vip mtu = Some p"
    unfolding generate_icmp_frag_needed_def Let_def n_def [symmetric] total dst_def [symmetric]
      t_def [symmetric] H_def [symmetric]
    using c c' by (simp add: steps not_less [symmetric] p_def del: store_slice_Some)
  moreover have "packet_buf_ok p" "valid_bytes p = H' @ I'" "pkt_len p = 28 + n"
    using n by (simp_all add: p_def packet_buf_ok_def valid_bytes_def packet_buf_new_def PACKET_BUF_SIZE_def)
  moreover have "H' = [0x45, 0xC0] @ to_be16 t @ [0, 0, 0, 0, 64, 1] @ to_be16 c @ octets4 vip @ octets4 dst"
    "I' = [3, 4] @ to_be16 c' @ [0, 0] @ to_be16 mtu @ take n original"
    by (simp_all only: H'_def I'_def H_def I_def icmp_outer_header_split icmp_header_split append_assoc)
  ultimately show ?thesis
    using that [of p c c'] valid by (simp add: t_def)
qed

text \<open>
  C14. For any original packet, also a truncated one, the reply is built without a panic and is a
  well-formed packet of 28 bytes and at most 28 bytes of payload: its IPv4 header has the right
  length field, protocol ICMP, source the VIP, destination the original's source and a checksum
  that verifies; the ICMP message is type 3, code 4 with the next-hop MTU, the start of the
  original as payload and a checksum that verifies.
\<close>

theorem generate_icmp_frag_needed_valid:
  "\<exists>p. generate_icmp_frag_needed original vip mtu = Some p \<and> packet_buf_ok p \<and>
     (let b = valid_bytes p; n = min (length original) 28 in
        length b = 28 + n \<and> unat (from_be16 (b ! 2) (b ! 3)) = 28 + n \<and> b ! 9 = 1 \<and>
        take 4 (drop 12 b) = octets4 vip \<and>
        take 4 (drop 16 b) = (if 16 \<le> length original then take 4 (drop 12 original) else [0, 0, 0, 0]) \<and>
        ip_checksum (take 20 b) = Some 0 \<and> ip_checksum (drop 20 b) = Some 0 \<and>
        take 2 (drop 20 b) = [3, 4] \<and> from_be16 (b ! 26) (b ! 27) = mtu \<and>
        drop 28 b = take n original)"
proof -
  let ?n = "min (length original) 28"
  obtain c c' p where p: "generate_icmp_frag_needed original vip mtu = Some p" "pkt_len p = 28 + ?n"
    "packet_buf_ok p" "ip_checksum (take 20 (valid_bytes p)) = Some 0"
    "ip_checksum (drop 20 (valid_bytes p)) = Some 0"
    and b: "valid_bytes p =
        ([0x45, 0xC0] @ to_be16 (word_of_nat (28 + ?n)) @ [0, 0, 0, 0, 64, 1] @ to_be16 c @
           octets4 vip @ octets4 (if 16 \<le> length original
             then Ipv4 (original ! 12) (original ! 13) (original ! 14) (original ! 15) else unspecified4)) @
        ([3, 4] @ to_be16 c' @ [0, 0] @ to_be16 mtu @ take ?n original)"
    by (rule generate_icmp_frag_needed_eq [of original vip mtu])
  have "drop 12 original = [original ! 12, original ! 13, original ! 14, original ! 15] @ drop 16 original"
    if "16 \<le> length original"
    using that Cons_nth_drop_Suc [of 12 original] Cons_nth_drop_Suc [of 13 original]
      Cons_nth_drop_Suc [of 14 original] Cons_nth_drop_Suc [of 15 original] by simp
  moreover have "unat (word_of_nat (28 + ?n) :: u16) = 28 + ?n"
    by (rule unat_of_nat_u16) simp
  ultimately show ?thesis
    using p unfolding Let_def
    by (cases vip) (simp add: b to_be16_def unspecified4_def)
qed

subsection \<open>How many replies the limiter lets through\<close>

text \<open>A sequence of calls at given times: how many are allowed.\<close>

fun allowed :: "icmp_rate_limiter \<Rightarrow> instant list \<Rightarrow> nat" where
  "allowed l [] = 0"
| "allowed l (t # ts) = (let (ok, l') = allow l t in (if ok then 1 else 0) + allowed l' ts)"

lemma allowed_Cons [simp]:
  "allowed l (t # ts) = (if fst (allow l t) then 1 else 0) + allowed (snd (allow l t)) ts"
  by (simp add: split_def)

declare allowed.simps(2) [simp del]

definition rl_room :: "icmp_rate_limiter \<Rightarrow> nat" where
  "rl_room l = unat (rl_max_per_second l) - unat (rl_count l)"

lemma allow_max [simp]: "rl_max_per_second (snd (allow l t)) = rl_max_per_second l"
  by (simp add: allow_def rl_roll_def Let_def)

lemma rl_roll_same:
  "duration_since t (rl_window_start l) < secs 1 \<Longrightarrow> rl_roll l t = l"
  by (simp add: rl_roll_def secs_def)

lemma allow_room:
  "rl_roll l t = l \<Longrightarrow> (if fst (allow l t) then 1 else 0) + rl_room (snd (allow l t)) \<le> rl_room l"
proof (cases "rl_count l < rl_max_per_second l")
  case True
  then have "unat (rl_count l + 1) = unat (rl_count l) + 1" "unat (rl_count l) < unat (rl_max_per_second l)"
    by (simp_all add: word_less_nat_alt unat_word_ariths, use unsigned_less [of "rl_max_per_second l", where 'a = nat] in simp)
  then show "rl_roll l t = l \<Longrightarrow> ?thesis" by (auto simp: allow_def rl_room_def Let_def)
qed (simp add: allow_def Let_def)

text \<open>While the window is not rolled, at most the room left in it is used.\<close>

lemma allow_window:
  "rl_window_start (snd (allow l t)) = (if rl_max_per_second l = 0 then rl_window_start l
     else rl_window_start (rl_roll l t))"
  by (simp add: allow_def Let_def)

lemma allowed_same_window:
  "\<forall>t \<in> set ts. duration_since t (rl_window_start l) < secs 1 \<Longrightarrow> allowed l ts \<le> rl_room l"
proof (induction ts arbitrary: l)
  case (Cons t ts)
  then have same: "rl_roll l t = l" by (simp add: rl_roll_same)
  then have "allowed (snd (allow l t)) ts \<le> rl_room (snd (allow l t))"
    using Cons by (simp add: allow_window)
  with allow_room [OF same] show ?case by simp
qed simp

lemma allowed_le:
  assumes "\<forall>t \<in> set ts. s \<le> t \<and> t < s + secs 1"
  shows "allowed l ts \<le> rl_room l + unat (rl_max_per_second l)"
  using assms
proof (induction ts arbitrary: l)
  case (Cons t ts)
  show ?case
  proof (cases "rl_roll l t = l")
    case True
    have "allowed (snd (allow l t)) ts \<le> rl_room (snd (allow l t)) + unat (rl_max_per_second l)"
      using Cons.IH [of "snd (allow l t)"] Cons.prems by simp
    with allow_room [OF True] show ?thesis by simp
  next
    case False
    let ?r = "l\<lparr>rl_count := 0, rl_window_start := t\<rparr>"
    have r: "rl_roll l t = ?r" using False by (simp add: rl_roll_def split: if_splits)
    have "rl_roll ?r t = ?r" by (simp add: rl_roll_def secs_def)
    then have "allow l t = (if rl_max_per_second l = 0 then (False, l) else allow ?r t)"
      using r by (simp add: allow_def)
    moreover have "allowed ?r (t # ts) \<le> rl_room ?r"
      using Cons.prems by (intro allowed_same_window) (force simp: duration_since_def)
    moreover have "allowed l ts \<le> rl_room l + unat (rl_max_per_second l)"
      using Cons by simp
    ultimately show ?thesis by (auto simp: rl_room_def)
  qed
qed simp

text \<open>
  C18. However the calls are timed, fewer than a second apart they get at most twice the
  configured number of replies; the bound is reached, within two nanoseconds, by calls on both
  sides of the end of a fixed window.
\<close>

theorem icmp_rate_limited:
  assumes "\<forall>t \<in> set ts. s \<le> t \<and> t < s + secs 1"
  shows "allowed l ts \<le> 2 * unat (rl_max_per_second l)"
  using allowed_le [OF assms, of l] by (simp add: rl_room_def)

lemma icmp_rate_limited_witness:
  "allowed (icmp_rate_limiter_new 1 0) [999999999, 1000000000] = 2 \<and>
   allowed (icmp_rate_limiter_new 1 0) [999999999, 1000000000] \<le> 2 * unat (1 :: u32)"
  using icmp_rate_limited [of "[999999999, 1000000000]" 999999999 "icmp_rate_limiter_new 1 0"]
  by (simp add: secs_def icmp_rate_limiter_new_def allow_def rl_roll_def duration_since_def)

end
