(* ===== verification/RobinHood.thy ===== *)
theory RobinHood
  imports Prelude
begin

text \<open>
  Open addressing with Robin Hood displacement, the algorithm that conn_table.rs and
  fragment_table.rs (crate lb-forwarder) both spell out. The entry type and what is done with an
  entry are the parameters \<open>slot_ops\<close>; the locale \<open>robin_hood\<close> holds what follows from the two
  laws a client has to grant (merging keeps an entry occupied and keeps its key). Both tables
  interpret it. The results: an insertion that is not refused is found by the next lookup, in
  whatever state the table is; and as long as no expired slot is reclaimed, the table behaves as
  a finite map (\<open>rh_map\<close>) under the invariant \<open>rh_ordered\<close>.
\<close>

subsection \<open>Index arithmetic of a table of \<open>Suc msk\<close> slots\<close>

text \<open>\<^verbatim>\<open>(hash as usize) & mask\<close>, \<^verbatim>\<open>idx.wrapping_sub(home) & mask\<close> and \<^verbatim>\<open>(idx + 1) & mask\<close>.\<close>

definition home_slot :: "nat \<Rightarrow> u64 \<Rightarrow> nat" where
  "home_slot msk hash = (unat hash AND msk)"

definition probe_distance :: "nat \<Rightarrow> u64 \<Rightarrow> nat \<Rightarrow> nat" where
  "probe_distance msk hash idx =
     (nat ((int idx - int (home_slot msk hash)) mod 2 ^ 64) AND msk)"

definition next_slot :: "nat \<Rightarrow> nat \<Rightarrow> nat" where
  "next_slot msk idx = (idx + 1 AND msk)"

subsection \<open>The algorithm\<close>

record 'e slot_ops =
  s_occ :: "'e \<Rightarrow> bool"
  s_key :: "'e \<Rightarrow> u64"
  s_expired :: "'e \<Rightarrow> bool"
  s_merge :: "'e \<Rightarrow> 'e \<Rightarrow> 'e"

datatype rh_result = RhInserted | RhUpdated | RhEvicted | RhDropped

fun rh_find :: "'e slot_ops \<Rightarrow> nat \<Rightarrow> nat \<Rightarrow> 'e list \<Rightarrow> u64 \<Rightarrow> nat \<Rightarrow> nat \<Rightarrow> nat option" where
  "rh_find ops msk 0 es h idx dist = None"
| "rh_find ops msk (Suc n) es h idx dist =
     (let e = es ! idx in
      if \<not> s_occ ops e then None
      else if probe_distance msk (s_key ops e) idx < dist then None
      else if s_key ops e = h then Some idx
      else rh_find ops msk n es h (next_slot msk idx) (dist + 1))"

fun rh_insert ::
  "'e slot_ops \<Rightarrow> nat \<Rightarrow> nat \<Rightarrow> 'e list \<Rightarrow> nat \<Rightarrow> 'e \<Rightarrow> nat \<Rightarrow> rh_result \<times> 'e list" where
  "rh_insert ops msk 0 es idx cur dist = (RhDropped, es)"
| "rh_insert ops msk (Suc n) es idx cur dist =
     (let e = es ! idx in
      if \<not> s_occ ops e then (RhInserted, es[idx := cur])
      else if s_expired ops e then (RhEvicted, es[idx := cur])
      else if s_key ops e = s_key ops cur then (RhUpdated, es[idx := s_merge ops e cur])
      else let inc = probe_distance msk (s_key ops e) idx in
        if inc < dist
        then rh_insert ops msk n (es[idx := cur]) (next_slot msk idx) e (inc + 1)
        else rh_insert ops msk n es (next_slot msk idx) cur (dist + 1))"

definition rh_lookup :: "'e slot_ops \<Rightarrow> nat \<Rightarrow> 'e list \<Rightarrow> u64 \<Rightarrow> nat option" where
  "rh_lookup ops msk es h = rh_find ops msk (Suc msk) es h (home_slot msk h) 0"

definition rh_put :: "'e slot_ops \<Rightarrow> nat \<Rightarrow> 'e list \<Rightarrow> 'e \<Rightarrow> rh_result \<times> 'e list" where
  "rh_put ops msk es cur =
     rh_insert ops msk (Suc msk) es (home_slot msk (s_key ops cur)) cur 0"

subsection \<open>The table as a map, and its order\<close>

definition rh_map :: "'e slot_ops \<Rightarrow> 'e list \<Rightarrow> u64 \<rightharpoonup> 'e" where
  "rh_map ops es = map_of (map (\<lambda>e. (s_key ops e, e)) (filter (s_occ ops) es))"

definition rh_at :: "nat \<Rightarrow> u64 \<Rightarrow> nat \<Rightarrow> nat" where
  "rh_at msk h d = (unat h + d) mod (Suc msk)"

text \<open>The first \<open>n\<close> slots of a flow's probe sequence send a lookup for it on to the next slot.\<close>

definition rh_path :: "'e slot_ops \<Rightarrow> nat \<Rightarrow> 'e list \<Rightarrow> u64 \<Rightarrow> nat \<Rightarrow> bool" where
  "rh_path ops msk es h n \<longleftrightarrow>
     (\<forall>d < n. let e = es ! rh_at msk h d in
        s_occ ops e \<and> d \<le> probe_distance msk (s_key ops e) (rh_at msk h d) \<and> s_key ops e \<noteq> h)"

definition rh_ordered :: "'e slot_ops \<Rightarrow> nat \<Rightarrow> 'e list \<Rightarrow> bool" where
  "rh_ordered ops msk es \<longleftrightarrow>
     (\<forall>i < length es. s_occ ops (es ! i) \<longrightarrow>
        rh_path ops msk es (s_key ops (es ! i)) (probe_distance msk (s_key ops (es ! i)) i))"

definition rh_live :: "'e slot_ops \<Rightarrow> 'e list \<Rightarrow> bool" where
  "rh_live ops es \<longleftrightarrow> list_all (\<lambda>e. s_occ ops e \<longrightarrow> \<not> s_expired ops e) es"

definition rh_absent :: "'e slot_ops \<Rightarrow> 'e list \<Rightarrow> u64 \<Rightarrow> bool" where
  "rh_absent ops es h \<longleftrightarrow> (\<forall>i < length es. s_occ ops (es ! i) \<longrightarrow> s_key ops (es ! i) \<noteq> h)"

text \<open>A lookup only reads the keys of occupied slots.\<close>

lemma rh_lookup_cong:
  assumes "\<And>i. s_occ ops (es' ! i) = s_occ ops (es ! i)" and "\<And>i. s_key ops (es' ! i) = s_key ops (es ! i)"
  shows "rh_lookup ops msk es' h = rh_lookup ops msk es h"
proof -
  have "rh_find ops msk n es' h i d = rh_find ops msk n es h i d" for n i d
    by (induction n arbitrary: i d) (simp_all add: Let_def assms)
  then show ?thesis by (simp only: rh_lookup_def)
qed

text \<open>
  What an insertion does to the map. A refused insertion costs one flow, from \<open>V\<close>, its entry: the new
  one, or a flow that sits nearer to its home than the new one would in its place (\<open>rh_victim\<close>).
\<close>

definition rh_victim :: "'e slot_ops \<Rightarrow> nat \<Rightarrow> 'e list \<Rightarrow> u64 \<Rightarrow> u64 \<Rightarrow> bool" where
  "rh_victim ops msk es h v \<longleftrightarrow>
     (let nearer = (\<lambda>i. s_occ ops (es ! i) \<and>
        probe_distance msk (s_key ops (es ! i)) i < probe_distance msk h i)
      in if \<exists>i < length es. nearer i then \<exists>i < length es. nearer i \<and> s_key ops (es ! i) = v else v = h)"

definition rh_nearer :: "'e slot_ops \<Rightarrow> nat \<Rightarrow> 'e list \<Rightarrow> u64 \<Rightarrow> nat \<Rightarrow> nat \<Rightarrow> u64 set" where
  "rh_nearer ops msk es h d n = {s_key ops (es ! rh_at msk h q) | q. d \<le> q \<and> q < d + n \<and>
     s_occ ops (es ! rh_at msk h q) \<and> probe_distance msk (s_key ops (es ! rh_at msk h q)) (rh_at msk h q) < q}"

definition rh_victims :: "'e slot_ops \<Rightarrow> nat \<Rightarrow> 'e list \<Rightarrow> u64 \<Rightarrow> nat \<Rightarrow> nat \<Rightarrow> u64 set" where
  "rh_victims ops msk es h d n =
     (if rh_nearer ops msk es h d n = {} then {h} else rh_nearer ops msk es h d n)"

definition put_effect :: "'e slot_ops \<Rightarrow> u64 set \<Rightarrow> 'e list \<Rightarrow> 'e \<Rightarrow> rh_result \<Rightarrow> 'e list \<Rightarrow> bool" where
  "put_effect ops V es cur r es' \<longleftrightarrow>
     (case r of
        RhInserted \<Rightarrow> rh_map ops es (s_key ops cur) = None \<and>
          rh_map ops es' = (rh_map ops es)(s_key ops cur \<mapsto> cur)
      | RhUpdated \<Rightarrow> (\<exists>e. rh_map ops es (s_key ops cur) = Some e \<and>
          rh_map ops es' = (rh_map ops es)(s_key ops cur \<mapsto> s_merge ops e cur))
      | RhEvicted \<Rightarrow> False
      | RhDropped \<Rightarrow> rh_map ops es (s_key ops cur) = None \<and>
          (\<exists>v \<in> V. rh_map ops es' = ((rh_map ops es)(s_key ops cur \<mapsto> cur))(v := None)))"

subsection \<open>Arithmetic for a power of two\<close>

lemma and_mask_nat: "(x :: nat) AND (2 ^ b - 1) = x mod 2 ^ b"
  by (simp add: take_bit_eq_mod [symmetric] take_bit_eq_mask mask_eq_exp_minus_1)

lemma home_slot_mod: "home_slot (2 ^ b - 1) h = unat h mod 2 ^ b"
  unfolding home_slot_def by (rule and_mask_nat)

lemma next_slot_mod: "next_slot (2 ^ b - 1) i = (i + 1) mod 2 ^ b"
  unfolding next_slot_def by (rule and_mask_nat)

lemma probe_distance_mod:
  assumes "b \<le> 64"
  shows "int (probe_distance (2 ^ b - 1) h i) = (int i - int (unat h)) mod 2 ^ b"
proof -
  have dvd: "(2 :: int) ^ b dvd 2 ^ 64" using assms by (rule le_imp_power_dvd)
  have "int (probe_distance (2 ^ b - 1) h i) = (int i - int (unat h mod 2 ^ b)) mod 2 ^ 64 mod 2 ^ b"
    unfolding probe_distance_def home_slot_mod and_mask_nat zmod_int by (simp add: of_nat_power)
  also have "\<dots> = (int i - int (unat h) mod 2 ^ b) mod 2 ^ b"
    unfolding mod_mod_cancel [OF dvd] zmod_int by simp
  finally show ?thesis by (simp add: mod_diff_right_eq)
qed

subsection \<open>What a client of the algorithm relies on\<close>

definition is_power_of_two :: "nat \<Rightarrow> bool" where
  "is_power_of_two n \<longleftrightarrow> (\<exists>b < 64. n = 2 ^ b)"

lemma probe_facts:
  assumes "msk = 2 ^ b - 1"
  shows "home_slot msk h < Suc msk" "next_slot msk i < Suc msk"
  unfolding assms home_slot_mod next_slot_mod by simp_all

locale robin_hood =
  fixes ops :: "'e slot_ops" and b :: nat and msk :: nat
  assumes bits: "b \<le> 64"
    and msk_def: "msk = 2 ^ b - 1"
    and merge_occ: "s_occ ops e \<Longrightarrow> s_occ ops (s_merge ops e c)"
    and merge_key: "s_key ops e = s_key ops c \<Longrightarrow> s_key ops (s_merge ops e c) = s_key ops e"
begin

lemma m_pos: "Suc msk = 2 ^ b" "0 < Suc msk"
  by (simp_all add: msk_def)

lemma at_less [simp]: "rh_at msk h d < Suc msk"
  by (simp add: rh_at_def)

lemma home_at: "home_slot msk h = rh_at msk h 0"
  unfolding rh_at_def m_pos(1) unfolding msk_def home_slot_mod by simp

lemma next_at: "next_slot msk (rh_at msk h d) = rh_at msk h (d + 1)"
  unfolding rh_at_def m_pos(1) msk_def next_slot_mod by (simp add: mod_simps add.assoc)

lemma dist_less [simp]: "probe_distance msk h i < Suc msk"
proof -
  have "int (probe_distance msk h i) < 2 ^ b"
    unfolding msk_def probe_distance_mod [OF bits] by simp
  then show ?thesis unfolding m_pos(1) by (metis of_nat_less_iff of_nat_numeral of_nat_power)
qed

lemma dist_at [simp]: "d < Suc msk \<Longrightarrow> probe_distance msk h (rh_at msk h d) = d"
proof -
  assume d: "d < Suc msk"
  have "int (probe_distance msk h (rh_at msk h d)) = (int ((unat h + d) mod 2 ^ b) - int (unat h)) mod 2 ^ b"
    unfolding rh_at_def m_pos(1) unfolding msk_def by (rule probe_distance_mod [OF bits])
  also have "\<dots> = int d mod 2 ^ b" by (simp add: zmod_int mod_diff_left_eq)
  also have "\<dots> = int d" using d unfolding m_pos(1) by (metis mod_less of_nat_mod of_nat_numeral of_nat_power)
  finally show ?thesis by simp
qed

lemma at_dist [simp]: "i < Suc msk \<Longrightarrow> rh_at msk h (probe_distance msk h i) = i"
proof -
  assume i: "i < Suc msk"
  have "int (rh_at msk h (probe_distance msk h i)) =
      (int (unat h) + int (probe_distance msk h i)) mod 2 ^ b"
    unfolding rh_at_def m_pos(1) by (simp add: zmod_int)
  also have "\<dots> = int i mod 2 ^ b"
    unfolding msk_def probe_distance_mod [OF bits] by (simp add: mod_add_right_eq)
  also have "\<dots> = int i" using i unfolding m_pos(1) by (metis mod_less of_nat_mod of_nat_numeral of_nat_power)
  finally show ?thesis by simp
qed

lemma at_eq_iff: "d < Suc msk \<Longrightarrow> d' < Suc msk \<Longrightarrow> rh_at msk h d = rh_at msk h d' \<longleftrightarrow> d = d'"
  by (metis dist_at)

subsection \<open>What a lookup finds, in any table\<close>

lemma find_path:
  "rh_path ops msk es h (d + k) \<Longrightarrow>
   rh_find ops msk (k + n) es h (rh_at msk h d) d = rh_find ops msk n es h (rh_at msk h (d + k)) (d + k)"
proof (induction k arbitrary: d)
  case (Suc k)
  have "rh_path ops msk es h (Suc d + k)" using Suc.prems by simp
  moreover have "s_occ ops (es ! rh_at msk h d)" "s_key ops (es ! rh_at msk h d) \<noteq> h"
    "\<not> probe_distance msk (s_key ops (es ! rh_at msk h d)) (rh_at msk h d) < d"
    using Suc.prems by (auto simp: rh_path_def Let_def not_less)
  ultimately show ?case
    using Suc.IH [of "Suc d"] by (simp add: Let_def next_at)
qed simp

lemma find_hit:
  assumes "rh_path ops msk es h d" and "d < Suc msk"
    and "s_occ ops (es ! rh_at msk h d)" and "s_key ops (es ! rh_at msk h d) = h"
  shows "rh_lookup ops msk es h = Some (rh_at msk h d)"
proof -
  obtain n where n: "Suc msk = d + Suc n" using assms(2) by (metis add_Suc_right less_imp_Suc_add)
  have "rh_find ops msk (Suc n) es h (rh_at msk h d) d = Some (rh_at msk h d)"
    using assms by (simp add: Let_def)
  then show ?thesis
    unfolding rh_lookup_def home_at n using find_path [of es h 0 d "Suc n"] assms(1) by simp
qed

lemma find_miss:
  assumes "rh_path ops msk es h d" and "d < Suc msk"
    and "s_occ ops (es ! rh_at msk h d) \<Longrightarrow>
         probe_distance msk (s_key ops (es ! rh_at msk h d)) (rh_at msk h d) < d"
  shows "rh_lookup ops msk es h = None"
proof -
  obtain n where n: "Suc msk = d + Suc n" using assms(2) by (metis add_Suc_right less_imp_Suc_add)
  have "rh_find ops msk (Suc n) es h (rh_at msk h d) d = None"
    using assms by (auto simp: Let_def)
  then show ?thesis
    unfolding rh_lookup_def home_at n using find_path [of es h 0 d "Suc n"] assms(1) by simp
qed

lemma find_Some:
  "rh_find ops msk n es h (rh_at msk g d) k = Some i \<Longrightarrow>
   i < Suc msk \<and> s_occ ops (es ! i) \<and> s_key ops (es ! i) = h"
  by (induction n arbitrary: d k) (auto simp: Let_def next_at split: if_splits)

lemma lookup_Some:
  "rh_lookup ops msk es h = Some i \<Longrightarrow> i < Suc msk \<and> s_occ ops (es ! i) \<and> s_key ops (es ! i) = h"
  unfolding rh_lookup_def home_at by (rule find_Some)

lemma path_update:
  "rh_path ops msk es h d \<Longrightarrow> d \<le> Suc msk \<Longrightarrow> (\<And>q. q < d \<Longrightarrow> rh_at msk h q \<noteq> i) \<Longrightarrow>
   rh_path ops msk (es[i := v]) h d"
  unfolding rh_path_def by (metis nth_list_update_neq)

lemma path_extend:
  "rh_path ops msk es h d \<Longrightarrow> s_occ ops (es ! rh_at msk h d) \<Longrightarrow> s_key ops (es ! rh_at msk h d) \<noteq> h \<Longrightarrow>
   d \<le> probe_distance msk (s_key ops (es ! rh_at msk h d)) (rh_at msk h d) \<Longrightarrow>
   rh_path ops msk es h (Suc d)"
  by (auto simp: rh_path_def Let_def less_Suc_eq)

subsection \<open>An insertion is found, in any table\<close>

text \<open>The probe only moves forward: what lies behind it is not written again.\<close>

lemma insert_behind:
  "rh_insert ops msk n es (rh_at msk h p) c d = (r, es') \<Longrightarrow> p + n \<le> Suc msk \<Longrightarrow> q < p \<Longrightarrow>
   es' ! rh_at msk h q = es ! rh_at msk h q"
proof (induction n arbitrary: es c d p)
  case (Suc n)
  have "rh_at msk h p \<noteq> rh_at msk h q" using Suc.prems by (simp add: at_eq_iff)
  moreover have "Suc p + n \<le> Suc msk" "q < Suc p" using Suc.prems by simp_all
  ultimately show ?case
    using Suc.prems(1) Suc.IH [of _ "Suc p"]
    by (auto simp: Let_def next_at split: if_splits)
qed simp

lemma insert_length [simp, len_simps]: "length (snd (rh_insert ops msk n es i c d)) = length es"
  by (induction n arbitrary: es i c d) (simp_all add: Let_def)

lemma insert_found:
  assumes "rh_insert ops msk n es (rh_at msk (s_key ops cur) d) cur d = (r, es')"
    and "r \<noteq> RhDropped" and "length es = Suc msk" and "s_occ ops cur"
    and "rh_path ops msk es (s_key ops cur) d" and "d + n = Suc msk"
  shows "\<exists>i e. rh_lookup ops msk es' (s_key ops cur) = Some i \<and>
     (es' ! i = cur \<or> r = RhUpdated \<and> es' ! i = s_merge ops e cur)"
  using assms
proof (induction n arbitrary: d)
  case (Suc n)
  let ?h = "s_key ops cur"
  let ?i = "rh_at msk ?h d"
  let ?e = "es ! ?i"
  have d: "d < Suc msk" using Suc.prems(6) by simp
  have i: "?i < length es" using Suc.prems(3) by simp
  have behind: "?i \<noteq> rh_at msk ?h q" if "q < d" for q using that d by (simp add: at_eq_iff)
  have found: "rh_lookup ops msk es2 ?h = Some ?i \<and> es2 ! ?i = v"
    if "\<And>q. q < d \<Longrightarrow> es2 ! rh_at msk ?h q = es ! rh_at msk ?h q" "es2 ! ?i = v" "s_occ ops v" "s_key ops v = ?h"
    for es2 v
  proof -
    have "rh_path ops msk es2 ?h d" using Suc.prems(5) that(1) by (simp add: rh_path_def)
    then show ?thesis using that d by (intro conjI find_hit) simp_all
  qed
  have put: "rh_lookup ops msk (es[?i := v]) ?h = Some ?i \<and> es[?i := v] ! ?i = v"
    if "s_occ ops v" "s_key ops v = ?h" for v
    using that i by (intro found) (simp_all add: behind)
  consider (free) "\<not> s_occ ops ?e \<or> s_expired ops ?e"
    | (same) "s_occ ops ?e" "\<not> s_expired ops ?e" "s_key ops ?e = ?h"
    | (swap) "s_occ ops ?e" "\<not> s_expired ops ?e" "s_key ops ?e \<noteq> ?h" "probe_distance msk (s_key ops ?e) ?i < d"
    | (skip) "s_occ ops ?e" "\<not> s_expired ops ?e" "s_key ops ?e \<noteq> ?h" "d \<le> probe_distance msk (s_key ops ?e) ?i"
    by linarith
  then show ?case
  proof cases
    case free
    then have "es' = es[?i := cur]" using Suc.prems(1) by (auto simp: Let_def split: if_splits)
    then show ?thesis using put [OF Suc.prems(4) refl] by blast
  next
    case same
    then have "es' = es[?i := s_merge ops ?e cur]" "r = RhUpdated"
      using Suc.prems(1) by (auto simp: Let_def)
    then show ?thesis using put [of "s_merge ops ?e cur"] same merge_occ merge_key by metis
  next
    case swap
    then have run: "rh_insert ops msk n (es[?i := cur]) (rh_at msk ?h (Suc d)) ?e
        (probe_distance msk (s_key ops ?e) ?i + 1) = (r, es')"
      using Suc.prems(1) by (simp add: Let_def next_at)
    have kept: "es' ! rh_at msk ?h q = es[?i := cur] ! rh_at msk ?h q" if "q < Suc d" for q
      using insert_behind [OF run _ that] Suc.prems(6) by simp
    have "rh_lookup ops msk es' ?h = Some ?i \<and> es' ! ?i = cur"
      using kept i Suc.prems(4) by (intro found) (simp_all add: behind)
    then show ?thesis by blast
  next
    case skip
    then show ?thesis
      using Suc.prems path_extend [OF Suc.prems(5)] by (intro Suc.IH [of "Suc d"]) (simp_all add: Let_def next_at)
  qed
qed simp

lemma put_found:
  assumes "rh_put ops msk es cur = (r, es')" and "r \<noteq> RhDropped"
    and "length es = Suc msk" and "s_occ ops cur"
  shows "\<exists>i e. rh_lookup ops msk es' (s_key ops cur) = Some i \<and>
     (es' ! i = cur \<or> r = RhUpdated \<and> es' ! i = s_merge ops e cur)"
  using assms insert_found [of "Suc msk" es cur 0] unfolding rh_put_def home_at
  by (simp add: rh_path_def del: rh_insert.simps)

subsection \<open>An ordered table is a map\<close>

lemma ordered_lookup:
  assumes "rh_ordered ops msk es" and "length es = Suc msk" and "i < Suc msk" and "s_occ ops (es ! i)"
  shows "rh_lookup ops msk es (s_key ops (es ! i)) = Some i"
proof -
  let ?h = "s_key ops (es ! i)" and ?d = "probe_distance msk (s_key ops (es ! i)) i"
  have "rh_path ops msk es ?h ?d" using assms by (simp add: rh_ordered_def)
  then show ?thesis using find_hit [of es ?h ?d] assms by simp
qed

lemma ordered_unique:
  assumes "rh_ordered ops msk es" and "length es = Suc msk" and "i < Suc msk" and "j < Suc msk"
    and "s_occ ops (es ! i)" and "s_occ ops (es ! j)" and "s_key ops (es ! i) = s_key ops (es ! j)"
  shows "i = j"
  using ordered_lookup [OF assms(1,2,3,5)] ordered_lookup [OF assms(1,2,4,6)] assms(7)
  by (metis option.inject)

lemma rh_map_iff:
  assumes "rh_ordered ops msk es" and "length es = Suc msk"
  shows "rh_map ops es h = Some e \<longleftrightarrow>
     (\<exists>i < Suc msk. es ! i = e \<and> s_occ ops e \<and> s_key ops e = h)"
proof
  assume "rh_map ops es h = Some e"
  then have "e \<in> set es" "s_occ ops e" "s_key ops e = h"
    by (auto simp: rh_map_def dest!: map_of_SomeD)
  then show "\<exists>i < Suc msk. es ! i = e \<and> s_occ ops e \<and> s_key ops e = h"
    using assms(2) by (metis in_set_conv_nth)
next
  assume "\<exists>i < Suc msk. es ! i = e \<and> s_occ ops e \<and> s_key ops e = h"
  then obtain i where i: "i < Suc msk" "es ! i = e" "s_occ ops e" "s_key ops e = h" by blast
  then have "e \<in> set es" using assms(2) by (metis nth_mem)
  with i(3,4) have "h \<in> s_key ops ` set (filter (s_occ ops) es)" by auto
  then have "rh_map ops es h \<noteq> None"
    by (simp add: rh_map_def map_of_eq_None_iff image_image)
  then obtain e' where e': "rh_map ops es h = Some e'" by blast
  then have "e' \<in> set es" "s_occ ops e'" "s_key ops e' = h"
    by (auto simp: rh_map_def dest!: map_of_SomeD)
  then obtain j where "j < Suc msk" "es ! j = e'" "s_occ ops e'" "s_key ops e' = h"
    using assms(2) by (metis in_set_conv_nth)
  then have "i = j" using i by (intro ordered_unique [OF assms]) simp_all
  then have "e' = e" using i(2) \<open>es ! j = e'\<close> by simp
  then show "rh_map ops es h = Some e" using e' by simp
qed

lemma rh_map_lookup:
  assumes "rh_ordered ops msk es" and "length es = Suc msk"
  shows "rh_map ops es h = map_option ((!) es) (rh_lookup ops msk es h)"
proof (cases "rh_lookup ops msk es h")
  case None
  then have "rh_map ops es h \<noteq> Some e" for e
    unfolding rh_map_iff [OF assms] using ordered_lookup [OF assms] by (metis option.distinct(1))
  with None show ?thesis by (cases "rh_map ops es h") auto
next
  case (Some i)
  then show ?thesis using lookup_Some [OF Some] rh_map_iff [OF assms, of h "es ! i"] by auto
qed

lemma absent_map:
  assumes "rh_ordered ops msk es" and "length es = Suc msk"
  shows "rh_absent ops es h \<longleftrightarrow> rh_map ops es h = None"
proof (cases "rh_map ops es h")
  case None
  then have "\<not> (i < Suc msk \<and> s_occ ops (es ! i) \<and> s_key ops (es ! i) = h)" for i
    using rh_map_iff [OF assms, of h] by (metis option.distinct(1))
  with None show ?thesis using assms(2) by (auto simp: rh_absent_def)
next
  case (Some e)
  then show ?thesis using rh_map_iff [OF assms, of h e] assms(2) by (auto simp: rh_absent_def)
qed

text \<open>Robin Hood's early exit is right: where an entry is closer to its home, the flow is absent.\<close>

lemma path_end_absent:
  assumes ord: "rh_ordered ops msk es" "length es = Suc msk" and p: "rh_path ops msk es h d"
    and d: "d = Suc msk \<or> d < Suc msk \<and> (s_occ ops (es ! rh_at msk h d) \<longrightarrow>
              probe_distance msk (s_key ops (es ! rh_at msk h d)) (rh_at msk h d) < d)"
  shows "rh_absent ops es h"
proof -
  have "rh_lookup ops msk es h = None"
  proof (cases "d = Suc msk")
    case True
    then have "rh_find ops msk (d + 0) es h (rh_at msk h 0) 0 = None"
      using find_path [of es h 0 d 0] p by simp
    then show ?thesis using True by (simp add: rh_lookup_def home_at)
  next
    case False
    then show ?thesis using d by (intro find_miss [OF p]) auto
  qed
  then show ?thesis using rh_map_lookup [OF ord, of h] absent_map [OF ord, of h] by simp
qed

lemma place_ordered:
  assumes ord: "rh_ordered ops msk es" "length es = Suc msk"
    and p: "rh_path ops msk es (s_key ops c) d" "d < Suc msk"
    and old: "s_occ ops (es ! rh_at msk (s_key ops c) d) \<Longrightarrow>
       rh_absent ops es (s_key ops c) \<and>
       probe_distance msk (s_key ops (es ! rh_at msk (s_key ops c) d)) (rh_at msk (s_key ops c) d) < d"
    and c: "s_occ ops c"
  shows "rh_ordered ops msk (es[rh_at msk (s_key ops c) d := c])"
  unfolding rh_ordered_def
proof (intro allI impI)
  let ?i = "rh_at msk (s_key ops c) d"
  fix j
  assume j: "j < length (es[?i := c])" and occ: "s_occ ops (es[?i := c] ! j)"
  show "rh_path ops msk (es[?i := c]) (s_key ops (es[?i := c] ! j))
      (probe_distance msk (s_key ops (es[?i := c] ! j)) j)"
  proof (cases "j = ?i")
    case True
    have "rh_path ops msk (es[?i := c]) (s_key ops c) d"
      using p by (intro path_update) (auto simp: at_eq_iff)
    then show ?thesis using True p(2) j by simp
  next
    case False
    then have e: "es[?i := c] ! j = es ! j" "s_occ ops (es ! j)" using occ by simp_all
    let ?h = "s_key ops (es ! j)" and ?n = "probe_distance msk (s_key ops (es ! j)) j"
    have path: "rh_path ops msk es ?h ?n"
      using ord j e by (simp add: rh_ordered_def)
    have "s_occ ops (es[?i := c] ! rh_at msk ?h q) \<and> s_key ops (es[?i := c] ! rh_at msk ?h q) \<noteq> ?h \<and>
        q \<le> probe_distance msk (s_key ops (es[?i := c] ! rh_at msk ?h q)) (rh_at msk ?h q)"
      if q: "q < ?n" for q
    proof (cases "rh_at msk ?h q = ?i")
      case True
      then have "s_occ ops (es ! ?i)" "q \<le> probe_distance msk (s_key ops (es ! ?i)) ?i"
        using path q by (auto simp: rh_path_def Let_def)
      then have "q \<le> d" "s_key ops c \<noteq> ?h"
        using old j e ord(2) by (auto simp: rh_absent_def)
      then show ?thesis unfolding True using p(2) c ord(2) by simp
    next
      case False
      then show ?thesis using path q by (auto simp: rh_path_def Let_def)
    qed
    then show ?thesis unfolding e by (simp add: rh_path_def Let_def)
  qed
qed

lemma merge_ordered:
  assumes "rh_ordered ops msk es" and "length es = Suc msk" and "i < Suc msk"
    and "s_occ ops (es ! i)" and "s_occ ops v" and "s_key ops v = s_key ops (es ! i)"
  shows "rh_ordered ops msk (es[i := v])"
proof -
  have same: "s_occ ops (es[i := v] ! j) = s_occ ops (es ! j)" "s_key ops (es[i := v] ! j) = s_key ops (es ! j)" for j
    using assms by (cases "i = j"; simp)+
  then show ?thesis using assms(1) by (simp add: rh_ordered_def rh_path_def Let_def)
qed

lemma map_update:
  assumes ord: "rh_ordered ops msk es" "length es = Suc msk" "rh_ordered ops msk (es[i := c])"
    and i: "i < Suc msk" and c: "s_occ ops c"
  shows "rh_map ops (es[i := c]) =
     ((if s_occ ops (es ! i) then (rh_map ops es)(s_key ops (es ! i) := None) else rh_map ops es)
        (s_key ops c \<mapsto> c))"
proof (rule ext, rule option.expand)
  fix h
  let ?R = "((if s_occ ops (es ! i) then (rh_map ops es)(s_key ops (es ! i) := None) else rh_map ops es)
        (s_key ops c \<mapsto> c)) h"
  have L: "rh_map ops (es[i := c]) h = Some e \<longleftrightarrow>
      (\<exists>j < Suc msk. es[i := c] ! j = e \<and> s_occ ops e \<and> s_key ops e = h)" for e
    using rh_map_iff [OF ord(3)] ord(2) by simp
  have "rh_map ops (es[i := c]) h = Some e \<longleftrightarrow> ?R = Some e" for e
  proof (cases "h = s_key ops c")
    case True
    have "rh_map ops (es[i := c]) h = Some c"
      unfolding L using True i c ord(2) by (intro exI [of _ i]) simp
    then show ?thesis using True by simp
  next
    case False
    have "(\<exists>j < Suc msk. es[i := c] ! j = e \<and> s_occ ops e \<and> s_key ops e = h) \<longleftrightarrow>
        (\<exists>j < Suc msk. j \<noteq> i \<and> es ! j = e \<and> s_occ ops e \<and> s_key ops e = h)"
      using False i ord(2) by (metis nth_list_update_eq nth_list_update_neq)
    also have "\<dots> \<longleftrightarrow> ?R = Some e"
    proof (cases "s_occ ops (es ! i) \<and> h = s_key ops (es ! i)")
      case True
      then have "\<not> (\<exists>j < Suc msk. j \<noteq> i \<and> es ! j = e \<and> s_occ ops e \<and> s_key ops e = h)"
        using ordered_unique [OF ord(1,2) i] by metis
      then show ?thesis using True False by simp
    next
      case other: False
      then have "?R = rh_map ops es h" using False by auto
      then show ?thesis using other by (auto simp: rh_map_iff [OF ord(1,2)])
    qed
    finally show ?thesis unfolding L .
  qed
  then show "(rh_map ops (es[i := c]) h = None) = (?R = None)"
    "rh_map ops (es[i := c]) h \<noteq> None \<Longrightarrow> ?R \<noteq> None \<Longrightarrow> the (rh_map ops (es[i := c]) h) = the ?R"
    by (metis option.exhaust_sel, metis option.exhaust_sel)
qed

subsection \<open>An insertion into an ordered table without expired entries\<close>

lemma swap_effect:
  assumes "put_effect ops V1 es1 e r es'" and "r \<noteq> RhUpdated" and "V1 \<subseteq> V"
    and "rh_map ops es (s_key ops e) = Some e" and "rh_map ops es (s_key ops c) = None"
    and "rh_map ops es1 = ((rh_map ops es)(s_key ops e := None))(s_key ops c \<mapsto> c)"
  shows "put_effect ops V es c r es'"
proof -
  have ne: "s_key ops e \<noteq> s_key ops c" using assms(4,5) by auto
  then have "(rh_map ops es1)(s_key ops e \<mapsto> e) = (rh_map ops es)(s_key ops c \<mapsto> c)"
    unfolding assms(6) using assms(4) by (auto simp: fun_eq_iff)
  then show ?thesis using assms(1-3,5) by (auto simp: put_effect_def split: rh_result.splits)
qed

lemma at_shift: "rh_at msk h p = rh_at msk g d \<Longrightarrow> rh_at msk h (p + k) = rh_at msk g (d + k)"
  unfolding rh_at_def add.assoc [symmetric] by (rule mod_add_cong) simp_all

text \<open>Who an insertion that carries on with a displaced entry can cost the place.\<close>

lemma swap_victims:
  assumes "s_occ ops (es ! rh_at msk h d)" and "k < d" and "d + Suc n \<le> Suc msk"
    and "k = probe_distance msk (s_key ops (es ! rh_at msk h d)) (rh_at msk h d)"
  shows "rh_victims ops msk (es[rh_at msk h d := c]) (s_key ops (es ! rh_at msk h d)) (Suc k) n \<subseteq>
     rh_victims ops msk es h d (Suc n)"
proof
  let ?i = "rh_at msk h d" let ?g = "s_key ops (es ! ?i)"
  fix v
  assume "v \<in> rh_victims ops msk (es[?i := c]) ?g (Suc k) n"
  then consider "v = ?g"
    | q where "v = s_key ops (es[?i := c] ! rh_at msk ?g q)" "Suc k \<le> q" "q < Suc k + n"
      "s_occ ops (es[?i := c] ! rh_at msk ?g q)" "probe_distance msk v (rh_at msk ?g q) < q"
    unfolding rh_victims_def rh_nearer_def by (auto split: if_splits)
  then have "v \<in> rh_nearer ops msk es h d (Suc n)"
  proof cases
    case 1
    then show ?thesis using assms unfolding rh_nearer_def by (intro CollectI exI [of _ d]) simp
  next
    case (2 q)
    have "rh_at msk ?g k = ?i" unfolding assms(4) by (rule at_dist) simp
    then have at: "rh_at msk ?g q = rh_at msk h (d + (q - k))"
      using at_shift [where h = ?g and p = k and g = h and d = d and k = "q - k"] 2(2) by simp
    have r: "d < d + (q - k)" "d + (q - k) < d + Suc n" "q < d + (q - k)" using 2 assms(2) by simp_all
    then have "rh_at msk ?g q \<noteq> ?i" using assms(3) by (simp add: at at_eq_iff)
    then have "es[?i := c] ! rh_at msk ?g q = es ! rh_at msk ?g q" by simp
    with 2 r show ?thesis unfolding rh_nearer_def at
      by (intro CollectI exI [of _ "d + (q - k)"]) simp
  qed
  then show "v \<in> rh_victims ops msk es h d (Suc n)" by (auto simp: rh_victims_def)
qed

lemma nearer_skip:
  assumes "d \<le> probe_distance msk (s_key ops (es ! rh_at msk h d)) (rh_at msk h d)"
  shows "rh_nearer ops msk es h (Suc d) n = rh_nearer ops msk es h d (Suc n)"
proof -
  have "(Suc d \<le> q \<and> q < Suc d + n \<and> s_occ ops (es ! rh_at msk h q) \<and>
       probe_distance msk (s_key ops (es ! rh_at msk h q)) (rh_at msk h q) < q) =
    (d \<le> q \<and> q < d + Suc n \<and> s_occ ops (es ! rh_at msk h q) \<and>
       probe_distance msk (s_key ops (es ! rh_at msk h q)) (rh_at msk h q) < q)" for q
    using assms by (cases "q = d") auto
  then show ?thesis unfolding rh_nearer_def by simp
qed

lemma nearer_slot:
  assumes "length es = Suc msk"
  shows "v \<in> rh_nearer ops msk es h 0 (Suc msk) \<longleftrightarrow>
     (\<exists>i < length es. (s_occ ops (es ! i) \<and>
        probe_distance msk (s_key ops (es ! i)) i < probe_distance msk h i) \<and> s_key ops (es ! i) = v)"
proof
  assume "v \<in> rh_nearer ops msk es h 0 (Suc msk)"
  then obtain q where "q < Suc msk" "s_occ ops (es ! rh_at msk h q)" "v = s_key ops (es ! rh_at msk h q)"
    "probe_distance msk (s_key ops (es ! rh_at msk h q)) (rh_at msk h q) < q"
    unfolding rh_nearer_def by auto
  then show "\<exists>i < length es. (s_occ ops (es ! i) \<and>
        probe_distance msk (s_key ops (es ! i)) i < probe_distance msk h i) \<and> s_key ops (es ! i) = v"
    using assms by (intro exI [of _ "rh_at msk h q"]) simp
next
  assume "\<exists>i < length es. (s_occ ops (es ! i) \<and>
        probe_distance msk (s_key ops (es ! i)) i < probe_distance msk h i) \<and> s_key ops (es ! i) = v"
  then obtain i where "i < Suc msk" "s_occ ops (es ! i)" "s_key ops (es ! i) = v"
    "probe_distance msk (s_key ops (es ! i)) i < probe_distance msk h i" using assms by auto
  then show "v \<in> rh_nearer ops msk es h 0 (Suc msk)"
    unfolding rh_nearer_def using dist_less [of h i]
    by (intro CollectI exI [of _ "probe_distance msk h i"]) simp
qed

lemma victims_victim:
  assumes "length es = Suc msk" and "v \<in> rh_victims ops msk es h 0 (Suc msk)"
  shows "rh_victim ops msk es h v"
proof (cases "rh_nearer ops msk es h 0 (Suc msk) = {}")
  case True
  then have "\<not> (\<exists>i < length es. s_occ ops (es ! i) \<and>
      probe_distance msk (s_key ops (es ! i)) i < probe_distance msk h i)"
    using nearer_slot [OF assms(1), of _ h] by auto
  then have "rh_victim ops msk es h v \<longleftrightarrow> v = h" unfolding rh_victim_def Let_def by argo
  then show ?thesis using True assms(2) by (simp add: rh_victims_def)
next
  case False
  then have "v \<in> rh_nearer ops msk es h 0 (Suc msk)" using assms(2) by (simp add: rh_victims_def)
  then show ?thesis unfolding nearer_slot [OF assms(1)] rh_victim_def Let_def by auto
qed

lemma live_nth: "rh_live ops es \<Longrightarrow> i < length es \<Longrightarrow> s_occ ops (es ! i) \<Longrightarrow> \<not> s_expired ops (es ! i)"
  by (auto simp: rh_live_def list_all_length)

lemma live_update: "rh_live ops es \<Longrightarrow> \<not> s_expired ops v \<Longrightarrow> rh_live ops (es[i := v])"
  unfolding rh_live_def by (rule list_all_update) auto

text \<open>A displacement: the slot goes to the newcomer, the old entry carries on behind it.\<close>

lemma displace:
  fixes es c d
  defines "i \<equiv> rh_at msk (s_key ops c) d"
  defines "k \<equiv> probe_distance msk (s_key ops (es ! i)) i"
  assumes ord: "rh_ordered ops msk es" "length es = Suc msk"
    and p: "rh_path ops msk es (s_key ops c) d" and d: "d < Suc msk" and c: "s_occ ops c"
    and old: "s_occ ops (es ! i)" "s_key ops (es ! i) \<noteq> s_key ops c" "k < d"
  shows "rh_absent ops es (s_key ops c)" and "rh_ordered ops msk (es[i := c])"
    and "rh_map ops (es[i := c]) = ((rh_map ops es)(s_key ops (es ! i) := None))(s_key ops c \<mapsto> c)"
    and "rh_path ops msk (es[i := c]) (s_key ops (es ! i)) (Suc k)"
proof -
  let ?e = "es ! i"
  have i: "i < Suc msk" by (simp add: i_def)
  show abs: "rh_absent ops es (s_key ops c)"
    using path_end_absent [OF ord p] old d by (simp add: i_def k_def)
  show o1: "rh_ordered ops msk (es[i := c])"
    unfolding i_def using abs old by (intro place_ordered [OF ord p d]) (simp_all add: c i_def k_def)
  show "rh_map ops (es[i := c]) = ((rh_map ops es)(s_key ops ?e := None))(s_key ops c \<mapsto> c)"
    using map_update [OF ord o1 i c] old by simp
  have "rh_path ops msk es (s_key ops ?e) k"
    using ord old(1) i by (simp add: rh_ordered_def k_def)
  moreover have "i \<noteq> rh_at msk (s_key ops ?e) q" if "q < k" for q
    using that at_dist [OF i, of "s_key ops ?e"] dist_less [of "s_key ops ?e" i]
    by (metis at_eq_iff less_trans nat_neq_iff k_def)
  ultimately have "rh_path ops msk (es[i := c]) (s_key ops ?e) k"
    by (intro path_update) (use dist_less [of "s_key ops ?e" i] in \<open>simp_all add: k_def less_imp_le not_sym\<close>)
  then show "rh_path ops msk (es[i := c]) (s_key ops ?e) (Suc k)"
    using old d ord(2) c i at_dist [OF i, of "s_key ops ?e"] dist_less [of "s_key ops ?e" i]
    by (intro path_extend) (simp_all add: k_def i_def)
qed

lemma effect_mono: "put_effect ops V es c r es' \<Longrightarrow> V \<subseteq> W \<Longrightarrow> put_effect ops W es c r es'"
  by (auto simp: put_effect_def split: rh_result.splits)

lemma insert_ordered:
  assumes "rh_insert ops msk n es (rh_at msk (s_key ops cur) d) cur d = (r, es')"
    and "rh_ordered ops msk es" and "length es = Suc msk" and "r \<noteq> RhEvicted" and "s_occ ops cur"
    and "rh_path ops msk es (s_key ops cur) d" and "d + n \<le> Suc msk"
    and "d + n = Suc msk \<or> rh_absent ops es (s_key ops cur)"
  shows "rh_ordered ops msk es' \<and> put_effect ops (rh_victims ops msk es (s_key ops cur) d n) es cur r es' \<and>
     (rh_absent ops es (s_key ops cur) \<longrightarrow> r \<noteq> RhUpdated)"
  using assms
proof (induction n arbitrary: es cur d)
  case 0
  then have "rh_absent ops es (s_key ops cur)"
    using path_end_absent [OF 0(2,3,6)] by auto
  then have "rh_map ops es (s_key ops cur) = None" using absent_map [OF 0(2,3)] by simp
  then have "((rh_map ops es)(s_key ops cur \<mapsto> cur))(s_key ops cur := None) = rh_map ops es" by auto
  with 0 \<open>rh_map ops es (s_key ops cur) = None\<close> show ?case
    by (auto simp: put_effect_def rh_victims_def rh_nearer_def intro!: bexI [of _ "s_key ops cur"])
next
  case (Suc n)
  note ord = Suc.prems(2,3)
  let ?h = "s_key ops cur"
  let ?i = "rh_at msk ?h d"
  let ?e = "es ! ?i"
  have d: "d < Suc msk" using Suc.prems(7) by simp
  have i: "?i < Suc msk" by simp
  have alive: "s_occ ops ?e \<Longrightarrow> \<not> s_expired ops ?e"
    using Suc.prems(1,4) by (auto simp: Let_def)
  note upd = map_update [OF ord _ i]
  consider (free) "\<not> s_occ ops ?e" | (same) "s_occ ops ?e" "s_key ops ?e = ?h"
    | (swap) "s_occ ops ?e" "s_key ops ?e \<noteq> ?h" "probe_distance msk (s_key ops ?e) ?i < d"
    | (skip) "s_occ ops ?e" "s_key ops ?e \<noteq> ?h" "d \<le> probe_distance msk (s_key ops ?e) ?i"
    by linarith
  then show ?case
  proof cases
    case free
    then have es': "es' = es[?i := cur]" "r = RhInserted" using Suc.prems(1) by (auto simp: Let_def)
    have o': "rh_ordered ops msk es'"
      unfolding es' using free by (intro place_ordered [OF ord Suc.prems(6) d]) (simp_all add: Suc.prems(5))
    have "rh_absent ops es ?h" using path_end_absent [OF ord Suc.prems(6)] free d by simp
    then show ?thesis
      using upd [of cur] o' free Suc.prems(5) absent_map [OF ord] unfolding es'
      by (simp add: put_effect_def)
  next
    case same
    let ?v = "s_merge ops ?e cur"
    have es': "es' = es[?i := ?v]" "r = RhUpdated" using Suc.prems(1) same alive by (auto simp: Let_def)
    have v: "s_occ ops ?v" "s_key ops ?v = ?h" using merge_occ merge_key same by auto
    have o': "rh_ordered ops msk es'"
      unfolding es' using same v by (intro merge_ordered [OF ord i]) simp_all
    have m: "rh_map ops es ?h = Some ?e" using rh_map_iff [OF ord] same i by blast
    then have "\<not> rh_absent ops es ?h" using absent_map [OF ord] by simp
    moreover have "rh_map ops es' = (rh_map ops es)(?h \<mapsto> ?v)"
      using upd [of ?v] o' same v unfolding es' by simp
    ultimately show ?thesis using o' es'(2) m by (simp add: put_effect_def)
  next
    case swap
    let ?es1 = "es[?i := cur]" and ?k = "probe_distance msk (s_key ops ?e) ?i"
    have run: "rh_insert ops msk n ?es1 (rh_at msk (s_key ops ?e) (Suc ?k)) ?e (Suc ?k) = (r, es')"
      using Suc.prems(1) swap alive i
      by (simp add: Let_def) (metis at_dist next_at Suc_eq_plus1 i)
    note dis = displace [OF ord Suc.prems(6) d Suc.prems(5) swap]
    have abs1: "rh_absent ops ?es1 (s_key ops ?e)"
      using absent_map [OF dis(2)] dis(3) swap(2) ord(2) by simp
    have "rh_ordered ops msk es' \<and>
        put_effect ops (rh_victims ops msk ?es1 (s_key ops ?e) (Suc ?k) n) ?es1 ?e r es' \<and> r \<noteq> RhUpdated"
      using Suc.IH [OF run dis(2) _ Suc.prems(4)] abs1 dis(4) swap Suc.prems(7) ord(2) by simp
    moreover have "rh_victims ops msk ?es1 (s_key ops ?e) (Suc ?k) n \<subseteq> rh_victims ops msk es ?h d (Suc n)"
      using Suc.prems(7) swap by (intro swap_victims) simp_all
    moreover have "rh_map ops es (s_key ops ?e) = Some ?e" "rh_map ops es ?h = None"
      using rh_map_iff [OF ord] swap i absent_map [OF ord] dis(1) by blast+
    ultimately show ?thesis using swap_effect dis(3) by blast
  next
    case skip
    then have "rh_insert ops msk n es (rh_at msk ?h (Suc d)) cur (Suc d) = (r, es')"
      using Suc.prems(1) alive by (simp add: Let_def next_at)
    moreover have "rh_nearer ops msk es ?h (Suc d) n = rh_nearer ops msk es ?h d (Suc n)"
      using skip d by (intro nearer_skip) simp
    then have "rh_victims ops msk es ?h (Suc d) n \<subseteq> rh_victims ops msk es ?h d (Suc n)"
      by (simp add: rh_victims_def)
    ultimately show ?thesis
      using Suc.IH [OF _ ord Suc.prems(4,5) path_extend [OF Suc.prems(6)]] skip Suc.prems(7,8)
      by (auto intro: effect_mono)
  qed
qed

text \<open>Without expired entries nothing is reclaimed.\<close>

lemma insert_not_evicted:
  "rh_insert ops msk n es (rh_at msk h p) c d = (r, es') \<Longrightarrow> length es = Suc msk \<Longrightarrow> rh_live ops es \<Longrightarrow>
   \<not> s_expired ops c \<Longrightarrow> r \<noteq> RhEvicted"
proof (induction n arbitrary: es c d p)
  case (Suc n)
  have "s_occ ops (es ! rh_at msk h p) \<Longrightarrow> \<not> s_expired ops (es ! rh_at msk h p)"
    using live_nth [OF Suc.prems(3)] Suc.prems(2) by simp
  then show ?case
    using Suc.prems Suc.IH [of "es[rh_at msk h p := c]" "Suc p"] Suc.IH [of es "Suc p"] live_update [OF Suc.prems(3,4)]
    by (auto simp: Let_def next_at split: if_splits)
qed auto

lemma put_ordered:
  assumes "rh_put ops msk es cur = (r, es')"
    and "rh_ordered ops msk es" and "length es = Suc msk" and "s_occ ops cur" and "r \<noteq> RhEvicted"
  shows "rh_ordered ops msk es' \<and> put_effect ops {v. rh_victim ops msk es (s_key ops cur) v} es cur r es'"
proof -
  have "rh_ordered ops msk es' \<and> put_effect ops (rh_victims ops msk es (s_key ops cur) 0 (Suc msk)) es cur r es'"
    using assms insert_ordered [of "Suc msk" es cur 0] unfolding rh_put_def home_at
    by (simp add: rh_path_def del: rh_insert.simps)
  moreover have "rh_victims ops msk es (s_key ops cur) 0 (Suc msk) \<subseteq> {v. rh_victim ops msk es (s_key ops cur) v}"
    using victims_victim [OF assms(3)] by blast
  ultimately show ?thesis by (blast intro: effect_mono)
qed

lemma put_not_evicted:
  "rh_put ops msk es cur = (r, es') \<Longrightarrow> length es = Suc msk \<Longrightarrow> rh_live ops es \<Longrightarrow> \<not> s_expired ops cur \<Longrightarrow>
   r \<noteq> RhEvicted"
  unfolding rh_put_def home_at by (rule insert_not_evicted)

subsection \<open>The number of occupied slots\<close>

lemma insert_count:
  assumes "length es = Suc msk" and "s_occ ops cur" and "rh_insert ops msk n es (rh_at msk h d) cur k = (r, es')"
  shows "length (filter (s_occ ops) es') =
     length (filter (s_occ ops) es) + (if r = RhInserted then 1 else 0)"
  using assms
proof (induction n arbitrary: es cur d k)
  case (Suc n)
  let ?i = "rh_at msk h d"
  have i: "?i < length es" using Suc.prems(1) by simp
  note cnt = count_update [OF i, of "s_occ ops"]
  show ?case
  proof (cases "s_occ ops (es ! ?i) \<and> \<not> s_expired ops (es ! ?i) \<and> s_key ops (es ! ?i) \<noteq> s_key ops cur")
    case True
    then show ?thesis
      using Suc.prems Suc.IH [of "es[?i := cur]" "es ! ?i" "Suc d"] Suc.IH [of es cur "Suc d"] cnt [of cur]
      by (auto simp: Let_def next_at split: if_splits)
  next
    case False
    then show ?thesis
      using Suc.prems cnt [of cur] cnt [of "s_merge ops (es ! ?i) cur"] merge_occ
      by (auto simp: Let_def split: if_splits)
  qed
qed simp

lemma put_count:
  "length es = Suc msk \<Longrightarrow> s_occ ops cur \<Longrightarrow> rh_put ops msk es cur = (r, es') \<Longrightarrow>
   length (filter (s_occ ops) es') = length (filter (s_occ ops) es) + (if r = RhInserted then 1 else 0)"
  unfolding rh_put_def home_at by (rule insert_count)

subsection \<open>Only a full table refuses\<close>

lemma insert_dropped:
  "rh_insert ops msk n es (rh_at msk h p) c d = (RhDropped, es') \<Longrightarrow> p + n \<le> Suc msk \<Longrightarrow>
   p \<le> q \<Longrightarrow> q < p + n \<Longrightarrow> s_occ ops (es ! rh_at msk h q)"
proof (induction n arbitrary: es c d p)
  case (Suc n)
  let ?i = "rh_at msk h p"
  have occ: "s_occ ops (es ! ?i)" using Suc.prems(1) by (auto simp: Let_def split: if_splits)
  show ?case
  proof (cases "q = p")
    case False
    then have q: "Suc p \<le> q" "q < Suc p + n" "Suc p + n \<le> Suc msk" using Suc.prems by simp_all
    then have "?i \<noteq> rh_at msk h q" by (simp add: at_eq_iff)
    then show ?thesis
      using Suc.prems(1) Suc.IH [of "es[?i := c]" "Suc p"] Suc.IH [of es "Suc p"] q
      by (auto simp: Let_def next_at split: if_splits)
  qed (use occ in simp)
qed simp

lemma put_dropped:
  assumes "rh_put ops msk es cur = (RhDropped, es')" and "i < Suc msk"
  shows "s_occ ops (es ! i)"
  using insert_dropped [of "Suc msk" es "s_key ops cur" 0 cur 0 es' "probe_distance msk (s_key ops cur) i"]
    assms unfolding rh_put_def home_at by (simp del: rh_insert.simps)

lemma put_full:
  assumes "rh_put ops msk es cur = (r, es')" and "length es = Suc msk" and "s_occ ops cur"
    and "list_all (s_occ ops) es"
  shows "r \<noteq> RhInserted"
proof -
  have "length es' = Suc msk" using assms(1,2) insert_length unfolding rh_put_def by (metis snd_conv)
  then have "length (filter (s_occ ops) es') \<le> Suc msk" by (metis length_filter_le)
  moreover have "filter (s_occ ops) es = es" using assms(4) by (simp add: list_all_iff filter_id_conv)
  ultimately show ?thesis using put_count [OF assms(2,3,1)] assms(2) by auto
qed

text \<open>
  An insertion into an ordered table, as long as it reclaims nothing, is an update of the map: a known
  flow is merged, a new one is added where a slot is free, and a full table pays for it with one flow.
\<close>

lemma put_map:
  assumes "rh_put ops msk es cur = (r, es')"
    and "rh_ordered ops msk es" and "length es = Suc msk" and "s_occ ops cur" and "r \<noteq> RhEvicted"
  shows "rh_ordered ops msk es' \<and>
     (case rh_map ops es (s_key ops cur) of
        Some e \<Rightarrow> r = RhUpdated \<and> rh_map ops es' = (rh_map ops es)(s_key ops cur \<mapsto> s_merge ops e cur)
      | None \<Rightarrow>
          if list_all (s_occ ops) es
          then r = RhDropped \<and> (\<exists>v. rh_victim ops msk es (s_key ops cur) v \<and>
            rh_map ops es' = ((rh_map ops es)(s_key ops cur \<mapsto> cur))(v := None))
          else r = RhInserted \<and> rh_map ops es' = (rh_map ops es)(s_key ops cur \<mapsto> cur))"
proof -
  have eff: "put_effect ops {v. rh_victim ops msk es (s_key ops cur) v} es cur r es'" "rh_ordered ops msk es'"
    using put_ordered [OF assms] by simp_all
  have full: "r = RhDropped \<Longrightarrow> list_all (s_occ ops) es"
    using put_dropped assms(1,3) by (auto simp: list_all_length)
  show ?thesis
    using eff full put_full [OF assms(1,3,4)] assms(5)
    by (auto simp: put_effect_def split: rh_result.splits option.splits)
qed

end

end
