(* ===== verification/ConnTable.thy ===== *)
theory ConnTable
  imports NetTypes Packet RobinHood
begin

text \<open>
  The per-thread connection table (crate lb-forwarder, conn_table.rs). The operations are written
  out as in the source, with every array access checked; they are then shown to run the generic
  algorithm of \<^verbatim>\<open>RobinHood\<close> on entries whose merge is \<open>conn_merge\<close>, so the results proved in
  the locale \<open>robin_hood\<close> hold of them. \<open>conn_map\<close> is the abstract view, a finite map.
\<close>

record conn_entry =
  ce_hash :: u64
  ce_backend_ip :: ip_addr
  ce_last_seen :: instant
  ce_proto :: flow_proto
  ce_tcp_state :: tcp_flow_state
  ce_occupied :: bool

datatype insert_result = Inserted | Updated | EvictedExpired | DroppedFull

record conn_table =
  ct_entries :: "conn_entry list"
  ct_mask :: nat
  ct_ttls :: conn_ttls
  ct_size :: nat

definition conn_entry_empty :: "instant \<Rightarrow> conn_entry" where
  "conn_entry_empty init_time =
     \<lparr>ce_hash = 0, ce_backend_ip = V4 unspecified4, ce_last_seen = init_time,
      ce_proto = FOther, ce_tcp_state = NotTcp, ce_occupied = False\<rparr>"

definition conn_table_new :: "nat \<Rightarrow> conn_ttls \<Rightarrow> instant \<Rightarrow> conn_table panics" where
  "conn_table_new capacity ttls init_time =
     (if is_power_of_two capacity
      then Some \<lparr>ct_entries = replicate capacity (conn_entry_empty init_time),
                 ct_mask = capacity - 1, ct_ttls = ttls, ct_size = 0\<rparr>
      else None)"

definition conn_capacity :: "conn_table \<Rightarrow> nat" where
  "conn_capacity t = ct_mask t + 1"

definition ttl_for :: "conn_ttls \<Rightarrow> flow_proto \<Rightarrow> tcp_flow_state \<Rightarrow> duration" where
  "ttl_for ttls pr st =
     (case (pr, st) of
        (FTcp, Handshake) \<Rightarrow> ttl_tcp_handshake ttls
      | (FTcp, Closing) \<Rightarrow> ttl_tcp_closing ttls
      | (FTcp, _) \<Rightarrow> ttl_tcp_established ttls
      | (FUdp, _) \<Rightarrow> ttl_udp ttls
      | (FOther, _) \<Rightarrow> ttl_other ttls)"

definition conn_is_expired :: "conn_ttls \<Rightarrow> conn_entry \<Rightarrow> instant \<Rightarrow> bool" where
  "conn_is_expired ttls e now \<longleftrightarrow>
     ttl_for ttls (ce_proto e) (ce_tcp_state e) < duration_since now (ce_last_seen e)"

definition promote_state :: "tcp_flow_state \<Rightarrow> tcp_flow_state \<Rightarrow> tcp_flow_state" where
  "promote_state existing incoming =
     (if existing = Closing \<or> incoming = Closing then Closing
      else if existing = Established \<or> incoming = Established then Established
      else if existing = NotTcp \<or> incoming = NotTcp then NotTcp
      else Handshake)"

subsection \<open>Lookup\<close>

fun conn_get_loop :: "conn_table \<Rightarrow> u64 \<Rightarrow> instant \<Rightarrow> nat \<Rightarrow> nat \<Rightarrow> nat \<Rightarrow> ip_addr option panics" where
  "conn_get_loop t hash now 0 idx dist = Some None"
| "conn_get_loop t hash now (Suc n) idx dist =
     (case byte_at (ct_entries t) idx of
        None \<Rightarrow> None
      | Some e \<Rightarrow>
          if \<not> ce_occupied e then Some None
          else if probe_distance (ct_mask t) (ce_hash e) idx < dist then Some None
          else if ce_hash e = hash
          then Some (if conn_is_expired (ct_ttls t) e now then None else Some (ce_backend_ip e))
          else conn_get_loop t hash now n (next_slot (ct_mask t) idx) (dist + 1))"

definition conn_get :: "conn_table \<Rightarrow> u64 \<Rightarrow> instant \<Rightarrow> ip_addr option panics" where
  "conn_get t hash now = conn_get_loop t hash now (conn_capacity t) (home_slot (ct_mask t) hash) 0"

subsection \<open>Insertion\<close>

fun conn_insert_loop ::
  "conn_table \<Rightarrow> instant \<Rightarrow> nat \<Rightarrow> nat \<Rightarrow> conn_entry \<Rightarrow> nat \<Rightarrow> bool \<Rightarrow> (insert_result \<times> conn_table) panics" where
  "conn_insert_loop t now 0 idx cur dist reclaimed = Some (DroppedFull, t)"
| "conn_insert_loop t now (Suc n) idx cur dist reclaimed =
     (case byte_at (ct_entries t) idx of
        None \<Rightarrow> None
      | Some e \<Rightarrow>
          if \<not> ce_occupied e
          then Some (if reclaimed then EvictedExpired else Inserted,
                     t\<lparr>ct_entries := (ct_entries t)[idx := cur], ct_size := ct_size t + 1\<rparr>)
          else if conn_is_expired (ct_ttls t) e now
          then Some (EvictedExpired, t\<lparr>ct_entries := (ct_entries t)[idx := cur]\<rparr>)
          else if ce_hash e = ce_hash cur
          then Some (Updated, t\<lparr>ct_entries := (ct_entries t)[idx :=
                 e\<lparr>ce_backend_ip := ce_backend_ip cur, ce_last_seen := ce_last_seen cur,
                   ce_proto := ce_proto cur,
                   ce_tcp_state := promote_state (ce_tcp_state e) (ce_tcp_state cur)\<rparr>]\<rparr>)
          else let incumbent_dist = probe_distance (ct_mask t) (ce_hash e) idx in
            if incumbent_dist < dist
            then conn_insert_loop (t\<lparr>ct_entries := (ct_entries t)[idx := cur]\<rparr>) now n
                   (next_slot (ct_mask t) idx) e (incumbent_dist + 1) (reclaimed \<or> False)
            else conn_insert_loop t now n (next_slot (ct_mask t) idx) cur (dist + 1) (reclaimed \<or> False))"

definition conn_insert ::
  "conn_table \<Rightarrow> u64 \<Rightarrow> ip_addr \<Rightarrow> flow_proto \<Rightarrow> tcp_flow_state \<Rightarrow> instant \<Rightarrow>
   (insert_result \<times> conn_table) panics" where
  "conn_insert t hash backend pr st now =
     conn_insert_loop t now (conn_capacity t) (home_slot (ct_mask t) hash)
       \<lparr>ce_hash = hash, ce_backend_ip = backend, ce_last_seen = now, ce_proto = pr,
        ce_tcp_state = st, ce_occupied = True\<rparr> 0 False"

subsection \<open>Updates of a present flow\<close>

fun conn_touch_loop :: "conn_table \<Rightarrow> u64 \<Rightarrow> instant \<Rightarrow> nat \<Rightarrow> nat \<Rightarrow> nat \<Rightarrow> conn_table panics" where
  "conn_touch_loop t hash now 0 idx dist = Some t"
| "conn_touch_loop t hash now (Suc n) idx dist =
     (case byte_at (ct_entries t) idx of
        None \<Rightarrow> None
      | Some e \<Rightarrow>
          if \<not> ce_occupied e then Some t
          else if probe_distance (ct_mask t) (ce_hash e) idx < dist then Some t
          else if ce_hash e = hash
          then Some (t\<lparr>ct_entries := (ct_entries t)[idx := e\<lparr>ce_last_seen := now\<rparr>]\<rparr>)
          else conn_touch_loop t hash now n (next_slot (ct_mask t) idx) (dist + 1))"

definition conn_touch :: "conn_table \<Rightarrow> u64 \<Rightarrow> instant \<Rightarrow> conn_table panics" where
  "conn_touch t hash now = conn_touch_loop t hash now (conn_capacity t) (home_slot (ct_mask t) hash) 0"

fun with_matching_loop ::
  "conn_table \<Rightarrow> u64 \<Rightarrow> (conn_entry \<Rightarrow> conn_entry) \<Rightarrow> nat \<Rightarrow> nat \<Rightarrow> nat \<Rightarrow> conn_table panics" where
  "with_matching_loop t hash f 0 idx dist = Some t"
| "with_matching_loop t hash f (Suc n) idx dist =
     (case byte_at (ct_entries t) idx of
        None \<Rightarrow> None
      | Some e \<Rightarrow>
          if \<not> ce_occupied e then Some t
          else if probe_distance (ct_mask t) (ce_hash e) idx < dist then Some t
          else if ce_hash e \<noteq> hash
          then with_matching_loop t hash f n (next_slot (ct_mask t) idx) (dist + 1)
          else Some (t\<lparr>ct_entries := (ct_entries t)[idx := f e]\<rparr>))"

definition with_matching_entry :: "conn_table \<Rightarrow> u64 \<Rightarrow> (conn_entry \<Rightarrow> conn_entry) \<Rightarrow> conn_table panics" where
  "with_matching_entry t hash f =
     with_matching_loop t hash f (conn_capacity t) (home_slot (ct_mask t) hash) 0"

definition mark_established :: "conn_table \<Rightarrow> u64 \<Rightarrow> instant \<Rightarrow> conn_table panics" where
  "mark_established t hash now = with_matching_entry t hash
     (\<lambda>e. if ce_proto e = FTcp \<and> ce_tcp_state e \<noteq> Closing
          then e\<lparr>ce_tcp_state := Established, ce_last_seen := now\<rparr> else e)"

definition mark_closing :: "conn_table \<Rightarrow> u64 \<Rightarrow> instant \<Rightarrow> conn_table panics" where
  "mark_closing t hash now = with_matching_entry t hash
     (\<lambda>e. if ce_proto e = FTcp
          then e\<lparr>ce_tcp_state := Closing, ce_last_seen := now\<rparr> else e)"

definition conn_len :: "conn_table \<Rightarrow> nat" where
  "conn_len t = ct_size t"

definition conn_is_empty :: "conn_table \<Rightarrow> bool" where
  "conn_is_empty t \<longleftrightarrow> ct_size t = 0"

definition fill_bp :: "conn_table \<Rightarrow> int" where
  "fill_bp t = (int (ct_size t) * 10000) div int (conn_capacity t)"

subsection \<open>The operations run the generic algorithm\<close>

definition conn_merge :: "conn_entry \<Rightarrow> conn_entry \<Rightarrow> conn_entry" where
  "conn_merge e c = e\<lparr>ce_backend_ip := ce_backend_ip c, ce_last_seen := ce_last_seen c,
     ce_proto := ce_proto c, ce_tcp_state := promote_state (ce_tcp_state e) (ce_tcp_state c)\<rparr>"

definition conn_ops :: "conn_ttls \<Rightarrow> instant \<Rightarrow> conn_entry slot_ops" where
  "conn_ops ttls now = \<lparr>s_occ = ce_occupied, s_key = ce_hash,
     s_expired = (\<lambda>e. conn_is_expired ttls e now), s_merge = conn_merge\<rparr>"

lemma conn_ops_sel [simp]:
  "s_occ (conn_ops ttls now) = ce_occupied" "s_key (conn_ops ttls now) = ce_hash"
  "s_expired (conn_ops ttls now) e \<longleftrightarrow> conn_is_expired ttls e now"
  "s_merge (conn_ops ttls now) = conn_merge"
  by (simp_all add: conn_ops_def)

lemma conn_merge_sel [simp]:
  "ce_occupied (conn_merge e c) = ce_occupied e" "ce_hash (conn_merge e c) = ce_hash e"
  "ce_backend_ip (conn_merge e c) = ce_backend_ip c" "ce_last_seen (conn_merge e c) = ce_last_seen c"
  "ce_proto (conn_merge e c) = ce_proto c"
  "ce_tcp_state (conn_merge e c) = promote_state (ce_tcp_state e) (ce_tcp_state c)"
  by (simp_all add: conn_merge_def)

interpretation conn_rh: robin_hood "conn_ops ttls now" "min b 63" "2 ^ min b 63 - 1" for ttls now b
  by unfold_locales simp_all

definition conn_table_wf :: "conn_table \<Rightarrow> bool" where
  "conn_table_wf t \<longleftrightarrow> is_power_of_two (ct_mask t + 1) \<and> length (ct_entries t) = ct_mask t + 1 \<and>
     ct_size t = length (filter ce_occupied (ct_entries t))"

lemma power_of_two_mask:
  assumes "is_power_of_two (m + 1)"
  obtains b where "m = 2 ^ min b 63 - 1"
proof -
  from assms obtain b where b: "b < 64" "m + 1 = 2 ^ b" by (auto simp: is_power_of_two_def)
  then have "min b 63 = b" "m = 2 ^ b - 1" by simp_all
  then show ?thesis using that [of b] by simp
qed

lemma conn_wf_mask:
  assumes "conn_table_wf t"
  obtains b where "ct_mask t = 2 ^ min b 63 - 1"
  using power_of_two_mask assms unfolding conn_table_wf_def by blast

definition conn_result :: "rh_result \<Rightarrow> insert_result" where
  "conn_result r = (case r of RhInserted \<Rightarrow> Inserted | RhUpdated \<Rightarrow> Updated
     | RhEvicted \<Rightarrow> EvictedExpired | RhDropped \<Rightarrow> DroppedFull)"

definition conn_after :: "conn_table \<Rightarrow> rh_result \<times> conn_entry list \<Rightarrow> insert_result \<times> conn_table" where
  "conn_after t p = (conn_result (fst p), t\<lparr>ct_entries := snd p,
     ct_size := (if fst p = RhInserted then ct_size t + 1 else ct_size t)\<rparr>)"

lemma conn_insert_loop_eq:
  assumes "ct_mask t = 2 ^ b - 1" and "length (ct_entries t) = Suc (ct_mask t)" and "idx < Suc (ct_mask t)"
  shows "conn_insert_loop t now n idx cur dist False =
     Some (conn_after t (rh_insert (conn_ops (ct_ttls t) now) (ct_mask t) n (ct_entries t) idx cur dist))"
  using assms
proof (induction n arbitrary: t idx cur dist)
  case 0
  then show ?case by (simp add: conn_after_def conn_result_def)
next
  case (Suc n)
  have nx: "next_slot (ct_mask t) idx < Suc (ct_mask t)" using probe_facts Suc.prems(1) by blast
  have upd: "t\<lparr>ct_entries := es, ct_size := ct_size t\<rparr> = t\<lparr>ct_entries := es\<rparr>" for es by simp
  show ?case
    using Suc.prems nx Suc.IH [of t] Suc.IH [of "t\<lparr>ct_entries := (ct_entries t)[idx := cur]\<rparr>"]
    by (simp add: Let_def conn_after_def conn_result_def conn_merge_def)
qed

lemma find_lookup:
  assumes "ct_mask t = 2 ^ b - 1" and "length (ct_entries t) = Suc (ct_mask t)" and "idx < Suc (ct_mask t)"
  shows "conn_get_loop t h now n idx dist =
     Some (case rh_find (conn_ops (ct_ttls t) now) (ct_mask t) n (ct_entries t) h idx dist of
       None \<Rightarrow> None
     | Some i \<Rightarrow> if conn_is_expired (ct_ttls t) (ct_entries t ! i) now then None
                 else Some (ce_backend_ip (ct_entries t ! i)))"
    "with_matching_loop t h f n idx dist =
     Some (case rh_find (conn_ops (ct_ttls t) now) (ct_mask t) n (ct_entries t) h idx dist of
       None \<Rightarrow> t | Some i \<Rightarrow> t\<lparr>ct_entries := (ct_entries t)[i := f (ct_entries t ! i)]\<rparr>)"
    "conn_touch_loop t h now n idx dist = with_matching_loop t h (\<lambda>e. e\<lparr>ce_last_seen := now\<rparr>) n idx dist"
  using assms probe_facts(2) [OF assms(1)]
  by (induction n arbitrary: idx dist) (simp_all add: Let_def)

lemma conn_ops_eq:
  assumes wf: "conn_table_wf t"
  shows "conn_get t h now =
     Some (case rh_lookup (conn_ops (ct_ttls t) now) (ct_mask t) (ct_entries t) h of
       None \<Rightarrow> None
     | Some i \<Rightarrow> if conn_is_expired (ct_ttls t) (ct_entries t ! i) now then None
                 else Some (ce_backend_ip (ct_entries t ! i)))"
    and "with_matching_entry t h f =
     Some (case rh_lookup (conn_ops (ct_ttls t) now) (ct_mask t) (ct_entries t) h of
       None \<Rightarrow> t | Some i \<Rightarrow> t\<lparr>ct_entries := (ct_entries t)[i := f (ct_entries t ! i)]\<rparr>)"
    and "conn_touch t h now = with_matching_entry t h (\<lambda>e. e\<lparr>ce_last_seen := now\<rparr>)"
    and "conn_insert t h ip pr st now =
     Some (conn_after t (rh_put (conn_ops (ct_ttls t) now) (ct_mask t) (ct_entries t)
       \<lparr>ce_hash = h, ce_backend_ip = ip, ce_last_seen = now, ce_proto = pr,
        ce_tcp_state = st, ce_occupied = True\<rparr>))"
proof -
  obtain b where m: "ct_mask t = 2 ^ b - 1" using wf by (rule conn_wf_mask)
  have l: "length (ct_entries t) = Suc (ct_mask t)" using wf by (simp add: conn_table_wf_def)
  have h: "home_slot (ct_mask t) h < Suc (ct_mask t)" using probe_facts(1) [OF m] .
  note find = find_lookup [OF m l h]
  show "conn_get t h now = Some (case rh_lookup (conn_ops (ct_ttls t) now) (ct_mask t) (ct_entries t) h of
       None \<Rightarrow> None
     | Some i \<Rightarrow> if conn_is_expired (ct_ttls t) (ct_entries t ! i) now then None
                 else Some (ce_backend_ip (ct_entries t ! i)))"
    "with_matching_entry t h f =
     Some (case rh_lookup (conn_ops (ct_ttls t) now) (ct_mask t) (ct_entries t) h of
       None \<Rightarrow> t | Some i \<Rightarrow> t\<lparr>ct_entries := (ct_entries t)[i := f (ct_entries t ! i)]\<rparr>)"
    "conn_touch t h now = with_matching_entry t h (\<lambda>e. e\<lparr>ce_last_seen := now\<rparr>)"
    by (simp_all only: conn_get_def with_matching_entry_def conn_touch_def rh_lookup_def
        conn_capacity_def Suc_eq_plus1 [symmetric] find)
  show "conn_insert t h ip pr st now =
     Some (conn_after t (rh_put (conn_ops (ct_ttls t) now) (ct_mask t) (ct_entries t)
       \<lparr>ce_hash = h, ce_backend_ip = ip, ce_last_seen = now, ce_proto = pr,
        ce_tcp_state = st, ce_occupied = True\<rparr>))"
    by (simp only: conn_insert_def rh_put_def conn_ops_sel conn_entry.simps
        conn_capacity_def Suc_eq_plus1 [symmetric] conn_insert_loop_eq [OF m l h])
qed

subsection \<open>The abstract view\<close>

definition conn_map :: "conn_table \<Rightarrow> u64 \<rightharpoonup> conn_entry" where
  "conn_map t = map_of (map (\<lambda>e. (ce_hash e, e)) (filter ce_occupied (ct_entries t)))"

definition conn_ordered :: "conn_table \<Rightarrow> bool" where
  "conn_ordered t \<longleftrightarrow> rh_ordered (conn_ops (ct_ttls t) 0) (ct_mask t) (ct_entries t)"

definition conn_live :: "conn_table \<Rightarrow> instant \<Rightarrow> bool" where
  "conn_live t now \<longleftrightarrow>
     list_all (\<lambda>e. ce_occupied e \<longrightarrow> \<not> conn_is_expired (ct_ttls t) e now) (ct_entries t)"

lemma conn_map_rh: "conn_map t = rh_map (conn_ops ttls now) (ct_entries t)"
  by (simp add: conn_map_def rh_map_def)

lemma conn_ordered_rh:
  "conn_ordered t \<longleftrightarrow> rh_ordered (conn_ops ttls now) (ct_mask t) (ct_entries t)"
  by (simp add: conn_ordered_def rh_ordered_def rh_path_def)

lemma conn_live_rh: "conn_live t now \<longleftrightarrow> rh_live (conn_ops (ct_ttls t) now) (ct_entries t)"
  by (simp add: conn_live_def rh_live_def)

lemma conn_wf_length: "conn_table_wf t \<Longrightarrow> length (ct_entries t) = Suc (ct_mask t)"
  by (simp add: conn_table_wf_def)

lemma conn_fresh [simp]: "\<not> conn_is_expired ttls e (ce_last_seen e)"
  by (simp add: conn_is_expired_def)

lemma conn_table_new_wf:
  assumes "conn_table_new capacity ttls init_time = Some t"
  shows "conn_table_wf t" "conn_ordered t" "conn_map t = Map.empty" "conn_live t now" "ct_ttls t = ttls"
proof -
  have p: "is_power_of_two capacity" "t = \<lparr>ct_entries = replicate capacity (conn_entry_empty init_time),
      ct_mask = capacity - 1, ct_ttls = ttls, ct_size = 0\<rparr>"
    using assms by (simp_all add: conn_table_new_def split: if_splits)
  then have "capacity - 1 + 1 = capacity" by (auto simp: is_power_of_two_def)
  then show "conn_table_wf t" "conn_ordered t" "conn_map t = Map.empty" "conn_live t now" "ct_ttls t = ttls"
    using p by (simp_all add: conn_table_wf_def conn_ordered_def rh_ordered_def conn_map_def
        conn_live_def list_all_length conn_entry_empty_def)
qed

text \<open>Replacing a found entry by one of the same flow.\<close>

lemma conn_update_entry:
  assumes wf: "conn_table_wf t"
    and i: "i < Suc (ct_mask t)" "ce_occupied (ct_entries t ! i)"
    and v: "ce_occupied v" "ce_hash v = ce_hash (ct_entries t ! i)"
  shows "conn_table_wf (t\<lparr>ct_entries := (ct_entries t)[i := v]\<rparr>)"
    and "conn_ordered t \<Longrightarrow> conn_ordered (t\<lparr>ct_entries := (ct_entries t)[i := v]\<rparr>)"
    and "conn_ordered t \<Longrightarrow>
      conn_map (t\<lparr>ct_entries := (ct_entries t)[i := v]\<rparr>) = (conn_map t)(ce_hash v \<mapsto> v)"
proof -
  obtain b where m: "ct_mask t = 2 ^ min b 63 - 1" using wf by (rule conn_wf_mask)
  note len = conn_wf_length [OF wf]
  show "conn_table_wf (t\<lparr>ct_entries := (ct_entries t)[i := v]\<rparr>)"
    using wf i v count_update [of i "ct_entries t" ce_occupied v] by (simp add: conn_table_wf_def)
  let ?ops = "conn_ops (ct_ttls t) 0"
  have o': "rh_ordered ?ops (ct_mask t) ((ct_entries t)[i := v])" if "conn_ordered t"
    using conn_rh.merge_ordered [where b = b, folded m, of "ct_ttls t" 0 "ct_entries t" i v] that len i v
    by (simp add: conn_ordered_def)
  then show "conn_ordered t \<Longrightarrow> conn_ordered (t\<lparr>ct_entries := (ct_entries t)[i := v]\<rparr>)"
    by (simp add: conn_ordered_def)
  show "conn_map (t\<lparr>ct_entries := (ct_entries t)[i := v]\<rparr>) = (conn_map t)(ce_hash v \<mapsto> v)"
    if "conn_ordered t"
    using conn_rh.map_update [where b = b, folded m, of "ct_ttls t" 0 "ct_entries t" i v] that len i v o'
    by (simp add: conn_ordered_def conn_map_rh [of _ "ct_ttls t" 0])
qed

lemma conn_lookup_map:
  assumes wf: "conn_table_wf t" and "conn_ordered t"
  shows "conn_map t h = map_option ((!) (ct_entries t))
     (rh_lookup (conn_ops (ct_ttls t) now) (ct_mask t) (ct_entries t) h)"
proof -
  obtain b where m: "ct_mask t = 2 ^ min b 63 - 1" using wf by (rule conn_wf_mask)
  show ?thesis
    using conn_rh.rh_map_lookup [where b = b, folded m, of "ct_ttls t" now "ct_entries t" h]
      assms(2) conn_wf_length [OF wf]
    by (simp add: conn_map_rh [of t "ct_ttls t" now] conn_ordered_rh [of t "ct_ttls t" now])
qed

lemma conn_lookup_Some:
  assumes wf: "conn_table_wf t" and "rh_lookup (conn_ops ttls now) (ct_mask t) (ct_entries t) h = Some i"
  shows "i < Suc (ct_mask t)" "ce_occupied (ct_entries t ! i)" "ce_hash (ct_entries t ! i) = h"
proof -
  obtain b where m: "ct_mask t = 2 ^ min b 63 - 1" using wf by (rule conn_wf_mask)
  show "i < Suc (ct_mask t)" "ce_occupied (ct_entries t ! i)" "ce_hash (ct_entries t ! i) = h"
    using conn_rh.lookup_Some [where b = b, folded m, OF assms(2)] by simp_all
qed

lemma with_matching_entry_spec:
  assumes wf: "conn_table_wf t" and f: "\<And>e. ce_occupied (f e) = ce_occupied e" "\<And>e. ce_hash (f e) = ce_hash e"
  obtains t' where "with_matching_entry t h f = Some t'" and "conn_table_wf t'"
    and "ct_size t' = ct_size t" and "ct_ttls t' = ct_ttls t" and "ct_mask t' = ct_mask t"
    and "conn_ordered t \<Longrightarrow> conn_ordered t'"
    and "conn_ordered t \<Longrightarrow> conn_map t' = (case conn_map t h of None \<Rightarrow> conn_map t
           | Some e \<Rightarrow> (conn_map t)(h \<mapsto> f e))"
proof (cases "rh_lookup (conn_ops (ct_ttls t) 0) (ct_mask t) (ct_entries t) h")
  case None
  then show ?thesis
    using that [of t] wf conn_ops_eq(2) [OF wf, of h f 0] conn_lookup_map [OF wf, of h 0] by simp
next
  case (Some i)
  note i = conn_lookup_Some [OF wf Some]
  let ?t = "t\<lparr>ct_entries := (ct_entries t)[i := f (ct_entries t ! i)]\<rparr>"
  have "conn_map ?t = (conn_map t)(h \<mapsto> f (ct_entries t ! i))" if "conn_ordered t"
    using conn_update_entry(3) [OF wf i(1,2), of "f (ct_entries t ! i)"] i f that by simp
  then show ?thesis
    using that [of ?t] conn_ops_eq(2) [OF wf, of h f 0] conn_lookup_map [OF wf, of h 0] Some
      conn_update_entry(1,2) [OF wf i(1,2), of "f (ct_entries t ! i)"] i f by simp
qed

subsection \<open>What the operations promise\<close>

lemma power_of_two_4: "is_power_of_two 4"
  unfolding is_power_of_two_def by (rule exI [of _ 2]) simp

definition new_conn_entry :: "u64 \<Rightarrow> ip_addr \<Rightarrow> flow_proto \<Rightarrow> tcp_flow_state \<Rightarrow> instant \<Rightarrow> conn_entry" where
  "new_conn_entry h ip pr st now = \<lparr>ce_hash = h, ce_backend_ip = ip, ce_last_seen = now, ce_proto = pr,
     ce_tcp_state = st, ce_occupied = True\<rparr>"

lemma conn_fresh_at: "ce_last_seen e = now \<Longrightarrow> \<not> conn_is_expired ttls e now"
  by (auto simp: conn_is_expired_def)

lemma conn_insert_total:
  assumes wf: "conn_table_wf t"
  obtains r es t' where "conn_insert t h ip pr st now = Some (conn_result r, t')"
    and "rh_put (conn_ops (ct_ttls t) now) (ct_mask t) (ct_entries t) (new_conn_entry h ip pr st now) = (r, es)"
    and "t' = t\<lparr>ct_entries := es, ct_size := (if r = RhInserted then ct_size t + 1 else ct_size t)\<rparr>"
    and "conn_table_wf t'" and "ct_ttls t' = ct_ttls t" and "ct_mask t' = ct_mask t"
proof -
  obtain b where m: "ct_mask t = 2 ^ min b 63 - 1" using wf by (rule conn_wf_mask)
  let ?ops = "conn_ops (ct_ttls t) now" and ?c = "new_conn_entry h ip pr st now"
  obtain r es where put: "rh_put ?ops (ct_mask t) (ct_entries t) ?c = (r, es)" by fastforce
  define t' where "t' = t\<lparr>ct_entries := es, ct_size := (if r = RhInserted then ct_size t + 1 else ct_size t)\<rparr>"
  have ins: "conn_insert t h ip pr st now = Some (conn_result r, t')"
    using conn_ops_eq(4) [OF wf, of h ip pr st now] put
    by (simp add: conn_after_def new_conn_entry_def t'_def)
  have "length es = Suc (ct_mask t)"
    using conn_rh.insert_length [where b = b, folded m, of "ct_ttls t" now] put conn_wf_length [OF wf]
    by (metis rh_put_def snd_conv)
  moreover have "length (filter ce_occupied es) =
      length (filter ce_occupied (ct_entries t)) + (if r = RhInserted then 1 else 0)"
    using conn_rh.put_count [where b = b, folded m, OF conn_wf_length [OF wf] _ put]
    by (simp add: new_conn_entry_def)
  ultimately have "conn_table_wf t'"
    using wf by (simp add: conn_table_wf_def t'_def)
  with that [of r t' es] put ins show ?thesis by (simp add: t'_def)
qed

lemma conn_insert_get:
  assumes "conn_table_wf t"
  shows "\<exists>r t'. conn_insert t h ip pr st now = Some (r, t') \<and> conn_table_wf t' \<and>
     conn_len t' = conn_len t + (if r = Inserted then 1 else 0) \<and>
     (r \<noteq> DroppedFull \<longrightarrow> conn_get t' h now = Some (Some ip)) \<and>
     (r = DroppedFull \<longrightarrow> list_all ce_occupied (ct_entries t))"
proof -
  obtain b where m: "ct_mask t = 2 ^ min b 63 - 1" using assms by (rule conn_wf_mask)
  let ?ops = "conn_ops (ct_ttls t) now"
  let ?c = "new_conn_entry h ip pr st now"
  obtain r es t' where ins: "conn_insert t h ip pr st now = Some (conn_result r, t')"
    and put: "rh_put ?ops (ct_mask t) (ct_entries t) ?c = (r, es)"
    and t': "t' = t\<lparr>ct_entries := es, ct_size := (if r = RhInserted then ct_size t + 1 else ct_size t)\<rparr>"
    and wf': "conn_table_wf t'"
    using conn_insert_total [OF assms] by metis
  have "conn_get t' h now = Some (Some ip)" if nd: "r \<noteq> RhDropped"
  proof -
    obtain i e where i: "rh_lookup ?ops (ct_mask t) es h = Some i"
      and e: "es ! i = ?c \<or> r = RhUpdated \<and> es ! i = conn_merge e ?c"
      using conn_rh.put_found [where b = b, folded m, OF put nd conn_wf_length [OF assms]]
      by (auto simp: new_conn_entry_def)
    have "ce_last_seen (es ! i) = now" "ce_backend_ip (es ! i) = ip"
      using e by (auto simp: new_conn_entry_def)
    then show ?thesis
      using conn_ops_eq(1) [OF wf', of h now] i by (simp add: t' conn_fresh_at)
  qed
  moreover have "list_all ce_occupied (ct_entries t)" if d: "r = RhDropped"
    using conn_rh.put_dropped [where b = b, folded m, OF put [unfolded d]] conn_wf_length [OF assms]
    by (simp add: list_all_length)
  ultimately show ?thesis using ins wf'
    by (auto simp: t' conn_len_def conn_result_def split: rh_result.splits)
qed

text \<open>An update in place that does not age the entry leaves the lookup's answer.\<close>

lemma with_matching_ok:
  assumes wf: "conn_table_wf t"
    and f: "\<And>e. ce_occupied (f e) = ce_occupied e" "\<And>e. ce_hash (f e) = ce_hash e"
      "\<And>e. ce_backend_ip (f e) = ce_backend_ip e" "\<And>e. f e = e \<or> ce_last_seen (f e) = now"
  shows "\<exists>t'. with_matching_entry t h f = Some t' \<and> conn_table_wf t' \<and>
     (\<forall>ip. conn_get t h now = Some (Some ip) \<longrightarrow> conn_get t' h now = Some (Some ip))"
proof -
  let ?ops = "conn_ops (ct_ttls t) now"
  obtain t' where run: "with_matching_entry t h f = Some t'" and wf': "conn_table_wf t'"
    using with_matching_entry_spec [OF wf f(1,2), of h] by metis
  have "conn_get t' h now = Some (Some ip)" if hit: "conn_get t h now = Some (Some ip)" for ip
  proof -
    obtain i where i: "rh_lookup ?ops (ct_mask t) (ct_entries t) h = Some i"
      and e: "\<not> conn_is_expired (ct_ttls t) (ct_entries t ! i) now" "ce_backend_ip (ct_entries t ! i) = ip"
      using hit conn_ops_eq(1) [OF wf, of h now] by (auto split: option.splits if_splits)
    have il: "i < length (ct_entries t)" using conn_lookup_Some(1) [OF wf i] conn_wf_length [OF wf] by simp
    have t': "t' = t\<lparr>ct_entries := (ct_entries t)[i := f (ct_entries t ! i)]\<rparr>"
      using run conn_ops_eq(2) [OF wf, of h f now] i by simp
    have "ce_occupied ((ct_entries t)[i := f (ct_entries t ! i)] ! j) = ce_occupied (ct_entries t ! j)"
      "ce_hash ((ct_entries t)[i := f (ct_entries t ! i)] ! j) = ce_hash (ct_entries t ! j)" for j
      using il f by (cases "i = j"; simp)+
    then have "rh_lookup ?ops (ct_mask t) (ct_entries t') h = Some i"
      using i rh_lookup_cong [of ?ops "ct_entries t'" "ct_entries t" "ct_mask t" h] by (simp add: t')
    moreover have "\<not> conn_is_expired (ct_ttls t) (f (ct_entries t ! i)) now"
      using e(1) f(4) [of "ct_entries t ! i"] by (auto simp: conn_fresh_at)
    ultimately show ?thesis
      using conn_ops_eq(1) [OF wf', of h now] e(2) f(3) il by (simp add: t')
  qed
  with run wf' show ?thesis by blast
qed

lemma conn_touch_ok:
  "conn_table_wf t \<Longrightarrow> \<exists>t'. conn_touch t h now = Some t' \<and> conn_table_wf t' \<and>
     (\<forall>ip. conn_get t h now = Some (Some ip) \<longrightarrow> conn_get t' h now = Some (Some ip))"
  unfolding conn_ops_eq(3) by (rule with_matching_ok) simp_all

lemma mark_closing_ok:
  "conn_table_wf t \<Longrightarrow> \<exists>t'. mark_closing t h now = Some t' \<and> conn_table_wf t' \<and>
     (\<forall>ip. conn_get t h now = Some (Some ip) \<longrightarrow> conn_get t' h now = Some (Some ip))"
  unfolding mark_closing_def by (rule with_matching_ok) simp_all

lemma mark_established_ok:
  "conn_table_wf t \<Longrightarrow> \<exists>t'. mark_established t h now = Some t' \<and> conn_table_wf t' \<and>
     (\<forall>ip. conn_get t h now = Some (Some ip) \<longrightarrow> conn_get t' h now = Some (Some ip))"
  unfolding mark_established_def by (rule with_matching_ok) simp_all

text \<open>
  C12. An insertion that is not refused is visible: whatever the table held, expired entries and
  displaced ones included, the next lookup of the flow returns the backend just inserted. No
  operation panics, and the size stays the number of occupied slots.
\<close>

theorem conn_insert_then_get:
  assumes "conn_table_wf t"
  shows "\<exists>r t'. conn_insert t h ip pr st now = Some (r, t') \<and> conn_table_wf t' \<and>
     conn_len t' = conn_len t + (if r = Inserted then 1 else 0) \<and>
     (if r = DroppedFull then True else conn_get t' h now = Some (Some ip))"
proof -
  obtain r t' where "conn_insert t h ip pr st now = Some (r, t')" "conn_table_wf t'"
    "conn_len t' = conn_len t + (if r = Inserted then 1 else 0)"
    "r \<noteq> DroppedFull \<longrightarrow> conn_get t' h now = Some (Some ip)"
    using conn_insert_get [OF assms, of h ip pr st now] by blast
  then show ?thesis by (intro exI [of _ r] exI [of _ t']) simp
qed

lemma conn_insert_then_get_witness:
  "\<exists>t r t'. conn_table_new 4 (conn_ttls_with_established (secs 60)) 0 = Some t \<and>
     conn_insert t 42 (V4 (Ipv4 10 0 0 1)) FUdp NotTcp 7 = Some (r, t') \<and> conn_table_wf t'"
proof -
  obtain t where t: "conn_table_new 4 (conn_ttls_with_established (secs 60)) 0 = Some t"
    by (simp add: conn_table_new_def power_of_two_4)
  from conn_insert_then_get [OF conn_table_new_wf(1) [OF t]] t show ?thesis by blast
qed

lemma conn_get_new:
  assumes "conn_table_new capacity ttls init_time = Some t"
  shows "conn_get t h now = Some None"
  using conn_ops_eq(1) [OF conn_table_new_wf(1) [OF assms], of h now]
    conn_lookup_map [OF conn_table_new_wf(1,2) [OF assms], of h now] conn_table_new_wf(3) [OF assms]
  by simp

text \<open>
  A table in Robin Hood order is a finite map from flow hashes to entries: a lookup returns
  the entry's backend unless it has expired, and misses exactly the flows that are absent.
\<close>

lemma conn_get_map:
  assumes "conn_table_wf t" and "conn_ordered t"
  shows "conn_get t h now = Some (case conn_map t h of None \<Rightarrow> None
     | Some e \<Rightarrow> if conn_is_expired (ct_ttls t) e now then None else Some (ce_backend_ip e))"
  unfolding conn_ops_eq(1) [OF assms(1)] conn_lookup_map [OF assms, of h now]
  by (simp split: option.splits)

text \<open>
  Who pays when a full table refuses a flow: the new flow itself, unless some flow sits nearer to
  its home than the new one would in its place; then one of those flows.
\<close>

definition conn_victim :: "conn_table \<Rightarrow> u64 \<Rightarrow> u64 \<Rightarrow> bool" where
  "conn_victim t h v \<longleftrightarrow>
     (let nearer = (\<lambda>i. ce_occupied (ct_entries t ! i) \<and>
        probe_distance (ct_mask t) (ce_hash (ct_entries t ! i)) i < probe_distance (ct_mask t) h i)
      in if \<exists>i < conn_capacity t. nearer i
         then \<exists>i < conn_capacity t. nearer i \<and> ce_hash (ct_entries t ! i) = v else v = h)"

text \<open>
  An insertion that reclaims no expired slot keeps the Robin Hood order and is an update of the map:
  a known flow is merged (its TCP state promoted), a new one is added if a slot is free, and every
  other flow keeps its entry. Only a full table refuses, at the cost of one flow.
\<close>

lemma conn_insert_map:
  assumes "conn_table_wf t" and "conn_ordered t" and "conn_insert t h ip pr st now = Some (r, t')"
    and "r \<noteq> EvictedExpired"
  shows "conn_ordered t' \<and>
     (case conn_map t h of
        Some e \<Rightarrow> r = Updated \<and>
          conn_map t' = (conn_map t)(h \<mapsto> conn_merge e (new_conn_entry h ip pr st now))
      | None \<Rightarrow>
          if list_all ce_occupied (ct_entries t)
          then r = DroppedFull \<and> (\<exists>v. conn_victim t h v \<and>
            conn_map t' = ((conn_map t)(h \<mapsto> new_conn_entry h ip pr st now))(v := None))
          else r = Inserted \<and> conn_map t' = (conn_map t)(h \<mapsto> new_conn_entry h ip pr st now))"
proof -
  obtain b where m: "ct_mask t = 2 ^ min b 63 - 1" using assms(1) by (rule conn_wf_mask)
  let ?ops = "conn_ops (ct_ttls t) now"
  let ?c = "new_conn_entry h ip pr st now"
  obtain q es where r: "r = conn_result q" and put: "rh_put ?ops (ct_mask t) (ct_entries t) ?c = (q, es)"
    and t': "t' = t\<lparr>ct_entries := es, ct_size := (if q = RhInserted then ct_size t + 1 else ct_size t)\<rparr>"
    using conn_insert_total [OF assms(1), of h ip pr st now] assms(3) by (metis option.inject prod.inject)
  have q: "q \<noteq> RhEvicted" using assms(4) r by (auto simp: conn_result_def)
  have c: "ce_occupied ?c" "ce_hash ?c = h" by (simp_all add: new_conn_entry_def)
  have es: "ct_entries t' = es" by (simp add: t')
  have v: "rh_victim ?ops (ct_mask t) (ct_entries t) h v = conn_victim t h v" for v
    by (simp only: rh_victim_def conn_victim_def conn_capacity_def conn_wf_length [OF assms(1)] conn_ops_sel Suc_eq_plus1)
  have res: "rh_ordered ?ops (ct_mask t) es \<and>
      (case conn_map t h of
        Some e \<Rightarrow> q = RhUpdated \<and> conn_map t' = (conn_map t)(h \<mapsto> conn_merge e ?c)
      | None \<Rightarrow>
          if list_all ce_occupied (ct_entries t)
          then q = RhDropped \<and> (\<exists>v. conn_victim t h v \<and> conn_map t' = ((conn_map t)(h \<mapsto> ?c))(v := None))
          else q = RhInserted \<and> conn_map t' = (conn_map t)(h \<mapsto> ?c))"
    using conn_rh.put_map [where b = b, folded m, OF put, unfolded conn_ops_sel c(2) v] q c(1) assms(2)
      conn_wf_length [OF assms(1)]
    by (simp only: conn_map_rh [of _ "ct_ttls t" now] conn_ordered_rh [of _ "ct_ttls t" now] es
        simp_thms not_False_eq_True)
  then have ord: "conn_ordered t'" by (simp add: t' conn_ordered_rh [of _ "ct_ttls t" now])
  show ?thesis
    by (cases "conn_map t h"; cases "list_all ce_occupied (ct_entries t)")
      (use res ord in \<open>simp_all add: r conn_result_def\<close>)
qed

lemma conn_insert_live:
  assumes "conn_table_wf t" and "conn_live t now"
  obtains r t' where "conn_insert t h ip pr st now = Some (r, t')" and "conn_table_wf t'" and "r \<noteq> EvictedExpired"
proof -
  obtain b where m: "ct_mask t = 2 ^ min b 63 - 1" using assms(1) by (rule conn_wf_mask)
  let ?ops = "conn_ops (ct_ttls t) now"
  let ?c = "new_conn_entry h ip pr st now"
  obtain q es t' where ins: "conn_insert t h ip pr st now = Some (conn_result q, t')" "conn_table_wf t'"
    and put: "rh_put ?ops (ct_mask t) (ct_entries t) ?c = (q, es)"
    using conn_insert_total [OF assms(1), of h ip pr st now] by metis
  have "q \<noteq> RhEvicted"
    using conn_rh.put_not_evicted [where b = b, folded m, OF put] conn_wf_length [OF assms(1)] assms(2)
    by (simp add: conn_live_rh new_conn_entry_def conn_fresh_at)
  then show ?thesis using that ins by (auto simp: conn_result_def split: rh_result.splits)
qed



text \<open>
  A TCP flow that was marked closing stays closing: neither a late \<^verbatim>\<open>mark_established\<close> nor a
  further insertion of the flow takes it back to a longer time to live.
\<close>

theorem conn_closing_is_terminal:
  assumes "conn_table_wf t" and "conn_ordered t" and "conn_map t h = Some e" and "ce_proto e = FTcp"
  shows "\<exists>t1 t2 e2. mark_closing t h now = Some t1 \<and> mark_established t1 h later = Some t2 \<and>
     conn_map t2 = (conn_map t)(h \<mapsto> e2) \<and> ce_tcp_state e2 = Closing \<and> ce_last_seen e2 = now \<and>
     ce_backend_ip e2 = ce_backend_ip e \<and> ce_tcp_state (conn_merge e2 c) = Closing"
proof -
  obtain t1 where t1: "mark_closing t h now = Some t1" "conn_table_wf t1" "conn_ordered t1"
    and m1: "conn_map t1 = (conn_map t)(h \<mapsto> e\<lparr>ce_tcp_state := Closing, ce_last_seen := now\<rparr>)"
    unfolding mark_closing_def
    by (rule with_matching_entry_spec [OF assms(1), of "\<lambda>e. if ce_proto e = FTcp
          then e\<lparr>ce_tcp_state := Closing, ce_last_seen := now\<rparr> else e" h]) (use assms in auto)
  obtain t2 where t2: "mark_established t1 h later = Some t2" and m2: "conn_map t2 = conn_map t1"
    unfolding mark_established_def
    by (rule with_matching_entry_spec [OF t1(2), of "\<lambda>e. if ce_proto e = FTcp \<and> ce_tcp_state e \<noteq> Closing
          then e\<lparr>ce_tcp_state := Established, ce_last_seen := later\<rparr> else e" h])
      (use t1(3) m1 assms(4) in auto)
  from t1 t2 m1 m2 show ?thesis by (auto simp: promote_state_def)
qed

definition expiry_scenario :: "conn_table panics" where
  "expiry_scenario = do {
     t \<leftarrow> conn_table_new 4 (conn_ttls_with_established (secs 60)) 0;
     (r, t) \<leftarrow> conn_insert t 0 (V4 (Ipv4 10 0 0 1)) FTcp Established 0;
     (r, t) \<leftarrow> conn_insert t 4 (V4 (Ipv4 10 0 0 2)) FUdp NotTcp 0;
     (r, t) \<leftarrow> conn_insert t 8 (V4 (Ipv4 10 0 0 3)) FTcp Established 0;
     Some t }"

definition expiry_table :: conn_table where
  "expiry_table = \<lparr>ct_entries =
     [new_conn_entry 0 (V4 (Ipv4 10 0 0 1)) FTcp Established 0,
      new_conn_entry 4 (V4 (Ipv4 10 0 0 2)) FUdp NotTcp 0,
      new_conn_entry 8 (V4 (Ipv4 10 0 0 3)) FTcp Established 0, conn_entry_empty 0],
     ct_mask = 3, ct_ttls = conn_ttls_with_established (secs 60), ct_size = 3\<rparr>"

lemma capacity_4: "ct_mask t = 3 \<Longrightarrow> conn_capacity t = Suc (Suc (Suc (Suc 0)))"
  by (simp add: conn_capacity_def)

lemma mask_3: "Suc (Suc 0) AND 3 = Suc (Suc 0)" "Suc (Suc (Suc 0)) AND 3 = Suc (Suc (Suc 0))"
  by (simp_all flip: numeral_2_eq_2 numeral_3_eq_3)

lemma below_2: "(d :: nat) < 2 \<longleftrightarrow> d = 0 \<or> d = 1"
  by auto

lemma replicate_4: "replicate 4 x = [x, x, x, x]"
  by (simp add: numeral_eq_Suc)

lemmas conn_run = conn_insert_def conn_get_def capacity_4 mask_3 below_2 home_slot_def
  probe_distance_def next_slot_def conn_is_expired_def ttl_for_def conn_ttls_with_established_def
  secs_def duration_since_def byte_at_def new_conn_entry_def

lemma expiry_scenario_run: "expiry_scenario = Some expiry_table"
  by (simp add: expiry_scenario_def expiry_table_def conn_table_new_def power_of_two_4 replicate_4
      conn_run conn_entry_empty_def)

lemma expiry_table_ordered: "conn_ordered expiry_table"
  by (auto simp: conn_run expiry_table_def conn_ordered_def rh_ordered_def rh_path_def less_Suc_eq
      rh_at_def conn_entry_empty_def Let_def)

lemma expiry_table_get: "conn_get expiry_table 8 (secs 40) = Some (Some (V4 (Ipv4 10 0 0 3)))"
  by (simp add: conn_run expiry_table_def)

lemma expiry_table_insert:
  "case conn_insert expiry_table 1 (V4 (Ipv4 10 0 0 4)) FTcp Established (secs 40) of None \<Rightarrow> False
   | Some (r, t') \<Rightarrow> r = EvictedExpired \<and> conn_get t' 8 (secs 40) = Some None"
  by (simp add: conn_run expiry_table_def)

lemma expiry_table_wf: "conn_table_wf expiry_table"
  unfolding conn_table_wf_def expiry_table_def
  by (simp add: conn_entry_empty_def new_conn_entry_def power_of_two_4)

lemma conn_closing_is_terminal_witness:
  "\<exists>t1 t2 e2. mark_closing expiry_table 8 9 = Some t1 \<and> mark_established t1 8 10 = Some t2 \<and>
     conn_map t2 = (conn_map expiry_table)(8 \<mapsto> e2) \<and> ce_tcp_state e2 = Closing"
proof -
  have "conn_map expiry_table 8 = Some (new_conn_entry 8 (V4 (Ipv4 10 0 0 3)) FTcp Established 0)"
    by (simp add: conn_map_def expiry_table_def new_conn_entry_def conn_entry_empty_def)
  from conn_closing_is_terminal [OF expiry_table_wf expiry_table_ordered this, of 9 10]
  show ?thesis unfolding new_conn_entry_def by simp blast
qed

text \<open>
  Reclaiming an expired slot can hide a live flow. Three flows share home slot 0; when the
  middle one has expired, a new flow with home slot 1 takes its slot and a lookup of the third,
  still live, now stops there.
\<close>

theorem conn_reclaim_hides_live_flow:
  "\<exists>t t'. expiry_scenario = Some t \<and> conn_ordered t \<and>
     conn_get t 8 (secs 40) = Some (Some (V4 (Ipv4 10 0 0 3))) \<and>
     conn_insert t 1 (V4 (Ipv4 10 0 0 4)) FTcp Established (secs 40) = Some (EvictedExpired, t') \<and>
     conn_get t' 8 (secs 40) = Some None"
  using expiry_table_insert expiry_scenario_run expiry_table_ordered expiry_table_get
  by (auto split: option.splits prod.splits)

text \<open>The fill gauge stays between 0 and 10000 basis points.\<close>

lemma fill_bp_bounds:
  assumes "conn_table_wf t"
  shows "0 \<le> fill_bp t \<and> fill_bp t \<le> 10000"
proof -
  have "ct_size t \<le> Suc (ct_mask t)"
    using assms length_filter_le [of ce_occupied "ct_entries t"] by (simp add: conn_table_wf_def)
  then have "int (ct_size t) * 10000 \<le> 10000 * int (Suc (ct_mask t))" by simp
  then have "fill_bp t \<le> (10000 * int (Suc (ct_mask t))) div int (Suc (ct_mask t))"
    unfolding fill_bp_def conn_capacity_def Suc_eq_plus1 [symmetric] by (intro zdiv_mono1) simp_all
  also have "\<dots> = 10000" by (rule nonzero_mult_div_cancel_right) simp
  finally show ?thesis
    by (simp add: fill_bp_def conn_capacity_def pos_imp_zdiv_nonneg_iff)
qed

end
