(* ===== verification/FragmentTable.thy ===== *)
theory FragmentTable
  imports NetTypes RobinHood
begin

text \<open>
  The table from fragment 3-tuples to backends (crate lb-forwarder, fragment_table.rs). It is a
  second interpretation of \<open>robin_hood\<close>, with one TTL for all entries, a merge that overwrites,
  and an insertion that reports nothing.
\<close>

record fragment_entry =
  fe_hash :: u64
  fe_backend_ip :: ip_addr
  fe_inserted_at :: instant
  fe_occupied :: bool

record fragment_table =
  ft_entries :: "fragment_entry list"
  ft_mask :: nat
  ft_ttl :: duration

definition fragment_entry_empty :: "instant \<Rightarrow> fragment_entry" where
  "fragment_entry_empty init_time =
     \<lparr>fe_hash = 0, fe_backend_ip = V4 unspecified4, fe_inserted_at = init_time, fe_occupied = False\<rparr>"

definition fragment_table_new :: "nat \<Rightarrow> duration \<Rightarrow> instant \<Rightarrow> fragment_table panics" where
  "fragment_table_new capacity ttl init_time =
     (if is_power_of_two capacity
      then Some \<lparr>ft_entries = replicate capacity (fragment_entry_empty init_time),
                 ft_mask = capacity - 1, ft_ttl = ttl\<rparr>
      else None)"

fun fragment_get_loop ::
  "fragment_table \<Rightarrow> u64 \<Rightarrow> instant \<Rightarrow> nat \<Rightarrow> nat \<Rightarrow> nat \<Rightarrow> ip_addr option panics" where
  "fragment_get_loop t hash now 0 idx dist = Some None"
| "fragment_get_loop t hash now (Suc n) idx dist =
     (case byte_at (ft_entries t) idx of
        None \<Rightarrow> None
      | Some e \<Rightarrow>
          if \<not> fe_occupied e then Some None
          else if probe_distance (ft_mask t) (fe_hash e) idx < dist then Some None
          else if fe_hash e = hash
          then Some (if ft_ttl t < duration_since now (fe_inserted_at e) then None
                     else Some (fe_backend_ip e))
          else fragment_get_loop t hash now n (next_slot (ft_mask t) idx) (dist + 1))"

definition fragment_get :: "fragment_table \<Rightarrow> u64 \<Rightarrow> instant \<Rightarrow> ip_addr option panics" where
  "fragment_get t hash now =
     fragment_get_loop t hash now (ft_mask t + 1) (home_slot (ft_mask t) hash) 0"

fun fragment_insert_loop ::
  "fragment_table \<Rightarrow> instant \<Rightarrow> nat \<Rightarrow> nat \<Rightarrow> u64 \<Rightarrow> ip_addr \<Rightarrow> instant \<Rightarrow> nat \<Rightarrow> fragment_table panics" where
  "fragment_insert_loop t now 0 idx cur_hash cur_ip cur_time dist = Some t"
| "fragment_insert_loop t now (Suc n) idx cur_hash cur_ip cur_time dist =
     (case byte_at (ft_entries t) idx of
        None \<Rightarrow> None
      | Some e \<Rightarrow>
          let cur = \<lparr>fe_hash = cur_hash, fe_backend_ip = cur_ip, fe_inserted_at = cur_time,
                     fe_occupied = True\<rparr>;
              t' = t\<lparr>ft_entries := (ft_entries t)[idx := cur]\<rparr> in
          if \<not> fe_occupied e \<or> ft_ttl t < duration_since now (fe_inserted_at e) \<or>
             fe_hash e = cur_hash
          then Some t'
          else let incumbent_dist = probe_distance (ft_mask t) (fe_hash e) idx in
            if incumbent_dist < dist
            then fragment_insert_loop t' now n (next_slot (ft_mask t) idx)
                   (fe_hash e) (fe_backend_ip e) (fe_inserted_at e) (incumbent_dist + 1)
            else fragment_insert_loop t now n (next_slot (ft_mask t) idx)
                   cur_hash cur_ip cur_time (dist + 1))"

definition fragment_insert :: "fragment_table \<Rightarrow> u64 \<Rightarrow> ip_addr \<Rightarrow> instant \<Rightarrow> fragment_table panics" where
  "fragment_insert t hash backend now =
     fragment_insert_loop t now (ft_mask t + 1) (home_slot (ft_mask t) hash) hash backend now 0"

subsection \<open>The operations run the generic algorithm\<close>

definition new_fragment_entry :: "u64 \<Rightarrow> ip_addr \<Rightarrow> instant \<Rightarrow> fragment_entry" where
  "new_fragment_entry h ip now =
     \<lparr>fe_hash = h, fe_backend_ip = ip, fe_inserted_at = now, fe_occupied = True\<rparr>"

definition fragment_ops :: "duration \<Rightarrow> instant \<Rightarrow> fragment_entry slot_ops" where
  "fragment_ops ttl now = \<lparr>s_occ = fe_occupied, s_key = fe_hash,
     s_expired = (\<lambda>e. ttl < duration_since now (fe_inserted_at e)),
     s_merge = (\<lambda>e c. c\<lparr>fe_occupied := True\<rparr>)\<rparr>"

lemma fragment_ops_sel [simp]:
  "s_occ (fragment_ops ttl now) = fe_occupied" "s_key (fragment_ops ttl now) = fe_hash"
  "s_expired (fragment_ops ttl now) e \<longleftrightarrow> ttl < duration_since now (fe_inserted_at e)"
  "s_merge (fragment_ops ttl now) e c = c\<lparr>fe_occupied := True\<rparr>"
  by (simp_all add: fragment_ops_def)

interpretation frag_rh: robin_hood "fragment_ops ttl now" "min b 63" "2 ^ min b 63 - 1" for ttl now b
  by unfold_locales simp_all

definition fragment_table_wf :: "fragment_table \<Rightarrow> bool" where
  "fragment_table_wf t \<longleftrightarrow> is_power_of_two (ft_mask t + 1) \<and> length (ft_entries t) = ft_mask t + 1"

lemma fragment_insert_loop_eq:
  assumes "ft_mask t = 2 ^ b - 1" and "length (ft_entries t) = Suc (ft_mask t)" and "idx < Suc (ft_mask t)"
  shows "fragment_insert_loop t now n idx h ip tm dist =
     Some (t\<lparr>ft_entries := snd (rh_insert (fragment_ops (ft_ttl t) now) (ft_mask t) n (ft_entries t) idx
       (new_fragment_entry h ip tm) dist)\<rparr>)"
  using assms
proof (induction n arbitrary: t idx h ip tm dist)
  case (Suc n)
  have nx: "next_slot (ft_mask t) idx < Suc (ft_mask t)" using probe_facts Suc.prems(1) by blast
  let ?e = "ft_entries t ! idx"
  have e: "new_fragment_entry (fe_hash ?e) (fe_backend_ip ?e) (fe_inserted_at ?e) = ?e" if "fe_occupied ?e"
    using that by (simp add: new_fragment_entry_def)
  show ?case
    using Suc.prems nx Suc.IH [of t] e
      Suc.IH [of "t\<lparr>ft_entries := (ft_entries t)[idx := new_fragment_entry h ip tm]\<rparr>"]
    by (simp add: Let_def new_fragment_entry_def [of h ip tm])
qed simp

lemma fragment_get_loop_eq:
  assumes "ft_mask t = 2 ^ b - 1" and "length (ft_entries t) = Suc (ft_mask t)" and "idx < Suc (ft_mask t)"
  shows "fragment_get_loop t h now n idx dist =
     Some (case rh_find (fragment_ops (ft_ttl t) now) (ft_mask t) n (ft_entries t) h idx dist of
       None \<Rightarrow> None
     | Some i \<Rightarrow> if ft_ttl t < duration_since now (fe_inserted_at (ft_entries t ! i)) then None
                 else Some (fe_backend_ip (ft_entries t ! i)))"
  using assms probe_facts(2) [OF assms(1)]
  by (induction n arbitrary: idx dist) (simp_all add: Let_def)

lemma fragment_mask:
  assumes "fragment_table_wf t"
  obtains b where "ft_mask t = 2 ^ min b 63 - 1"
proof -
  from assms obtain b where b: "b < 64" "ft_mask t + 1 = 2 ^ b"
    by (auto simp: is_power_of_two_def fragment_table_wf_def)
  then have "min b 63 = b" "ft_mask t = 2 ^ b - 1" by simp_all
  then show ?thesis using that [of b] by simp
qed

lemma fragment_ops_eq:
  assumes "fragment_table_wf t"
  shows "fragment_get t h now =
     Some (case rh_lookup (fragment_ops (ft_ttl t) now) (ft_mask t) (ft_entries t) h of
       None \<Rightarrow> None
     | Some i \<Rightarrow> if ft_ttl t < duration_since now (fe_inserted_at (ft_entries t ! i)) then None
                 else Some (fe_backend_ip (ft_entries t ! i)))"
    and "fragment_insert t h ip now = Some (t\<lparr>ft_entries :=
       snd (rh_put (fragment_ops (ft_ttl t) now) (ft_mask t) (ft_entries t) (new_fragment_entry h ip now))\<rparr>)"
proof -
  obtain b where m: "ft_mask t = 2 ^ min b 63 - 1" using assms by (rule fragment_mask)
  have l: "length (ft_entries t) = Suc (ft_mask t)" using assms by (simp add: fragment_table_wf_def)
  have h: "home_slot (ft_mask t) h < Suc (ft_mask t)" using probe_facts(1) [OF m] .
  have k: "fe_hash (new_fragment_entry h ip now) = h" by (simp add: new_fragment_entry_def)
  show "fragment_get t h now =
     Some (case rh_lookup (fragment_ops (ft_ttl t) now) (ft_mask t) (ft_entries t) h of
       None \<Rightarrow> None
     | Some i \<Rightarrow> if ft_ttl t < duration_since now (fe_inserted_at (ft_entries t ! i)) then None
                 else Some (fe_backend_ip (ft_entries t ! i)))"
    by (simp only: fragment_get_def rh_lookup_def Suc_eq_plus1 [symmetric] fragment_get_loop_eq [OF m l h])
  show "fragment_insert t h ip now = Some (t\<lparr>ft_entries :=
       snd (rh_put (fragment_ops (ft_ttl t) now) (ft_mask t) (ft_entries t) (new_fragment_entry h ip now))\<rparr>)"
    by (simp only: fragment_insert_def rh_put_def Suc_eq_plus1 [symmetric] fragment_ops_sel k
        fragment_insert_loop_eq [OF m l h])
qed

definition fragment_map :: "fragment_table \<Rightarrow> u64 \<rightharpoonup> fragment_entry" where
  "fragment_map t = map_of (map (\<lambda>e. (fe_hash e, e)) (filter fe_occupied (ft_entries t)))"

definition fragment_ordered :: "fragment_table \<Rightarrow> bool" where
  "fragment_ordered t \<longleftrightarrow> rh_ordered (fragment_ops (ft_ttl t) 0) (ft_mask t) (ft_entries t)"

definition fragment_live :: "fragment_table \<Rightarrow> instant \<Rightarrow> bool" where
  "fragment_live t now \<longleftrightarrow> list_all (\<lambda>e. fe_occupied e \<longrightarrow>
     \<not> ft_ttl t < duration_since now (fe_inserted_at e)) (ft_entries t)"

lemma fragment_map_rh: "fragment_map t = rh_map (fragment_ops ttl now) (ft_entries t)"
  by (simp add: fragment_map_def rh_map_def)

lemma fragment_ordered_rh:
  "fragment_ordered t \<longleftrightarrow> rh_ordered (fragment_ops ttl now) (ft_mask t) (ft_entries t)"
  by (simp add: fragment_ordered_def rh_ordered_def rh_path_def)

lemma fragment_live_rh: "fragment_live t now \<longleftrightarrow> rh_live (fragment_ops (ft_ttl t) now) (ft_entries t)"
  by (simp add: fragment_live_def rh_live_def)

lemma fragment_table_new_wf:
  assumes "fragment_table_new capacity ttl init_time = Some t"
  shows "fragment_table_wf t" "fragment_ordered t" "fragment_map t = Map.empty" "fragment_live t now"
proof -
  have p: "is_power_of_two capacity" "t = \<lparr>ft_entries = replicate capacity (fragment_entry_empty init_time),
      ft_mask = capacity - 1, ft_ttl = ttl\<rparr>"
    using assms by (simp_all add: fragment_table_new_def split: if_splits)
  then have "capacity - 1 + 1 = capacity" by (auto simp: is_power_of_two_def)
  then show "fragment_table_wf t" "fragment_ordered t" "fragment_map t = Map.empty" "fragment_live t now"
    using p by (simp_all add: fragment_table_wf_def fragment_ordered_def rh_ordered_def fragment_map_def
        fragment_live_def list_all_length fragment_entry_empty_def)
qed

text \<open>An insertion never panics and keeps the table's shape, whatever the table holds.\<close>

lemma fragment_insert_wf:
  assumes "fragment_table_wf t"
  obtains t' where "fragment_insert t h ip now = Some t'" and "fragment_table_wf t'" and "ft_ttl t' = ft_ttl t"
proof -
  obtain b where m: "ft_mask t = 2 ^ min b 63 - 1" using assms by (rule fragment_mask)
  have l: "length (ft_entries t) = Suc (ft_mask t)" using assms by (simp add: fragment_table_wf_def)
  have "length (snd (rh_put (fragment_ops (ft_ttl t) now) (ft_mask t) (ft_entries t)
      (new_fragment_entry h ip now))) = Suc (ft_mask t)"
    unfolding rh_put_def using frag_rh.insert_length [where b = b, folded m] l by (simp only:)
  then show ?thesis
    using that fragment_ops_eq(2) [OF assms, of h ip now] assms by (simp add: fragment_table_wf_def)
qed

text \<open>Whatever the table holds: with a free slot, the insertion is found.\<close>

lemma fragment_insert_get:
  assumes "fragment_table_wf t" and "\<exists>e \<in> set (ft_entries t). \<not> fe_occupied e"
  shows "\<exists>t'. fragment_insert t h ip now = Some t' \<and> fragment_table_wf t' \<and>
     fragment_get t' h now = Some (Some ip)"
proof -
  obtain b where m: "ft_mask t = 2 ^ min b 63 - 1" using assms(1) by (rule fragment_mask)
  have l: "length (ft_entries t) = Suc (ft_mask t)" using assms(1) by (simp add: fragment_table_wf_def)
  let ?ops = "fragment_ops (ft_ttl t) now"
  let ?c = "new_fragment_entry h ip now"
  obtain r es where put: "rh_put ?ops (ft_mask t) (ft_entries t) ?c = (r, es)" by fastforce
  obtain i where i: "i < Suc (ft_mask t)" "\<not> fe_occupied (ft_entries t ! i)"
    using assms(2) l by (auto simp: in_set_conv_nth)
  have "r \<noteq> RhDropped"
    using frag_rh.put_dropped [where b = b, folded m, of "ft_ttl t" now "ft_entries t" ?c es i] put i by auto
  then obtain j e where j: "rh_lookup ?ops (ft_mask t) es h = Some j" and e: "es ! j = ?c"
    using frag_rh.put_found [where b = b, folded m, OF put _ l] by (auto simp: new_fragment_entry_def)
  obtain t' where t': "fragment_insert t h ip now = Some t'" "fragment_table_wf t'"
    using fragment_insert_wf [OF assms(1)] by metis
  have "t' = t\<lparr>ft_entries := es\<rparr>"
    using t'(1) fragment_ops_eq(2) [OF assms(1), of h ip now] put by simp
  then show ?thesis
    using t' fragment_ops_eq(1) [OF t'(2), of h now] j e
    by (simp add: new_fragment_entry_def)
qed

text \<open>Who pays when a full table takes no new 3-tuple: as for the connection table.\<close>

definition fragment_victim :: "fragment_table \<Rightarrow> u64 \<Rightarrow> u64 \<Rightarrow> bool" where
  "fragment_victim t h v \<longleftrightarrow>
     (let nearer = (\<lambda>i. fe_occupied (ft_entries t ! i) \<and>
        probe_distance (ft_mask t) (fe_hash (ft_entries t ! i)) i < probe_distance (ft_mask t) h i)
      in if \<exists>i < length (ft_entries t). nearer i
         then \<exists>i < length (ft_entries t). nearer i \<and> fe_hash (ft_entries t ! i) = v else v = h)"

lemma fragment_get_map:
  assumes "fragment_table_wf t" and "fragment_ordered t"
  shows "fragment_get t g now = Some (case fragment_map t g of None \<Rightarrow> None
     | Some e \<Rightarrow> if ft_ttl t < duration_since now (fe_inserted_at e) then None else Some (fe_backend_ip e))"
proof -
  obtain b where m: "ft_mask t = 2 ^ min b 63 - 1" using assms(1) by (rule fragment_mask)
  let ?ops = "fragment_ops (ft_ttl t) now"
  have "rh_ordered ?ops (ft_mask t) (ft_entries t)"
    using assms(2) by (simp add: fragment_ordered_rh [of t "ft_ttl t" now])
  then have "fragment_map t g = map_option ((!) (ft_entries t)) (rh_lookup ?ops (ft_mask t) (ft_entries t) g)"
    using frag_rh.rh_map_lookup [where b = b, folded m] assms(1)
    by (simp add: fragment_map_rh [of _ "ft_ttl t" now] fragment_table_wf_def)
  then show ?thesis using fragment_ops_eq(1) [OF assms(1), of g now] by (simp split: option.splits)
qed

lemma fragment_insert_map:
  assumes "fragment_table_wf t" and "fragment_ordered t" and "fragment_live t now"
  obtains t' where "fragment_insert t h ip now = Some t'" and "fragment_table_wf t'"
    and "fragment_ordered t'" and "ft_ttl t' = ft_ttl t"
    and "if list_all fe_occupied (ft_entries t) \<and> fragment_map t h = None
       then \<exists>v. fragment_victim t h v \<and>
         fragment_map t' = ((fragment_map t)(h \<mapsto> new_fragment_entry h ip now))(v := None)
       else fragment_map t' = (fragment_map t)(h \<mapsto> new_fragment_entry h ip now)"
proof -
  obtain b where m: "ft_mask t = 2 ^ min b 63 - 1" using assms(1) by (rule fragment_mask)
  have l: "length (ft_entries t) = Suc (ft_mask t)" using assms(1) by (simp add: fragment_table_wf_def)
  let ?ops = "fragment_ops (ft_ttl t) now"
  let ?c = "new_fragment_entry h ip now"
  obtain r es where put: "rh_put ?ops (ft_mask t) (ft_entries t) ?c = (r, es)" by fastforce
  have ins: "fragment_insert t h ip now = Some (t\<lparr>ft_entries := es\<rparr>)"
    using fragment_ops_eq(2) [OF assms(1), of h ip now] put by simp
  then have wf': "fragment_table_wf (t\<lparr>ft_entries := es\<rparr>)"
    using fragment_insert_wf [OF assms(1), of h ip now] by auto
  have r: "r \<noteq> RhEvicted"
    using frag_rh.put_not_evicted [where b = b, folded m, OF put l] assms(3)
    by (simp add: fragment_live_rh new_fragment_entry_def)
  have c: "fe_occupied ?c" "fe_hash ?c = h" "?c\<lparr>fe_occupied := True\<rparr> = ?c"
    by (simp_all add: new_fragment_entry_def)
  have v: "rh_victim ?ops (ft_mask t) (ft_entries t) h v = fragment_victim t h v" for v
    by (simp only: rh_victim_def fragment_victim_def fragment_ops_sel)
  let ?t = "t\<lparr>ft_entries := es\<rparr>"
  have es: "ft_entries ?t = es" "ft_mask ?t = ft_mask t" by simp_all
  have res: "fragment_ordered ?t \<and>
      (case fragment_map t h of
        Some e \<Rightarrow> r = RhUpdated \<and> fragment_map ?t = (fragment_map t)(h \<mapsto> ?c)
      | None \<Rightarrow>
          if list_all fe_occupied (ft_entries t)
          then r = RhDropped \<and> (\<exists>v. fragment_victim t h v \<and> fragment_map ?t = ((fragment_map t)(h \<mapsto> ?c))(v := None))
          else r = RhInserted \<and> fragment_map ?t = (fragment_map t)(h \<mapsto> ?c))"
    using frag_rh.put_map [where b = b, folded m, OF put, unfolded fragment_ops_sel c(2) v] r c(1) assms(2) l
    by (simp only: fragment_map_rh [of _ "ft_ttl t" now] fragment_ordered_rh [of _ "ft_ttl t" now]
        es simp_thms not_False_eq_True c(3) cong: option.case_cong)
  show ?thesis
    by (rule that [OF ins wf']) (use res in \<open>simp_all split: option.splits if_splits\<close>)
qed

text \<open>An insertion takes at most one slot.\<close>

definition fragment_free :: "fragment_table \<Rightarrow> nat" where
  "fragment_free t = length (filter (\<lambda>e. \<not> fe_occupied e) (ft_entries t))"

lemma fragment_insert_free:
  assumes "fragment_table_wf t" and "fragment_insert t h ip now = Some t'"
  shows "fragment_free t \<le> Suc (fragment_free t')"
proof -
  obtain b where m: "ft_mask t = 2 ^ min b 63 - 1" using assms(1) by (rule fragment_mask)
  have l: "length (ft_entries t) = Suc (ft_mask t)" using assms(1) by (simp add: fragment_table_wf_def)
  let ?ops = "fragment_ops (ft_ttl t) now"
  let ?c = "new_fragment_entry h ip now"
  obtain r es where put: "rh_put ?ops (ft_mask t) (ft_entries t) ?c = (r, es)" by fastforce
  have t': "t' = t\<lparr>ft_entries := es\<rparr>"
    using fragment_ops_eq(2) [OF assms(1), of h ip now] put assms(2) by simp
  have "fragment_table_wf t'" using fragment_insert_wf [OF assms(1), of h ip now] assms(2) by auto
  then have "length es = length (ft_entries t)" using l by (simp add: t' fragment_table_wf_def)
  moreover have "length (filter fe_occupied es) \<le> Suc (length (filter fe_occupied (ft_entries t)))"
    using frag_rh.put_count [where b = b, folded m, OF l _ put] by (simp add: new_fragment_entry_def)
  ultimately show ?thesis
    using sum_length_filter_compl [of fe_occupied es] sum_length_filter_compl [of fe_occupied "ft_entries t"]
    by (simp add: fragment_free_def t')
qed

lemma fragment_live_map:
  assumes "fragment_table_wf t" and "fragment_ordered t"
  shows "fragment_live t now \<longleftrightarrow>
     (\<forall>h e. fragment_map t h = Some e \<longrightarrow> \<not> ft_ttl t < duration_since now (fe_inserted_at e))"
proof -
  obtain b where m: "ft_mask t = 2 ^ min b 63 - 1" using assms(1) by (rule fragment_mask)
  have l: "length (ft_entries t) = Suc (ft_mask t)" using assms(1) by (simp add: fragment_table_wf_def)
  have m: "fragment_map t h = Some e \<longleftrightarrow> (\<exists>i < Suc (ft_mask t). ft_entries t ! i = e \<and> fe_occupied e \<and> fe_hash e = h)" for h e
    using frag_rh.rh_map_iff [where b = b, folded m, of "ft_ttl t" now "ft_entries t" h e] assms(2) l
    by (simp add: fragment_map_rh [of _ "ft_ttl t" now] fragment_ordered_rh [of _ "ft_ttl t" now])
  show ?thesis unfolding fragment_live_def list_all_length l m by blast
qed



end
