(* ===== verification/Maglev.thy ===== *)
theory Maglev
  imports NetTypes
begin

text \<open>
  Maglev consistent hashing (crate lb-hashing: permutation.rs, lookup_table.rs). The hash function
  \<^verbatim>\<open>xxh3_64_with_seed\<close> of an external crate is the parameter \<open>xxh3\<close>; nothing is assumed about it.
  The two loops of \<^verbatim>\<open>build\<close> that could run forever are partial functions, so that the theorems
  below, which give their results, also show that they end: for a prime table size every slot is
  filled with an active backend, in proportion to the weights.
\<close>

definition USIZE_MAX :: nat where "USIZE_MAX = 2 ^ 64 - 1"

subsection \<open>Preference lists\<close>

definition maglev_offset :: "(u8 list \<Rightarrow> u64 \<Rightarrow> u64) \<Rightarrow> u8 list \<Rightarrow> nat \<Rightarrow> nat panics" where
  "maglev_offset xxh3 name m = (if m = 0 then None else Some (unat (xxh3 name 0) mod m))"

definition maglev_skip :: "(u8 list \<Rightarrow> u64 \<Rightarrow> u64) \<Rightarrow> u8 list \<Rightarrow> nat \<Rightarrow> nat panics" where
  "maglev_skip xxh3 name m =
     (let d = nat ((int m - 1) mod 2 ^ 64) in
      if d = 0 then None else Some (unat (xxh3 name 1) mod d + 1))"

text \<open>\<^verbatim>\<open>(o + j * s) % m\<close> on 64-bit \<^verbatim>\<open>usize\<close>.\<close>

definition pref_slot :: "nat \<Rightarrow> nat \<Rightarrow> nat \<Rightarrow> nat \<Rightarrow> nat" where
  "pref_slot m offs skp j = (offs + j * skp) mod 2 ^ 64 mod m"

definition preference_list :: "(u8 list \<Rightarrow> u64 \<Rightarrow> u64) \<Rightarrow> u8 list \<Rightarrow> nat \<Rightarrow> nat list panics" where
  "preference_list xxh3 name m = do {
     offs \<leftarrow> maglev_offset xxh3 name m;
     skp \<leftarrow> maglev_skip xxh3 name m;
     Some (map (pref_slot m offs skp) [0..<m]) }"

subsection \<open>Building the table\<close>

record lookup_table =
  lt_entries :: "nat list"
  lt_backends :: "backend list"
  lt_table_size :: nat

record build_state =
  bs_entries :: "nat list"
  bs_next :: "nat list"
  bs_filled :: nat

text \<open>The inner loop: advance in the preference list until a free slot is met.\<close>

partial_function (option) find_free :: "nat list \<Rightarrow> nat \<Rightarrow> nat \<Rightarrow> nat \<Rightarrow> nat \<Rightarrow> (nat \<times> nat) option" where
  "find_free entries m offs skp nx =
     (let c = pref_slot m offs skp nx in
      case byte_at entries c of
        None \<Rightarrow> None
      | Some v \<Rightarrow> if v \<noteq> USIZE_MAX then find_free entries m offs skp (nx + 1) else Some (nx, c))"

text \<open>One chance of backend \<open>i\<close>; the flag says that the table is full.\<close>

definition claim_slot :: "(nat \<times> nat) list \<Rightarrow> nat \<Rightarrow> nat \<Rightarrow> build_state \<Rightarrow> (bool \<times> build_state) option" where
  "claim_slot params m i st = do {
     (offs, skp) \<leftarrow> byte_at params i;
     nx \<leftarrow> byte_at (bs_next st) i;
     (nx, c) \<leftarrow> find_free (bs_entries st) m offs skp nx;
     let st' = \<lparr>bs_entries = (bs_entries st)[c := i], bs_next = (bs_next st)[i := nx + 1],
                bs_filled = bs_filled st + 1\<rparr>;
     Some (bs_filled st' = m, st') }"

fun claim_chances ::
  "(nat \<times> nat) list \<Rightarrow> nat \<Rightarrow> nat \<Rightarrow> nat \<Rightarrow> build_state \<Rightarrow> (bool \<times> build_state) option" where
  "claim_chances params m i 0 st = Some (False, st)"
| "claim_chances params m i (Suc k) st = do {
     (full, st) \<leftarrow> claim_slot params m i st;
     if full then Some (True, st) else claim_chances params m i k st }"

fun build_pass ::
  "backend list \<Rightarrow> (nat \<times> nat) list \<Rightarrow> nat \<Rightarrow> nat list \<Rightarrow> build_state \<Rightarrow> (bool \<times> build_state) option" where
  "build_pass active params m [] st = Some (False, st)"
| "build_pass active params m (i # is) st = do {
     b \<leftarrow> byte_at active i;
     (full, st) \<leftarrow> claim_chances params m i (unat (be_weight b)) st;
     if full then Some (True, st) else build_pass active params m is st }"

partial_function (option) build_outer ::
  "backend list \<Rightarrow> (nat \<times> nat) list \<Rightarrow> nat \<Rightarrow> build_state \<Rightarrow> build_state option" where
  "build_outer active params m st =
     (case build_pass active params m [0..<length active] st of
        None \<Rightarrow> None
      | Some (full, st) \<Rightarrow> if full then Some st else build_outer active params m st)"

fun maglev_params :: "(u8 list \<Rightarrow> u64 \<Rightarrow> u64) \<Rightarrow> nat \<Rightarrow> backend list \<Rightarrow> (nat \<times> nat) list panics" where
  "maglev_params xxh3 m [] = Some []"
| "maglev_params xxh3 m (b # bs) = do {
     let name_bytes = str_bytes (backend_name b);
     offs \<leftarrow> maglev_offset xxh3 name_bytes m;
     skp \<leftarrow> maglev_skip xxh3 name_bytes m;
     ps \<leftarrow> maglev_params xxh3 m bs;
     Some ((offs, skp) # ps) }"

definition build_table ::
  "(u8 list \<Rightarrow> u64 \<Rightarrow> u64) \<Rightarrow> backend list \<Rightarrow> nat \<Rightarrow> (string + lookup_table) option" where
  "build_table xxh3 backends m =
     (let active = filter (\<lambda>b. 0 < be_weight b) backends in
      if active = [] then Some (Inl ''cannot build lookup table: no backends with weight > 0'')
      else do {
        params \<leftarrow> maglev_params xxh3 m active;
        st \<leftarrow> build_outer active params m
          \<lparr>bs_entries = replicate m USIZE_MAX, bs_next = replicate (length active) 0, bs_filled = 0\<rparr>;
        Some (Inr \<lparr>lt_entries = bs_entries st, lt_backends = active, lt_table_size = m\<rparr>) })"

definition table_lookup :: "lookup_table \<Rightarrow> u64 \<Rightarrow> backend panics" where
  "table_lookup t hash =
     (if lt_table_size t = 0 then None
      else do {
        backend_idx \<leftarrow> byte_at (lt_entries t) (unat hash mod lt_table_size t);
        byte_at (lt_backends t) backend_idx })"

definition num_backends :: "lookup_table \<Rightarrow> nat" where
  "num_backends t = length (lt_backends t)"

subsection \<open>Preference lists are permutations\<close>

definition is_prime :: "nat \<Rightarrow> bool" where
  "is_prime m \<longleftrightarrow> 1 < m \<and> (\<forall>d < m. 1 < d \<longrightarrow> m mod d \<noteq> 0)"

lemma prime_coprime:
  assumes "is_prime m" and "0 < s" and "s < m"
  shows "coprime m s"
proof -
  have "gcd m s \<le> s" using assms(2) by (simp add: gcd_le2_nat)
  then have "gcd m s < m" using assms(3) by simp
  moreover have "m mod gcd m s = 0" by simp
  moreover have "0 < gcd m s" using assms(2) by simp
  ultimately have "gcd m s = 1" using assms(1) unfolding is_prime_def
    by (metis less_one linorder_neqE_nat not_less_zero)
  then show ?thesis by (simp add: coprime_iff_gcd_eq_1)
qed

lemma pref_no_wrap:
  assumes "m < 2 ^ 32" and "offs < m" and "skp < m" and "j < m"
  shows "offs + j * skp < 2 ^ 64" "pref_slot m offs skp j = (offs + j * skp) mod m"
proof -
  have "j * skp \<le> (m - 1) * (m - 1)" using assms by (intro mult_le_mono) auto
  also have "\<dots> \<le> (2 ^ 32 - 2) * (2 ^ 32 - 2)" using assms(1) by (intro mult_le_mono) auto
  finally show "offs + j * skp < 2 ^ 64" using assms(1,2) by simp
  then show "pref_slot m offs skp j = (offs + j * skp) mod m" by (simp add: pref_slot_def)
qed

lemma pref_inj:
  assumes "is_prime m" and "m < 2 ^ 32" and "offs < m" and "0 < skp" and "skp < m"
  shows "inj_on (pref_slot m offs skp) {0..<m}"
proof -
  have same: "j = k" if "j \<le> k" "k < m" "pref_slot m offs skp j = pref_slot m offs skp k" for j k
  proof -
    have "(offs + k * skp) mod m = (offs + j * skp) mod m"
      using that pref_no_wrap(2) [OF assms(2,3,5)] by simp
    then have "m dvd (offs + k * skp) - (offs + j * skp)"
      using that(1) by (subst (asm) mod_eq_dvd_iff_nat) simp_all
    then have "m dvd (k - j) * skp" by (simp add: diff_mult_distrib)
    moreover have "coprime m skp" using assms(1,4,5) by (rule prime_coprime)
    ultimately have "m dvd k - j" by (simp add: coprime_dvd_mult_left_iff)
    then show ?thesis using that by (meson diff_is_0_eq dvd_imp_le le_antisym less_imp_diff_less not_le zero_less_diff)
  qed
  show ?thesis
  proof (rule inj_onI)
    fix j k assume "j \<in> {0..<m}" "k \<in> {0..<m}" "pref_slot m offs skp j = pref_slot m offs skp k"
    then show "j = k" using same [of j k] same [of k j] by (cases "j \<le> k") auto
  qed
qed

lemma pref_surj:
  assumes "is_prime m" and "m < 2 ^ 32" and "offs < m" and "0 < skp" and "skp < m"
  shows "pref_slot m offs skp ` {0..<m} = {0..<m}"
  using pref_inj [OF assms] assms(1)
  by (intro endo_inj_surj) (auto simp: pref_slot_def is_prime_def)

lemma maglev_offset_skip:
  assumes "is_prime m" and "m < 2 ^ 32"
  obtains offs skp where "maglev_offset xxh3 name m = Some offs" and "maglev_skip xxh3 name m = Some skp"
    and "offs < m" and "0 < skp" and "skp < m"
proof -
  have m: "1 < m" using assms(1) by (simp add: is_prime_def)
  have "(int m - 1) mod 2 ^ 64 = int m - 1" using m assms(2) by (intro mod_pos_pos_trivial) auto
  then have d: "nat ((int m - 1) mod 2 ^ 64) = m - 1" by (simp add: nat_diff_distrib')
  have "unat (xxh3 name 1) mod (m - 1) + 1 < m"
    using m by (meson less_diff_conv mod_less_divisor zero_less_diff)
  then show ?thesis
    using m by (intro that [of "unat (xxh3 name 0) mod m" "unat (xxh3 name 1) mod (m - 1) + 1"])
      (simp_all add: maglev_offset_def maglev_skip_def d [simplified])
qed

text \<open>
  For a prime table size a backend's preference list is a permutation of the slots: no slot
  is missed and none is repeated, whatever the hash function returns.
\<close>

theorem preference_list_permutation:
  assumes "is_prime m" and "m < 2 ^ 32"
  shows "\<exists>ps. preference_list xxh3 name m = Some ps \<and> distinct ps \<and> set ps = {0..<m}"
proof -
  obtain offs skp where os: "maglev_offset xxh3 name m = Some offs" "maglev_skip xxh3 name m = Some skp"
    and b: "offs < m" "0 < skp" "skp < m"
    using maglev_offset_skip [OF assms, of xxh3 name] by metis
  then show ?thesis
    using pref_inj [OF assms b] pref_surj [OF assms b]
    by (simp add: preference_list_def distinct_map)
qed

lemma is_prime_7: "is_prime 7"
proof -
  have "d = 2 \<or> d = 3 \<or> d = 4 \<or> d = 5 \<or> d = 6" if "d < 7" "1 < d" for d :: nat
    using that by linarith
  then have "7 mod d \<noteq> 0" if "d < 7" "1 < d" for d :: nat
    using that by (elim meta_allE [of _ d]) auto
  then show ?thesis by (simp add: is_prime_def)
qed

lemma preference_list_permutation_witness:
  "\<exists>ps. preference_list (\<lambda>name seed. seed + 5) (str_bytes ''10.0.0.1:443'') 7 = Some ps \<and> set ps = {0..<7}"
proof -
  from preference_list_permutation [OF is_prime_7] show ?thesis by fastforce
qed

subsection \<open>The loops end and fill every slot\<close>

text \<open>
  The state of the build over \<open>n\<close> backends: the counter is the number of taken slots, taken
  slots name a backend, and every preference a backend has passed is taken.
\<close>

definition slot_count :: "build_state \<Rightarrow> nat \<Rightarrow> nat" where
  "slot_count st i = length (filter (\<lambda>e. e = i) (bs_entries st))"

definition params_ok :: "(nat \<times> nat) list \<Rightarrow> nat \<Rightarrow> nat \<Rightarrow> bool" where
  "params_ok params m n \<longleftrightarrow> length params = n \<and> n < USIZE_MAX \<and>
     (\<forall>(offs, skp) \<in> set params. offs < m \<and> 0 < skp \<and> skp < m)"

definition build_inv :: "(nat \<times> nat) list \<Rightarrow> nat \<Rightarrow> nat \<Rightarrow> build_state \<Rightarrow> bool" where
  "build_inv params m n st \<longleftrightarrow>
     length (bs_entries st) = m \<and> length (bs_next st) = n \<and>
     (\<forall>e \<in> set (bs_entries st). e = USIZE_MAX \<or> e < n) \<and>
     bs_filled st = length (filter (\<lambda>e. e \<noteq> USIZE_MAX) (bs_entries st)) \<and>
     (\<forall>i < n. \<forall>j < bs_next st ! i. j < m \<and>
        bs_entries st ! pref_slot m (fst (params ! i)) (snd (params ! i)) j \<noteq> USIZE_MAX)"

lemma find_free_finds:
  assumes "m \<noteq> 0" "length entries = m"
    and "entries ! pref_slot m offs skp j = USIZE_MAX" and "nx \<le> j"
  shows "\<exists>nx' c. find_free entries m offs skp nx = Some (nx', c) \<and> c = pref_slot m offs skp nx' \<and>
     nx \<le> nx' \<and> nx' \<le> j \<and> entries ! c = USIZE_MAX \<and>
     (\<forall>k. nx \<le> k \<and> k < nx' \<longrightarrow> entries ! pref_slot m offs skp k \<noteq> USIZE_MAX)"
  using assms(4)
proof (induction "j - nx" arbitrary: nx)
  case 0
  then have "nx = j" by simp
  then show ?case using assms by (subst find_free.simps) (simp add: Let_def pref_slot_def)
next
  case (Suc d)
  show ?case
  proof (cases "entries ! pref_slot m offs skp nx = USIZE_MAX")
    case True
    then show ?thesis
      using assms Suc.prems by (subst find_free.simps) (simp add: Let_def pref_slot_def)
  next
    case False
    have step: "find_free entries m offs skp nx = find_free entries m offs skp (nx + 1)"
      using assms False by (subst find_free.simps) (simp add: Let_def pref_slot_def)
    have "d = j - (nx + 1)" "nx + 1 \<le> j" using Suc.hyps(2) by simp_all
    from Suc.hyps(1) [OF this] obtain nx' c where
      "find_free entries m offs skp (nx + 1) = Some (nx', c)" "c = pref_slot m offs skp nx'"
      "nx + 1 \<le> nx'" "nx' \<le> j" "entries ! c = USIZE_MAX"
      and k: "\<forall>k. nx + 1 \<le> k \<and> k < nx' \<longrightarrow> entries ! pref_slot m offs skp k \<noteq> USIZE_MAX"
      by blast
    moreover have "entries ! pref_slot m offs skp k \<noteq> USIZE_MAX" if "nx \<le> k \<and> k < nx'" for k
      using that k False by (cases "k = nx") auto
    ultimately show ?thesis unfolding step by auto
  qed
qed

lemma claim_slot_ok:
  assumes m: "is_prime m" "m < 2 ^ 32" and ps: "params_ok params m n"
    and inv: "build_inv params m n st" and room: "bs_filled st < m" and i: "i < n"
  shows "\<exists>st'. claim_slot params m i st = Some (bs_filled st' = m, st') \<and> build_inv params m n st' \<and>
     bs_filled st' = bs_filled st + 1 \<and>
     (\<forall>k < n. slot_count st' k = slot_count st k + (if k = i then 1 else 0))"
proof -
  obtain offs skp where p: "params ! i = (offs, skp)" by fastforce
  have len: "length params = n" "length (bs_entries st) = m" "length (bs_next st) = n" "n < USIZE_MAX"
    using ps inv by (simp_all add: params_ok_def build_inv_def)
  have os: "offs < m" "0 < skp" "skp < m"
    using ps i p nth_mem [of i params] len by (auto simp: params_ok_def)
  let ?slot = "pref_slot m offs skp"
  have passed: "j < m" "bs_entries st ! ?slot j \<noteq> USIZE_MAX" if "j < bs_next st ! i" for j
    using inv i that p by (auto simp: build_inv_def)
  have filled: "bs_filled st = length (filter (\<lambda>e. e \<noteq> USIZE_MAX) (bs_entries st))"
    using inv by (simp add: build_inv_def)
  have "\<not> (\<forall>e \<in> set (bs_entries st). e \<noteq> USIZE_MAX)"
  proof
    assume "\<forall>e \<in> set (bs_entries st). e \<noteq> USIZE_MAX"
    then have "bs_filled st = m" unfolding filled len(2) [symmetric] by simp
    then show False using room by simp
  qed
  then obtain c0 where "c0 < m" "bs_entries st ! c0 = USIZE_MAX" using len by (metis in_set_conv_nth)
  moreover have "c0 \<in> ?slot ` {0..<m}" using pref_surj [OF m os] \<open>c0 < m\<close> by simp
  ultimately obtain j where j: "j < m" "bs_entries st ! ?slot j = USIZE_MAX" by auto
  then have "bs_next st ! i \<le> j" using passed by (meson not_le)
  then obtain nx' c where free: "find_free (bs_entries st) m offs skp (bs_next st ! i) = Some (nx', c)"
    and c: "c = ?slot nx'" "nx' \<le> j" "bs_entries st ! c = USIZE_MAX"
    and skipped: "\<forall>k. bs_next st ! i \<le> k \<and> k < nx' \<longrightarrow> bs_entries st ! ?slot k \<noteq> USIZE_MAX"
    using find_free_finds [OF _ len(2) j(2) \<open>bs_next st ! i \<le> j\<close>] m(1) [unfolded is_prime_def]
    by (metis not_one_less_zero)
  have cm: "c < m" using c(1) m(1) by (simp add: pref_slot_def is_prime_def)
  define st' where "st' = \<lparr>bs_entries = (bs_entries st)[c := i], bs_next = (bs_next st)[i := nx' + 1],
      bs_filled = bs_filled st + 1\<rparr>"
  have run: "claim_slot params m i st = Some (bs_filled st' = m, st')"
    using i len p free by (simp add: claim_slot_def Let_def st'_def)
  have upd: "length (filter P ((bs_entries st)[c := i])) + (if P USIZE_MAX then 1 else 0) =
      length (filter P (bs_entries st)) + (if P i then 1 else 0)" for P
    using count_update [of c "bs_entries st" P i] cm len c(3) by simp
  have cnt: "slot_count st' k = slot_count st k + (if k = i then 1 else 0)" if "k < n" for k
    using upd [of "\<lambda>e. e = k"] that len by (auto simp: slot_count_def st'_def)
  have kept: "(bs_entries st)[c := i] ! x \<noteq> USIZE_MAX" if "bs_entries st ! x \<noteq> USIZE_MAX" for x
    using that i len cm by (cases "x = c") auto
  have new: "(bs_entries st)[c := i] ! ?slot k \<noteq> USIZE_MAX \<and> k < m" if "k < Suc nx'" for k
  proof (cases "k = nx'")
    case True
    then show ?thesis using c i len cm j(1) by simp
  next
    case False
    then have "k < nx'" using that by simp
    then show ?thesis using passed skipped kept c(2) j(1) by (cases "bs_next st ! i \<le> k") auto
  qed
  have "\<forall>e \<in> set ((bs_entries st)[c := i]). e = USIZE_MAX \<or> e < n"
    using inv i by (auto simp: build_inv_def dest!: set_update_subset_insert [THEN subsetD])
  moreover have "bs_filled st + 1 = length (filter (\<lambda>e. e \<noteq> USIZE_MAX) ((bs_entries st)[c := i]))"
    using upd [of "\<lambda>e. e \<noteq> USIZE_MAX"] inv i len by (simp add: build_inv_def)
  moreover have "j < m \<and> (bs_entries st)[c := i] ! pref_slot m (fst (params ! k)) (snd (params ! k)) j \<noteq> USIZE_MAX"
    if "k < n" "j < ((bs_next st)[i := nx' + 1]) ! k" for k j
  proof (cases "k = i")
    case True
    then show ?thesis using that new [of j] p len i by simp
  next
    case False
    then show ?thesis using that inv kept by (auto simp: build_inv_def)
  qed
  ultimately have "build_inv params m n st'"
    using len by (simp add: build_inv_def st'_def)
  with run cnt show ?thesis by (intro exI [of _ st']) (simp add: st'_def)
qed

lemma claim_chances_ok:
  assumes m: "is_prime m" "m < 2 ^ 32" and ps: "params_ok params m n"
    and "build_inv params m n st" and "bs_filled st < m" and i: "i < n"
  shows "\<exists>st' k'. claim_chances params m i k st = Some (bs_filled st' = m, st') \<and>
     build_inv params m n st' \<and> bs_filled st' = bs_filled st + k' \<and> bs_filled st' \<le> m \<and>
     k' \<le> k \<and> (bs_filled st' < m \<longrightarrow> k' = k) \<and>
     (\<forall>x < n. slot_count st' x = slot_count st x + (if x = i then k' else 0))"
  using assms(4,5)
proof (induction k arbitrary: st)
  case (Suc k)
  obtain st1 where st1: "claim_slot params m i st = Some (bs_filled st1 = m, st1)"
    "build_inv params m n st1" "bs_filled st1 = bs_filled st + 1"
    "\<forall>x < n. slot_count st1 x = slot_count st x + (if x = i then 1 else 0)"
    using claim_slot_ok [OF m ps Suc.prems i] by blast
  show ?case
  proof (cases "bs_filled st1 = m")
    case True
    then show ?thesis using st1 by (intro exI [of _ st1] exI [of _ 1]) simp
  next
    case False
    then have "bs_filled st1 < m" using st1(3) Suc.prems(2) by simp
    from Suc.IH [OF st1(2) this] obtain st' k' where
      "claim_chances params m i k st1 = Some (bs_filled st' = m, st')" "build_inv params m n st'"
      "bs_filled st' = bs_filled st1 + k'" "bs_filled st' \<le> m" "k' \<le> k" "bs_filled st' < m \<longrightarrow> k' = k"
      "\<forall>x < n. slot_count st' x = slot_count st1 x + (if x = i then k' else 0)" by blast
    then show ?thesis using st1 False by (intro exI [of _ st'] exI [of _ "Suc k'"]) simp
  qed
next
  case 0
  then show ?case by (intro exI [of _ st] exI [of _ 0]) simp
qed

lemma build_pass_ok:
  assumes m: "is_prime m" "m < 2 ^ 32" and ps: "params_ok params m n" and n: "n = length active"
    and w: "\<forall>b \<in> set active. 0 < be_weight b"
    and "build_inv params m n st" and "bs_filled st < m" and "distinct is" and "set is \<subseteq> {0..<n}"
  shows "\<exists>st'. build_pass active params m is st = Some (bs_filled st' = m, st') \<and>
     build_inv params m n st' \<and> bs_filled st' \<le> m \<and>
     bs_filled st + length is \<le> bs_filled st' + (if bs_filled st' = m then length is else 0) \<and>
     (\<forall>x < n. slot_count st x \<le> slot_count st' x \<and>
        slot_count st' x \<le> slot_count st x + (if x \<in> set is then unat (be_weight (active ! x)) else 0) \<and>
        (bs_filled st' < m \<longrightarrow> slot_count st' x =
           slot_count st x + (if x \<in> set is then unat (be_weight (active ! x)) else 0)))"
  using assms(6-)
proof (induction "is" arbitrary: st)
  case Nil
  then show ?case by (intro exI [of _ st]) simp
next
  case (Cons i "is")
  let ?w = "unat (be_weight (active ! i))"
  have i: "i < n" "i < length active" using Cons.prems n by auto
  then have wi: "0 < ?w" using w nth_mem [of i active] by (metis unat_gt_0 word_gt_0)
  obtain st1 k' where st1: "claim_chances params m i ?w st = Some (bs_filled st1 = m, st1)"
    "build_inv params m n st1" "bs_filled st1 = bs_filled st + k'" "bs_filled st1 \<le> m"
    "k' \<le> ?w" "bs_filled st1 < m \<longrightarrow> k' = ?w"
    and cnt: "\<forall>x < n. slot_count st1 x = slot_count st x + (if x = i then k' else 0)"
    using claim_chances_ok [OF m ps Cons.prems(1,2) i(1), of ?w] by blast
  show ?case
  proof (cases "bs_filled st1 = m")
    case True
    then have "build_pass active params m (i # is) st = Some (bs_filled st1 = m, st1)"
      using st1(1) i by simp
    moreover have "slot_count st x \<le> slot_count st1 x \<and>
        slot_count st1 x \<le> slot_count st x + (if x \<in> set (i # is) then unat (be_weight (active ! x)) else 0)"
      if "x < n" for x
      using cnt [rule_format, OF that] st1(5) by (cases "x = i") simp_all
    ultimately show ?thesis using st1(2) True Cons.prems(2)
      by (intro exI [of _ st1] conjI allI impI) simp_all
  next
    case False
    then have less: "bs_filled st1 < m" using st1(4) by simp
    have "distinct is" "set is \<subseteq> {0..<n}" "i \<notin> set is" using Cons.prems by auto
    from Cons.IH [OF st1(2) less this(1,2)] obtain st' where
      st': "build_pass active params m is st1 = Some (bs_filled st' = m, st')" "build_inv params m n st'"
      "bs_filled st' \<le> m"
      "bs_filled st1 + length is \<le> bs_filled st' + (if bs_filled st' = m then length is else 0)"
      and c': "\<forall>x < n. slot_count st1 x \<le> slot_count st' x \<and>
        slot_count st' x \<le> slot_count st1 x + (if x \<in> set is then unat (be_weight (active ! x)) else 0) \<and>
        (bs_filled st' < m \<longrightarrow> slot_count st' x =
           slot_count st1 x + (if x \<in> set is then unat (be_weight (active ! x)) else 0))" by blast
    have "build_pass active params m (i # is) st = Some (bs_filled st' = m, st')"
      using st1(1) False i st'(1) by simp
    moreover have "bs_filled st + length (i # is) \<le>
        bs_filled st' + (if bs_filled st' = m then length (i # is) else 0)"
    proof (cases "bs_filled st' = m")
      case True
      then show ?thesis using Cons.prems(2) by simp
    next
      case False
      then show ?thesis using st'(4) st1(3,6) less wi by simp
    qed
    moreover have "slot_count st x \<le> slot_count st' x \<and>
        slot_count st' x \<le> slot_count st x + (if x \<in> set (i # is) then unat (be_weight (active ! x)) else 0) \<and>
        (bs_filled st' < m \<longrightarrow> slot_count st' x =
           slot_count st x + (if x \<in> set (i # is) then unat (be_weight (active ! x)) else 0))"
      if "x < n" for x
      using c' [rule_format, OF that] cnt [rule_format, OF that] st1(6) less \<open>i \<notin> set is\<close>
      by (cases "x = i") auto
    ultimately show ?thesis using st'(2,3) by blast
  qed
qed

text \<open>
  All passes: the table is full, and the share of each backend is between \<open>p\<close> and \<open>p + 1\<close> times
  its weight for one number of passes \<open>p\<close>.
\<close>

lemma build_outer_ok:
  assumes m: "is_prime m" "m < 2 ^ 32" and ps: "params_ok params m n" and n: "n = length active" "0 < n"
    and w: "\<forall>b \<in> set active. 0 < be_weight b"
    and "build_inv params m n st" and "bs_filled st < m"
    and "\<forall>x < n. slot_count st x = p * unat (be_weight (active ! x))"
  shows "\<exists>st' q. build_outer active params m st = Some st' \<and> build_inv params m n st' \<and> bs_filled st' = m \<and>
     (\<forall>x < n. q * unat (be_weight (active ! x)) \<le> slot_count st' x \<and>
        slot_count st' x \<le> (q + 1) * unat (be_weight (active ! x)))"
  using assms(7-)
proof (induction "m - bs_filled st" arbitrary: st p rule: less_induct)
  case less
  have "distinct [0..<n]" "set [0..<n] \<subseteq> {0..<n}" by simp_all
  from build_pass_ok [OF m ps n(1) w less.prems(1,2) this] obtain st1 where
    st1: "build_pass active params m [0..<n] st = Some (bs_filled st1 = m, st1)" "build_inv params m n st1"
    "bs_filled st1 \<le> m"
    "bs_filled st + length [0..<n] \<le> bs_filled st1 + (if bs_filled st1 = m then length [0..<n] else 0)"
    and c0: "\<forall>x < n. slot_count st x \<le> slot_count st1 x \<and>
        slot_count st1 x \<le> slot_count st x + (if x \<in> set [0..<n] then unat (be_weight (active ! x)) else 0) \<and>
        (bs_filled st1 < m \<longrightarrow> slot_count st1 x =
           slot_count st x + (if x \<in> set [0..<n] then unat (be_weight (active ! x)) else 0))"
    by blast
  have c: "\<forall>x < n. slot_count st x \<le> slot_count st1 x \<and>
        slot_count st1 x \<le> slot_count st x + unat (be_weight (active ! x)) \<and>
        (bs_filled st1 < m \<longrightarrow> slot_count st1 x = slot_count st x + unat (be_weight (active ! x)))"
    using c0 by simp
  show ?case
  proof (cases "bs_filled st1 = m")
    case True
    then have "build_outer active params m st = Some st1"
      using st1(1) n(1) by (subst build_outer.simps) simp
    then show ?thesis using st1(2) True c less.prems(3)
      by (intro exI [of _ st1] exI [of _ p]) auto
  next
    case False
    then have less1: "bs_filled st1 < m" "bs_filled st < bs_filled st1" using st1(3,4) n(2) by auto
    have step: "build_outer active params m st = build_outer active params m st1"
      using st1(1) n(1) False by (subst build_outer.simps) simp
    have "\<forall>x < n. slot_count st1 x = (p + 1) * unat (be_weight (active ! x))"
      using c less1(1) less.prems(3) by simp
    from less.hyps [OF _ st1(2) less1(1) this] less1 show ?thesis
      unfolding step by simp
  qed
qed

lemma maglev_params_ok:
  assumes "is_prime m" and "m < 2 ^ 32"
  shows "\<exists>ps. maglev_params xxh3 m bs = Some ps \<and> length ps = length bs \<and>
     (\<forall>(offs, skp) \<in> set ps. offs < m \<and> 0 < skp \<and> skp < m)"
proof (induction bs)
  case (Cons b bs)
  obtain offs skp where "maglev_offset xxh3 (str_bytes (backend_name b)) m = Some offs"
    "maglev_skip xxh3 (str_bytes (backend_name b)) m = Some skp" "offs < m" "0 < skp" "skp < m"
    using maglev_offset_skip [OF assms, of xxh3 "str_bytes (backend_name b)"] by metis
  with Cons show ?case by (auto simp: Let_def)
qed simp

lemma build_table_ok:
  fixes xxh3 backends m
  defines "active \<equiv> filter (\<lambda>b. 0 < be_weight b) backends"
  assumes m: "is_prime m" "m < 2 ^ 32" and ne: "active \<noteq> []" and n: "length active < USIZE_MAX"
  obtains t q where "build_table xxh3 backends m = Some (Inr t)" and "lt_backends t = active"
    and "lt_table_size t = m" and "length (lt_entries t) = m"
    and "\<forall>e \<in> set (lt_entries t). e < length active"
    and "\<forall>x < length active. q * unat (be_weight (active ! x)) \<le> length (filter (\<lambda>e. e = x) (lt_entries t)) \<and>
        length (filter (\<lambda>e. e = x) (lt_entries t)) \<le> (q + 1) * unat (be_weight (active ! x))"
proof -
  obtain ps where ps: "maglev_params xxh3 m active = Some ps" "params_ok ps m (length active)"
    using maglev_params_ok [OF m, of xxh3 active] n by (auto simp: params_ok_def)
  let ?n = "length active"
  define st where "st = \<lparr>bs_entries = replicate m USIZE_MAX, bs_next = replicate ?n 0, bs_filled = 0\<rparr>"
  have inv: "build_inv ps m ?n st" by (auto simp: build_inv_def st_def)
  have room: "bs_filled st < m" using m(1) by (simp add: st_def is_prime_def)
  have zero: "\<forall>x < ?n. slot_count st x = 0 * unat (be_weight (active ! x))"
    using n by (simp add: slot_count_def st_def filter_empty_conv)
  have w: "\<forall>b \<in> set active. 0 < be_weight b" by (simp add: active_def)
  obtain st' q where st': "build_outer active ps m st = Some st'" "build_inv ps m ?n st'" "bs_filled st' = m"
    and share: "\<forall>x < ?n. q * unat (be_weight (active ! x)) \<le> slot_count st' x \<and>
        slot_count st' x \<le> (q + 1) * unat (be_weight (active ! x))"
    using build_outer_ok [OF m ps(2) refl _ w inv room zero] ne by auto
  have "e \<noteq> USIZE_MAX" if "e \<in> set (bs_entries st')" for e
    using st'(2,3) that length_filter_less [of e "bs_entries st'" "\<lambda>e. e \<noteq> USIZE_MAX"]
    by (auto simp: build_inv_def)
  then have "\<forall>e \<in> set (bs_entries st'). e < ?n" using st'(2) by (auto simp: build_inv_def)
  then show ?thesis
    using that [of "\<lparr>lt_entries = bs_entries st', lt_backends = active, lt_table_size = m\<rparr>" q]
      ps(1) st'(1,2) share ne
    by (simp add: build_table_def active_def [symmetric] Let_def st_def build_inv_def slot_count_def)
qed

lemma USIZE_bound: "n < 2 ^ 63 \<Longrightarrow> n < USIZE_MAX"
  by (simp add: USIZE_MAX_def)

text \<open>
  C8. For a prime table size the build returns: the error when no backend has a positive weight,
  and otherwise a table of the given size in which every slot names an active backend and the
  shares follow the weights, each within one pass of proportionality (with equal weights the
  shares differ by at most that weight).
\<close>

theorem build_table_fair:
  assumes "is_prime m" and "m < 2 ^ 32" and "length backends < 2 ^ 63"
  shows "if filter (\<lambda>b. 0 < be_weight b) backends = []
    then build_table xxh3 backends m = Some (Inl ''cannot build lookup table: no backends with weight > 0'')
    else \<exists>t q. build_table xxh3 backends m = Some (Inr t) \<and>
       lt_backends t = filter (\<lambda>b. 0 < be_weight b) backends \<and> lt_table_size t = m \<and>
       length (lt_entries t) = m \<and> (\<forall>e \<in> set (lt_entries t). e < length (lt_backends t)) \<and>
       (\<forall>x < length (lt_backends t).
          q * unat (be_weight (lt_backends t ! x)) \<le> length (filter (\<lambda>e. e = x) (lt_entries t)) \<and>
          length (filter (\<lambda>e. e = x) (lt_entries t)) \<le> (q + 1) * unat (be_weight (lt_backends t ! x)))"
proof (cases "filter (\<lambda>b. 0 < be_weight b) backends = []")
  case True
  then show ?thesis by (simp add: build_table_def)
next
  case False
  have "length (filter (\<lambda>b. 0 < be_weight b) backends) < USIZE_MAX"
    using assms(3) length_filter_le le_less_trans USIZE_bound by blast
  from build_table_ok [OF assms(1,2) False this, of xxh3] False show ?thesis
    by simp metis
qed

lemma build_table_fair_witness:
  "\<exists>t. build_table (\<lambda>name seed. seed + 5)
     [backend_new (V4 (Ipv4 10 0 0 1)) 443, backend_new (V4 (Ipv4 10 0 0 2)) 443] 7 = Some (Inr t) \<and>
     length (lt_entries t) = 7"
  using build_table_fair [OF is_prime_7, of "[backend_new (V4 (Ipv4 10 0 0 1)) 443,
      backend_new (V4 (Ipv4 10 0 0 2)) 443]" "\<lambda>name seed. seed + 5"]
  by (auto simp: backend_new_def)

lemma build_table_cases:
  assumes "is_prime m" and "m < 2 ^ 32" and "length backends < 2 ^ 63"
    and "build_table xxh3 backends m = Some (Inr t)"
  shows "lt_table_size t = m" "length (lt_entries t) = m"
    "\<forall>e \<in> set (lt_entries t). e < length (lt_backends t)"
    "lt_backends t = filter (\<lambda>b. 0 < be_weight b) backends"
proof -
  have ne: "filter (\<lambda>b. 0 < be_weight b) backends \<noteq> []"
    using assms(4) by (auto simp: build_table_def)
  have "length (filter (\<lambda>b. 0 < be_weight b) backends) < USIZE_MAX"
    using assms(3) length_filter_le le_less_trans USIZE_bound by blast
  then obtain t' where t': "build_table xxh3 backends m = Some (Inr t')" "lt_table_size t' = m"
    "length (lt_entries t') = m"
    "\<forall>e \<in> set (lt_entries t'). e < length (filter (\<lambda>b. 0 < be_weight b) backends)"
    "lt_backends t' = filter (\<lambda>b. 0 < be_weight b) backends"
    using build_table_ok [OF assms(1,2) ne, of xxh3] by blast
  have "t' = t" using t'(1) assms(4) by simp
  with t' show "lt_table_size t = m" "length (lt_entries t) = m"
    "\<forall>e \<in> set (lt_entries t). e < length (lt_backends t)"
    "lt_backends t = filter (\<lambda>b. 0 < be_weight b) backends" by simp_all
qed

text \<open>What a table must satisfy for lookups to be safe; built tables do.\<close>

definition table_ok :: "lookup_table \<Rightarrow> bool" where
  "table_ok t \<longleftrightarrow> 0 < lt_table_size t \<and> length (lt_entries t) = lt_table_size t \<and>
     (\<forall>e \<in> set (lt_entries t). e < length (lt_backends t)) \<and>
     (\<forall>b \<in> set (lt_backends t). 0 < be_weight b)"

lemma build_table_table_ok:
  assumes "is_prime m" and "m < 2 ^ 32" and "length backends < 2 ^ 63"
    and "build_table xxh3 backends m = Some (Inr t)"
  shows "table_ok t"
  using build_table_cases [OF assms] assms(1) by (auto simp: table_ok_def is_prime_def)

lemma table_lookup_ok:
  assumes "table_ok t"
  obtains b where "table_lookup t h = Some b" and "b \<in> set (lt_backends t)" and "0 < be_weight b"
proof -
  let ?i = "unat h mod lt_table_size t"
  have i: "?i < length (lt_entries t)" using assms by (simp add: table_ok_def)
  then have "lt_entries t ! ?i < length (lt_backends t)"
    using assms nth_mem [OF i] by (simp add: table_ok_def)
  then show ?thesis
    using that [of "lt_backends t ! (lt_entries t ! ?i)"] assms i
    by (simp add: table_lookup_def table_ok_def)
qed

text \<open>
  Every flow hash is mapped, without a panic, to one of the configured backends, and never
  to one of weight zero.
\<close>

theorem table_lookup_active:
  assumes "is_prime m" and "m < 2 ^ 32" and "length backends < 2 ^ 63"
    and "build_table xxh3 backends m = Some (Inr t)"
  shows "\<exists>b. table_lookup t h = Some b \<and> b \<in> set backends \<and> 0 < be_weight b"
  using table_lookup_ok [OF build_table_table_ok [OF assms], of h] build_table_cases(4) [OF assms]
  by (metis filter_is_subset subsetD)

lemma table_lookup_active_witness:
  "\<exists>t b. build_table (\<lambda>name seed. seed + 5)
     [backend_new (V4 (Ipv4 10 0 0 1)) 443, backend_new (V4 (Ipv4 10 0 0 2)) 443] 7 = Some (Inr t) \<and>
     table_lookup t 12345 = Some b \<and> 0 < be_weight b"
proof -
  have ne: "filter (\<lambda>b. 0 < be_weight b) [backend_new (V4 (Ipv4 10 0 0 1)) 443,
      backend_new (V4 (Ipv4 10 0 0 2)) 443] \<noteq> []" by (simp add: backend_new_def)
  have l: "(7 :: nat) < 2 ^ 32" "length (filter (\<lambda>b. 0 < be_weight b) [backend_new (V4 (Ipv4 10 0 0 1)) 443,
      backend_new (V4 (Ipv4 10 0 0 2)) 443]) < USIZE_MAX" by (simp_all add: backend_new_def USIZE_MAX_def)
  obtain t where t: "build_table (\<lambda>name seed. seed + 5)
     [backend_new (V4 (Ipv4 10 0 0 1)) 443, backend_new (V4 (Ipv4 10 0 0 2)) 443] 7 = Some (Inr t)"
    using build_table_ok [OF is_prime_7 l(1) ne l(2)] by blast
  have "length [backend_new (V4 (Ipv4 10 0 0 1)) 443, backend_new (V4 (Ipv4 10 0 0 2)) 443] < 2 ^ 63" by simp
  from table_lookup_active [OF is_prime_7 l(1) this t, of 12345] t show ?thesis by blast
qed

end
