(* ===== verification/VipMatcher.thy ===== *)
theory VipMatcher
  imports Packet
begin

text \<open>
  The VIP matcher (vip_matcher.rs) and the choice of a rewriter queue (steering.rs), both of crate
  lb-forwarder. The hash table of the matcher is a finite map from (address, protocol, port) to
  the pool; building it inserts the entries in order, so the last entry of a key wins.
\<close>

record vip_key =
  vk_ip :: ip_addr
  vk_protocol :: protocol
  vk_port :: u16

type_synonym vip_matcher = "vip_key \<rightharpoonup> backend_pool_id"

definition vip_matcher_new :: vip_matcher where
  "vip_matcher_new = Map.empty"

definition matcher_insert :: "vip_matcher \<Rightarrow> ip_addr \<times> protocol \<times> u16 \<times> backend_pool_id \<Rightarrow> vip_matcher" where
  "matcher_insert table e = (case e of (ip, protocol, port, pool) \<Rightarrow>
     table(\<lparr>vk_ip = ip, vk_protocol = protocol, vk_port = port\<rparr> \<mapsto> pool))"

definition matcher_from_entries :: "(ip_addr \<times> protocol \<times> u16 \<times> backend_pool_id) list \<Rightarrow> vip_matcher" where
  "matcher_from_entries entries = foldl matcher_insert vip_matcher_new entries"

definition match_packet :: "vip_matcher \<Rightarrow> ip_addr \<Rightarrow> protocol \<Rightarrow> u16 \<Rightarrow> backend_pool_id option" where
  "match_packet table dst protocol port =
     table \<lparr>vk_ip = dst, vk_protocol = protocol, vk_port = port\<rparr>"

definition assign_queue :: "(u8 list \<Rightarrow> u64) \<Rightarrow> packet_meta \<Rightarrow> nat \<Rightarrow> nat panics" where
  "assign_queue xxh3_64 meta num_queues =
     (if num_queues = 0 then None else Some (unat (flow_hash xxh3_64 meta) mod num_queues))"

text \<open>The matcher's answer is the pool of the last entry with that address, protocol and port.\<close>

lemma match_packet_snoc:
  "match_packet (matcher_from_entries (es @ [(ip', pr', port', pool)])) ip pr port =
     (if ip' = ip \<and> pr' = pr \<and> port' = port then Some pool
      else match_packet (matcher_from_entries es) ip pr port)"
  by (auto simp: match_packet_def matcher_from_entries_def matcher_insert_def)

lemma match_packet_from_entries:
  "match_packet (matcher_from_entries es) ip pr port =
     map_option (\<lambda>e. snd (snd (snd e)))
       (List.find (\<lambda>e. fst e = ip \<and> fst (snd e) = pr \<and> fst (snd (snd e)) = port) (rev es))"
proof (induction es rule: rev_induct)
  case Nil
  then show ?case by (simp add: match_packet_def matcher_from_entries_def vip_matcher_new_def)
next
  case (snoc e es)
  then show ?case by (cases e) (simp add: match_packet_snoc)
qed

lemma assign_queue_range:
  "0 < n \<Longrightarrow> \<exists>q. assign_queue xxh3 m n = Some q \<and> q < n"
  by (simp add: assign_queue_def)

end
