(* ===== verification/Rewriter.thy ===== *)
theory Rewriter
  imports Gre MssClamp Icmp ConnTable FragmentTable Maglev VipMatcher
begin

text \<open>
  The packet pipeline of one rewriter (crate lb-forwarder, rewriter.rs). The shared state it reads
  through \<^verbatim>\<open>ArcSwap\<close> and \<^verbatim>\<open>DashMap\<close> is held as the values loaded for a batch; the Prometheus
  counters are a function from counter names to numbers. \<open>process_one\<close> is cut into the stages its
  comments name. The theorems: no packet makes the pipeline panic, every packet of a batch is
  accounted for, and what is forwarded is a GRE frame around the packet. That a flow stays with its
  backend is the subject of \<open>Affinity\<close>.
\<close>

subsection \<open>Metrics\<close>

datatype fwd_counter =
  PacketsReceived | PacketsForwarded | PacketsDropped | ConnTableHits | ConnTableMisses
  | ConnTableInserts | EvictionExpiredOnInsert | EvictionDroppedFull
  | TcpTransitionEstablished | TcpTransitionClosingFin | TcpTransitionClosingRst
  | ConnTableFallbackToMaglev | MssClampTotal | MssClampNoop | MssClampMissing
  | IcmpFragNeededSent | IcmpFragNeededRatelimited | PacketsOversizedDropped
  | FragmentFirst | FragmentSubsequentForwarded | FragmentDropNoMapping

record forwarder_metrics =
  fm_counter :: "fwd_counter \<Rightarrow> nat"
  fm_conn_table_size :: int
  fm_conn_table_fill_bp :: int

definition forwarder_metrics_new :: forwarder_metrics where
  "forwarder_metrics_new = \<lparr>fm_counter = (\<lambda>_. 0), fm_conn_table_size = 0, fm_conn_table_fill_bp = 0\<rparr>"

definition fm_inc :: "fwd_counter \<Rightarrow> forwarder_metrics \<Rightarrow> forwarder_metrics" where
  "fm_inc c m = m\<lparr>fm_counter := (fm_counter m)(c := fm_counter m c + 1)\<rparr>"

subsection \<open>The rewriter\<close>

record rewriter =
  rw_src_ip :: ip_addr
  rw_conn :: conn_table
  rw_frag :: fragment_table
  rw_tables :: "backend_pool_id \<rightharpoonup> lookup_table"
  rw_matcher :: vip_matcher
  rw_health :: "ip_addr \<rightharpoonup> health_status"
  rw_metrics :: forwarder_metrics
  rw_mtu :: mtu_config
  rw_icmp :: icmp_rate_limiter

definition rewriter_new ::
  "ip_addr \<Rightarrow> nat \<Rightarrow> conn_ttls \<Rightarrow> nat \<Rightarrow> duration \<Rightarrow> (backend_pool_id \<rightharpoonup> lookup_table) \<Rightarrow> vip_matcher \<Rightarrow>
   (ip_addr \<rightharpoonup> health_status) \<Rightarrow> forwarder_metrics \<Rightarrow> mtu_config \<Rightarrow> u32 \<Rightarrow> instant \<Rightarrow> rewriter panics" where
  "rewriter_new src conn_table_size ttls fragment_table_size fragment_ttl tables matcher health metrics
     mtu icmp_rate_limit now = do {
     conn \<leftarrow> conn_table_new conn_table_size ttls now;
     frag \<leftarrow> fragment_table_new fragment_table_size fragment_ttl now;
     Some \<lparr>rw_src_ip = src, rw_conn = conn, rw_frag = frag, rw_tables = tables, rw_matcher = matcher,
           rw_health = health, rw_metrics = metrics, rw_mtu = mtu,
           rw_icmp = icmp_rate_limiter_new icmp_rate_limit now\<rparr> }"

definition count :: "fwd_counter \<Rightarrow> rewriter \<Rightarrow> rewriter" where
  "count c r = r\<lparr>rw_metrics := fm_inc c (rw_metrics r)\<rparr>"

datatype process_result = Forwarded packet_buf | IcmpReply packet_buf | OversizedRateLimited | Dropped

fun initial_tcp_state :: "tcp_flags option \<Rightarrow> tcp_flow_state" where
  "initial_tcp_state None = NotTcp"
| "initial_tcp_state (Some f) =
     (if flag_rst f \<or> flag_fin f then Closing
      else if flag_syn f \<and> \<not> flag_ack f then Handshake
      else if flag_ack f then Established
      else Handshake)"

definition insert_tracked ::
  "rewriter \<Rightarrow> u64 \<Rightarrow> ip_addr \<Rightarrow> flow_proto \<Rightarrow> tcp_flow_state \<Rightarrow> instant \<Rightarrow> rewriter panics" where
  "insert_tracked r hash backend pr st now = do {
     (res, conn) \<leftarrow> conn_insert (rw_conn r) hash backend pr st now;
     let r = r\<lparr>rw_conn := conn\<rparr>;
     Some (case res of
       Inserted \<Rightarrow> count ConnTableInserts r
     | Updated \<Rightarrow> count ConnTableInserts r
     | EvictedExpired \<Rightarrow> count EvictionExpiredOnInsert (count ConnTableInserts r)
     | DroppedFull \<Rightarrow> count EvictionDroppedFull r) }"

definition apply_tcp_transitions :: "rewriter \<Rightarrow> u64 \<Rightarrow> tcp_flags \<Rightarrow> instant \<Rightarrow> rewriter panics" where
  "apply_tcp_transitions r hash flags now =
     (if flag_rst flags
      then do { conn \<leftarrow> mark_closing (rw_conn r) hash now;
                Some (count TcpTransitionClosingRst (r\<lparr>rw_conn := conn\<rparr>)) }
      else if flag_fin flags
      then do { conn \<leftarrow> mark_closing (rw_conn r) hash now;
                Some (count TcpTransitionClosingFin (r\<lparr>rw_conn := conn\<rparr>)) }
      else if flag_ack flags \<and> \<not> flag_syn flags
      then do { conn \<leftarrow> mark_established (rw_conn r) hash now;
                Some (count TcpTransitionEstablished (r\<lparr>rw_conn := conn\<rparr>)) }
      else Some r)"

definition gre_encap_to :: "ip_addr \<Rightarrow> packet_buf \<Rightarrow> ip_addr \<Rightarrow> process_result panics" where
  "gre_encap_to src input backend =
     (case src of
        V6 _ \<Rightarrow> Some Dropped
      | V4 src_ipv4 \<Rightarrow> (case backend of
          V6 _ \<Rightarrow> Some Dropped
        | V4 dst_ipv4 \<Rightarrow> do {
            (ok, output) \<leftarrow> encapsulate_ipv4 input src_ipv4 dst_ipv4;
            Some (if ok then Forwarded output else Dropped) }))"

subsection \<open>The stages of \<open>process_one\<close>\<close>

text \<open>A fragment after the first: the 3-tuple decides.\<close>

definition process_later_fragment ::
  "(u8 list \<Rightarrow> u64) \<Rightarrow> rewriter \<Rightarrow> packet_buf \<Rightarrow> instant \<Rightarrow> (process_result \<times> rewriter) panics" where
  "process_later_fragment xxh3 r input now = do {
     bytes \<leftarrow> as_slice input;
     fid \<leftarrow> fragment_id_from_ipv4_bytes bytes;
     case fid of
       None \<Rightarrow> Some (Dropped, r)
     | Some f \<Rightarrow> do {
         hit \<leftarrow> fragment_get (rw_frag r) (fragment_hash xxh3 f) now;
         case hit of
           None \<Rightarrow> Some (Dropped, count FragmentDropNoMapping r)
         | Some backend \<Rightarrow> do {
             res \<leftarrow> gre_encap_to (rw_src_ip r) input backend;
             Some (res, count FragmentSubsequentForwarded r) } } }"

definition count_clamp :: "clamp_result \<Rightarrow> rewriter \<Rightarrow> rewriter" where
  "count_clamp c r = (case c of
     CClamped \<Rightarrow> count MssClampTotal r
   | CNoop \<Rightarrow> count MssClampNoop r
   | CMssMissing \<Rightarrow> count MssClampMissing r
   | CNotTcp \<Rightarrow> r
   | CNotSyn \<Rightarrow> r)"

text \<open>Backend selection: the connection table, the health of the cached backend, Maglev.\<close>

definition cached_backend_usable :: "rewriter \<Rightarrow> ip_addr \<Rightarrow> bool" where
  "cached_backend_usable r ip =
     (case rw_health r ip of None \<Rightarrow> True | Some s \<Rightarrow> s \<noteq> Unhealthy)"

definition select_backend ::
  "rewriter \<Rightarrow> lookup_table \<Rightarrow> u64 \<Rightarrow> flow_proto \<Rightarrow> tcp_flow_state \<Rightarrow> instant \<Rightarrow> (ip_addr \<times> rewriter) panics" where
  "select_backend r table hash pr initial_state now = do {
     cached \<leftarrow> conn_get (rw_conn r) hash now;
     case cached of
       Some ip \<Rightarrow>
         if cached_backend_usable r ip
         then do {
           let r = count ConnTableHits r;
           conn \<leftarrow> conn_touch (rw_conn r) hash now;
           Some (ip, r\<lparr>rw_conn := conn\<rparr>) }
         else do {
           let r = count ConnTableFallbackToMaglev r;
           backend \<leftarrow> table_lookup table hash;
           r \<leftarrow> insert_tracked r hash (be_ip backend) pr initial_state now;
           Some (be_ip backend, r) }
     | None \<Rightarrow> do {
         let r = count ConnTableMisses r;
         backend \<leftarrow> table_lookup table hash;
         r \<leftarrow> insert_tracked r hash (be_ip backend) pr initial_state now;
         Some (be_ip backend, r) } }"

text \<open>A first fragment leaves its 3-tuple for the ones that follow.\<close>

definition record_first_fragment ::
  "(u8 list \<Rightarrow> u64) \<Rightarrow> rewriter \<Rightarrow> packet_buf \<Rightarrow> ip_addr \<Rightarrow> instant \<Rightarrow> rewriter panics" where
  "record_first_fragment xxh3 r input backend now = do {
     bytes \<leftarrow> as_slice input;
     frag \<leftarrow> is_fragment bytes;
     if \<not> frag then Some r
     else do {
       fid \<leftarrow> fragment_id_from_ipv4_bytes bytes;
       case fid of
         None \<Rightarrow> Some r
       | Some f \<Rightarrow> do {
           t \<leftarrow> fragment_insert (rw_frag r) (fragment_hash xxh3 f) backend now;
           Some (count FragmentFirst (r\<lparr>rw_frag := t\<rparr>)) } } }"

text \<open>The oversized check and the encapsulation of the (clamped) output.\<close>

definition finish_packet ::
  "rewriter \<Rightarrow> packet_buf \<Rightarrow> ip_addr \<Rightarrow> ip_addr \<Rightarrow> instant \<Rightarrow> (process_result \<times> rewriter) panics" where
  "finish_packet r output dst backend now = do {
     bytes \<leftarrow> as_slice output;
     oversized \<leftarrow> should_generate_icmp bytes (network_mtu (rw_mtu r));
     if oversized
     then let (ok, icmp) = allow (rw_icmp r) now; r = r\<lparr>rw_icmp := icmp\<rparr> in
       if ok
       then do {
         reply \<leftarrow> generate_icmp_frag_needed bytes (case dst of V4 v4 \<Rightarrow> v4 | V6 _ \<Rightarrow> unspecified4)
                    (effective_inner_mtu (rw_mtu r));
         Some (IcmpReply reply, r) }
       else Some (OversizedRateLimited, r)
     else do {
       res \<leftarrow> gre_encap_to (rw_src_ip r) output backend;
       Some (res, r) } }"

definition process_one ::
  "(u8 list \<Rightarrow> u64) \<Rightarrow> rewriter \<Rightarrow> packet_buf \<Rightarrow> instant \<Rightarrow> (process_result \<times> rewriter) panics" where
  "process_one xxh3 r input now = do {
     bytes \<leftarrow> as_slice input;
     later \<leftarrow> is_non_first_fragment bytes;
     if later then process_later_fragment xxh3 r input now
     else do {
       parsed \<leftarrow> from_ipv4_bytes bytes;
       case parsed of
         None \<Rightarrow> Some (Dropped, r)
       | Some meta \<Rightarrow> (case match_packet (rw_matcher r) (dst_ip meta) (proto meta) (dst_port meta) of
           None \<Rightarrow> Some (Dropped, r)
         | Some pool \<Rightarrow> do {
             (c, output) \<leftarrow> as_mut_slice input (\<lambda>d. clamp_mss d (tcp_mss_clamp (rw_mtu r)));
             let r = count_clamp c r;
             case rw_tables r pool of
               None \<Rightarrow> Some (Dropped, r)
             | Some table \<Rightarrow> do {
                 let hash = flow_hash xxh3 meta;
                 (backend, r) \<leftarrow> select_backend r table hash (flow_proto_from (proto meta))
                                  (initial_tcp_state (meta_flags meta)) now;
                 r \<leftarrow> (case meta_flags meta of
                        None \<Rightarrow> Some r
                      | Some flags \<Rightarrow> apply_tcp_transitions r hash flags now);
                 r \<leftarrow> record_first_fragment xxh3 r input backend now;
                 finish_packet r output (dst_ip meta) backend now } }) } }"

subsection \<open>A batch\<close>

text \<open>\<open>done\<close> packets are compacted at the front of the slice, the counters record each outcome.\<close>

fun batch_loop ::
  "(u8 list \<Rightarrow> u64) \<Rightarrow> instant \<Rightarrow> nat \<Rightarrow> rewriter \<Rightarrow> packet_buf list \<Rightarrow> nat \<Rightarrow> nat \<Rightarrow>
   (nat \<times> packet_buf list \<times> rewriter) panics" where
  "batch_loop xxh3 now 0 r packets read_idx write_idx = Some (write_idx, packets, r)"
| "batch_loop xxh3 now (Suc n) r packets read_idx write_idx = do {
     let r = count PacketsReceived r;
     pkt \<leftarrow> byte_at packets read_idx;
     (res, r) \<leftarrow> process_one xxh3 r pkt now;
     case res of
       Forwarded p \<Rightarrow> do {
         packets \<leftarrow> store_at packets write_idx p;
         batch_loop xxh3 now n (count PacketsForwarded r) packets (read_idx + 1) (write_idx + 1) }
     | IcmpReply p \<Rightarrow> do {
         packets \<leftarrow> store_at packets write_idx p;
         batch_loop xxh3 now n (count PacketsOversizedDropped (count IcmpFragNeededSent r))
           packets (read_idx + 1) (write_idx + 1) }
     | OversizedRateLimited \<Rightarrow>
         batch_loop xxh3 now n (count PacketsDropped (count PacketsOversizedDropped
           (count IcmpFragNeededRatelimited r))) packets (read_idx + 1) write_idx
     | Dropped \<Rightarrow> batch_loop xxh3 now n (count PacketsDropped r) packets (read_idx + 1) write_idx }"

definition process_batch ::
  "(u8 list \<Rightarrow> u64) \<Rightarrow> rewriter \<Rightarrow> packet_buf list \<Rightarrow> instant \<Rightarrow> (nat \<times> packet_buf list \<times> rewriter) panics" where
  "process_batch xxh3 r packets now = do {
     (n, packets, r) \<leftarrow> batch_loop xxh3 now (length packets) r packets 0 0;
     Some (n, packets, r\<lparr>rw_metrics := (rw_metrics r)
       \<lparr>fm_conn_table_size := int (conn_len (rw_conn r)), fm_conn_table_fill_bp := fill_bp (rw_conn r)\<rparr>\<rparr>) }"

subsection \<open>What every stage keeps\<close>

definition rewriter_wf :: "rewriter \<Rightarrow> bool" where
  "rewriter_wf r \<longleftrightarrow> conn_table_wf (rw_conn r) \<and> fragment_table_wf (rw_frag r) \<and>
     (\<forall>p t. rw_tables r p = Some t \<longrightarrow> table_ok t)"

abbreviation counter :: "rewriter \<Rightarrow> fwd_counter \<Rightarrow> nat" where
  "counter r c \<equiv> fm_counter (rw_metrics r) c"

text \<open>The counters that record the outcome of a packet; only the batch loop moves them.\<close>

definition outcome_counters :: "fwd_counter list" where
  "outcome_counters = [PacketsReceived, PacketsForwarded, PacketsDropped, IcmpFragNeededSent,
     IcmpFragNeededRatelimited, PacketsOversizedDropped]"

definition rw_keeps :: "rewriter \<Rightarrow> rewriter \<Rightarrow> bool" where
  "rw_keeps r r' \<longleftrightarrow> rewriter_wf r' \<and> rw_src_ip r' = rw_src_ip r \<and> rw_tables r' = rw_tables r \<and>
     rw_matcher r' = rw_matcher r \<and> rw_health r' = rw_health r \<and> rw_mtu r' = rw_mtu r \<and>
     list_all (\<lambda>c. counter r' c = counter r c) outcome_counters"

lemma rw_keeps_refl: "rewriter_wf r \<Longrightarrow> rw_keeps r r"
  by (simp add: rw_keeps_def list_all_iff)

lemma rw_keeps_trans: "rw_keeps r1 r2 \<Longrightarrow> rw_keeps r2 r3 \<Longrightarrow> rw_keeps r1 r3"
  by (simp add: rw_keeps_def list_all_iff)

lemma rw_keeps_wf: "rw_keeps r r' \<Longrightarrow> rewriter_wf r'"
  by (simp add: rw_keeps_def)

lemma count_sel [simp]:
  "rw_src_ip (count c r) = rw_src_ip r" "rw_conn (count c r) = rw_conn r" "rw_frag (count c r) = rw_frag r"
  "rw_tables (count c r) = rw_tables r" "rw_matcher (count c r) = rw_matcher r"
  "rw_health (count c r) = rw_health r" "rw_mtu (count c r) = rw_mtu r" "rw_icmp (count c r) = rw_icmp r"
  "counter (count c r) d = (if d = c then counter r c + 1 else counter r d)"
  by (simp_all add: count_def fm_inc_def)

lemma count_wf [simp]: "rewriter_wf (count c r) = rewriter_wf r"
  by (simp add: rewriter_wf_def)

lemma count_keeps: "rewriter_wf r \<Longrightarrow> c \<notin> set outcome_counters \<Longrightarrow> rw_keeps r (count c r)"
  by (auto simp: rw_keeps_def list_all_iff)

lemma conn_keeps: "rewriter_wf r \<Longrightarrow> conn_table_wf t \<Longrightarrow> rw_keeps r (r\<lparr>rw_conn := t\<rparr>)"
  by (simp add: rw_keeps_def rewriter_wf_def list_all_iff)

lemma frag_keeps: "rewriter_wf r \<Longrightarrow> fragment_table_wf t \<Longrightarrow> rw_keeps r (r\<lparr>rw_frag := t\<rparr>)"
  by (simp add: rw_keeps_def rewriter_wf_def list_all_iff)

lemma insert_tracked_ok:
  assumes "rewriter_wf r"
  shows "\<exists>r'. insert_tracked r h ip pr st now = Some r' \<and> rw_keeps r r' \<and>
     rw_frag r' = rw_frag r \<and> rw_icmp r' = rw_icmp r \<and>
     (conn_get (rw_conn r') h now = Some (Some ip) \<and>
        counter r' EvictionDroppedFull = counter r EvictionDroppedFull \<or>
      list_all ce_occupied (ct_entries (rw_conn r)) \<and>
        counter r' EvictionDroppedFull = counter r EvictionDroppedFull + 1)"
proof -
  have wf: "conn_table_wf (rw_conn r)" using assms by (simp add: rewriter_wf_def)
  obtain res t where t: "conn_insert (rw_conn r) h ip pr st now = Some (res, t)" "conn_table_wf t"
    "res \<noteq> DroppedFull \<Longrightarrow> conn_get t h now = Some (Some ip)"
    "res = DroppedFull \<Longrightarrow> list_all ce_occupied (ct_entries (rw_conn r))"
    using conn_insert_get [OF wf, of h ip pr st now] by blast
  have k: "rw_keeps r (r\<lparr>rw_conn := t\<rparr>)" by (rule conn_keeps [OF assms t(2)])
  note k2 = rw_keeps_trans [OF k count_keeps [OF rw_keeps_wf [OF k]]]
  note k3 = rw_keeps_trans [OF k2 count_keeps [OF rw_keeps_wf [OF k2]]]
  show ?thesis
    using t k2 k3 by (cases res) (auto simp: insert_tracked_def outcome_counters_def)
qed

lemma select_backend_ok:
  assumes wf: "rewriter_wf r" and t: "table_ok t"
  shows "\<exists>ip r'. select_backend r t h pr st now = Some (ip, r') \<and> rw_keeps r r' \<and>
     rw_frag r' = rw_frag r \<and> rw_icmp r' = rw_icmp r \<and>
     (conn_get (rw_conn r') h now = Some (Some ip) \<and>
        counter r' EvictionDroppedFull = counter r EvictionDroppedFull \<or>
      list_all ce_occupied (ct_entries (rw_conn r)) \<and>
        counter r' EvictionDroppedFull = counter r EvictionDroppedFull + 1) \<and>
     ((\<exists>b. table_lookup t h = Some b \<and> be_ip b = ip) \<or>
      conn_get (rw_conn r) h now = Some (Some ip) \<and> cached_backend_usable r ip) \<and>
     (\<forall>ip'. conn_get (rw_conn r) h now = Some (Some ip') \<and> cached_backend_usable r ip' \<longrightarrow> ip' = ip)"
proof -
  have cw: "conn_table_wf (rw_conn r)" using wf by (simp add: rewriter_wf_def)
  obtain b where b: "table_lookup t h = Some b" using table_lookup_ok [OF t] by metis
  have fresh: ?thesis
    if run: "select_backend r t h pr st now = do {
         r \<leftarrow> insert_tracked (count c r) h (be_ip b) pr st now; Some (be_ip b, r) }"
      and c: "c \<notin> set outcome_counters" "c \<noteq> EvictionDroppedFull"
      and miss: "\<And>ip. conn_get (rw_conn r) h now = Some (Some ip) \<Longrightarrow> \<not> cached_backend_usable r ip" for c
  proof -
    obtain r' where r': "insert_tracked (count c r) h (be_ip b) pr st now = Some r'" "rw_keeps (count c r) r'"
      "rw_frag r' = rw_frag r" "rw_icmp r' = rw_icmp r"
      "conn_get (rw_conn r') h now = Some (Some (be_ip b)) \<and>
         counter r' EvictionDroppedFull = counter r EvictionDroppedFull \<or>
       list_all ce_occupied (ct_entries (rw_conn r)) \<and>
         counter r' EvictionDroppedFull = counter r EvictionDroppedFull + 1"
      using insert_tracked_ok [of "count c r" h "be_ip b" pr st now] wf c(2) by auto
    then show ?thesis
      using run b rw_keeps_trans [OF count_keeps [OF wf c(1)]] miss
      by (intro exI [of _ "be_ip b"] exI [of _ r']) auto
  qed
  obtain cached where cached: "conn_get (rw_conn r) h now = Some cached"
    using conn_ops_eq(1) [OF cw, of h now] by simp
  show ?thesis
  proof (cases cached)
    case None
    then show ?thesis
      using cached b by (intro fresh [of ConnTableMisses]) (simp_all add: select_backend_def outcome_counters_def)
  next
    case (Some ip)
    show ?thesis
    proof (cases "cached_backend_usable r ip")
      case False
      then show ?thesis
        using cached Some b
        by (intro fresh [of ConnTableFallbackToMaglev]) (simp_all add: select_backend_def outcome_counters_def)
    next
      case True
      obtain t' where touch: "conn_touch (rw_conn r) h now = Some t'"
        and t'': "conn_table_wf t'" "conn_get t' h now = Some (Some ip)"
        using conn_touch_ok [OF cw, of h now] cached Some by auto
      have "rw_keeps (count ConnTableHits r) ((count ConnTableHits r)\<lparr>rw_conn := t'\<rparr>)"
        using conn_keeps t''(1) wf by simp
      then have "rw_keeps r ((count ConnTableHits r)\<lparr>rw_conn := t'\<rparr>)"
        using rw_keeps_trans count_keeps [OF wf, of ConnTableHits] by (simp add: outcome_counters_def)
      then show ?thesis
        using cached Some True touch t''(2)
        by (intro exI [of _ ip] exI [of _ "(count ConnTableHits r)\<lparr>rw_conn := t'\<rparr>"])
          (simp add: select_backend_def)
    qed
  qed
qed

lemma apply_tcp_transitions_ok:
  assumes wf: "rewriter_wf r"
  shows "\<exists>r'. apply_tcp_transitions r h fl now = Some r' \<and> rw_keeps r r' \<and>
     rw_frag r' = rw_frag r \<and> rw_icmp r' = rw_icmp r \<and>
     counter r' EvictionDroppedFull = counter r EvictionDroppedFull \<and>
     (\<forall>ip. conn_get (rw_conn r) h now = Some (Some ip) \<longrightarrow> conn_get (rw_conn r') h now = Some (Some ip))"
proof -
  have cw: "conn_table_wf (rw_conn r)" using wf by (simp add: rewriter_wf_def)
  obtain t1 where t1: "mark_closing (rw_conn r) h now = Some t1" "conn_table_wf t1"
    and g1: "\<And>ip. conn_get (rw_conn r) h now = Some (Some ip) \<Longrightarrow> conn_get t1 h now = Some (Some ip)"
    using mark_closing_ok [OF cw, of h now] by blast
  obtain t2 where t2: "mark_established (rw_conn r) h now = Some t2" "conn_table_wf t2"
    and g2: "\<And>ip. conn_get (rw_conn r) h now = Some (Some ip) \<Longrightarrow> conn_get t2 h now = Some (Some ip)"
    using mark_established_ok [OF cw, of h now] by blast
  have k1: "rw_keeps r (count c (r\<lparr>rw_conn := t\<rparr>))"
    if "c \<notin> set outcome_counters" "conn_table_wf t" for c t
    using conn_keeps [OF wf that(2)] count_keeps [OF rw_keeps_wf that(1)] rw_keeps_trans by blast
  have k: "rw_keeps r (count TcpTransitionClosingRst (r\<lparr>rw_conn := t1\<rparr>))"
    "rw_keeps r (count TcpTransitionClosingFin (r\<lparr>rw_conn := t1\<rparr>))"
    "rw_keeps r (count TcpTransitionEstablished (r\<lparr>rw_conn := t2\<rparr>))"
    using k1 t1(2) t2(2) by (simp_all add: outcome_counters_def)
  show ?thesis
    using k g1 g2 t1(1) t2(1) rw_keeps_refl [OF wf]
    by (cases "flag_rst fl"; cases "flag_fin fl"; cases "flag_ack fl \<and> \<not> flag_syn fl")
      (simp_all add: apply_tcp_transitions_def)
qed

definition result_ok :: "process_result \<Rightarrow> bool" where
  "result_ok res \<longleftrightarrow> (case res of Forwarded p \<Rightarrow> packet_buf_ok p | IcmpReply p \<Rightarrow> packet_buf_ok p | _ \<Rightarrow> True)"

text \<open>The frame that leaves: a GRE frame around the packet, from the node to the backend.\<close>

lemma gre_encap_to_ok:
  assumes "packet_buf_ok p"
  shows "\<exists>res. gre_encap_to src p b = Some res \<and> result_ok res \<and> res \<noteq> OversizedRateLimited \<and>
     (\<forall>q. res \<noteq> IcmpReply q) \<and>
     (\<forall>q. res = Forwarded q \<longrightarrow> (\<exists>s d. src = V4 s \<and> b = V4 d \<and>
        decapsulate (valid_bytes q) = Some (s, d, inner_proto (valid_bytes p), valid_bytes p)))"
proof (cases src; cases b)
  fix s d
  assume sd: "src = V4 s" "b = V4 d"
  show ?thesis
  proof (cases "pkt_len p + ENCAP_OVERHEAD \<le> PACKET_BUF_SIZE")
    case True
    obtain q where "encapsulate_ipv4 p s d = Some (True, q)" "packet_buf_ok q"
      "decapsulate (valid_bytes q) = Some (s, d, inner_proto (valid_bytes p), valid_bytes p)"
      using encapsulate_ipv4_succeeds [OF assms True, of s d] by metis
    then show ?thesis using sd by (simp add: gre_encap_to_def result_ok_def)
  next
    case False
    then show ?thesis
      using sd encapsulate_ipv4_refuses [OF assms, of s d] by (simp add: gre_encap_to_def result_ok_def)
  qed
qed (simp_all add: gre_encap_to_def result_ok_def)

lemma fragment_get_total: "fragment_table_wf t \<Longrightarrow> \<exists>hit. fragment_get t h now = Some hit"
  by (simp add: fragment_ops_eq(1))

lemma process_later_fragment_ok:
  assumes wf: "rewriter_wf r" and ok: "packet_buf_ok p"
  shows "\<exists>res r'. process_later_fragment xxh3 r p now = Some (res, r') \<and> rw_keeps r r' \<and> result_ok res \<and>
     (\<forall>q. res = Forwarded q \<longrightarrow> (\<exists>s d f. rw_src_ip r = V4 s \<and>
        fragment_id_from_ipv4_bytes (valid_bytes p) = Some (Some f) \<and>
        fragment_get (rw_frag r) (fragment_hash xxh3 f) now = Some (Some (V4 d)) \<and>
        decapsulate (valid_bytes q) = Some (s, d, inner_proto (valid_bytes p), valid_bytes p)))"
proof -
  obtain fid where fid: "fragment_id_from_ipv4_bytes (valid_bytes p) = Some fid"
    using fragment_id_no_panic by blast
  show ?thesis
  proof (cases fid)
    case None
    then show ?thesis
      using fid ok rw_keeps_refl [OF wf] by (simp add: process_later_fragment_def result_ok_def)
  next
    case (Some f)
    have fw: "fragment_table_wf (rw_frag r)" using wf by (simp add: rewriter_wf_def)
    obtain hit where hit: "fragment_get (rw_frag r) (fragment_hash xxh3 f) now = Some hit"
      using fragment_get_total [OF fw] by blast
    show ?thesis
    proof (cases hit)
      case None
      then show ?thesis
        using fid Some hit ok count_keeps [OF wf, of FragmentDropNoMapping]
        by (simp add: process_later_fragment_def result_ok_def outcome_counters_def)
    next
      case (Some b)
      obtain res where "gre_encap_to (rw_src_ip r) p b = Some res" "result_ok res"
        "\<forall>q. res = Forwarded q \<longrightarrow> (\<exists>s d. rw_src_ip r = V4 s \<and> b = V4 d \<and>
          decapsulate (valid_bytes q) = Some (s, d, inner_proto (valid_bytes p), valid_bytes p))"
        using gre_encap_to_ok [OF ok] by blast
      then show ?thesis
        using fid \<open>fid = Some f\<close> hit Some ok count_keeps [OF wf, of FragmentSubsequentForwarded]
        by (simp add: process_later_fragment_def outcome_counters_def)
    qed
  qed
qed

lemma record_first_fragment_ok:
  assumes wf: "rewriter_wf r" and ok: "packet_buf_ok p"
  shows "\<exists>r'. record_first_fragment xxh3 r p b now = Some r' \<and> rw_keeps r r' \<and>
     rw_conn r' = rw_conn r \<and> rw_icmp r' = rw_icmp r \<and>
     counter r' EvictionDroppedFull = counter r EvictionDroppedFull \<and>
     (\<forall>f. is_fragment (valid_bytes p) = Some True \<and>
        fragment_id_from_ipv4_bytes (valid_bytes p) = Some (Some f) \<and>
        (\<exists>e \<in> set (ft_entries (rw_frag r)). \<not> fe_occupied e) \<longrightarrow>
        fragment_get (rw_frag r') (fragment_hash xxh3 f) now = Some (Some b))"
proof -
  obtain fr where fr: "is_fragment (valid_bytes p) = Some fr" using is_fragment_no_panic by blast
  obtain fid where fid: "fragment_id_from_ipv4_bytes (valid_bytes p) = Some fid"
    using fragment_id_no_panic by blast
  show ?thesis
  proof (cases "fr \<and> fid \<noteq> None")
    case False
    then show ?thesis
      using fr fid ok rw_keeps_refl [OF wf] by (auto simp: record_first_fragment_def)
  next
    case True
    then obtain f where f: "fid = Some f" "fr" by auto
    have fw: "fragment_table_wf (rw_frag r)" using wf by (simp add: rewriter_wf_def)
    obtain t where t: "fragment_insert (rw_frag r) (fragment_hash xxh3 f) b now = Some t" "fragment_table_wf t"
      using fragment_insert_wf [OF fw] by metis
    have "fragment_get t (fragment_hash xxh3 f) now = Some (Some b)"
      if "\<exists>e \<in> set (ft_entries (rw_frag r)). \<not> fe_occupied e"
      using fragment_insert_get [OF fw that, of "fragment_hash xxh3 f" b now] t(1) by auto
    moreover    have "rw_keeps r (count FragmentFirst (r\<lparr>rw_frag := t\<rparr>))"
      using frag_keeps [OF wf t(2)] count_keeps [OF rw_keeps_wf [OF frag_keeps [OF wf t(2)]], of FragmentFirst]
      by (auto intro: rw_keeps_trans simp: outcome_counters_def)
    ultimately show ?thesis
      using fr fid f t ok by (simp add: record_first_fragment_def)
  qed
qed

lemma icmp_keeps: "rewriter_wf r \<Longrightarrow> rw_keeps r (r\<lparr>rw_icmp := l\<rparr>)"
  by (simp add: rw_keeps_def rewriter_wf_def list_all_iff)

lemma should_generate_icmp_total: "\<exists>b. should_generate_icmp d m = Some b"
proof (cases "20 \<le> length d")
  case True
  then have "d \<noteq> []" by auto
  with True show ?thesis
    by (cases "drop_bit 4 (d ! 0) = 4") (auto simp: should_generate_icmp_def)
qed (auto simp: should_generate_icmp_def)

lemma finish_packet_ok:
  assumes wf: "rewriter_wf r" and ok: "packet_buf_ok out"
  shows "\<exists>res r'. finish_packet r out dst b now = Some (res, r') \<and> rw_keeps r r' \<and> result_ok res \<and>
     rw_conn r' = rw_conn r \<and> rw_frag r' = rw_frag r \<and> rw_metrics r' = rw_metrics r \<and>
     (\<forall>q. res = Forwarded q \<longrightarrow>
        should_generate_icmp (valid_bytes out) (network_mtu (rw_mtu r)) = Some False \<and>
        gre_encap_to (rw_src_ip r) out b = Some (Forwarded q) \<and>
        (\<exists>s d. rw_src_ip r = V4 s \<and> b = V4 d \<and>
        decapsulate (valid_bytes q) = Some (s, d, inner_proto (valid_bytes out), valid_bytes out)))"
proof -
  obtain big where big: "should_generate_icmp (valid_bytes out) (network_mtu (rw_mtu r)) = Some big"
    using should_generate_icmp_total by blast
  show ?thesis
  proof (cases big)
    case True
    obtain a l where al: "allow (rw_icmp r) now = (a, l)" by fastforce
    obtain c c' q where "generate_icmp_frag_needed (valid_bytes out)
        (case dst of V4 v4 \<Rightarrow> v4 | V6 _ \<Rightarrow> unspecified4) (effective_inner_mtu (rw_mtu r)) = Some q"
      "packet_buf_ok q" using generate_icmp_frag_needed_eq by metis
    then show ?thesis
      using big True al ok icmp_keeps [OF wf, of l]
      by (cases a) (simp_all add: finish_packet_def result_ok_def)
  next
    case False
    obtain res where "gre_encap_to (rw_src_ip r) out b = Some res" "result_ok res"
      "\<forall>q. res = Forwarded q \<longrightarrow> (\<exists>s d. rw_src_ip r = V4 s \<and> b = V4 d \<and>
          decapsulate (valid_bytes q) = Some (s, d, inner_proto (valid_bytes out), valid_bytes out))"
      using gre_encap_to_ok [OF ok] by blast
    then show ?thesis
      using big False ok rw_keeps_refl [OF wf] by (simp add: finish_packet_def)
  qed
qed

text \<open>The clamped copy of the packet that the pipeline sends on.\<close>

lemma clamped_output:
  assumes "packet_buf_ok p"
  shows "\<exists>c out. as_mut_slice p (\<lambda>d. clamp_mss d m) = Some (c, out) \<and> packet_buf_ok out \<and>
     pkt_len out = pkt_len p \<and> clamp_mss (valid_bytes p) m = Some (c, valid_bytes out)"
proof -
  obtain c d where cd: "clamp_mss (valid_bytes p) m = Some (c, d)" "length d = length (valid_bytes p)"
    using clamp_mss_cases [of "valid_bytes p" m] by (elim disjE exE conjE) auto
  then show ?thesis
    using assms length_valid_bytes [OF assms]
    by (auto simp: as_mut_slice_def packet_buf_ok_def valid_bytes_def)
qed

lemma count_clamp_keeps: "rewriter_wf r \<Longrightarrow> rw_keeps r (count_clamp c r)"
  by (cases c) (simp_all add: count_clamp_def count_keeps outcome_counters_def rw_keeps_refl)

lemma count_clamp_sel [simp]:
  "rw_conn (count_clamp c r) = rw_conn r" "rw_frag (count_clamp c r) = rw_frag r"
  "rw_tables (count_clamp c r) = rw_tables r" "rw_matcher (count_clamp c r) = rw_matcher r"
  "rw_health (count_clamp c r) = rw_health r" "rw_mtu (count_clamp c r) = rw_mtu r"
  "rw_src_ip (count_clamp c r) = rw_src_ip r" "rw_icmp (count_clamp c r) = rw_icmp r"
  "counter (count_clamp c r) EvictionDroppedFull = counter r EvictionDroppedFull"
  by (cases c; simp add: count_clamp_def)+

lemma cached_backend_usable_cong: "rw_health r' = rw_health r \<Longrightarrow> cached_backend_usable r' = cached_backend_usable r"
  by (simp add: cached_backend_usable_def fun_eq_iff)

text \<open>
  The main path: what is known of a packet that has a 5-tuple, a matching VIP and a lookup table
  when the backend is chosen and the tables are updated.
\<close>

definition main_path ::
  "(u8 list \<Rightarrow> u64) \<Rightarrow> rewriter \<Rightarrow> packet_buf \<Rightarrow> packet_meta \<Rightarrow> lookup_table \<Rightarrow> bool" where
  "main_path xxh3 r p meta table \<longleftrightarrow>
     is_non_first_fragment (valid_bytes p) = Some False \<and>
     from_ipv4_bytes (valid_bytes p) = Some (Some meta) \<and>
     (\<exists>pool. match_packet (rw_matcher r) (dst_ip meta) (proto meta) (dst_port meta) = Some pool \<and>
        rw_tables r pool = Some table)"

lemma process_main_path:
  assumes wf: "rewriter_wf r" and ok: "packet_buf_ok p" and main: "main_path xxh3 r p meta table"
  shows "\<exists>c out b r1. clamp_mss (valid_bytes p) (tcp_mss_clamp (rw_mtu r)) = Some (c, valid_bytes out) \<and>
     as_mut_slice p (\<lambda>d. clamp_mss d (tcp_mss_clamp (rw_mtu r))) = Some (c, out) \<and> packet_buf_ok out \<and>
     rw_keeps r r1 \<and> process_one xxh3 r p now = finish_packet r1 out (dst_ip meta) b now \<and>
     (conn_get (rw_conn r1) (flow_hash xxh3 meta) now = Some (Some b) \<and>
        counter r1 EvictionDroppedFull = counter r EvictionDroppedFull \<or>
      list_all ce_occupied (ct_entries (rw_conn r)) \<and>
        counter r1 EvictionDroppedFull = counter r EvictionDroppedFull + 1) \<and>
     ((\<exists>be. table_lookup table (flow_hash xxh3 meta) = Some be \<and> be_ip be = b) \<or>
      conn_get (rw_conn r) (flow_hash xxh3 meta) now = Some (Some b) \<and> cached_backend_usable r b) \<and>
     (\<forall>ip. conn_get (rw_conn r) (flow_hash xxh3 meta) now = Some (Some ip) \<and> cached_backend_usable r ip \<longrightarrow>
        ip = b) \<and>
     (\<forall>f. is_fragment (valid_bytes p) = Some True \<and>
        fragment_id_from_ipv4_bytes (valid_bytes p) = Some (Some f) \<and>
        (\<exists>e \<in> set (ft_entries (rw_frag r)). \<not> fe_occupied e) \<longrightarrow>
        fragment_get (rw_frag r1) (fragment_hash xxh3 f) now = Some (Some b))"
proof -
  let ?h = "flow_hash xxh3 meta"
  obtain pool where m: "is_non_first_fragment (valid_bytes p) = Some False"
    "from_ipv4_bytes (valid_bytes p) = Some (Some meta)"
    "match_packet (rw_matcher r) (dst_ip meta) (proto meta) (dst_port meta) = Some pool"
    "rw_tables r pool = Some table" using main by (auto simp: main_path_def)
  have tok: "table_ok table" using wf m(4) by (auto simp: rewriter_wf_def)
  obtain c out where out: "as_mut_slice p (\<lambda>d. clamp_mss d (tcp_mss_clamp (rw_mtu r))) = Some (c, out)"
    "packet_buf_ok out" "clamp_mss (valid_bytes p) (tcp_mss_clamp (rw_mtu r)) = Some (c, valid_bytes out)"
    using clamped_output [OF ok] by blast
  let ?r0 = "count_clamp c r"
  have k0: "rw_keeps r ?r0" by (rule count_clamp_keeps [OF wf])
  obtain b r1 where s: "select_backend ?r0 table ?h (flow_proto_from (proto meta))
      (initial_tcp_state (meta_flags meta)) now = Some (b, r1)" "rw_keeps ?r0 r1"
    "conn_get (rw_conn r1) ?h now = Some (Some b) \<and>
       counter r1 EvictionDroppedFull = counter ?r0 EvictionDroppedFull \<or>
     list_all ce_occupied (ct_entries (rw_conn ?r0)) \<and>
       counter r1 EvictionDroppedFull = counter ?r0 EvictionDroppedFull + 1"
    "(\<exists>be. table_lookup table ?h = Some be \<and> be_ip be = b) \<or>
       conn_get (rw_conn ?r0) ?h now = Some (Some b) \<and> cached_backend_usable ?r0 b"
    "\<forall>ip. conn_get (rw_conn ?r0) ?h now = Some (Some ip) \<and> cached_backend_usable ?r0 ip \<longrightarrow> ip = b"
    "rw_frag r1 = rw_frag ?r0"
    using select_backend_ok [OF rw_keeps_wf [OF k0] tok] by blast
  obtain r2 where t: "(case meta_flags meta of None \<Rightarrow> Some r1
      | Some flags \<Rightarrow> apply_tcp_transitions r1 ?h flags now) = Some r2" "rw_keeps r1 r2"
    "counter r2 EvictionDroppedFull = counter r1 EvictionDroppedFull"
    "conn_get (rw_conn r1) ?h now = Some (Some b) \<longrightarrow> conn_get (rw_conn r2) ?h now = Some (Some b)"
    "rw_frag r2 = rw_frag r1"
    using apply_tcp_transitions_ok [OF rw_keeps_wf [OF s(2)]] rw_keeps_refl [OF rw_keeps_wf [OF s(2)]]
    by (cases "meta_flags meta") (simp, metis option.simps(5))
  obtain r3 where f: "record_first_fragment xxh3 r2 p b now = Some r3" "rw_keeps r2 r3"
    "rw_conn r3 = rw_conn r2" "counter r3 EvictionDroppedFull = counter r2 EvictionDroppedFull"
    "\<forall>f. is_fragment (valid_bytes p) = Some True \<and>
        fragment_id_from_ipv4_bytes (valid_bytes p) = Some (Some f) \<and>
        (\<exists>e \<in> set (ft_entries (rw_frag r2)). \<not> fe_occupied e) \<longrightarrow>
        fragment_get (rw_frag r3) (fragment_hash xxh3 f) now = Some (Some b)"
    using record_first_fragment_ok [OF rw_keeps_wf [OF t(2)] ok] by blast
  have "process_one xxh3 r p now = finish_packet r3 out (dst_ip meta) b now"
    using m out(1) s(1) t(1) f(1) ok by (simp add: process_one_def Let_def)
  moreover have "rw_keeps r r3"
    using k0 s(2) t(2) f(2) by (blast intro: rw_keeps_trans)
  moreover have "cached_backend_usable ?r0 ip = cached_backend_usable r ip" for ip
    by (simp add: cached_backend_usable_def)
  moreover have "conn_get (rw_conn r3) ?h now = Some (Some b) \<and>
        counter r3 EvictionDroppedFull = counter r EvictionDroppedFull \<or>
      list_all ce_occupied (ct_entries (rw_conn r)) \<and>
        counter r3 EvictionDroppedFull = counter r EvictionDroppedFull + 1"
    using s(3) t(3,4) f(3,4) by auto
  ultimately show ?thesis
    using out s(4-6) t(5) f(5) by (intro exI [of _ c] exI [of _ out] exI [of _ b] exI [of _ r3]) simp
qed

lemma process_one_main:
  assumes ok: "packet_buf_ok p" and run: "process_one xxh3 r p now = Some (Forwarded q, r')"
    and later: "is_non_first_fragment (valid_bytes p) = Some False"
  shows "\<exists>meta table. main_path xxh3 r p meta table"
proof -
  obtain parsed where parsed: "from_ipv4_bytes (valid_bytes p) = Some parsed"
    using from_ipv4_bytes_no_panic by blast
  obtain c out where out: "as_mut_slice p (\<lambda>d. clamp_mss d (tcp_mss_clamp (rw_mtu r))) = Some (c, out)"
    using clamped_output [OF ok] by blast
  show ?thesis
    using run later parsed out ok
    by (auto simp: process_one_def main_path_def Let_def split: option.splits)
qed

lemma process_one_ok:
  assumes wf: "rewriter_wf r" and ok: "packet_buf_ok p"
  shows "\<exists>res r'. process_one xxh3 r p now = Some (res, r') \<and> rw_keeps r r' \<and> result_ok res"
proof -
  obtain later where later: "is_non_first_fragment (valid_bytes p) = Some later"
    using is_non_first_fragment_no_panic by blast
  obtain parsed where parsed: "from_ipv4_bytes (valid_bytes p) = Some parsed"
    using from_ipv4_bytes_no_panic by blast
  show ?thesis
  proof (cases later)
    case True
    then show ?thesis
      using later ok process_later_fragment_ok [OF wf ok, of xxh3 now] by (auto simp: process_one_def)
  next
    case False
    show ?thesis
    proof (cases "\<exists>meta table. main_path xxh3 r p meta table")
      case True
      then obtain meta table where "main_path xxh3 r p meta table" by blast
      then obtain out b r1 where "packet_buf_ok out" "rw_keeps r r1"
        "process_one xxh3 r p now = finish_packet r1 out (dst_ip meta) b now"
        using process_main_path [OF wf ok] by blast
      then show ?thesis
        using finish_packet_ok [OF rw_keeps_wf, of r r1 out] by (metis rw_keeps_trans)
    next
      case none: False
      obtain c out where out: "as_mut_slice p (\<lambda>d. clamp_mss d (tcp_mss_clamp (rw_mtu r))) = Some (c, out)"
        using clamped_output [OF ok] by blast
      have "process_one xxh3 r p now = Some (Dropped, r) \<or> process_one xxh3 r p now = Some (Dropped, count_clamp c r)"
        using later False parsed none out ok
        by (auto simp: process_one_def main_path_def Let_def split: option.splits)
      then show ?thesis
        using rw_keeps_refl [OF wf] count_clamp_keeps [OF wf, of c] by (auto simp: result_ok_def)
    qed
  qed
qed

subsection \<open>Properties of the pipeline\<close>

text \<open>What the batch loop does to the outcome counters.\<close>

lemma keeps_counter:
  "rw_keeps r r' \<Longrightarrow> c \<in> set outcome_counters \<Longrightarrow> counter r' c = counter r c"
  by (simp add: rw_keeps_def list_all_iff)

definition settle :: "process_result \<Rightarrow> rewriter \<Rightarrow> rewriter" where
  "settle res r = (case res of
     Forwarded _ \<Rightarrow> count PacketsForwarded r
   | IcmpReply _ \<Rightarrow> count PacketsOversizedDropped (count IcmpFragNeededSent r)
   | OversizedRateLimited \<Rightarrow>
       count PacketsDropped (count PacketsOversizedDropped (count IcmpFragNeededRatelimited r))
   | Dropped \<Rightarrow> count PacketsDropped r)"

definition emitted :: "process_result \<Rightarrow> packet_buf option" where
  "emitted res = (case res of Forwarded p \<Rightarrow> Some p | IcmpReply p \<Rightarrow> Some p | _ \<Rightarrow> None)"

lemma batch_step:
  assumes "process_one xxh3 (count PacketsReceived r) (ps ! ri) now = Some (res, r1)"
    and "ri < length ps" and "wi < length ps"
  shows "batch_loop xxh3 now (Suc n) r ps ri wi =
     batch_loop xxh3 now n (settle res r1) (case emitted res of None \<Rightarrow> ps | Some p \<Rightarrow> ps[wi := p])
       (Suc ri) (if emitted res = None then wi else Suc wi)"
  using assms by (cases res) (simp_all add: settle_def emitted_def)

definition books_kept :: "rewriter \<Rightarrow> rewriter \<Rightarrow> nat \<Rightarrow> nat \<Rightarrow> bool" where
  "books_kept r r' n k \<longleftrightarrow> k \<le> n \<and>
     counter r' PacketsReceived = counter r PacketsReceived + n \<and>
     counter r' PacketsForwarded + counter r' IcmpFragNeededSent =
       counter r PacketsForwarded + counter r IcmpFragNeededSent + k \<and>
     counter r' PacketsDropped + k = counter r PacketsDropped + n \<and>
     counter r' PacketsOversizedDropped + counter r IcmpFragNeededSent + counter r IcmpFragNeededRatelimited =
       counter r PacketsOversizedDropped + counter r' IcmpFragNeededSent + counter r' IcmpFragNeededRatelimited"

lemma books_kept_add:
  "books_kept r r1 n k \<Longrightarrow> books_kept r1 r2 m j \<Longrightarrow> books_kept r r2 (n + m) (k + j)"
  by (simp add: books_kept_def)

lemma settle_books:
  assumes "rw_keeps (count PacketsReceived r) r1"
  shows "books_kept r (settle res r1) 1 (if emitted res = None then 0 else 1)"
proof -
  have "counter r1 c = counter r c + (if c = PacketsReceived then 1 else 0)" if "c \<in> set outcome_counters" for c
    using keeps_counter [OF assms that] by simp
  then have "counter r1 PacketsReceived = counter r PacketsReceived + 1"
    "counter r1 PacketsForwarded = counter r PacketsForwarded"
    "counter r1 PacketsDropped = counter r PacketsDropped"
    "counter r1 IcmpFragNeededSent = counter r IcmpFragNeededSent"
    "counter r1 IcmpFragNeededRatelimited = counter r IcmpFragNeededRatelimited"
    "counter r1 PacketsOversizedDropped = counter r PacketsOversizedDropped"
    by (simp_all add: outcome_counters_def)
  then show ?thesis by (cases res) (simp_all add: books_kept_def settle_def emitted_def)
qed

lemma settle_wf [simp]: "rewriter_wf (settle res r) = rewriter_wf r"
  by (cases res) (simp_all add: settle_def)

lemma batch_loop_ok:
  assumes "rewriter_wf r" and "list_all packet_buf_ok ps" and "ri + n = length ps" and "wi \<le> ri"
  shows "\<exists>k ps' r'. batch_loop xxh3 now n r ps ri wi = Some (wi + k, ps', r') \<and> rewriter_wf r' \<and>
     list_all packet_buf_ok ps' \<and> length ps' = length ps \<and> books_kept r r' n k"
  using assms
proof (induction n arbitrary: r ps ri wi)
  case (Suc n)
  have ri: "ri < length ps" "wi < length ps" using Suc.prems by simp_all
  have "packet_buf_ok (ps ! ri)" using Suc.prems(2) ri(1) by (simp add: list_all_length)
  then obtain res r1 where one: "process_one xxh3 (count PacketsReceived r) (ps ! ri) now = Some (res, r1)"
    "rw_keeps (count PacketsReceived r) r1" "result_ok res"
    using process_one_ok [of "count PacketsReceived r" "ps ! ri" xxh3 now] Suc.prems(1) by auto
  define ps1 where "ps1 = (case emitted res of None \<Rightarrow> ps | Some p \<Rightarrow> ps[wi := p])"
  define e where "e = (if emitted res = None then 0 else 1 :: nat)"
  have step: "batch_loop xxh3 now (Suc n) r ps ri wi =
      batch_loop xxh3 now n (settle res r1) ps1 (Suc ri) (wi + e)"
    using batch_step [OF one(1) ri] by (simp add: ps1_def e_def)
  have "\<And>p. emitted res = Some p \<Longrightarrow> packet_buf_ok p"
    using one(3) by (cases res) (auto simp: result_ok_def emitted_def)
  then have "list_all packet_buf_ok ps1" "length ps1 = length ps"
    using Suc.prems(2) by (auto simp: ps1_def intro!: list_all_update split: option.splits)
  moreover have "rewriter_wf (settle res r1)" using one(2) by (simp add: rw_keeps_wf)
  moreover have "Suc ri + n = length ps" "wi + e \<le> Suc ri" using Suc.prems by (simp_all add: e_def)
  ultimately obtain k ps' r' where
    "batch_loop xxh3 now n (settle res r1) ps1 (Suc ri) (wi + e) = Some (wi + e + k, ps', r')" "rewriter_wf r'"
    "list_all packet_buf_ok ps'" "length ps' = length ps" "books_kept (settle res r1) r' n k"
    using Suc.IH [of "settle res r1" ps1 "Suc ri" "wi + e"] by auto
  then show ?case
    using step books_kept_add [OF settle_books [OF one(2), of res, folded e_def]]
    by (intro exI [of _ "e + k"] exI [of _ ps'] exI [of _ r']) (simp add: add.assoc)
qed (simp add: books_kept_def)

lemma finish_packet_forwards:
  assumes "packet_buf_ok out" and "should_generate_icmp (valid_bytes out) (network_mtu (rw_mtu r)) = Some False"
    and "gre_encap_to (rw_src_ip r) out b = Some res"
  shows "finish_packet r out dst b now = Some (res, r)"
  using assms by (simp add: finish_packet_def)

text \<open>Clamping does not touch what the size check reads.\<close>

lemma should_generate_clamped:
  assumes "clamp_mss data m = Some (c, out)"
  shows "should_generate_icmp out k = should_generate_icmp data k"
proof -
  have "length out = length data \<and> (\<forall>j < 16. out ! j = data ! j)"
    using clamp_mss_cases [of data m] assms
    by (elim disjE exE conjE) (auto simp: clamped_at_other)
  then show ?thesis by (simp add: should_generate_icmp_def byte_at_def be16_at_def)
qed

text \<open>A packet that fits is sent to the backend that is pinned or looked up, if that has an IPv4 address.\<close>

lemma main_path_forwards:
  assumes wf: "rewriter_wf r" and ok: "packet_buf_ok p" and main: "main_path xxh3 r p meta table"
    and src: "rw_src_ip r = V4 s" and fit: "pkt_len p + ENCAP_OVERHEAD \<le> PACKET_BUF_SIZE"
    and small: "should_generate_icmp (valid_bytes p) (network_mtu (rw_mtu r)) = Some False"
  shows "\<exists>b res r'. process_one xxh3 r p now = Some (res, r') \<and> rw_keeps r r' \<and>
     ((\<exists>be. table_lookup table (flow_hash xxh3 meta) = Some be \<and> be_ip be = b) \<or>
      conn_get (rw_conn r) (flow_hash xxh3 meta) now = Some (Some b) \<and> cached_backend_usable r b) \<and>
     (\<forall>ip. conn_get (rw_conn r) (flow_hash xxh3 meta) now = Some (Some ip) \<and> cached_backend_usable r ip \<longrightarrow>
        ip = b) \<and>
     (case b of
        V6 _ \<Rightarrow> res = Dropped
      | V4 d \<Rightarrow> \<exists>q c inner. res = Forwarded q \<and>
          clamp_mss (valid_bytes p) (tcp_mss_clamp (rw_mtu r)) = Some (c, inner) \<and>
          decapsulate (valid_bytes q) = Some (s, d, inner_proto inner, inner))"
proof -
  obtain c out b r1 where o: "clamp_mss (valid_bytes p) (tcp_mss_clamp (rw_mtu r)) = Some (c, valid_bytes out)"
    "as_mut_slice p (\<lambda>d. clamp_mss d (tcp_mss_clamp (rw_mtu r))) = Some (c, out)"
    "packet_buf_ok out" "rw_keeps r r1" "process_one xxh3 r p now = finish_packet r1 out (dst_ip meta) b now"
    "(\<exists>be. table_lookup table (flow_hash xxh3 meta) = Some be \<and> be_ip be = b) \<or>
      conn_get (rw_conn r) (flow_hash xxh3 meta) now = Some (Some b) \<and> cached_backend_usable r b"
    "\<forall>ip. conn_get (rw_conn r) (flow_hash xxh3 meta) now = Some (Some ip) \<and> cached_backend_usable r ip \<longrightarrow> ip = b"
    using process_main_path [OF wf ok main, of now] by (elim exE conjE) blast
  have len: "pkt_len out = pkt_len p" using clamped_output [OF ok, of "tcp_mss_clamp (rw_mtu r)"] o(2) by auto
  have r1: "rw_src_ip r1 = V4 s" "rw_mtu r1 = rw_mtu r" using o(4) src by (simp_all add: rw_keeps_def)
  have small': "should_generate_icmp (valid_bytes out) (network_mtu (rw_mtu r1)) = Some False"
    using should_generate_clamped [OF o(1)] small r1(2) by simp
  show ?thesis
  proof (cases b)
    case (V4 d)
    obtain q where q: "encapsulate_ipv4 out s d = Some (True, q)"
      "decapsulate (valid_bytes q) = Some (s, d, inner_proto (valid_bytes out), valid_bytes out)"
      by (rule encapsulate_ipv4_succeeds [OF o(3), of s d]) (use fit len in simp_all)
    have "process_one xxh3 r p now = Some (Forwarded q, r1)"
      unfolding o(5) using q(1) V4 r1(1) by (intro finish_packet_forwards [OF o(3) small']) (simp add: gre_encap_to_def)
    with o(1,4,6,7) q(2) V4 show ?thesis by (intro exI [of _ b] exI [of _ "Forwarded q"] exI [of _ r1]) simp
  next
    case (V6 a)
    have "process_one xxh3 r p now = Some (Dropped, r1)"
      unfolding o(5) using V6 r1(1) by (intro finish_packet_forwards [OF o(3) small']) (simp add: gre_encap_to_def)
    with o(4,6,7) V6 show ?thesis by (intro exI [of _ b] exI [of _ Dropped] exI [of _ r1]) simp
  qed
qed

subsection \<open>A batch is the sequence of its packets\<close>

text \<open>What \<open>process_batch\<close> computes, without the compaction in place.\<close>

fun process_seq ::
  "(u8 list \<Rightarrow> u64) \<Rightarrow> instant \<Rightarrow> rewriter \<Rightarrow> packet_buf list \<Rightarrow> (packet_buf list \<times> rewriter) panics" where
  "process_seq xxh3 now r [] = Some ([], r)"
| "process_seq xxh3 now r (p # ps) = do {
     (res, r1) \<leftarrow> process_one xxh3 (count PacketsReceived r) p now;
     (outs, r2) \<leftarrow> process_seq xxh3 now (settle res r1) ps;
     Some ((case emitted res of None \<Rightarrow> outs | Some q \<Rightarrow> q # outs), r2) }"

lemma process_seq_ok:
  assumes "rewriter_wf r" and "list_all packet_buf_ok ps"
  shows "\<exists>outs r'. process_seq xxh3 now r ps = Some (outs, r') \<and> rewriter_wf r' \<and> list_all packet_buf_ok outs \<and>
    length outs \<le> length ps"
  using assms
proof (induction ps arbitrary: r)
  case (Cons p ps)
  obtain res r1 where one: "process_one xxh3 (count PacketsReceived r) p now = Some (res, r1)"
    "rw_keeps (count PacketsReceived r) r1" "result_ok res"
    using process_one_ok [of "count PacketsReceived r" p xxh3 now] Cons.prems by auto
  have "rewriter_wf (settle res r1)" using rw_keeps_wf [OF one(2)] by (simp add: settle_wf)
  with Cons.IH [of "settle res r1"] Cons.prems obtain outs r' where
    "process_seq xxh3 now (settle res r1) ps = Some (outs, r')" "rewriter_wf r'" "list_all packet_buf_ok outs"
    "length outs \<le> length ps" by auto
  with one show ?case
    by (auto simp: emitted_def result_ok_def split: process_result.splits)
qed simp

lemma batch_loop_seq:
  assumes "process_seq xxh3 now r (drop ri ps) = Some (outs, r')" and "ri + n = length ps" and "wi \<le> ri"
  shows "\<exists>ps'. batch_loop xxh3 now n r ps ri wi = Some (wi + length outs, ps', r') \<and>
    length ps' = length ps \<and> take (wi + length outs) ps' = take wi ps @ outs"
  using assms
proof (induction n arbitrary: r ps ri wi outs)
  case (Suc n)
  have ri: "ri < length ps" "wi < length ps" using Suc.prems by simp_all
  then have d: "drop ri ps = ps ! ri # drop (Suc ri) ps" by (simp add: Cons_nth_drop_Suc)
  with Suc.prems(1) obtain res r1 outs1 where
    one: "process_one xxh3 (count PacketsReceived r) (ps ! ri) now = Some (res, r1)"
    and rest: "process_seq xxh3 now (settle res r1) (drop (Suc ri) ps) = Some (outs1, r')"
    and outs: "outs = (case emitted res of None \<Rightarrow> outs1 | Some q \<Rightarrow> q # outs1)"
    by (auto split: bind_splits)
  note step = batch_step [OF one ri, of n]
  show ?case
  proof (cases "emitted res")
    case None
    with Suc.IH [of "settle res r1" "Suc ri" ps outs1 wi] rest Suc.prems outs step show ?thesis by simp
  next
    case (Some q)
    let ?ps = "ps[wi := q]"
    have "drop (Suc ri) ?ps = drop (Suc ri) ps" using Suc.prems(3) by simp
    with Suc.IH [of "settle res r1" "Suc ri" ?ps outs1 "Suc wi"] rest Suc.prems obtain ps' where
      l: "batch_loop xxh3 now n (settle res r1) ?ps (Suc ri) (Suc wi) = Some (Suc wi + length outs1, ps', r')"
      "length ps' = length ps" "take (Suc wi + length outs1) ps' = take (Suc wi) ?ps @ outs1" by auto
    have "take (Suc wi) ?ps = take wi ps @ [q]" using ri(2) by (simp add: take_Suc_conv_app_nth)
    with l step Some outs show ?thesis by auto
  qed
qed (auto simp: take_all_iff)

lemma process_batch_seq:
  assumes "rewriter_wf r" and "list_all packet_buf_ok ps"
  shows "\<exists>outs r0 ps' r'. process_seq xxh3 now r ps = Some (outs, r0) \<and>
    process_batch xxh3 r ps now = Some (length outs, ps', r') \<and> length ps' = length ps \<and>
    take (length outs) ps' = outs \<and> list_all packet_buf_ok outs \<and> rewriter_wf r' \<and> length outs \<le> length ps \<and>
    rw_conn r' = rw_conn r0 \<and> rw_frag r' = rw_frag r0 \<and> fm_counter (rw_metrics r') = fm_counter (rw_metrics r0)"
proof -
  obtain outs r0 where s: "process_seq xxh3 now r ps = Some (outs, r0)" "rewriter_wf r0" "list_all packet_buf_ok outs"
    "length outs \<le> length ps" using process_seq_ok [OF assms] by blast
  obtain ps' where "batch_loop xxh3 now (length ps) r ps 0 0 = Some (length outs, ps', r0)"
    "length ps' = length ps" "take (length outs) ps' = outs"
    using batch_loop_seq [of xxh3 now r 0 ps outs r0 "length ps" 0] s(1) by auto
  with s show ?thesis by (auto simp: process_batch_def rewriter_wf_def)
qed

subsection \<open>A concrete rewriter\<close>

definition sample_table :: lookup_table where
  "sample_table = \<lparr>lt_entries = [0], lt_backends = [backend_new (V4 (Ipv4 10 0 0 1)) 443], lt_table_size = 1\<rparr>"

definition sample_start :: "rewriter panics" where
  "sample_start = rewriter_new (V4 (Ipv4 172 16 0 1)) 4 (conn_ttls_with_established (secs 60)) 4 (secs 10)
     [''web'' \<mapsto> sample_table] (matcher_from_entries [(V4 (Ipv4 188 184 100 10), Udp, 443, ''web'')])
     Map.empty forwarder_metrics_new
     \<lparr>network_mtu = 1500, effective_inner_mtu = 1476, tcp_mss_clamp = 1436\<rparr> 100 0"

text \<open>A UDP datagram in fragments: \<open>fl\<close> is the fragment word, \<open>rest\<close> what follows the header.\<close>

definition sample_bytes :: "u8 \<Rightarrow> u8 \<Rightarrow> u8 list" where
  "sample_bytes fl fo = [0x45, 0, 0, 28, 0, 7, fl, fo, 64, 17, 0, 0, 10, 0, 0, 100, 188, 184, 100, 10,
     0x30, 0x39, 0x01, 0xBB, 0, 8, 0, 0]"

definition sample_meta :: packet_meta where
  "sample_meta = \<lparr>src_ip = V4 (Ipv4 10 0 0 100), dst_ip = V4 (Ipv4 188 184 100 10), src_port = 12345,
     dst_port = 443, proto = Udp, meta_flags = None\<rparr>"

lemma sample_valid [simp]: "take PACKET_BUF_SIZE (sample_bytes fl fo) = sample_bytes fl fo"
  by (simp add: sample_bytes_def PACKET_BUF_SIZE_def)

lemma sample_len [simp]: "pkt_len (from_slice (sample_bytes fl fo)) = 28"
  by (simp add: from_slice_def sample_bytes_def PACKET_BUF_SIZE_def)

lemma sample_parse:
  "is_non_first_fragment (sample_bytes 0x20 0) = Some False"
  "is_non_first_fragment (sample_bytes 0 1) = Some True"
  "is_fragment (sample_bytes 0x20 0) = Some True"
  "from_ipv4_bytes (sample_bytes 0x20 0) = Some (Some sample_meta)"
  "fragment_id_from_ipv4_bytes (sample_bytes 0x20 0) =
     Some (Some \<lparr>frag_src = V4 (Ipv4 10 0 0 100), frag_dst = V4 (Ipv4 188 184 100 10), frag_ip_id = 7\<rparr>)"
  "fragment_id_from_ipv4_bytes (sample_bytes 0 1) =
     Some (Some \<lparr>frag_src = V4 (Ipv4 10 0 0 100), frag_dst = V4 (Ipv4 188 184 100 10), frag_ip_id = 7\<rparr>)"
  "clamp_mss (sample_bytes 0x20 0) 1436 = Some (CNotTcp, sample_bytes 0x20 0)"
  "should_generate_icmp (sample_bytes 0x20 0) 1500 = Some False"
  by (code_simp)+

lemma sample_started:
  "\<exists>r. sample_start = Some r \<and> rewriter_wf r \<and> rw_src_ip r = V4 (Ipv4 172 16 0 1) \<and>
     rw_tables r = [''web'' \<mapsto> sample_table] \<and>
     rw_matcher r = matcher_from_entries [(V4 (Ipv4 188 184 100 10), Udp, 443, ''web'')] \<and>
     rw_health r = Map.empty \<and> (\<forall>h now. conn_get (rw_conn r) h now = Some None) \<and>
     \<not> list_all ce_occupied (ct_entries (rw_conn r)) \<and>
     (\<exists>e \<in> set (ft_entries (rw_frag r)). \<not> fe_occupied e) \<and>
     rw_mtu r = \<lparr>network_mtu = 1500, effective_inner_mtu = 1476, tcp_mss_clamp = 1436\<rparr>"
proof -
  obtain ct ft where t: "conn_table_new 4 (conn_ttls_with_established (secs 60)) 0 = Some ct"
    "fragment_table_new 4 (secs 10) 0 = Some ft"
    by (simp add: conn_table_new_def fragment_table_new_def power_of_two_4)
  have "\<not> list_all ce_occupied (ct_entries ct)" "\<exists>e \<in> set (ft_entries ft). \<not> fe_occupied e"
    using t by (auto simp: conn_table_new_def fragment_table_new_def power_of_two_4 conn_entry_empty_def
        fragment_entry_empty_def replicate_4)
  moreover have "table_ok sample_table"
    by (simp add: table_ok_def sample_table_def backend_new_def)
  ultimately show ?thesis
    using t conn_table_new_wf(1) [OF t(1)] fragment_table_new_wf(1) [OF t(2)] conn_get_new [OF t(1)]
    by (intro exI [of _ "the sample_start"])
      (simp add: sample_start_def rewriter_new_def rewriter_wf_def)
qed

text \<open>Its first fragment is forwarded to the one backend there is.\<close>

lemma sample_forwarded:
  "\<exists>r q r1 pr inner. sample_start = Some r \<and> rewriter_wf r \<and>
     main_path (\<lambda>_. 0) r (from_slice (sample_bytes 0x20 0)) sample_meta sample_table \<and>
     process_one (\<lambda>_. 0) r (from_slice (sample_bytes 0x20 0)) 7 = Some (Forwarded q, r1) \<and>
     counter r1 EvictionDroppedFull = counter r EvictionDroppedFull \<and>
     decapsulate (valid_bytes q) = Some (Ipv4 172 16 0 1, Ipv4 10 0 0 1, pr, inner) \<and>
     (\<exists>e \<in> set (ft_entries (rw_frag r)). \<not> fe_occupied e) \<and>
     rw_keeps r r1 \<and> rw_health r = Map.empty"
proof -
  obtain r where r: "sample_start = Some r" "rewriter_wf r" "rw_src_ip r = V4 (Ipv4 172 16 0 1)"
    "rw_tables r = [''web'' \<mapsto> sample_table]"
    "rw_matcher r = matcher_from_entries [(V4 (Ipv4 188 184 100 10), Udp, 443, ''web'')]"
    "rw_health r = Map.empty" "\<forall>h now. conn_get (rw_conn r) h now = Some None" "\<not> list_all ce_occupied (ct_entries (rw_conn r))"
    "\<exists>e \<in> set (ft_entries (rw_frag r)). \<not> fe_occupied e"
    "rw_mtu r = \<lparr>network_mtu = 1500, effective_inner_mtu = 1476, tcp_mss_clamp = 1436\<rparr>"
    using sample_started by blast
  let ?p = "from_slice (sample_bytes 0x20 0)"
  have main: "main_path (\<lambda>_. 0) r ?p sample_meta sample_table"
    using r(4,5) sample_parse
    by (simp add: main_path_def match_packet_from_entries sample_meta_def)
  obtain c out b r1 where o: "clamp_mss (sample_bytes 0x20 0) 1436 = Some (c, valid_bytes out)"
    "packet_buf_ok out" "rw_keeps r r1"
    "process_one (\<lambda>_. 0) r ?p 7 = finish_packet r1 out (dst_ip sample_meta) b 7"
    "counter r1 EvictionDroppedFull = counter r EvictionDroppedFull"
    "\<exists>be. table_lookup sample_table (flow_hash (\<lambda>_. 0) sample_meta) = Some be \<and> be_ip be = b"
    using process_main_path [OF r(2) from_slice_ok main, of 7] r(7,8,10) by (elim exE conjE) auto
  have b: "b = V4 (Ipv4 10 0 0 1)"
    using o(6) by (simp add: table_lookup_def sample_table_def flow_hash_def backend_new_def)
  have out: "valid_bytes out = sample_bytes 0x20 0" using o(1) sample_parse by simp
  then have len: "pkt_len out = 28"
    using length_valid_bytes [OF o(2)] by (simp add: sample_bytes_def)
  obtain q where q: "encapsulate_ipv4 out (Ipv4 172 16 0 1) (Ipv4 10 0 0 1) = Some (True, q)"
    "decapsulate (valid_bytes q) = Some (Ipv4 172 16 0 1, Ipv4 10 0 0 1, inner_proto (valid_bytes out), valid_bytes out)"
    by (rule encapsulate_ipv4_succeeds [OF o(2), of "Ipv4 172 16 0 1" "Ipv4 10 0 0 1"])
      (simp_all add: len ENCAP_OVERHEAD_def GRE_HEADER_SIZE_def OUTER_IP_HEADER_SIZE_def PACKET_BUF_SIZE_def)
  have env: "rw_src_ip r1 = V4 (Ipv4 172 16 0 1)" "network_mtu (rw_mtu r1) = 1500"
    using o(3) r(3,10) by (simp_all add: rw_keeps_def)
  have "process_one (\<lambda>_. 0) r ?p 7 = Some (Forwarded q, r1)"
    using finish_packet_forwards [OF o(2), of r1 b "Forwarded q"] o(4) q(1) out sample_parse env b
    by (simp add: gre_encap_to_def)
  then show ?thesis
    using r(1,2,6,9) main o(3,5) q(2) by blast
qed

text \<open>
  C9. No batch makes the pipeline panic, and every packet of it is accounted for: each one
  received is either emitted (forwarded or answered by ICMP) or counted as dropped, and each
  oversized packet is answered or rate limited. The emitted packets, exactly those that processing
  the packets one by one in their order emits, stand in that order in the first slots of the batch.
\<close>

theorem process_batch_accounts:
  assumes "rewriter_wf r" and "list_all packet_buf_ok packets"
  shows "\<exists>outs r0 packets' r'. process_seq xxh3 now r packets = Some (outs, r0) \<and>
     process_batch xxh3 r packets now = Some (length outs, packets', r') \<and> rewriter_wf r' \<and>
     list_all packet_buf_ok packets' \<and> length packets' = length packets \<and>
     take (length outs) packets' = outs \<and> books_kept r r' (length packets) (length outs)"
proof -
  obtain k ps' r' where b: "batch_loop xxh3 now (length packets) r packets 0 0 = Some (0 + k, ps', r')"
    "rewriter_wf r'" "list_all packet_buf_ok ps'" "length ps' = length packets"
    "books_kept r r' (length packets) k"
    using batch_loop_ok [OF assms, of 0 "length packets" 0 xxh3 now] by auto
  let ?r = "r'\<lparr>rw_metrics := (rw_metrics r')
       \<lparr>fm_conn_table_size := int (conn_len (rw_conn r')), fm_conn_table_fill_bp := fill_bp (rw_conn r')\<rparr>\<rparr>"
  have "process_batch xxh3 r packets now = Some (k, ps', ?r)"
    using b(1) by (simp add: process_batch_def)
  moreover have "rewriter_wf ?r" using b(2) by (simp add: rewriter_wf_def)
  moreover have "books_kept r ?r (length packets) k" using b(5) by (simp add: books_kept_def)
  moreover obtain outs r0 where "process_seq xxh3 now r packets = Some (outs, r0)"
    "length outs = k" "take (length outs) ps' = outs"
    using process_batch_seq [OF assms, of xxh3 now] calculation(1) by auto
  ultimately show ?thesis using b(3,4) by blast
qed

lemma process_batch_accounts_witness:
  "\<exists>r outs r0 packets' r'. sample_start = Some r \<and>
     process_seq (\<lambda>_. 0) 7 r [packet_buf_new, from_slice (sample_bytes 0x20 0)] = Some (outs, r0) \<and>
     process_batch (\<lambda>_. 0) r [packet_buf_new, from_slice (sample_bytes 0x20 0)] 7 = Some (length outs, packets', r') \<and>
     take (length outs) packets' = outs \<and> books_kept r r' 2 (length outs)"
proof -
  obtain r where r: "sample_start = Some r" "rewriter_wf r" using sample_started by blast
  have "list_all packet_buf_ok [packet_buf_new, from_slice (sample_bytes 0x20 0)]" by simp
  from process_batch_accounts [OF r(2) this, of "\<lambda>_. 0" 7] r(1) show ?thesis
    unfolding numeral_2_eq_2 by fastforce
qed

text \<open>
  C1. What leaves the pipeline as forwarded is a GRE frame from the node's address around the
  packet (with its MSS clamped, byte for byte), addressed to the flow's backend: the one pinned in
  the connection table if it is usable, else the one the Maglev table of the matched pool gives; a
  later fragment goes, unchanged, to the backend recorded for its 3-tuple.
\<close>

theorem forwarded_is_gre_frame:
  assumes "rewriter_wf r" and "packet_buf_ok p"
  shows "\<exists>res r'. process_one xxh3 r p now = Some (res, r') \<and>
     (case res of
        Forwarded q \<Rightarrow> (\<exists>s b inner. rw_src_ip r = V4 s \<and>
          decapsulate (valid_bytes q) = Some (s, b, inner_proto inner, inner) \<and>
          (if is_non_first_fragment (valid_bytes p) = Some True
           then inner = valid_bytes p \<and>
             (\<exists>f. fragment_id_from_ipv4_bytes inner = Some (Some f) \<and>
                fragment_get (rw_frag r) (fragment_hash xxh3 f) now = Some (Some (V4 b)))
           else \<exists>meta table c. main_path xxh3 r p meta table \<and>
             clamp_mss (valid_bytes p) (tcp_mss_clamp (rw_mtu r)) = Some (c, inner) \<and>
             ((\<exists>be. table_lookup table (flow_hash xxh3 meta) = Some be \<and> be_ip be = V4 b) \<or>
              conn_get (rw_conn r) (flow_hash xxh3 meta) now = Some (Some (V4 b)) \<and>
              cached_backend_usable r (V4 b))))
      | _ \<Rightarrow> True)"
proof -
  obtain later where later: "is_non_first_fragment (valid_bytes p) = Some later"
    using is_non_first_fragment_no_panic by blast
  obtain res r' where run: "process_one xxh3 r p now = Some (res, r')"
    using process_one_ok [OF assms] by blast
  show ?thesis
  proof (cases "\<exists>q. res = Forwarded q")
    case False
    then show ?thesis using run by (cases res) auto
  next
    case True
    then obtain q where q: "res = Forwarded q" by blast
    show ?thesis
    proof (cases later)
      case True
      then have "process_later_fragment xxh3 r p now = Some (Forwarded q, r')"
        using run q later assms(2) by (simp add: process_one_def)
      then obtain s d f where "rw_src_ip r = V4 s" "fragment_id_from_ipv4_bytes (valid_bytes p) = Some (Some f)"
        "fragment_get (rw_frag r) (fragment_hash xxh3 f) now = Some (Some (V4 d))"
        "decapsulate (valid_bytes q) = Some (s, d, inner_proto (valid_bytes p), valid_bytes p)"
        using process_later_fragment_ok [OF assms, of xxh3 now] by auto
      then show ?thesis using run q later True by auto
    next
      case False
      have "\<exists>meta table. main_path xxh3 r p meta table"
        using process_one_main [OF assms(2) run [unfolded q]] later False by simp
      then obtain meta table where mp: "main_path xxh3 r p meta table" by blast
      then obtain c out b r1 where o: "clamp_mss (valid_bytes p) (tcp_mss_clamp (rw_mtu r)) = Some (c, valid_bytes out)"
        "packet_buf_ok out" "rw_keeps r r1" "process_one xxh3 r p now = finish_packet r1 out (dst_ip meta) b now"
        "(\<exists>be. table_lookup table (flow_hash xxh3 meta) = Some be \<and> be_ip be = b) \<or>
          conn_get (rw_conn r) (flow_hash xxh3 meta) now = Some (Some b) \<and> cached_backend_usable r b"
        using process_main_path [OF assms mp, of now] by blast
      obtain s d where "rw_src_ip r1 = V4 s" "b = V4 d"
        "decapsulate (valid_bytes q) = Some (s, d, inner_proto (valid_bytes out), valid_bytes out)"
        using finish_packet_ok [OF rw_keeps_wf [OF o(3)] o(2), of "dst_ip meta" b now] o(4) run q by auto
      then show ?thesis
        using run q later False mp o(1,3,5) by (auto simp: rw_keeps_def)
    qed
  qed
qed

lemma forwarded_is_gre_frame_witness:
  "\<exists>r res r'. sample_start = Some r \<and>
     process_one (\<lambda>_. 0) r (from_slice (sample_bytes 0x20 0)) 7 = Some (res, r') \<and> (\<exists>q. res = Forwarded q)"
proof -
  obtain r q r1 where r: "sample_start = Some r" "rewriter_wf r"
    "process_one (\<lambda>_. 0) r (from_slice (sample_bytes 0x20 0)) 7 = Some (Forwarded q, r1)"
    using sample_forwarded by blast
  from forwarded_is_gre_frame [OF r(2) from_slice_ok, of "\<lambda>_. 0" "sample_bytes 0x20 0" 7] r(1,3)
  show ?thesis by blast
qed

end
