(* ===== verification/Affinity.thy ===== *)
theory Affinity
  imports Rewriter
begin

text \<open>
  Affinity: packets that belong together go to the same backend. While a rewriter works, packets of
  other flows come between two packets of one flow, time passes, and other threads replace the
  shared values (\<open>served\<close>). The connection table pins a flow to the backend of its first packet for as
  long as its time to live lasts (\<open>pinned\<close>), and the fragment table does the same for the fragments
  of a datagram (\<open>recorded\<close>).
\<close>

subsection \<open>A flow in the connection table\<close>

text \<open>
  The flow \<open>h\<close> has an entry for the backend \<open>b\<close>, used not before \<open>lo\<close>, that lives at least until \<open>hi\<close>.
\<close>

definition pinned :: "conn_ttls \<Rightarrow> u64 \<Rightarrow> ip_addr \<Rightarrow> flow_proto \<Rightarrow> instant \<Rightarrow> conn_table \<Rightarrow> bool" where
  "pinned ttls h b pr lo t \<longleftrightarrow> conn_table_wf t \<and> conn_ordered t \<and> ct_ttls t = ttls \<and>
     (\<exists>e. conn_map t h = Some e \<and> ce_backend_ip e = b \<and> ce_proto e = pr \<and> lo \<le> ce_last_seen e)"

definition outlives :: "conn_ttls \<Rightarrow> flow_proto \<Rightarrow> duration \<Rightarrow> bool" where
  "outlives ttls pr d \<longleftrightarrow> (\<forall>st. d \<le> ttl_for ttls pr st)"

lemma pinned_get:
  assumes "pinned ttls h b pr lo t" and "outlives ttls pr (hi - lo)" and "now \<le> hi"
  shows "conn_get t h now = Some (Some b)"
proof -
  obtain e where e: "conn_map t h = Some e" "ce_backend_ip e = b" "ce_proto e = pr" "lo \<le> ce_last_seen e"
    and t: "conn_table_wf t" "conn_ordered t" "ct_ttls t = ttls"
    using assms(1) by (auto simp: pinned_def)
  have "now - ce_last_seen e \<le> hi - lo" using assms(3) e(4) by simp
  also have "\<dots> \<le> ttl_for ttls pr (ce_tcp_state e)" using assms(2) by (simp add: outlives_def)
  finally have "\<not> conn_is_expired ttls e now" using e(3) by (simp add: conn_is_expired_def duration_since_def)
  then show ?thesis using conn_get_map [OF t(1,2), of h now] e(1,2) t(3) by simp
qed

lemma pinned_matching:
  assumes "pinned ttls h b pr lo t" and "with_matching_entry t g f = Some t'"
    and f: "\<And>e. ce_occupied (f e) = ce_occupied e" "\<And>e. ce_hash (f e) = ce_hash e"
    "\<And>e. ce_backend_ip (f e) = ce_backend_ip e" "\<And>e. ce_proto (f e) = ce_proto e"
    "\<And>e. ce_last_seen e \<le> ce_last_seen (f e) \<or> lo \<le> ce_last_seen (f e)"
  shows "pinned ttls h b pr lo t'"
proof -
  obtain e where e: "conn_map t h = Some e" "ce_backend_ip e = b" "ce_proto e = pr" "lo \<le> ce_last_seen e"
    and t: "conn_table_wf t" "conn_ordered t" "ct_ttls t = ttls"
    using assms(1) by (auto simp: pinned_def)
  obtain t'' where t'': "with_matching_entry t g f = Some t''" "conn_table_wf t''" "ct_ttls t'' = ct_ttls t"
    "conn_ordered t''" and m: "conn_map t'' = (case conn_map t g of None \<Rightarrow> conn_map t
       | Some e \<Rightarrow> (conn_map t)(g \<mapsto> f e))"
    using with_matching_entry_spec [OF t(1), of f g, OF f(1,2)] t(2) by metis
  have "lo \<le> ce_last_seen (f e)" using f(5) [of e] e(4) by auto
  then have "\<exists>e. conn_map t'' h = Some e \<and> ce_backend_ip e = b \<and> ce_proto e = pr \<and> lo \<le> ce_last_seen e"
    using e f(3,4) m by (cases "g = h") (auto split: option.splits)
  then show ?thesis using t''(1-4) t(3) assms(2) by (simp add: pinned_def)
qed

lemma pinned_updates:
  assumes "pinned ttls h b pr lo t" and "lo \<le> now"
  shows "conn_touch t g now = Some t' \<Longrightarrow> pinned ttls h b pr lo t'"
    and "mark_closing t g now = Some t' \<Longrightarrow> pinned ttls h b pr lo t'"
    and "mark_established t g now = Some t' \<Longrightarrow> pinned ttls h b pr lo t'"
proof -
  have wf: "conn_table_wf t" using assms(1) by (simp add: pinned_def)
  show "pinned ttls h b pr lo t'" if "conn_touch t g now = Some t'"
    by (rule pinned_matching [OF assms(1) that [unfolded conn_ops_eq(3) [OF wf]]]) (use assms(2) in simp_all)
  show "pinned ttls h b pr lo t'" if "mark_closing t g now = Some t'"
    by (rule pinned_matching [OF assms(1) that [unfolded mark_closing_def]]) (use assms(2) in simp_all)
  show "pinned ttls h b pr lo t'" if "mark_established t g now = Some t'"
    by (rule pinned_matching [OF assms(1) that [unfolded mark_established_def]]) (use assms(2) in simp_all)
qed

text \<open>An insertion that is neither refused nor reclaims a slot touches no other flow, and pins its own.\<close>

lemma pinned_insert:
  assumes "conn_table_wf t" and "conn_ordered t" and "conn_insert t g ip pg st now = Some (res, t')"
    and "res \<in> {Inserted, Updated}"
  shows "h \<noteq> g \<Longrightarrow> pinned ttls h b pr lo t \<Longrightarrow> pinned ttls h b pr lo t'"
    and "pinned (ct_ttls t) g ip pg now t'"
proof -
  obtain q t'' where t': "conn_insert t g ip pg st now = Some (q, t'')" "conn_table_wf t''" "ct_ttls t'' = ct_ttls t"
    using conn_insert_total [OF assms(1), of g ip pg st now] by metis
  have keep: "res = q" "t' = t''" using t'(1) assms(3) by simp_all
  let ?c = "new_conn_entry g ip pg st now"
  let ?e = "case conn_map t g of None \<Rightarrow> ?c | Some e \<Rightarrow> conn_merge e ?c"
  have m: "conn_ordered t'" "conn_map t' = (conn_map t)(g \<mapsto> ?e)"
    using conn_insert_map [OF assms(1-3)] assms(4) by (auto split: option.splits if_splits)
  have c: "ce_backend_ip ?e = ip" "ce_proto ?e = pg" "ce_last_seen ?e = now"
    by (simp_all add: new_conn_entry_def split: option.splits)
  show "pinned ttls h b pr lo t'" if "h \<noteq> g" "pinned ttls h b pr lo t"
    using m that t'(2,3) keep by (simp add: pinned_def)
  show "pinned (ct_ttls t) g ip pg now t'"
    using m t'(2,3) keep c by (simp add: pinned_def)
qed

subsection \<open>What a packet does to the tables\<close>

text \<open>The insertions that cost a flow its place: refused, or into the slot of an expired entry.\<close>

definition evictions :: "rewriter \<Rightarrow> nat" where
  "evictions r = counter r EvictionDroppedFull + counter r EvictionExpiredOnInsert"

lemma evictions_sel [simp]:
  "evictions (count c r) = evictions r + (if c = EvictionDroppedFull \<or> c = EvictionExpiredOnInsert then 1 else 0)"
  "evictions (r\<lparr>rw_conn := t\<rparr>) = evictions r" "evictions (r\<lparr>rw_frag := f\<rparr>) = evictions r"
  "evictions (r\<lparr>rw_icmp := l\<rparr>) = evictions r" "evictions (count_clamp cl r) = evictions r"
  by (simp_all add: evictions_def) (cases cl; simp add: count_clamp_def)

lemma insert_tracked_steps:
  assumes "insert_tracked r g ip pg st now = Some r'"
  shows "\<exists>res t. conn_insert (rw_conn r) g ip pg st now = Some (res, t) \<and> rw_conn r' = t \<and> rw_frag r' = rw_frag r \<and>
     evictions r' = evictions r + (if res \<in> {Inserted, Updated} then 0 else 1)"
proof -
  obtain res t where i: "conn_insert (rw_conn r) g ip pg st now = Some (res, t)"
    and r': "r' = (case res of
       Inserted \<Rightarrow> count ConnTableInserts (r\<lparr>rw_conn := t\<rparr>)
     | Updated \<Rightarrow> count ConnTableInserts (r\<lparr>rw_conn := t\<rparr>)
     | EvictedExpired \<Rightarrow> count EvictionExpiredOnInsert (count ConnTableInserts (r\<lparr>rw_conn := t\<rparr>))
     | DroppedFull \<Rightarrow> count EvictionDroppedFull (r\<lparr>rw_conn := t\<rparr>))"
    using assms by (auto simp: insert_tracked_def Let_def split: bind_splits)
  then show ?thesis by (intro exI [of _ res] exI [of _ t]) (cases res; simp)
qed

lemma apply_tcp_transitions_steps:
  assumes "apply_tcp_transitions r g fl now = Some r'"
  shows "rw_frag r' = rw_frag r \<and> evictions r' = evictions r \<and>
     (rw_conn r' = rw_conn r \<or> mark_closing (rw_conn r) g now = Some (rw_conn r') \<or>
      mark_established (rw_conn r) g now = Some (rw_conn r'))"
  using assms by (auto simp: apply_tcp_transitions_def split: bind_splits if_splits)

lemma record_first_fragment_steps:
  assumes "record_first_fragment xxh3 r p b now = Some r'" and "packet_buf_ok p"
  shows "rw_conn r' = rw_conn r \<and> evictions r' = evictions r \<and>
     (if is_fragment (valid_bytes p) = Some True
      then case fragment_id_from_ipv4_bytes (valid_bytes p) of
          Some (Some f) \<Rightarrow> fragment_insert (rw_frag r) (fragment_hash xxh3 f) b now = Some (rw_frag r')
        | _ \<Rightarrow> rw_frag r' = rw_frag r
      else rw_frag r' = rw_frag r)"
  using assms by (auto simp: record_first_fragment_def split: bind_splits if_splits option.splits)

lemma finish_packet_steps:
  assumes "finish_packet r out dst b now = Some (res, r')"
  shows "rw_conn r' = rw_conn r \<and> rw_frag r' = rw_frag r \<and> evictions r' = evictions r"
  using assms by (auto simp: finish_packet_def Let_def split: bind_splits if_splits prod.splits)

text \<open>A packet on the main path goes through the stages one by one.\<close>

lemma main_path_stages:
  assumes ok: "packet_buf_ok p" and main: "main_path xxh3 r p meta table"
    and run: "process_one xxh3 r p now = Some (res, r')"
  obtains c out b r1 r2 r3 where "packet_buf_ok out"
    "select_backend (count_clamp c r) table (flow_hash xxh3 meta) (flow_proto_from (proto meta))
       (initial_tcp_state (meta_flags meta)) now = Some (b, r1)"
    "(case meta_flags meta of None \<Rightarrow> Some r1
      | Some flags \<Rightarrow> apply_tcp_transitions r1 (flow_hash xxh3 meta) flags now) = Some r2"
    "record_first_fragment xxh3 r2 p b now = Some r3"
    "finish_packet r3 out (dst_ip meta) b now = Some (res, r')"
proof -
  obtain c out where out: "as_mut_slice p (\<lambda>d. clamp_mss d (tcp_mss_clamp (rw_mtu r))) = Some (c, out)"
    "packet_buf_ok out" using clamped_output [OF ok] by blast
  obtain pool where "is_non_first_fragment (valid_bytes p) = Some False"
    "from_ipv4_bytes (valid_bytes p) = Some (Some meta)"
    "match_packet (rw_matcher r) (dst_ip meta) (proto meta) (dst_port meta) = Some pool"
    "rw_tables r pool = Some table" using main by (auto simp: main_path_def)
  then show ?thesis
    using that [OF out(2), of c] run out(1) ok by (auto simp: process_one_def Let_def split: bind_splits)
qed

text \<open>A packet either leaves both tables alone, or goes the main path through its stages.\<close>

lemma process_one_stages:
  assumes ok: "packet_buf_ok p" and run: "process_one xxh3 r p now = Some (res, r')"
  obtains "rw_conn r' = rw_conn r" "rw_frag r' = rw_frag r" "evictions r' = evictions r"
    | meta table c b r1 r2 r3 where "main_path xxh3 r p meta table"
      "select_backend (count_clamp c r) table (flow_hash xxh3 meta) (flow_proto_from (proto meta))
         (initial_tcp_state (meta_flags meta)) now = Some (b, r1)"
      "(case meta_flags meta of None \<Rightarrow> Some r1
        | Some flags \<Rightarrow> apply_tcp_transitions r1 (flow_hash xxh3 meta) flags now) = Some r2"
      "record_first_fragment xxh3 r2 p b now = Some r3"
      "rw_conn r' = rw_conn r3" "rw_frag r' = rw_frag r3" "evictions r' = evictions r3"
proof -
  obtain later where later: "is_non_first_fragment (valid_bytes p) = Some later"
    using is_non_first_fragment_no_panic by blast
  obtain parsed where parsed: "from_ipv4_bytes (valid_bytes p) = Some parsed"
    using from_ipv4_bytes_no_panic by blast
  obtain c out where out: "as_mut_slice p (\<lambda>d. clamp_mss d (tcp_mss_clamp (rw_mtu r))) = Some (c, out)"
    using clamped_output [OF ok] by blast
  show ?thesis
  proof (cases "\<exists>meta table. main_path xxh3 r p meta table")
    case False
    have "rw_conn r' = rw_conn r \<and> rw_frag r' = rw_frag r \<and> evictions r' = evictions r"
      using run later parsed out ok False
      by (auto simp: process_one_def main_path_def process_later_fragment_def Let_def
          split: bind_splits if_splits option.splits)
    then show ?thesis using that(1) by blast
  next
    case True
    then obtain meta table where m: "main_path xxh3 r p meta table" by blast
    show ?thesis
    proof (rule main_path_stages [OF ok m run])
      fix c out b r1 r2 r3
      assume s: "select_backend (count_clamp c r) table (flow_hash xxh3 meta) (flow_proto_from (proto meta))
         (initial_tcp_state (meta_flags meta)) now = Some (b, r1)"
        "(case meta_flags meta of None \<Rightarrow> Some r1
          | Some flags \<Rightarrow> apply_tcp_transitions r1 (flow_hash xxh3 meta) flags now) = Some r2"
        "record_first_fragment xxh3 r2 p b now = Some r3"
        "finish_packet r3 out (dst_ip meta) b now = Some (res, r')"
      show ?thesis using that(2) [OF m s(1-3)] finish_packet_steps [OF s(4)] by blast
    qed
  qed
qed

text \<open>The backend is the pinned one, touched, or a new one, inserted.\<close>

lemma select_backend_steps:
  assumes "select_backend r table g pg st now = Some (ip, r')"
  obtains "conn_get (rw_conn r) g now = Some (Some ip)" "cached_backend_usable r ip"
      "conn_touch (rw_conn r) g now = Some (rw_conn r')" "rw_frag r' = rw_frag r" "evictions r' = evictions r"
    | res where "\<And>b. conn_get (rw_conn r) g now = Some (Some b) \<Longrightarrow> \<not> cached_backend_usable r b"
      "conn_insert (rw_conn r) g ip pg st now = Some (res, rw_conn r')" "rw_frag r' = rw_frag r"
      "evictions r' = evictions r + (if res \<in> {Inserted, Updated} then 0 else 1)"
proof -
  obtain hit where hit: "conn_get (rw_conn r) g now = Some hit"
    using assms by (auto simp: select_backend_def split: bind_splits)
  show ?thesis
  proof (cases "\<exists>b. hit = Some b \<and> cached_backend_usable r b")
    case True
    then obtain t where "hit = Some ip" "cached_backend_usable r ip" "conn_touch (rw_conn r) g now = Some t"
      "r' = (count ConnTableHits r)\<lparr>rw_conn := t\<rparr>"
      using assms hit by (auto simp: select_backend_def Let_def split: bind_splits)
    then show ?thesis using that(1) hit by simp
  next
    case False
    then obtain c where "insert_tracked (count c r) g ip pg st now = Some r'"
      "c \<in> {ConnTableMisses, ConnTableFallbackToMaglev}"
      using assms hit by (cases hit) (auto simp: select_backend_def Let_def split: bind_splits)
    then show ?thesis using that(2) insert_tracked_steps [of "count c r" g ip pg st now r'] False hit by auto
  qed
qed

lemma select_backend_pinned:
  assumes sel: "select_backend r table g pg st now = Some (ip, r')" and ev: "evictions r' = evictions r"
    and pin: "pinned ttls h b pr lo (rw_conn r)" and now: "lo \<le> now"
    and own: "g = h \<Longrightarrow> conn_get (rw_conn r) h now = Some (Some b) \<and> cached_backend_usable r b"
  shows "pinned ttls h b pr lo (rw_conn r')"
  using sel
proof (cases rule: select_backend_steps)
  case 1
  then show ?thesis using pinned_updates(1) [OF pin now] by blast
next
  case (2 res)
  have t: "conn_table_wf (rw_conn r)" "conn_ordered (rw_conn r)" using pin by (simp_all add: pinned_def)
  have "res \<in> {Inserted, Updated}" "h \<noteq> g" using 2(1,4) ev own by (auto split: if_splits)
  then show ?thesis using pinned_insert(1) [OF t 2(2)] pin by blast
qed

lemma select_backend_pins:
  assumes sel: "select_backend r table g pg st now = Some (ip, r')" and ev: "evictions r' = evictions r"
    and t: "conn_table_wf (rw_conn r)" "conn_ordered (rw_conn r)"
    and same: "\<And>e. conn_map (rw_conn r) g = Some e \<Longrightarrow> ce_proto e = pg"
  shows "pinned (ct_ttls (rw_conn r)) g ip pg now (rw_conn r')"
  using sel
proof (cases rule: select_backend_steps)
  case 1
  obtain e where e: "conn_map (rw_conn r) g = Some e" "ce_backend_ip e = ip"
    using 1(1) conn_get_map [OF t, of g now] by (auto split: option.splits if_splits)
  obtain t' where "conn_touch (rw_conn r) g now = Some t'" "conn_table_wf t'" "ct_ttls t' = ct_ttls (rw_conn r)"
    "conn_ordered t'" "conn_map t' = (conn_map (rw_conn r))(g \<mapsto> e\<lparr>ce_last_seen := now\<rparr>)"
    unfolding conn_ops_eq(3) [OF t(1)]
    by (rule with_matching_entry_spec [OF t(1), of "\<lambda>e. e\<lparr>ce_last_seen := now\<rparr>" g]) (use t(2) e(1) in simp_all)
  then show ?thesis using e(2) same [OF e(1)] 1(3) by (simp add: pinned_def)
next
  case (2 res)
  have "res \<in> {Inserted, Updated}" using 2(4) ev by (auto split: if_splits)
  then show ?thesis using pinned_insert(2) [OF t 2(2)] by blast
qed

lemma transitions_pinned:
  assumes "(case fl of None \<Rightarrow> Some r | Some flags \<Rightarrow> apply_tcp_transitions r g flags now) = Some r'"
    and "pinned ttls h b pr lo (rw_conn r)" and "lo \<le> now"
  shows "pinned ttls h b pr lo (rw_conn r')"
proof (cases fl)
  case (Some flags)
  then have "rw_conn r' = rw_conn r \<or> mark_closing (rw_conn r) g now = Some (rw_conn r') \<or>
      mark_established (rw_conn r) g now = Some (rw_conn r')"
    using assms(1) apply_tcp_transitions_steps by simp
  then show ?thesis using assms(2) pinned_updates(2,3) [OF assms(2,3)] by metis
qed (use assms in simp)

lemma transitions_frag:
  assumes "(case fl of None \<Rightarrow> Some r | Some flags \<Rightarrow> apply_tcp_transitions r g flags now) = Some r'"
  shows "rw_frag r' = rw_frag r" and "evictions r' = evictions r"
  using assms apply_tcp_transitions_steps by (auto split: option.splits)

subsection \<open>The work of a rewriter between two packets\<close>

text \<open>
  The rewriter handles \<open>n\<close> packets at times between \<open>lo\<close> and \<open>hi\<close>, each of which keeps to \<open>ok\<close>. Between
  them everything the thread shares with others, and its own limiter and gauges, may change at will:
  lookup tables, VIP matcher, health states, counters. The two tables and the configuration are its own.
\<close>

inductive served ::
  "(u8 list \<Rightarrow> u64) \<Rightarrow> (rewriter \<Rightarrow> packet_buf \<Rightarrow> rewriter \<Rightarrow> bool) \<Rightarrow> instant \<Rightarrow> instant \<Rightarrow> nat \<Rightarrow> rewriter \<Rightarrow>
   rewriter \<Rightarrow> bool" for xxh3 ok lo hi where
  served_none: "served xxh3 ok lo hi 0 r r"
| served_packet: "served xxh3 ok lo hi n r r1 \<Longrightarrow> packet_buf_ok p \<Longrightarrow> lo \<le> now \<Longrightarrow> now \<le> hi \<Longrightarrow>
    process_one xxh3 r1 p now = Some (res, r2) \<Longrightarrow> ok r1 p r2 \<Longrightarrow> served xxh3 ok lo hi (Suc n) r r2"
| served_shared: "served xxh3 ok lo hi n r r1 \<Longrightarrow> rewriter_wf r2 \<Longrightarrow> rw_conn r2 = rw_conn r1 \<Longrightarrow>
    rw_frag r2 = rw_frag r1 \<Longrightarrow> rw_src_ip r2 = rw_src_ip r1 \<Longrightarrow> rw_mtu r2 = rw_mtu r1 \<Longrightarrow>
    served xxh3 ok lo hi n r r2"

lemma served_keeps:
  assumes "served xxh3 ok lo hi n r r'" and "rewriter_wf r"
  shows "rewriter_wf r' \<and> rw_src_ip r' = rw_src_ip r \<and> rw_mtu r' = rw_mtu r"
  using assms
proof (induction rule: served.induct)
  case (served_packet n r r1 p now res r2)
  then have "rw_keeps r1 r2" using process_one_ok [of r1 p xxh3 now] by auto
  then show ?case using served_packet by (simp add: rw_keeps_def)
qed simp_all

lemma served_mono:
  assumes "served xxh3 ok lo hi n r r'" and "\<And>r p r'. ok r p r' \<Longrightarrow> ok' r p r'"
  shows "served xxh3 ok' lo hi n r r'"
  using assms(1)
proof (induction rule: served.induct)
  case served_none
  show ?case by (rule served.served_none)
next
  case (served_packet n r r1 p now res r2)
  show ?case
    by (rule served.served_packet [OF served_packet.IH served_packet.hyps(2-5) assms(2) [OF served_packet.hyps(6)]])
next
  case (served_shared n r r1 r2)
  show ?case by (rule served.served_shared [OF served_shared.IH served_shared.hyps(2-6)])
qed

subsection \<open>A flow stays pinned\<close>

text \<open>
  A packet does not disturb the flow \<open>h\<close> of the backend \<open>b\<close>: it costs no flow its place, and if it has
  the flow's hash then the backend is not declared unhealthy when it comes.
\<close>

definition undisturbed ::
  "(u8 list \<Rightarrow> u64) \<Rightarrow> u64 \<Rightarrow> ipv4_addr \<Rightarrow> rewriter \<Rightarrow> packet_buf \<Rightarrow> rewriter \<Rightarrow> bool" where
  "undisturbed xxh3 h b r p r' \<longleftrightarrow> evictions r' = evictions r \<and>
     (\<forall>m. from_ipv4_bytes (valid_bytes p) = Some (Some m) \<and> flow_hash xxh3 m = h \<longrightarrow>
        cached_backend_usable r (V4 b))"

text \<open>The table is in order, and what it may hold under the hash of the flow is of the flow's protocol.\<close>

definition flow_ready :: "(u8 list \<Rightarrow> u64) \<Rightarrow> packet_meta \<Rightarrow> rewriter \<Rightarrow> bool" where
  "flow_ready xxh3 meta r \<longleftrightarrow> conn_ordered (rw_conn r) \<and>
     (\<forall>e. conn_map (rw_conn r) (flow_hash xxh3 meta) = Some e \<longrightarrow> ce_proto e = flow_proto_from (proto meta))"

lemma process_one_pinned:
  assumes ok: "packet_buf_ok p" and run: "process_one xxh3 r p now = Some (res, r')"
    and u: "undisturbed xxh3 h b r p r'" and pin: "pinned ttls h (V4 b) pr lo (rw_conn r)"
    and lo: "lo \<le> now" and hi: "now \<le> hi" "outlives ttls pr (hi - lo)"
  shows "pinned ttls h (V4 b) pr lo (rw_conn r')"
  using ok run
proof (cases rule: process_one_stages)
  case 1
  then show ?thesis using pin by simp
next
  case (2 meta table c ip r1 r2 r3)
  note rec = record_first_fragment_steps [OF 2(4) ok]
  have "evictions r1 = evictions (count_clamp c r)"
    using 2(7) rec transitions_frag(2) [OF 2(3)] u by (simp add: undisturbed_def)
  moreover have "conn_get (rw_conn r) h now = Some (Some (V4 b)) \<and> cached_backend_usable r (V4 b)"
    if "flow_hash xxh3 meta = h"
    using pinned_get [OF pin hi(2,1)] u 2(1) that by (auto simp: undisturbed_def main_path_def)
  ultimately have "pinned ttls h (V4 b) pr lo (rw_conn r1)"
    using select_backend_pinned [OF 2(2)] pin lo by (simp add: cached_backend_usable_def)
  then have "pinned ttls h (V4 b) pr lo (rw_conn r2)" by (rule transitions_pinned [OF 2(3) _ lo])
  then show ?thesis using 2(5) rec by simp
qed

lemma served_pinned:
  assumes "served xxh3 (undisturbed xxh3 h b) lo hi n r r'" and "pinned ttls h (V4 b) pr lo (rw_conn r)"
    and "outlives ttls pr (hi - lo)"
  shows "pinned ttls h (V4 b) pr lo (rw_conn r')"
  using assms
proof (induction rule: served.induct)
  case (served_packet n r r1 p now res r2)
  then show ?case using process_one_pinned [of p xxh3 r1 now res r2 h b ttls pr lo hi] by blast
qed simp_all

text \<open>The first packet of a flow pins it to the backend it was sent to.\<close>

lemma finish_packet_forwarded:
  assumes "finish_packet r out dst ip now = Some (Forwarded q, r')" and "packet_buf_ok out"
    and "decapsulate (valid_bytes q) = Some (s, b, pr, inner)"
  shows "ip = V4 b" and "rw_src_ip r = V4 s"
proof -
  have "gre_encap_to (rw_src_ip r) out ip = Some (Forwarded q)"
    using assms(1,2) by (auto simp: finish_packet_def Let_def split: bind_splits if_splits prod.splits)
  then show "ip = V4 b" "rw_src_ip r = V4 s"
    using gre_encap_to_ok [OF assms(2), of "rw_src_ip r" ip] assms(3) by auto
qed

lemma forwarded_pins:
  assumes wf: "rewriter_wf r" and ok: "packet_buf_ok p" and ready: "flow_ready xxh3 meta r"
    and main: "main_path xxh3 r p meta table"
    and run: "process_one xxh3 r p now = Some (Forwarded q, r')" and ev: "evictions r' = evictions r"
    and dec: "decapsulate (valid_bytes q) = Some (s, b, pr, inner)"
  shows "pinned (ct_ttls (rw_conn r)) (flow_hash xxh3 meta) (V4 b) (flow_proto_from (proto meta)) now (rw_conn r')"
proof -
  obtain c out ip r1 r2 r3 where ok': "packet_buf_ok out"
    and sel: "select_backend (count_clamp c r) table (flow_hash xxh3 meta) (flow_proto_from (proto meta))
       (initial_tcp_state (meta_flags meta)) now = Some (ip, r1)"
    and tr: "(case meta_flags meta of None \<Rightarrow> Some r1
      | Some flags \<Rightarrow> apply_tcp_transitions r1 (flow_hash xxh3 meta) flags now) = Some r2"
    and rec: "record_first_fragment xxh3 r2 p ip now = Some r3"
    and fin: "finish_packet r3 out (dst_ip meta) ip now = Some (Forwarded q, r')"
    by (rule main_path_stages [OF ok main run])
  note steps = record_first_fragment_steps [OF rec ok] finish_packet_steps [OF fin]
  have ip: "ip = V4 b" by (rule finish_packet_forwarded [OF fin ok' dec])
  have ev1: "evictions r1 = evictions (count_clamp c r)" using ev steps transitions_frag(2) [OF tr] by simp
  have t: "conn_table_wf (rw_conn (count_clamp c r))" "conn_ordered (rw_conn (count_clamp c r))"
    using wf ready by (simp_all add: rewriter_wf_def flow_ready_def)
  have "pinned (ct_ttls (rw_conn r)) (flow_hash xxh3 meta) ip (flow_proto_from (proto meta)) now (rw_conn r1)"
    using select_backend_pins [OF sel ev1 t] ready by (simp add: flow_ready_def)
  then show ?thesis using transitions_pinned [OF tr] steps ip by simp
qed

lemma forwarded_src:
  assumes "rewriter_wf r" and "packet_buf_ok p" and "main_path xxh3 r p meta table"
    and "process_one xxh3 r p now = Some (Forwarded q, r')"
    and "decapsulate (valid_bytes q) = Some (s, b, pr, inner)"
  shows "rw_src_ip r = V4 s"
proof -
  obtain out bk ra where o: "packet_buf_ok out" "rw_keeps r ra"
    "process_one xxh3 r p now = finish_packet ra out (dst_ip meta) bk now"
    using process_main_path [OF assms(1-3), of now] by blast
  then have "rw_src_ip ra = V4 s" using finish_packet_forwarded(2) [OF _ o(1) assms(5)] assms(4) by metis
  then show ?thesis using o(2) by (simp add: rw_keeps_def)
qed

text \<open>A packet that finds its flow pinned to a usable backend inserts nothing.\<close>

lemma pinned_hit_evicts_none:
  assumes ok: "packet_buf_ok p" and main: "main_path xxh3 r p meta table"
    and run: "process_one xxh3 r p now = Some (res, r')"
    and hit: "conn_get (rw_conn r) (flow_hash xxh3 meta) now = Some (Some ip)" "cached_backend_usable r ip"
  shows "evictions r' = evictions r"
proof -
  obtain c out b r1 r2 r3 where sel: "select_backend (count_clamp c r) table (flow_hash xxh3 meta)
       (flow_proto_from (proto meta)) (initial_tcp_state (meta_flags meta)) now = Some (b, r1)"
    and tr: "(case meta_flags meta of None \<Rightarrow> Some r1
      | Some flags \<Rightarrow> apply_tcp_transitions r1 (flow_hash xxh3 meta) flags now) = Some r2"
    and rec: "record_first_fragment xxh3 r2 p b now = Some r3"
    and fin: "finish_packet r3 out (dst_ip meta) b now = Some (res, r')"
    by (rule main_path_stages [OF ok main run])
  from sel have "evictions r1 = evictions r"
  proof (cases rule: select_backend_steps)
    case (2 q)
    then show ?thesis using hit by (auto simp: cached_backend_usable_def)
  qed simp
  then show ?thesis
    using record_first_fragment_steps [OF rec ok] finish_packet_steps [OF fin] transitions_frag(2) [OF tr] by simp
qed

subsection \<open>A 3-tuple stays recorded\<close>

text \<open>
  The fragment table maps the 3-tuple \<open>g\<close> to the backend \<open>b\<close>, recorded not before \<open>lo\<close>; none of its
  entries expires before \<open>hi\<close>, and it has at least \<open>m\<close> free slots.
\<close>

definition recorded :: "duration \<Rightarrow> u64 \<Rightarrow> ip_addr \<Rightarrow> instant \<Rightarrow> instant \<Rightarrow> nat \<Rightarrow> fragment_table \<Rightarrow> bool" where
  "recorded ttl g b lo hi m t \<longleftrightarrow> fragment_table_wf t \<and> fragment_ordered t \<and> ft_ttl t = ttl \<and>
     fragment_live t hi \<and> m \<le> fragment_free t \<and>
     (\<exists>e. fragment_map t g = Some e \<and> fe_backend_ip e = b \<and> lo \<le> fe_inserted_at e)"

lemma recorded_get:
  assumes "recorded ttl g b lo hi m t" and "now \<le> hi"
  shows "fragment_get t g now = Some (Some b)"
proof -
  obtain e where e: "fragment_map t g = Some e" "fe_backend_ip e = b"
    and t: "fragment_table_wf t" "fragment_ordered t" "fragment_live t hi" using assms(1) by (auto simp: recorded_def)
  have "\<not> ft_ttl t < duration_since now (fe_inserted_at e)"
    using t(3) e(1) assms(2) unfolding fragment_live_map [OF t(1,2)] by (fastforce simp: duration_since_def)
  then show ?thesis using fragment_get_map [OF t(1,2), of g now] e by simp
qed

lemma insert_free_slot:
  assumes t: "fragment_table_wf t" "fragment_ordered t" "fragment_live t hi" and free: "0 < fragment_free t"
    and now: "now \<le> hi" "hi - now \<le> ft_ttl t" and ins: "fragment_insert t g ip now = Some t'"
  shows "fragment_table_wf t' \<and> fragment_ordered t' \<and> ft_ttl t' = ft_ttl t \<and> fragment_live t' hi \<and>
     fragment_free t \<le> Suc (fragment_free t') \<and>
     fragment_map t' = (fragment_map t)(g \<mapsto> new_fragment_entry g ip now)"
proof -
  have live: "fragment_live t now"
    using t(3) now(1) unfolding fragment_live_map [OF t(1,2)] by (fastforce simp: duration_since_def)
  have "\<not> list_all fe_occupied (ft_entries t)"
    using free by (auto simp: fragment_free_def list_all_iff filter_empty_conv)
  then obtain t'' where t'': "fragment_insert t g ip now = Some t''" "fragment_table_wf t''" "fragment_ordered t''"
    "ft_ttl t'' = ft_ttl t" and m: "fragment_map t'' = (fragment_map t)(g \<mapsto> new_fragment_entry g ip now)"
    using fragment_insert_map [OF t(1,2) live, of g ip] by metis
  have "fragment_live t'' hi"
    using t(3) now unfolding fragment_live_map [OF t''(2,3)] fragment_live_map [OF t(1,2)] m t''(4)
    by (auto simp: new_fragment_entry_def duration_since_def)
  then show ?thesis using t'' m ins fragment_insert_free [OF t(1) ins] by simp
qed

text \<open>What a packet writes into the fragment table: at most the 3-tuple of a first fragment.\<close>

lemma process_one_frag:
  assumes ok: "packet_buf_ok p" and run: "process_one xxh3 r p now = Some (res, r')"
  obtains "rw_frag r' = rw_frag r"
    | f ip where "is_fragment (valid_bytes p) = Some True" "is_non_first_fragment (valid_bytes p) = Some False"
      "fragment_id_from_ipv4_bytes (valid_bytes p) = Some (Some f)"
      "fragment_insert (rw_frag r) (fragment_hash xxh3 f) ip now = Some (rw_frag r')"
  using ok run
proof (cases rule: process_one_stages)
  case 1
  then show ?thesis using that(1) by blast
next
  case (2 meta table c ip r1 r2 r3)
  have "rw_frag r1 = rw_frag r" using 2(2) by (cases rule: select_backend_steps) simp_all
  then have "rw_frag r2 = rw_frag r" using transitions_frag(1) [OF 2(3)] by simp
  then show ?thesis
    using that record_first_fragment_steps [OF 2(4) ok] 2(1,6)
    by (auto simp: main_path_def split: if_splits option.splits)
qed

text \<open>A packet does not compete for the 3-tuple \<open>g\<close>: it is no first fragment with that hash.\<close>

definition no_rival :: "(u8 list \<Rightarrow> u64) \<Rightarrow> u64 \<Rightarrow> rewriter \<Rightarrow> packet_buf \<Rightarrow> rewriter \<Rightarrow> bool" where
  "no_rival xxh3 g r p r' \<longleftrightarrow>
     \<not> (is_fragment (valid_bytes p) = Some True \<and> is_non_first_fragment (valid_bytes p) = Some False \<and>
        (\<exists>f. fragment_id_from_ipv4_bytes (valid_bytes p) = Some (Some f) \<and> fragment_hash xxh3 f = g))"

lemma served_recorded:
  assumes "served xxh3 (no_rival xxh3 g) lo hi n r r'" and "recorded ttl g b lo hi (n + k) (rw_frag r)"
    and "hi - lo \<le> ttl"
  shows "recorded ttl g b lo hi k (rw_frag r')"
  using assms
proof (induction arbitrary: k rule: served.induct)
  case (served_packet n r r1 p now res r2)
  have rec: "recorded ttl g b lo hi (Suc k) (rw_frag r1)" using served_packet.IH [of "Suc k"] served_packet.prems by simp
  show ?case using served_packet.hyps(2,5)
  proof (cases rule: process_one_frag)
    case 1
    then show ?thesis using rec by (auto simp: recorded_def)
  next
    case (2 f ip)
    have "g \<noteq> fragment_hash xxh3 f" using 2 served_packet.hyps(6) by (auto simp: no_rival_def)
    moreover have "hi - now \<le> ft_ttl (rw_frag r1)"
      using rec served_packet.hyps(3) served_packet.prems(2) by (auto simp: recorded_def)
    ultimately show ?thesis
      using rec insert_free_slot [OF _ _ _ _ served_packet.hyps(4) _ 2(4)] by (auto simp: recorded_def)
  qed
qed simp_all

subsection \<open>Concrete runs\<close>

lemma sample_tables:
  assumes "sample_start = Some r"
  shows "conn_table_wf (rw_conn r)" "conn_ordered (rw_conn r)" "conn_map (rw_conn r) = Map.empty"
    "conn_live (rw_conn r) now" "ct_ttls (rw_conn r) = conn_ttls_with_established (secs 60)"
    "\<not> list_all ce_occupied (ct_entries (rw_conn r))"
    "fragment_ordered (rw_frag r)" "fragment_live (rw_frag r) now" "fragment_free (rw_frag r) = 4"
    "ft_ttl (rw_frag r) = secs 10" "rw_health r = Map.empty" "network_mtu (rw_mtu r) = 1500"
proof -
  obtain ct ft where t: "conn_table_new 4 (conn_ttls_with_established (secs 60)) 0 = Some ct"
    "fragment_table_new 4 (secs 10) 0 = Some ft" and r: "rw_conn r = ct" "rw_frag r = ft" "rw_health r = Map.empty"
    "network_mtu (rw_mtu r) = 1500"
    using assms by (auto simp: sample_start_def rewriter_new_def split: bind_splits)
  show "conn_table_wf (rw_conn r)" "conn_ordered (rw_conn r)" "conn_map (rw_conn r) = Map.empty"
    "conn_live (rw_conn r) now" "fragment_ordered (rw_frag r)" "fragment_live (rw_frag r) now"
    using conn_table_new_wf [OF t(1)] fragment_table_new_wf [OF t(2)] r by simp_all
  show "ct_ttls (rw_conn r) = conn_ttls_with_established (secs 60)"
    "\<not> list_all ce_occupied (ct_entries (rw_conn r))"
    "fragment_free (rw_frag r) = 4" "ft_ttl (rw_frag r) = secs 10" "rw_health r = Map.empty"
    "network_mtu (rw_mtu r) = 1500"
    using t r by (auto simp: conn_table_new_def fragment_table_new_def power_of_two_4 conn_entry_empty_def
        fragment_entry_empty_def replicate_4 fragment_free_def)
qed

text \<open>The first packet finds an empty table, so it costs no flow its place.\<close>

lemma fresh_evicts_none:
  assumes ok: "packet_buf_ok p" and main: "main_path xxh3 r p meta table"
    and run: "process_one xxh3 r p now = Some (res, r')" and wf: "conn_table_wf (rw_conn r)" "conn_ordered (rw_conn r)"
    and fresh: "conn_map (rw_conn r) = Map.empty" "conn_live (rw_conn r) now"
      "\<not> list_all ce_occupied (ct_entries (rw_conn r))"
  shows "evictions r' = evictions r"
proof -
  obtain c out b r1 r2 r3 where sel: "select_backend (count_clamp c r) table (flow_hash xxh3 meta)
       (flow_proto_from (proto meta)) (initial_tcp_state (meta_flags meta)) now = Some (b, r1)"
    and tr: "(case meta_flags meta of None \<Rightarrow> Some r1
      | Some flags \<Rightarrow> apply_tcp_transitions r1 (flow_hash xxh3 meta) flags now) = Some r2"
    and rec: "record_first_fragment xxh3 r2 p b now = Some r3"
    and fin: "finish_packet r3 out (dst_ip meta) b now = Some (res, r')"
    by (rule main_path_stages [OF ok main run])
  from sel have "evictions r1 = evictions r"
  proof (cases rule: select_backend_steps)
    case (2 q)
    obtain q' t where "conn_insert (rw_conn r) (flow_hash xxh3 meta) b (flow_proto_from (proto meta))
        (initial_tcp_state (meta_flags meta)) now = Some (q', t)" "q' \<noteq> EvictedExpired"
      by (rule conn_insert_live [OF wf(1) fresh(2)])
    then have "q \<noteq> EvictedExpired" using 2(2) by simp
    then have "q = Inserted" using conn_insert_map [OF wf, of _ b _ _ now q "rw_conn r1"] 2(2) fresh by simp
    then show ?thesis using 2(4) by simp
  qed simp
  then show ?thesis
    using record_first_fragment_steps [OF rec ok] finish_packet_steps [OF fin] transitions_frag(2) [OF tr] by simp
qed

text \<open>A second fragment writes nothing; it may come between the packets.\<close>

lemma sample_second:
  assumes "rewriter_wf r" and "\<And>r'. ok r (from_slice (sample_bytes 0 1)) r' \<longleftrightarrow> evictions r' = evictions r"
    and "lo \<le> 8" and "8 \<le> hi"
  obtains res r2 where "process_one xxh3 r (from_slice (sample_bytes 0 1)) 8 = Some (res, r2)" "rw_keeps r r2"
    "served xxh3 ok lo hi 1 r r2"
proof -
  obtain res r2 where run: "process_one xxh3 r (from_slice (sample_bytes 0 1)) 8 = Some (res, r2)" "rw_keeps r r2"
    using process_one_ok [OF assms(1) from_slice_ok] by blast
  have "evictions r2 = evictions r" using from_slice_ok run(1)
    by (cases rule: process_one_stages) (auto simp: main_path_def sample_parse)
  then have "served xxh3 ok lo hi (Suc 0) r r2"
    using served_packet [OF served_none from_slice_ok assms(3,4) run(1)] assms(2) by blast
  then show ?thesis using that run by simp
qed

subsection \<open>The properties\<close>

text \<open>
  C2. Flow affinity. Once a packet of a flow was forwarded to a backend, a later packet with the same
  5-tuple, whatever its flags and payload, is forwarded to the same backend, with its MSS clamped and
  in a GRE frame from the node: no matter how much time went by within the shortest time to live of
  the flow's protocol, how many packets of this flow and of others came between, and how the lookup
  tables, the VIP matcher and the health states changed. The conditions: the flow's packets still match
  a service with a table, fit the MTU, and find the backend not declared unhealthy; and no packet, of
  any flow, was refused a place in the connection table or took that of an expired entry, which the
  node counts (either may cost the flow its pin). The state is then ready for the flow's next packet.
\<close>

theorem flow_affinity:
  assumes "rewriter_wf r" and "flow_ready xxh3 meta r" and "packet_buf_ok p"
    and "main_path xxh3 r p meta table"
    and "process_one xxh3 r p now = Some (Forwarded q, r1)" and "evictions r1 = evictions r"
    and "decapsulate (valid_bytes q) = Some (s, b, pr, inner)"
    and "served xxh3 (undisturbed xxh3 (flow_hash xxh3 meta) b) now later n r1 r2"
    and "now \<le> later" and "outlives (ct_ttls (rw_conn r)) (flow_proto_from (proto meta)) (later - now)"
    and "packet_buf_ok p'" and "main_path xxh3 r2 p' (meta\<lparr>meta_flags := flags'\<rparr>) table'"
    and "cached_backend_usable r2 (V4 b)"
    and "pkt_len p' + ENCAP_OVERHEAD \<le> PACKET_BUF_SIZE"
    and "should_generate_icmp (valid_bytes p') (network_mtu (rw_mtu r)) = Some False"
  shows "\<exists>q' r3 c inner'. process_one xxh3 r2 p' later = Some (Forwarded q', r3) \<and>
     clamp_mss (valid_bytes p') (tcp_mss_clamp (rw_mtu r)) = Some (c, inner') \<and>
     decapsulate (valid_bytes q') = Some (s, b, inner_proto inner', inner') \<and>
     rewriter_wf r3 \<and> flow_ready xxh3 meta r3 \<and> evictions r3 = evictions r2"
proof -
  let ?h = "flow_hash xxh3 meta" and ?pr = "flow_proto_from (proto meta)" and ?ttls = "ct_ttls (rw_conn r)"
  let ?meta = "meta\<lparr>meta_flags := flags'\<rparr>"
  have h: "flow_hash xxh3 ?meta = ?h" by (simp add: flow_hash_def flow_key_def)
  have k1: "rw_keeps r r1" using process_one_ok [OF assms(1,3), of xxh3 now] assms(5) by auto
  have k2: "rewriter_wf r2" "rw_src_ip r2 = rw_src_ip r" "rw_mtu r2 = rw_mtu r"
    using served_keeps [OF assms(8) rw_keeps_wf [OF k1]] k1 by (simp_all add: rw_keeps_def)
  have "pinned ?ttls ?h (V4 b) ?pr now (rw_conn r1)" by (rule forwarded_pins [OF assms(1,3,2,4-7)])
  then have pin: "pinned ?ttls ?h (V4 b) ?pr now (rw_conn r2)" by (rule served_pinned [OF assms(8) _ assms(10)])
  have hit: "conn_get (rw_conn r2) (flow_hash xxh3 ?meta) later = Some (Some (V4 b))"
    unfolding h by (rule pinned_get [OF pin assms(10)]) simp
  have src: "rw_src_ip r2 = V4 s" using forwarded_src [OF assms(1,3,4,5,7)] k2(2) by simp
  obtain bk res r3 where f: "process_one xxh3 r2 p' later = Some (res, r3)" "rw_keeps r2 r3"
    "\<forall>ip. conn_get (rw_conn r2) (flow_hash xxh3 ?meta) later = Some (Some ip) \<and> cached_backend_usable r2 ip \<longrightarrow> ip = bk"
    "case bk of V6 _ \<Rightarrow> res = Dropped
     | V4 d \<Rightarrow> \<exists>q c inner. res = Forwarded q \<and>
          clamp_mss (valid_bytes p') (tcp_mss_clamp (rw_mtu r2)) = Some (c, inner) \<and>
          decapsulate (valid_bytes q) = Some (s, d, inner_proto inner, inner)"
    using main_path_forwards [OF k2(1) assms(11,12) src assms(14), of later] assms(15) k2(3) by auto
  have "bk = V4 b" using f(3) hit assms(13) by simp
  moreover have u: "undisturbed xxh3 ?h b r2 p' r3"
    using pinned_hit_evicts_none [OF assms(11,12) f(1) hit assms(13)] assms(13) by (simp add: undisturbed_def)
  moreover have "pinned ?ttls ?h (V4 b) ?pr now (rw_conn r3)"
    by (rule process_one_pinned [OF assms(11) f(1) u pin assms(9) order_refl assms(10)])
  ultimately show ?thesis using f(1,2,4) k2(3)
    by (auto simp: pinned_def flow_ready_def undisturbed_def rw_keeps_def)
qed

lemma flow_affinity_witness:
  "\<exists>r q r1 res r2 q' r3 inner. sample_start = Some r \<and>
     process_one (\<lambda>_. 0) r (from_slice (sample_bytes 0x20 0)) 7 = Some (Forwarded q, r1) \<and>
     process_one (\<lambda>_. 0) r1 (from_slice (sample_bytes 0 1)) 8 = Some (res, r2) \<and>
     process_one (\<lambda>_. 0) (r2\<lparr>rw_health := [V4 (Ipv4 10 0 0 9) \<mapsto> Unhealthy]\<rparr>)
       (from_slice (sample_bytes 0x20 0)) 9 = Some (Forwarded q', r3) \<and>
     decapsulate (valid_bytes q') = Some (Ipv4 172 16 0 1, Ipv4 10 0 0 1, inner_proto inner, inner)"
proof -
  let ?x = "\<lambda>_. 0" and ?p = "from_slice (sample_bytes 0x20 0)" and ?b = "Ipv4 10 0 0 1"
  obtain r q r1 pr inner where r: "sample_start = Some r" "rewriter_wf r"
    "main_path ?x r ?p sample_meta sample_table" "process_one ?x r ?p 7 = Some (Forwarded q, r1)"
    "decapsulate (valid_bytes q) = Some (Ipv4 172 16 0 1, ?b, pr, inner)" "rw_keeps r r1"
    using sample_forwarded by blast
  note t = sample_tables [OF r(1)]
  have ev: "evictions r1 = evictions r" by (rule fresh_evicts_none [OF from_slice_ok r(3,4) t(1-3,4,6)])
  have ready: "flow_ready ?x sample_meta r" using t(2,3) by (simp add: flow_ready_def)
  have health: "rw_health r1 = Map.empty" using r(6) t(11) by (simp add: rw_keeps_def)
  obtain res r2 where r2: "process_one ?x r1 (from_slice (sample_bytes 0 1)) 8 = Some (res, r2)" "rw_keeps r1 r2"
    "served ?x (undisturbed ?x (flow_hash ?x sample_meta) ?b) 7 9 1 r1 r2"
    by (rule sample_second [OF rw_keeps_wf [OF r(6)], of "undisturbed ?x (flow_hash ?x sample_meta) ?b" 7 9 ?x])
      (auto simp: undisturbed_def cached_backend_usable_def health)
  let ?r = "r2\<lparr>rw_health := [V4 (Ipv4 10 0 0 9) \<mapsto> Unhealthy]\<rparr>"
  have "served ?x (undisturbed ?x (flow_hash ?x sample_meta) ?b) 7 9 1 r1 ?r"
    by (rule served_shared [OF r2(3)]) (use rw_keeps_wf [OF r2(2)] in \<open>simp_all add: rewriter_wf_def\<close>)
  moreover have "outlives (ct_ttls (rw_conn r)) (flow_proto_from (proto sample_meta)) (9 - 7)"
    unfolding t(5) by (simp add: outlives_def sample_meta_def conn_ttls_with_established_def ttl_for_def secs_def)
  moreover have "main_path ?x ?r ?p (sample_meta\<lparr>meta_flags := None\<rparr>) sample_table"
    using r(3,6) r2(2) by (simp add: main_path_def rw_keeps_def sample_meta_def)
  moreover have "pkt_len ?p + ENCAP_OVERHEAD \<le> PACKET_BUF_SIZE"
    by (simp add: ENCAP_OVERHEAD_def GRE_HEADER_SIZE_def OUTER_IP_HEADER_SIZE_def PACKET_BUF_SIZE_def)
  moreover have "should_generate_icmp (valid_bytes ?p) (network_mtu (rw_mtu r)) = Some False"
    by (simp add: t(12) sample_parse)
  ultimately show ?thesis
    using flow_affinity [OF r(2) ready from_slice_ok r(3,4) ev r(5), of 9 1 ?r ?p None sample_table] r(1,4) r2(1)
    by (fastforce simp: cached_backend_usable_def)
qed

text \<open>
  C10. Fragment affinity. Once the first fragment of a datagram was forwarded to a backend, a later
  fragment with the same 3-tuple (addresses and IP identification) is forwarded, unchanged, to the
  same backend, at any time until the mapping's time to live is over and after any number of other
  packets, smaller than the number of free slots of the fragment table. The conditions: the table's
  entries have not expired, no other first fragment with the same hash comes between, and the later
  fragment fits the buffer with its new headers. Nothing else matters: neither the tables, nor the
  VIPs, nor the backend's health.
\<close>

theorem fragment_affinity:
  assumes "rewriter_wf r" and "packet_buf_ok p1" and "main_path xxh3 r p1 meta table"
    and "process_one xxh3 r p1 now = Some (Forwarded q1, r1)"
    and "decapsulate (valid_bytes q1) = Some (s, b, pr, inner)"
    and "is_fragment (valid_bytes p1) = Some True"
    and "fragment_id_from_ipv4_bytes (valid_bytes p1) = Some (Some f)"
    and "fragment_ordered (rw_frag r)" and "fragment_live (rw_frag r) later"
    and "served xxh3 (no_rival xxh3 (fragment_hash xxh3 f)) now later n r1 r2"
    and "n < fragment_free (rw_frag r)" and "now \<le> later" and "later - now \<le> ft_ttl (rw_frag r)"
    and "packet_buf_ok p2" and "is_non_first_fragment (valid_bytes p2) = Some True"
    and "fragment_id_from_ipv4_bytes (valid_bytes p2) = Some (Some f)"
    and "pkt_len p2 + ENCAP_OVERHEAD \<le> PACKET_BUF_SIZE"
  shows "\<exists>q2 r3. process_one xxh3 r2 p2 later = Some (Forwarded q2, r3) \<and>
     decapsulate (valid_bytes q2) = Some (s, b, inner_proto (valid_bytes p2), valid_bytes p2)"
proof -
  let ?g = "fragment_hash xxh3 f" and ?ttl = "ft_ttl (rw_frag r)"
  obtain c out ip ra rb rc where ok': "packet_buf_ok out"
    and sel: "select_backend (count_clamp c r) table (flow_hash xxh3 meta) (flow_proto_from (proto meta))
       (initial_tcp_state (meta_flags meta)) now = Some (ip, ra)"
    and tr: "(case meta_flags meta of None \<Rightarrow> Some ra
      | Some flags \<Rightarrow> apply_tcp_transitions ra (flow_hash xxh3 meta) flags now) = Some rb"
    and rec: "record_first_fragment xxh3 rb p1 ip now = Some rc"
    and fin: "finish_packet rc out (dst_ip meta) ip now = Some (Forwarded q1, r1)"
    by (rule main_path_stages [OF assms(2-4)])
  have ip: "ip = V4 b" by (rule finish_packet_forwarded [OF fin ok' assms(5)])
  have "rw_frag ra = rw_frag r" using sel by (cases rule: select_backend_steps) simp_all
  then have "fragment_insert (rw_frag r) ?g (V4 b) now = Some (rw_frag r1)"
    using record_first_fragment_steps [OF rec assms(2)] finish_packet_steps [OF fin] transitions_frag(1) [OF tr]
      assms(6,7) ip by simp
  then have "recorded ?ttl ?g (V4 b) now later (n + 0) (rw_frag r1)"
    using insert_free_slot [of "rw_frag r" later now ?g "V4 b" "rw_frag r1"] assms(1,8,9,11-13)
    by (auto simp: recorded_def rewriter_wf_def new_fragment_entry_def)
  then have "recorded ?ttl ?g (V4 b) now later 0 (rw_frag r2)" by (rule served_recorded [OF assms(10) _ assms(13)])
  then have hit: "fragment_get (rw_frag r2) ?g later = Some (Some (V4 b))" by (rule recorded_get) simp
  have "rw_keeps r r1" using process_one_ok [OF assms(1,2), of xxh3 now] assms(4) by auto
  then have src: "rw_src_ip r2 = V4 s"
    using served_keeps [OF assms(10)] forwarded_src [OF assms(1-5)] by (simp add: rw_keeps_def)
  obtain q2 where "encapsulate_ipv4 p2 s b = Some (True, q2)"
    "decapsulate (valid_bytes q2) = Some (s, b, inner_proto (valid_bytes p2), valid_bytes p2)"
    using encapsulate_ipv4_succeeds [OF assms(14,17), of s b] by metis
  then show ?thesis
    using assms(14-16) src hit by (simp add: process_one_def process_later_fragment_def gre_encap_to_def)
qed

lemma fragment_affinity_witness:
  "\<exists>r q1 r1 res r2 q2 r3. sample_start = Some r \<and>
     process_one (\<lambda>_. 0) r (from_slice (sample_bytes 0x20 0)) 7 = Some (Forwarded q1, r1) \<and>
     process_one (\<lambda>_. 0) r1 (from_slice (sample_bytes 0 1)) 8 = Some (res, r2) \<and>
     process_one (\<lambda>_. 0) r2 (from_slice (sample_bytes 0 1)) 9 = Some (Forwarded q2, r3) \<and>
     decapsulate (valid_bytes q2) = Some (Ipv4 172 16 0 1, Ipv4 10 0 0 1, inner_proto (sample_bytes 0 1), sample_bytes 0 1)"
proof -
  let ?x = "\<lambda>_. 0" and ?p = "from_slice (sample_bytes 0x20 0)" and ?p2 = "from_slice (sample_bytes 0 1)"
  let ?f = "\<lparr>frag_src = V4 (Ipv4 10 0 0 100), frag_dst = V4 (Ipv4 188 184 100 10), frag_ip_id = 7\<rparr>"
  obtain r q r1 pr inner where r: "sample_start = Some r" "rewriter_wf r"
    "main_path ?x r ?p sample_meta sample_table" "process_one ?x r ?p 7 = Some (Forwarded q, r1)"
    "decapsulate (valid_bytes q) = Some (Ipv4 172 16 0 1, Ipv4 10 0 0 1, pr, inner)" "rw_keeps r r1"
    using sample_forwarded by blast
  note t = sample_tables [OF r(1)]
  obtain res r2 where r2: "process_one ?x r1 ?p2 8 = Some (res, r2)"
    "served ?x (\<lambda>r p r'. evictions r' = evictions r \<and> no_rival ?x (fragment_hash ?x ?f) r p r') 7 9 1 r1 r2"
    by (rule sample_second [OF rw_keeps_wf [OF r(6)],
          of "\<lambda>r p r'. evictions r' = evictions r \<and> no_rival ?x (fragment_hash ?x ?f) r p r'" 7 9 ?x])
      (auto simp: no_rival_def sample_parse)
  have "served ?x (no_rival ?x (fragment_hash ?x ?f)) 7 9 1 r1 r2" by (rule served_mono [OF r2(2)]) simp
  moreover have "1 < fragment_free (rw_frag r)" "(9::nat) - 7 \<le> ft_ttl (rw_frag r)"
    using t(9,10) by (simp_all add: secs_def)
  moreover have "pkt_len ?p2 + ENCAP_OVERHEAD \<le> PACKET_BUF_SIZE"
    by (simp add: ENCAP_OVERHEAD_def GRE_HEADER_SIZE_def OUTER_IP_HEADER_SIZE_def PACKET_BUF_SIZE_def)
  moreover have "valid_bytes ?p2 = sample_bytes 0 1" "valid_bytes ?p = sample_bytes 0x20 0" by simp_all
  ultimately show ?thesis
    using fragment_affinity [OF r(2) from_slice_ok r(3-5) _ _ t(7,8), of ?f 9 1 r2 ?p2] sample_parse r(1,4) r2(1)
    by fastforce
qed

end
