(* ===== verification/BgpMessages.thy ===== *)
theory BgpMessages
  imports NetTypes
begin

text \<open>
  The BGP wire format of crate lb-bgp (messages.rs) and the framing of the inbound byte stream
  (\<^verbatim>\<open>take_message\<close> in speaker.rs): the encoders build the message with a placeholder for each
  length field and store the length when the body is there, the parsers look at fixed offsets.
  A receiver's decoder after RFC 4271 (\<open>decode_update\<close>) serves as the specification of the two
  UPDATE encoders, and a stream of well-formed messages as that of the framing.
\<close>

subsection \<open>Messages\<close>

definition MARKER :: "u8 list" where "MARKER = replicate 16 0xFF"

datatype bgp_message_type = Open | Update | Notification | Keepalive

fun message_type_code :: "bgp_message_type \<Rightarrow> u8" where
  "message_type_code Open = 1"
| "message_type_code Update = 2"
| "message_type_code Notification = 3"
| "message_type_code Keepalive = 4"

text \<open>The two stores that fix a length placeholder; its position is inside the buffer.\<close>

definition fix_length :: "u8 list \<Rightarrow> nat \<Rightarrow> u16 \<Rightarrow> u8 list" where
  "fix_length buf pos len = buf[pos := hi_byte len, pos + 1 := lo_byte len]"

definition encode_open :: "u16 \<Rightarrow> u16 \<Rightarrow> ipv4_addr \<Rightarrow> u8 list" where
  "encode_open local_asn hold_time router_id =
     (let buf = MARKER;
          length_pos = length buf;
          buf = buf @ to_be16 0 @ [message_type_code Open];
          buf = buf @ [4] @ to_be16 local_asn @ to_be16 hold_time @ octets4 router_id @ [0]
      in fix_length buf length_pos (word_of_nat (length buf)))"

definition encode_keepalive :: "u8 list" where
  "encode_keepalive = MARKER @ to_be16 19 @ [message_type_code Keepalive]"

definition encode_notification :: "u8 \<Rightarrow> u8 \<Rightarrow> u8 list" where
  "encode_notification error_code error_subcode =
     MARKER @ to_be16 21 @ [message_type_code Notification] @ [error_code, error_subcode]"

definition HOLD_TIMER_EXPIRED :: u8 where "HOLD_TIMER_EXPIRED = 4"
definition CEASE :: u8 where "CEASE = 6"

definition notification_error_name :: "u8 \<Rightarrow> string" where
  "notification_error_name code =
     (if code = 1 then ''Message Header Error''
      else if code = 2 then ''OPEN Message Error''
      else if code = 3 then ''UPDATE Message Error''
      else if code = 4 then ''Hold Timer Expired''
      else if code = 5 then ''Finite State Machine Error''
      else if code = 6 then ''Cease''
      else ''Unknown'')"

text \<open>\<^verbatim>\<open>prefix.octets()[..prefix_len.div_ceil(8)]\<close>: the slice panics beyond four octets.\<close>

definition prefix_octets :: "ipv4_addr \<Rightarrow> u8 \<Rightarrow> u8 list panics" where
  "prefix_octets prefix prefix_len =
     (let prefix_bytes = (unat prefix_len + 7) div 8
      in if prefix_bytes \<le> 4 then Some (take prefix_bytes (octets4 prefix)) else None)"

definition encode_update_announce ::
    "ipv4_addr \<Rightarrow> u8 \<Rightarrow> ipv4_addr \<Rightarrow> u16 \<Rightarrow> u8 list panics" where
  "encode_update_announce prefix prefix_len next_hop local_asn =
     (let buf = MARKER;
          length_pos = length buf;
          buf = buf @ to_be16 0 @ [message_type_code Update] @ to_be16 0;
          path_attrs_len_pos = length buf;
          buf = buf @ to_be16 0 @ [0x40, 1, 1, 0];
          buf = buf @ [0x40, 2, 4, 2, 1] @ to_be16 local_asn;
          buf = buf @ [0x40, 3, 4] @ octets4 next_hop;
          path_attrs_len = length buf - path_attrs_len_pos - 2;
          buf = fix_length buf path_attrs_len_pos (word_of_nat path_attrs_len)
      in do {
        octets \<leftarrow> prefix_octets prefix prefix_len;
        let buf = buf @ [prefix_len] @ octets;
        Some (fix_length buf length_pos (word_of_nat (length buf)))
      })"

definition encode_update_withdraw :: "ipv4_addr \<Rightarrow> u8 \<Rightarrow> u8 list panics" where
  "encode_update_withdraw prefix prefix_len =
     (let buf = MARKER;
          length_pos = length buf;
          buf = buf @ to_be16 0 @ [message_type_code Update];
          prefix_bytes = (unat prefix_len + 7) div 8;
          withdrawn_len = 1 + prefix_bytes
      in do {
        octets \<leftarrow> prefix_octets prefix prefix_len;
        let buf = buf @ to_be16 (word_of_nat withdrawn_len) @ [prefix_len] @ octets @ to_be16 0;
        Some (fix_length buf length_pos (word_of_nat (length buf)))
      })"

subsection \<open>Parsers\<close>

definition parse_message_type :: "u8 list \<Rightarrow> bgp_message_type option" where
  "parse_message_type d =
     (if length d < 19 then None
      else if d ! 18 = 1 then Some Open
      else if d ! 18 = 2 then Some Update
      else if d ! 18 = 3 then Some Notification
      else if d ! 18 = 4 then Some Keepalive
      else None)"

definition parse_message_length :: "u8 list \<Rightarrow> u16 option" where
  "parse_message_length d = (if length d < 18 then None else Some (from_be16 (d ! 16) (d ! 17)))"

definition parse_open_hold_time :: "u8 list \<Rightarrow> u16 option" where
  "parse_open_hold_time d =
     (if length d < 24 then None
      else if parse_message_type d \<noteq> Some Open then None
      else Some (from_be16 (d ! 22) (d ! 23)))"

definition parse_notification :: "u8 list \<Rightarrow> (u8 \<times> u8) option" where
  "parse_notification d =
     (if length d < 21 then None
      else if parse_message_type d \<noteq> Some Notification then None
      else Some (d ! 19, d ! 20))"

subsection \<open>Shape of the encoded messages\<close>

lemma length_MARKER [simp]: "length MARKER = 16"
  by (simp add: MARKER_def)

lemma take_MARKER [simp]: "take 16 (MARKER @ xs) = MARKER"
  by simp

lemma fix_length_header:
  "fix_length (MARKER @ [a, b] @ r) 16 len = MARKER @ to_be16 len @ r"
  by (simp add: fix_length_def to_be16_def list_update_append)

lemma to_be16_0: "to_be16 0 = [0, 0]"
  by (simp add: to_be16_def hi_byte_def lo_byte_def)

lemma encode_open_eq:
  "encode_open asn hold rid =
     MARKER @ to_be16 29 @ [1, 4] @ to_be16 asn @ to_be16 hold @ octets4 rid @ [0]"
  using fix_length_header [of 0 0 "[1, 4] @ to_be16 asn @ to_be16 hold @ octets4 rid @ [0]" 29]
  by (simp add: encode_open_def to_be16_0 Let_def)

lemma prefix_octets_Some:
  "unat l \<le> 32 \<Longrightarrow> prefix_octets p l = Some (take ((unat l + 7) div 8) (octets4 p))"
  by (simp add: prefix_octets_def Let_def)

lemma prefix_octets_None: "prefix_octets p l = None \<longleftrightarrow> 32 < unat l"
  by (auto simp: prefix_octets_def Let_def)

definition announce_attributes :: "ipv4_addr \<Rightarrow> u16 \<Rightarrow> u8 list" where
  "announce_attributes next_hop asn =
     [0x40, 1, 1, 0, 0x40, 2, 4, 2, 1] @ to_be16 asn @ [0x40, 3, 4] @ octets4 next_hop"

lemma length_announce_attributes [simp]: "length (announce_attributes nh asn) = 18"
  by (simp add: announce_attributes_def)

lemma length_prefix_octets: "unat l \<le> 32 \<Longrightarrow> length (take ((unat l + 7) div 8) (octets4 p)) = (unat l + 7) div 8"
  by simp

lemma fix_length_attrs:
  "fix_length (MARKER @ [a, b, c, d, e] @ [f, g] @ r) 21 len = MARKER @ [a, b, c, d, e] @ to_be16 len @ r"
  by (simp add: fix_length_def to_be16_def list_update_append)

lemma encode_update_announce_eq:
  fixes p :: ipv4_addr and l :: u8
  assumes "unat l \<le> 32"
  defines "octets \<equiv> take ((unat l + 7) div 8) (octets4 p)"
  shows "encode_update_announce p l nh asn =
    Some (MARKER @ to_be16 (word_of_nat (42 + length octets)) @ [2, 0, 0] @ to_be16 18 @
          announce_attributes nh asn @ [l] @ octets)"
proof -
  have o: "prefix_octets p l = Some octets"
    unfolding octets_def by (rule prefix_octets_Some [OF assms(1)])
  have attrs: "fix_length (MARKER @ [0, 0, 2, 0, 0] @ [0, 0] @ announce_attributes nh asn) 21 18 =
      MARKER @ [0, 0] @ [2, 0, 0] @ to_be16 18 @ announce_attributes nh asn"
    using fix_length_attrs [of 0 0 2 0 0 0 0 "announce_attributes nh asn" 18] by simp
  note total = fix_length_header [of 0 0 "[2, 0, 0] @ to_be16 18 @ announce_attributes nh asn @ [l] @ octets"
    "word_of_nat (42 + length octets)"]
  show ?thesis
    using attrs total
    by (simp add: encode_update_announce_def o Let_def to_be16_0 announce_attributes_def)
qed

lemma encode_update_withdraw_eq:
  fixes p :: ipv4_addr and l :: u8
  assumes "unat l \<le> 32"
  defines "octets \<equiv> take ((unat l + 7) div 8) (octets4 p)"
  shows "encode_update_withdraw p l =
    Some (MARKER @ to_be16 (word_of_nat (24 + length octets)) @ [2] @
          to_be16 (word_of_nat (1 + length octets)) @ [l] @ octets @ [0, 0])"
proof -
  have o: "prefix_octets p l = Some octets"
    unfolding octets_def by (rule prefix_octets_Some [OF assms(1)])
  have len: "(unat l + 7) div 8 = length octets"
    unfolding octets_def using length_prefix_octets [OF assms(1)] by simp
  note total = fix_length_header [of 0 0 "[2] @ to_be16 (word_of_nat (1 + length octets)) @ [l] @ octets @ [0, 0]"
    "word_of_nat (24 + length octets)"]
  show ?thesis
    using total
    by (simp add: encode_update_withdraw_def o len Let_def to_be16_0)
qed


subsection \<open>What a receiver reads (RFC 4271)\<close>

function decode_prefixes :: "u8 list \<Rightarrow> (u8 \<times> u8 list) list option" where
  "decode_prefixes [] = Some []"
| "decode_prefixes (l # bs) =
     (let n = (unat l + 7) div 8
      in if unat l \<le> 32 \<and> n \<le> length bs
         then map_option (\<lambda>ps. (l, take n bs) # ps) (decode_prefixes (drop n bs)) else None)"
  by pat_completeness auto
termination by (relation "measure length") auto

text \<open>Flags, type code, one length octet, value.\<close>

function decode_attributes :: "u8 list \<Rightarrow> (u8 \<times> u8 \<times> u8 list) list option" where
  "decode_attributes [] = Some []"
| "decode_attributes [_] = None"
| "decode_attributes [_, _] = None"
| "decode_attributes (flags # code # l # bs) =
     (if unat l \<le> length bs
      then map_option (\<lambda>as. (flags, code, take (unat l) bs) # as) (decode_attributes (drop (unat l) bs))
      else None)"
  by pat_completeness auto
termination by (relation "measure length") auto

record update_message =
  withdrawn_routes :: "(u8 \<times> u8 list) list"
  path_attributes :: "(u8 \<times> u8 \<times> u8 list) list"
  reachable_routes :: "(u8 \<times> u8 list) list"

text \<open>A message on the wire: marker, its own length, within the bounds of the RFC.\<close>

definition well_framed :: "u8 list \<Rightarrow> bool" where
  "well_framed m \<longleftrightarrow> 19 \<le> length m \<and> length m \<le> 4096 \<and> take 16 m = MARKER \<and>
     unat (from_be16 (m ! 16) (m ! 17)) = length m"

definition decode_update :: "u8 list \<Rightarrow> update_message option" where
  "decode_update m =
     (if \<not> well_framed m \<or> m ! 18 \<noteq> 2 \<or> length m < 23 then None
      else
        let wl = unat (from_be16 (m ! 19) (m ! 20));
            withdrawn = take wl (drop 21 m);
            rest = drop (21 + wl) m
        in if length rest < 2 then None
           else
             let al = unat (from_be16 (rest ! 0) (rest ! 1))
             in if length rest < 2 + al then None
                else do {
                  ws \<leftarrow> decode_prefixes withdrawn;
                  as \<leftarrow> decode_attributes (take al (drop 2 rest));
                  ns \<leftarrow> decode_prefixes (drop (2 + al) rest);
                  Some \<lparr>withdrawn_routes = ws, path_attributes = as, reachable_routes = ns\<rparr>
                })"

lemma well_framed_header:
  assumes "length r + 18 = n" and "19 \<le> n" and "n \<le> 4096"
  shows "well_framed (MARKER @ to_be16 (word_of_nat n) @ r)"
proof -
  have "unat (word_of_nat n :: u16) = n" using assms(3) by (simp add: unat_of_nat_u16)
  with assms show ?thesis by (simp add: well_framed_def to_be16_def nth_append)
qed

lemma decode_prefixes_one:
  assumes "unat l \<le> 32"
  shows "decode_prefixes (l # take ((unat l + 7) div 8) (octets4 p)) =
         Some [(l, take ((unat l + 7) div 8) (octets4 p))]"
  using assms by (simp add: Let_def)

declare decode_prefixes.simps(2) [simp del]

lemma decode_announce_attributes:
  "decode_attributes (announce_attributes nh asn) =
     Some [(0x40, 1, [0]), (0x40, 2, [2, 1] @ to_be16 asn), (0x40, 3, octets4 nh)]"
  by (cases nh) (simp add: announce_attributes_def to_be16_def)

text \<open>The octets of a prefix on the wire.\<close>

definition wire_octets :: "ipv4_addr \<Rightarrow> u8 \<Rightarrow> u8 list" where
  "wire_octets p l = take ((unat l + 7) div 8) (octets4 p)"

lemma wire_octets_32 [simp]: "wire_octets p 32 = octets4 p"
  by (simp add: wire_octets_def)

lemma length_wire_octets: "unat l \<le> 32 \<Longrightarrow> length (wire_octets p l) \<le> 4"
  by (simp add: wire_octets_def)

lemma decode_wire_octets: "unat l \<le> 32 \<Longrightarrow> decode_prefixes (l # wire_octets p l) = Some [(l, wire_octets p l)]"
  unfolding wire_octets_def by (rule decode_prefixes_one)

lemma announce_decodes:
  assumes l: "unat l \<le> 32"
  shows "\<exists>m. encode_update_announce p l nh asn = Some m \<and> decode_update m = Some
    \<lparr>withdrawn_routes = [],
     path_attributes = [(0x40, 1, [0]), (0x40, 2, [2, 1] @ to_be16 asn), (0x40, 3, octets4 nh)],
     reachable_routes = [(l, wire_octets p l)]\<rparr>"
proof -
  define oc where "oc = wire_octets p l"
  have oc_len: "length oc \<le> 4" by (simp add: oc_def length_wire_octets l)
  define r where "r = [2, 0, 0] @ to_be16 18 @ announce_attributes nh asn @ [l] @ oc"
  have a: "encode_update_announce p l nh asn = Some (MARKER @ to_be16 (word_of_nat (42 + length oc)) @ r)"
    using encode_update_announce_eq [OF l, of p nh asn] by (simp add: oc_def wire_octets_def r_def)
  have prefix: "decode_prefixes (l # oc) = Some [(l, oc)]"
    unfolding oc_def by (rule decode_wire_octets [OF l])
  have wf: "well_framed (MARKER @ to_be16 (word_of_nat (42 + length oc)) @ r)"
    by (rule well_framed_header) (use oc_len in \<open>simp_all add: r_def\<close>)
  have be18: "unat (from_be16 (hi_byte 18) (lo_byte 18)) = 18" by simp
  from wf have "decode_update (MARKER @ to_be16 (word_of_nat (42 + length oc)) @ r) = Some
       \<lparr>withdrawn_routes = [],
        path_attributes = [(0x40, 1, [0]), (0x40, 2, [2, 1] @ to_be16 asn), (0x40, 3, octets4 nh)],
        reachable_routes = [(l, oc)]\<rparr>"
    by (simp add: decode_update_def Let_def r_def to_be16_def [of 18] nth_append
        to_be16_def [of "word_of_nat _"] from_be16_def [of 0 0] decode_announce_attributes prefix)
  with a show ?thesis by (simp add: oc_def)
qed

lemma withdraw_decodes:
  assumes l: "unat l \<le> 32"
  shows "\<exists>m. encode_update_withdraw p l = Some m \<and> decode_update m = Some
    \<lparr>withdrawn_routes = [(l, wire_octets p l)], path_attributes = [], reachable_routes = []\<rparr>"
proof -
  define oc where "oc = wire_octets p l"
  have oc_len: "length oc \<le> 4" by (simp add: oc_def length_wire_octets l)
  define r where "r = [2] @ to_be16 (word_of_nat (1 + length oc)) @ [l] @ oc @ [0, 0 :: u8]"
  have w: "encode_update_withdraw p l = Some (MARKER @ to_be16 (word_of_nat (24 + length oc)) @ r)"
    using encode_update_withdraw_eq [OF l, of p] by (simp add: oc_def wire_octets_def r_def)
  have prefix: "decode_prefixes (l # oc) = Some [(l, oc)]"
    unfolding oc_def by (rule decode_wire_octets [OF l])
  have wf: "well_framed (MARKER @ to_be16 (word_of_nat (24 + length oc)) @ r)"
    by (rule well_framed_header) (use oc_len in \<open>simp_all add: r_def\<close>)
  have wl: "unat (word_of_nat (1 + length oc) :: u16) = 1 + length oc"
    using oc_len by (intro unat_of_nat_u16) simp
  from wf wl have "decode_update (MARKER @ to_be16 (word_of_nat (24 + length oc)) @ r) = Some
       \<lparr>withdrawn_routes = [(l, oc)], path_attributes = [], reachable_routes = []\<rparr>"
    by (simp add: decode_update_def Let_def r_def nth_append
        to_be16_def [of "word_of_nat _"] to_be16_def [of "1 + word_of_nat _"]
        from_be16_def [of 0 0] prefix)
  with w show ?thesis by (simp add: oc_def)
qed

text \<open>
  C32. The UPDATE encoders panic exactly for a prefix length above 32. Otherwise the receiver
  reads from an announcement the one prefix with origin IGP, the local AS as path and the given
  next hop, and from a withdrawal the one withdrawn prefix and nothing else.
\<close>

theorem update_roundtrip:
  "if 32 < unat l
   then encode_update_announce p l nh asn = None \<and> encode_update_withdraw p l = None
   else (\<exists>a w. encode_update_announce p l nh asn = Some a \<and> encode_update_withdraw p l = Some w \<and>
     decode_update a = Some
       \<lparr>withdrawn_routes = [],
        path_attributes = [(0x40, 1, [0]), (0x40, 2, [2, 1] @ to_be16 asn), (0x40, 3, octets4 nh)],
        reachable_routes = [(l, wire_octets p l)]\<rparr> \<and>
     decode_update w = Some
       \<lparr>withdrawn_routes = [(l, wire_octets p l)], path_attributes = [], reachable_routes = []\<rparr>)"
proof (cases "32 < unat l")
  case True
  then have "prefix_octets p l = None" by (simp add: prefix_octets_None)
  with True show ?thesis
    by (simp add: encode_update_announce_def encode_update_withdraw_def Let_def)
next
  case False
  then have "unat l \<le> 32" by simp
  from False announce_decodes [OF this, of p nh asn] withdraw_decodes [OF this, of p]
  show ?thesis by auto
qed

lemma decode_not_update:
  "m ! 18 \<noteq> 2 \<Longrightarrow> decode_update m = None"
  by (simp add: decode_update_def)

lemma decode_other [simp]:
  "decode_update encode_keepalive = None"
  "decode_update (encode_notification c s) = None"
  "decode_update (encode_open asn hold rid) = None"
  by (rule decode_not_update, simp add: encode_keepalive_def encode_notification_def
      encode_open_eq to_be16_def nth_append)+

subsection \<open>Framing of the inbound stream (speaker.rs, take_message)\<close>

definition take_message :: "u8 list \<Rightarrow> u8 list option \<times> u8 list" where
  "take_message buf =
     (if length buf < 19 then (None, buf)
      else if take 16 buf \<noteq> replicate 16 0xFF then (None, tl buf)
      else
        let len = unat (from_be16 (buf ! 16) (buf ! 17))
        in if \<not> (19 \<le> len \<and> len \<le> 4096) then (None, tl buf)
           else if length buf < len then (None, buf)
           else (Some (take len buf), drop len buf))"

lemma take_message_shorter:
  "take_message buf = (Some m, rest) \<Longrightarrow> length rest < length buf"
  by (auto simp: take_message_def Let_def split: if_splits)

text \<open>
  The loop of \<^verbatim>\<open>drive\<close> over the accumulated bytes: messages are taken until a NOTIFICATION is
  met, whose codes are returned, or no whole message is left.
\<close>

function scan_incoming :: "u8 list \<Rightarrow> (u8 \<times> u8) option \<times> u8 list" where
  "scan_incoming buf =
     (case take_message buf of
        (None, rest) \<Rightarrow> (None, rest)
      | (Some m, rest) \<Rightarrow>
          (case parse_notification m of
             Some codes \<Rightarrow> (Some codes, rest)
           | None \<Rightarrow> scan_incoming rest))"
  by pat_completeness auto
termination by (relation "measure length") (auto dest!: sym [of _ "take_message _"] take_message_shorter)

declare scan_incoming.simps [simp del]

text \<open>What successive reads of the connection make of the stream.\<close>

fun reads :: "u8 list \<Rightarrow> u8 list list \<Rightarrow> (u8 \<times> u8) option \<times> u8 list" where
  "reads incoming [] = (None, incoming)"
| "reads incoming (chunk # chunks) =
     (case scan_incoming (incoming @ chunk) of
        (Some codes, rest) \<Rightarrow> (Some codes, rest)
      | (None, rest) \<Rightarrow> reads rest chunks)"

definition partial_message :: "u8 list \<Rightarrow> bool" where
  "partial_message t \<longleftrightarrow> (\<exists>r. r \<noteq> [] \<and> well_framed (t @ r))"

lemma MARKER_replicate: "MARKER = replicate 16 0xFF"
  by (rule MARKER_def)

lemma take_message_whole:
  assumes "well_framed m"
  shows "take_message (m @ rest) = (Some m, rest)"
  using assms by (simp add: take_message_def well_framed_def MARKER_replicate nth_append)

lemma take_message_partial:
  assumes "partial_message t"
  shows "take_message t = (None, t)"
proof -
  obtain r where r: "r \<noteq> []" "well_framed (t @ r)"
    using assms by (auto simp: partial_message_def)
  show ?thesis
  proof (cases "length t < 19")
    case False
    with r have "take 16 t = replicate 16 0xFF" "unat (from_be16 (t ! 16) (t ! 17)) = length t + length r"
      by (simp_all add: well_framed_def MARKER_replicate nth_append)
    with r show ?thesis by (simp add: take_message_def well_framed_def)
  qed (simp add: take_message_def)
qed

lemma scan_partial: "partial_message t \<Longrightarrow> scan_incoming t = (None, t)"
  by (simp add: scan_incoming.simps [of t] take_message_partial)

lemma scan_whole:
  "well_framed m \<Longrightarrow> scan_incoming (m @ rest) =
     (case parse_notification m of Some codes \<Rightarrow> (Some codes, rest) | None \<Rightarrow> scan_incoming rest)"
  by (simp add: scan_incoming.simps [of "m @ rest"] take_message_whole)

text \<open>The specification: the codes of the first NOTIFICATION among the messages.\<close>

fun first_notification :: "u8 list list \<Rightarrow> (u8 \<times> u8) option" where
  "first_notification [] = None"
| "first_notification (m # ms) =
     (case parse_notification m of Some codes \<Rightarrow> Some codes | None \<Rightarrow> first_notification ms)"

text \<open>What is left in the buffer is less than the next message of the stream.\<close>

definition leftover :: "u8 list \<Rightarrow> u8 list list \<Rightarrow> bool" where
  "leftover b ms \<longleftrightarrow> (case ms of [] \<Rightarrow> True | m # _ \<Rightarrow> length b < length m)"

lemma scan_prefix:
  assumes "\<forall>m\<in>set ms. well_framed m" and "partial_message t" and "b @ r = concat ms @ t"
  shows "(\<exists>ms' b'. scan_incoming b = (None, b') \<and> b' @ r = concat ms' @ t \<and> leftover b' ms' \<and>
            set ms' \<subseteq> set ms \<and> first_notification ms = first_notification ms') \<or>
         (\<exists>codes b'. scan_incoming b = (Some codes, b') \<and> first_notification ms = Some codes)"
  using assms(1,3)
proof (induction ms arbitrary: b)
  case Nil
  have "partial_message b"
    using assms(2) Nil(2) by (auto simp: partial_message_def)
  with Nil show ?case by (intro disjI1 exI [of _ "[]"] exI [of _ b]) (simp add: scan_partial leftover_def)
next
  case (Cons m ms)
  show ?case
  proof (cases "length b < length m")
    case True
    have "take (length b) (b @ r) = take (length b) (m @ concat ms @ t)"
      using Cons(3) by simp
    with True have "take (length b) m = b" by simp
    then have m: "m = b @ drop (length b) m" by (metis append_take_drop_id)
    moreover have "drop (length b) m \<noteq> []" using True by simp
    ultimately have "partial_message b"
      using Cons(2) unfolding partial_message_def by (metis list.set_intros(1))
    with Cons True show ?thesis
      by (intro disjI1 exI [of _ "m # ms"] exI [of _ b]) (simp add: scan_partial leftover_def)
  next
    case False
    have "take (length m) (b @ r) = take (length m) (m @ concat ms @ t)"
      using Cons(3) by simp
    with False have "take (length m) b = m" by simp
    then obtain b2 where b: "b = m @ b2" by (metis append_take_drop_id)
    with Cons(3) have r: "b2 @ r = concat ms @ t" by simp
    have scan: "scan_incoming b = (case parse_notification m of
        Some codes \<Rightarrow> (Some codes, b2) | None \<Rightarrow> scan_incoming b2)"
      using b Cons(2) by (simp add: scan_whole)
    show ?thesis
    proof (cases "parse_notification m")
      case None
      from Cons.IH [OF _ r] Cons(2) scan None show ?thesis by fastforce
    next
      case (Some codes)
      with scan show ?thesis by simp
    qed
  qed
qed

text \<open>
  C33. However TCP cuts the stream of a peer that sends well-framed messages, the reads find
  the first NOTIFICATION among them, and as long as there is none the buffer holds exactly the
  bytes of the message that is still incomplete.
\<close>

theorem reads_find_first_notification:
  assumes "\<forall>m\<in>set ms. well_framed m" and "partial_message t"
    and "incoming @ concat chunks = concat ms @ t" and "leftover incoming ms"
  shows "fst (reads incoming chunks) = first_notification ms \<and>
         (first_notification ms = None \<longrightarrow> reads incoming chunks = (None, t))"
  using assms(1,3,4)
proof (induction chunks arbitrary: incoming ms)
  case Nil
  then show ?case by (cases ms) (auto simp: leftover_def)
next
  case (Cons chunk chunks)
  have eq: "(incoming @ chunk) @ concat chunks = concat ms @ t" using Cons.prems(2) by simp
  from scan_prefix [OF Cons.prems(1) assms(2) eq] show ?case
  proof (elim disjE exE conjE)
    fix ms' b'
    assume "scan_incoming (incoming @ chunk) = (None, b')" "b' @ concat chunks = concat ms' @ t"
      "leftover b' ms'" "set ms' \<subseteq> set ms" "first_notification ms = first_notification ms'"
    moreover from this Cons.prems(1) have "\<forall>m\<in>set ms'. well_framed m" by auto
    ultimately show ?thesis using Cons.IH [of ms' b'] by simp
  qed simp
qed

lemma well_framed_keepalive: "well_framed encode_keepalive"
  using well_framed_header [of "[4]" 19] by (simp add: encode_keepalive_def)

lemma well_framed_notification: "well_framed (encode_notification c s)"
  using well_framed_header [of "[3, c, s]" 21] by (simp add: encode_notification_def)

lemma well_framed_open: "well_framed (encode_open asn hold rid)"
  using well_framed_header [of "[1, 4] @ to_be16 asn @ to_be16 hold @ octets4 rid @ [0]" 29]
  by (simp add: encode_open_eq)

lemma partial_Nil: "partial_message []"
  unfolding partial_message_def by (rule exI [of _ encode_keepalive])
    (simp add: well_framed_keepalive, simp add: encode_keepalive_def)

lemma parse_type_header:
  "parse_message_type (MARKER @ to_be16 n @ c # r) =
     (if c = 1 then Some Open else if c = 2 then Some Update
      else if c = 3 then Some Notification else if c = 4 then Some Keepalive else None)"
  by (simp add: parse_message_type_def to_be16_def nth_append)

lemma parse_notification_encode [simp]: "parse_notification (encode_notification c s) = Some (c, s)"
  unfolding encode_notification_def parse_notification_def
  by (simp add: parse_type_header del: append_assoc) (simp add: to_be16_def nth_append)

lemma parse_notification_keepalive [simp]: "parse_notification encode_keepalive = None"
  by (simp add: encode_keepalive_def parse_notification_def)

lemma parse_open_hold_time_encode: "parse_open_hold_time (encode_open asn hold rid) = Some hold"
proof -
  have "parse_message_type (encode_open asn hold rid) = Some Open"
    unfolding encode_open_eq by (simp add: parse_type_header)
  then show ?thesis
    by (cases rid) (simp add: encode_open_eq parse_open_hold_time_def to_be16_def nth_append)
qed

text \<open>A KEEPALIVE and a Cease NOTIFICATION cut in the middle of the first marker.\<close>

lemma reads_find_first_notification_witness:
  "fst (reads [] [take 5 encode_keepalive, drop 5 encode_keepalive @ encode_notification 6 2]) = Some (6, 2)"
proof -
  have "fst (reads [] [take 5 encode_keepalive, drop 5 encode_keepalive @ encode_notification 6 2]) =
        first_notification [encode_keepalive, encode_notification 6 2]"
    by (rule reads_find_first_notification
        [where ms = "[encode_keepalive, encode_notification 6 2]" and t = "[]", THEN conjunct1])
      (simp_all add: well_framed_keepalive well_framed_notification partial_Nil leftover_def,
       simp_all add: encode_keepalive_def)
  then show ?thesis by simp
qed

text \<open>
  Recovery is slow: one stray byte in front of a NOTIFICATION is dropped, but the scan then
  stops, so the NOTIFICATION waits for the next read.
\<close>

lemma stray_byte_delays_notification:
  assumes "x \<noteq> 0xFF"
  shows "scan_incoming (x # encode_notification c s) = (None, encode_notification c s)"
proof -
  let ?b = "x # encode_notification c s"
  have "hd (take 16 ?b) = x" "hd (replicate 16 0xFF) = (0xFF :: u8)" by (simp_all add: hd_take)
  with assms have "take 16 ?b \<noteq> replicate 16 0xFF" by metis
  then have "take_message ?b = (None, encode_notification c s)"
    by (simp add: take_message_def encode_notification_def)
  then show ?thesis by (simp add: scan_incoming.simps [of ?b])
qed

end
