(* ===== verification/Config.thy ===== *)
theory Config
  imports NetTypes
begin

text \<open>
  The node configuration (crate lb-types, config.rs): the records the TOML file is
  deserialised into with the defaults their \<^verbatim>\<open>#[serde(default = ...)]\<close> attributes name, the
  textual form of durations, the two accepted forms of the BGP section, the resolution of a
  peer's TCP-MD5 password and of the connection TTLs.

  A string is the list of its UTF-8 bytes. The process environment is a parameter: \<open>env var\<close>
  is what \<^verbatim>\<open>std::env::var\<close> returns, \<^const>\<open>None\<close> for its error. The TOML grammar and the code
  serde derives from the structs are third-party and not part of the model; the hand-written
  \<^verbatim>\<open>Deserialize\<close> implementation of \<^verbatim>\<open>BgpConfig\<close> is.
\<close>

subsection \<open>Integers in text (str::parse)\<close>

datatype int_error = EmptyInt | InvalidDigit | PosOverflow

fun int_error_text :: "int_error \<Rightarrow> string" where
  "int_error_text EmptyInt = ''cannot parse integer from empty string''"
| "int_error_text InvalidDigit = ''invalid digit found in string''"
| "int_error_text PosOverflow = ''number too large to fit in target type''"

text \<open>The digits are read one by one; the multiplication and the addition are checked.\<close>

fun parse_digits :: "nat \<Rightarrow> nat \<Rightarrow> string \<Rightarrow> int_error + nat" where
  "parse_digits w acc [] = Inr acc"
| "parse_digits w acc (c # cs) =
     (if \<not> is_digit c then Inl InvalidDigit
      else let v = 10 * acc + (of_char c - 48)
           in if 2 ^ w \<le> v then Inl PosOverflow else parse_digits w v cs)"

definition parse_int :: "nat \<Rightarrow> string \<Rightarrow> int_error + nat" where
  "parse_int w s =
     (case s of
        [] \<Rightarrow> Inl EmptyInt
      | c # cs \<Rightarrow>
          if cs = [] \<and> (c = CHR ''+'' \<or> c = CHR ''-'') then Inl InvalidDigit
          else parse_digits w 0 (if c = CHR ''+'' then cs else s))"

lemma dec_value_ge: "acc \<le> dec_value acc cs"
proof (induction cs arbitrary: acc)
  case (Cons c cs)
  have "acc \<le> 10 * acc + (of_char c - 48)" by simp
  also have "\<dots> \<le> dec_value (10 * acc + (of_char c - 48)) cs" by (rule Cons.IH)
  finally show ?case by simp
qed simp

lemma parse_digits_Inr:
  "acc < 2 ^ w \<Longrightarrow> parse_digits w acc cs = Inr n \<longleftrightarrow>
     list_all is_digit cs \<and> dec_value acc cs < 2 ^ w \<and> n = dec_value acc cs"
proof (induction cs arbitrary: acc)
  case (Cons c cs)
  let ?v = "10 * acc + (of_char c - 48) :: nat"
  show ?case
  proof (cases "is_digit c \<and> ?v < 2 ^ w")
    case True
    then show ?thesis using Cons.IH [of ?v] by (auto simp: Let_def)
  next
    case False
    then show ?thesis using dec_value_ge [of ?v cs] by (auto simp: Let_def)
  qed
qed auto

text \<open>The value and the success of the parse are those of \<^const>\<open>parse_uint\<close>.\<close>

lemma parse_int_Inr: "parse_int w s = Inr n \<longleftrightarrow> parse_uint w s = Some n"
proof (cases s)
  case (Cons c cs)
  have "\<not> is_digit (CHR ''-'')" by (simp add: is_digit_def)
  with Cons plus_not_digit show ?thesis
    by (auto simp: parse_int_def parse_uint_def parse_digits_Inr Let_def)
qed (simp add: parse_int_def parse_uint_def)

lemma parse_int_dec: "n < 2 ^ w \<Longrightarrow> parse_int w (dec n) = Inr n"
  by (simp add: parse_int_Inr parse_uint_dec)

subsection \<open>Trimming (str::trim)\<close>

text \<open>The UTF-8 encodings of the characters with the \<^verbatim>\<open>White_Space\<close> property.\<close>

definition white_space :: "string list" where
  "white_space = map (map char_of)
     ([[9], [10], [11], [12], [13], [32], [194, 133], [194, 160], [225, 154, 128]] @
      map (\<lambda>b. [226, 128, b]) ([128..<139] @ [168, 169, 175]) @
      [[226, 129, 159], [227, 128, 128]] :: nat list list)"

function trim_front :: "string list \<Rightarrow> string \<Rightarrow> string" where
  "trim_front ws s =
     (case find (\<lambda>w. w \<noteq> [] \<and> take (length w) s = w) ws of
        None \<Rightarrow> s
      | Some w \<Rightarrow> trim_front ws (drop (length w) s))"
  by pat_completeness auto
termination
proof (relation "measure (\<lambda>(ws, s). length s)", goal_cases)
  case (2 ws s w)
  then have "w \<noteq> []" "take (length w) s = w" by (auto simp: find_Some_iff)
  then have "0 < length w" "length w \<le> length s"
    by (auto simp: min_def dest!: arg_cong [where f = length] split: if_splits)
  then have "length s - length w < length s" by (meson diff_less less_le_trans)
  then show ?case by simp
qed simp

declare trim_front.simps [simp del]

definition trim :: "string \<Rightarrow> string" where
  "trim s = rev (trim_front (map rev white_space) (rev (trim_front white_space s)))"

lemma trim_front_keeps:
  assumes "\<And>w. w \<in> set ws \<Longrightarrow> w \<noteq> [] \<Longrightarrow> hd w \<noteq> c"
  shows "trim_front ws (c # s) = c # s"
proof -
  have "\<not> (w \<noteq> [] \<and> take (length w) (c # s) = w)" if "w \<in> set ws" for w
    using assms [OF that] by (cases w) auto
  then have "find (\<lambda>w. w \<noteq> [] \<and> take (length w) (c # s) = w) ws = None"
    by (simp add: find_None_iff)
  then show ?thesis by (simp add: trim_front.simps)
qed

lemma white_space_ends:
  assumes "w \<in> set white_space"
  shows "w \<noteq> [] \<and> (of_char (hd w) < (48::nat) \<or> (122::nat) < of_char (hd w)) \<and>
         (of_char (last w) < (48::nat) \<or> (122::nat) < of_char (last w))"
  using assms by (auto simp: white_space_def upt_rec)

lemma trim_keeps:
  assumes c: "48 \<le> (of_char c :: nat)" "(of_char c :: nat) \<le> 122"
    and d: "48 \<le> (of_char d :: nat)" "(of_char d :: nat) \<le> 122"
  shows "trim (c # s @ [d]) = c # s @ [d]"
proof -
  have "trim_front white_space (c # s @ [d]) = c # s @ [d]"
    using c white_space_ends by (intro trim_front_keeps) force
  moreover have "trim_front (map rev white_space) (d # rev s @ [c]) = d # rev s @ [c]"
    using d white_space_ends by (intro trim_front_keeps) (force simp: hd_rev)
  ultimately show ?thesis by (simp add: trim_def)
qed

lemma trim_keeps1:
  assumes c: "48 \<le> (of_char c :: nat)" "(of_char c :: nat) \<le> 122"
  shows "trim [c] = [c]"
proof -
  have "trim_front white_space [c] = [c]"
    using c white_space_ends by (intro trim_front_keeps) force
  moreover have "trim_front (map rev white_space) [c] = [c]"
    using c white_space_ends by (intro trim_front_keeps) (force simp: hd_rev)
  ultimately show ?thesis by (simp add: trim_def)
qed

lemma trim_dec: "trim (dec n) = dec n"
proof -
  have ok: "48 \<le> (of_char c :: nat) \<and> (of_char c :: nat) \<le> 122" if "c \<in> set (dec n)" for c
    using that dec_digits [of n] by (fastforce simp: list_all_iff is_digit_def)
  show ?thesis
  proof (cases "dec n" rule: rev_cases)
    case (snoc xs d)
    then show ?thesis
    proof (cases xs)
      case Nil
      with snoc ok show ?thesis by (simp add: trim_keeps1)
    next
      case (Cons c ys)
      with snoc ok have "trim (c # ys @ [d]) = c # ys @ [d]"
        by (intro trim_keeps) auto
      with snoc Cons show ?thesis by simp
    qed
  qed simp
qed

lemma trim_dec_unit:
  assumes "u \<noteq> []" and "48 \<le> (of_char (last u) :: nat)" and "(of_char (last u) :: nat) \<le> 122"
  shows "trim (dec n @ u) = dec n @ u"
proof -
  obtain c cs where c: "dec n = c # cs"
    using dec_nonempty by (meson neq_Nil_conv)
  with dec_digits [of n] have "48 \<le> (of_char c :: nat)" "(of_char c :: nat) \<le> 122"
    by (auto simp: is_digit_def)
  with assms have "trim (c # (cs @ butlast u) @ [last u]) = c # (cs @ butlast u) @ [last u]"
    by (intro trim_keeps)
  with assms(1) c show ?thesis by simp
qed

subsection \<open>Durations in text\<close>

text \<open>\<^verbatim>\<open>s.strip_suffix(suf)\<close>.\<close>

definition strip_suffix :: "string \<Rightarrow> string \<Rightarrow> string option" where
  "strip_suffix suf s =
     (if length suf \<le> length s \<and> drop (length s - length suf) s = suf
      then Some (take (length s - length suf) s) else None)"

text \<open>\<^verbatim>\<open>val.trim().parse::<u64>()\<close> with the error rendered, scaled to nanoseconds.\<close>

definition parse_scaled :: "nat \<Rightarrow> string \<Rightarrow> string + duration" where
  "parse_scaled unit val =
     (case parse_int 64 (trim val) of
        Inl e \<Rightarrow> Inl (int_error_text e)
      | Inr n \<Rightarrow> Inr (n * unit))"

definition parse_duration :: "string \<Rightarrow> string + duration" where
  "parse_duration s0 =
     (let s = trim s0
      in case strip_suffix ''us'' s of
           Some val \<Rightarrow> parse_scaled 1000 val
         | None \<Rightarrow>
         case strip_suffix ''ms'' s of
           Some val \<Rightarrow> parse_scaled 1000000 val
         | None \<Rightarrow>
         case strip_suffix ''s'' s of
           Some val \<Rightarrow> parse_scaled 1000000000 val
         | None \<Rightarrow> Inl (''unknown duration format: '' @ s))"

definition serialize_duration :: "duration \<Rightarrow> string" where
  "serialize_duration d =
     (let micros = d div 1000
      in if micros mod 1000000 = 0 then dec (micros div 1000000) @ ''s''
         else if micros mod 1000 = 0 then dec (micros div 1000) @ ''ms''
         else dec micros @ ''us'')"

definition deserialize_opt_duration :: "string option \<Rightarrow> string + duration option" where
  "deserialize_opt_duration s =
     (case s of
        None \<Rightarrow> Inr None
      | Some s \<Rightarrow> (case parse_duration s of Inl e \<Rightarrow> Inl e | Inr d \<Rightarrow> Inr (Some d)))"

lemma parse_scaled_dec: "n < 2 ^ 64 \<Longrightarrow> parse_scaled k (dec n) = Inr (n * k)"
  by (simp add: parse_scaled_def trim_dec parse_int_dec)

lemma strip_suffix_append [simp]: "strip_suffix suf (s @ suf) = Some s"
  by (simp add: strip_suffix_def)

lemma strip_suffix_two_dec: "c \<noteq> CHR ''s'' \<and> \<not> is_digit c \<Longrightarrow> strip_suffix [c, CHR ''s''] (dec n @ ''s'') = None"
proof (cases "dec n" rule: rev_cases)
  case (snoc xs d)
  assume "c \<noteq> CHR ''s'' \<and> \<not> is_digit c"
  moreover from snoc dec_digits [of n] have "is_digit d" by simp
  ultimately show ?thesis using snoc by (auto simp: strip_suffix_def)
qed simp

lemma parse_duration_units:
  assumes n: "n < 2 ^ 64"
  shows "parse_duration (dec n @ ''us'') = Inr (n * 1000)"
    and "parse_duration (dec n @ ''ms'') = Inr (n * 1000000)"
    and "parse_duration (dec n @ ''s'') = Inr (n * 1000000000)"
proof -
  have no_us: "strip_suffix ''us'' (dec n @ ''ms'') = None"
    by (simp add: strip_suffix_def)
  have no_two: "strip_suffix ''us'' (dec n @ ''s'') = None" "strip_suffix ''ms'' (dec n @ ''s'') = None"
    by (rule strip_suffix_two_dec, simp add: is_digit_def)+
  have t: "trim (dec n @ ''us'') = dec n @ ''us''" "trim (dec n @ ''ms'') = dec n @ ''ms''"
    "trim (dec n @ ''s'') = dec n @ ''s''"
    by (rule trim_dec_unit; simp)+
  show "parse_duration (dec n @ ''us'') = Inr (n * 1000)"
    by (simp add: parse_duration_def t parse_scaled_dec [OF n])
  show "parse_duration (dec n @ ''ms'') = Inr (n * 1000000)"
    by (simp add: parse_duration_def t no_us parse_scaled_dec [OF n])
  show "parse_duration (dec n @ ''s'') = Inr (n * 1000000000)"
    by (simp add: parse_duration_def t no_two parse_scaled_dec [OF n])
qed

text \<open>
  A duration below \<open>2 ^ 64\<close> microseconds survives being written to the configuration and
  read back, up to the part below a microsecond, which the text form drops.
\<close>

lemma parse_duration_serialize:
  assumes "d div 1000 < 2 ^ 64"
  shows "parse_duration (serialize_duration d) = Inr (d div 1000 * 1000)"
proof -
  define m where "m = d div 1000"
  have m: "m < 2 ^ 64" "m div 1000000 < 2 ^ 64" "m div 1000 < 2 ^ 64"
    using assms unfolding m_def by (meson div_le_dividend le_less_trans)+
  have "m div 1000000 * 1000000000 = m * 1000" if "m mod 1000000 = 0"
  proof -
    from that have "m div 1000000 * 1000000 = m" by (simp add: dvd_div_mult_self mod_eq_0_iff_dvd)
    then show ?thesis by simp
  qed
  moreover have "m div 1000 * 1000000 = m * 1000" if "m mod 1000 = 0"
  proof -
    from that have "m div 1000 * 1000 = m" by (simp add: dvd_div_mult_self mod_eq_0_iff_dvd)
    then show ?thesis by simp
  qed
  ultimately show ?thesis
    using parse_duration_units(1) [OF m(1)] parse_duration_units(2) [OF m(3)]
      parse_duration_units(3) [OF m(2)]
    unfolding serialize_duration_def Let_def m_def [symmetric] by simp
qed


text \<open>A duration in whole milliseconds, and one below a microsecond.\<close>

subsection \<open>BGP peers\<close>

definition default_bgp_port :: u16 where "default_bgp_port = 179"
definition default_true :: bool where "default_true = True"

record bgp_peer_config =
  bp_peer_ip :: ip_addr
  bp_peer_asn :: u32
  bp_port :: u16
  bp_hold_time_secs :: "u16 option"
  bp_communities :: "string list option"
  bp_enabled :: bool
  bp_md5_password :: "string option"
  bp_md5_password_env :: "string option"

record bgp_config =
  bgp_local_asn :: u32
  bgp_router_id :: ip_addr
  bgp_communities :: "string list"
  bgp_next_hop_self :: bool
  bgp_peers :: "bgp_peer_config list"

text \<open>\<^verbatim>\<open>resolved_md5_password\<close>: a literal, an environment variable, none, or an error.\<close>

definition resolved_md5_password ::
    "(string \<Rightarrow> string option) \<Rightarrow> bgp_peer_config \<Rightarrow> string + string option" where
  "resolved_md5_password env c =
     (case (bp_md5_password c, bp_md5_password_env c) of
        (Some _, Some _) \<Rightarrow>
          Inl (''peer '' @ show_ip (bp_peer_ip c) @
               '': md5_password and md5_password_env are mutually exclusive'')
      | (Some p, None) \<Rightarrow> Inr (Some p)
      | (None, Some var) \<Rightarrow>
          (case env var of
             Some v \<Rightarrow>
               if v \<noteq> [] then Inr (Some v)
               else Inl (''peer '' @ show_ip (bp_peer_ip c) @ '': env var $'' @ var @
                         '' is empty (md5_password_env)'')
           | None \<Rightarrow> Inl (''peer '' @ show_ip (bp_peer_ip c) @ '': env var $'' @ var @
                         '' not set (md5_password_env)''))
      | (None, None) \<Rightarrow> Inr None)"

lemma resolved_md5_cases:
  "case resolved_md5_password env c of
     Inr (Some p) \<Rightarrow> (bp_md5_password c = Some p \<and> bp_md5_password_env c = None) \<or>
       (p \<noteq> [] \<and> bp_md5_password c = None \<and> (\<exists>var. bp_md5_password_env c = Some var \<and> env var = Some p))
   | Inr None \<Rightarrow> bp_md5_password c = None \<and> bp_md5_password_env c = None
   | Inl e \<Rightarrow> bp_md5_password_env c \<noteq> None \<and>
       (bp_md5_password c \<noteq> None \<or> (\<exists>var. bp_md5_password_env c = Some var \<and> env var \<in> {None, Some []}))"
  by (auto simp: resolved_md5_password_def split: option.splits)

subsection \<open>The two forms of the BGP section\<close>

record bgp_config_raw =
  raw_local_asn :: u32
  raw_router_id :: ip_addr
  raw_communities :: "string list"
  raw_next_hop_self :: bool
  raw_peer_ip :: "ip_addr option"
  raw_peer_asn :: "u32 option"
  raw_peers :: "bgp_peer_config list option"

definition legacy_peer :: "ip_addr \<Rightarrow> u32 \<Rightarrow> bgp_peer_config" where
  "legacy_peer ip asn =
     \<lparr>bp_peer_ip = ip, bp_peer_asn = asn, bp_port = default_bgp_port, bp_hold_time_secs = None,
      bp_communities = None, bp_enabled = True, bp_md5_password = None,
      bp_md5_password_env = None\<rparr>"

definition bgp_peers_of :: "bgp_config_raw \<Rightarrow> string + bgp_peer_config list" where
  "bgp_peers_of raw =
     (case (raw_peers raw, raw_peer_ip raw, raw_peer_asn raw) of
        (Some ps, None, None) \<Rightarrow>
          if ps = [] then Inl ''bgp.peers must contain at least one peer'' else Inr ps
      | (Some _, _, _) \<Rightarrow>
          Inl ''bgp: specify either `peers = [...]` or legacy `peer_ip`/`peer_asn`, not both''
      | (None, Some ip, Some asn) \<Rightarrow> Inr [legacy_peer ip asn]
      | (None, None, None) \<Rightarrow>
          Inl ''bgp: no peers configured (expected `peers = [...]` or legacy `peer_ip`+`peer_asn`)''
      | (None, _, _) \<Rightarrow>
          Inl ''bgp: legacy single-peer form requires both `peer_ip` and `peer_asn`'')"

definition bgp_config_of :: "bgp_config_raw \<Rightarrow> string + bgp_config" where
  "bgp_config_of raw =
     (case bgp_peers_of raw of
        Inl e \<Rightarrow> Inl e
      | Inr ps \<Rightarrow> Inr
          \<lparr>bgp_local_asn = raw_local_asn raw, bgp_router_id = raw_router_id raw,
           bgp_communities = raw_communities raw, bgp_next_hop_self = raw_next_hop_self raw,
           bgp_peers = ps\<rparr>)"

text \<open>
  C31. A BGP section is accepted exactly when it uses one of the two forms alone and in full, the list
  with at least one peer in it or the legacy form with both of its fields, and the accepted
  configuration takes over the common fields and has exactly those peers: the list as it is given, or
  the one peer of the legacy form, which is on port 179, enabled, without password and with every
  other field at its default. The legacy form is a shorthand for the list of that one peer.
\<close>

theorem bgp_config_of_well_formed:
  "(bgp_config_of raw = Inr c \<longleftrightarrow>
      bgp_local_asn c = raw_local_asn raw \<and> bgp_router_id c = raw_router_id raw \<and>
      bgp_communities c = raw_communities raw \<and> bgp_next_hop_self c = raw_next_hop_self raw \<and>
      ((\<exists>p ps. raw_peers raw = Some (p # ps) \<and> raw_peer_ip raw = None \<and> raw_peer_asn raw = None \<and>
          bgp_peers c = p # ps) \<or>
       (\<exists>ip asn. raw_peers raw = None \<and> raw_peer_ip raw = Some ip \<and> raw_peer_asn raw = Some asn \<and>
          bgp_peers c = [\<lparr>bp_peer_ip = ip, bp_peer_asn = asn, bp_port = 179, bp_hold_time_secs = None,
            bp_communities = None, bp_enabled = True, bp_md5_password = None, bp_md5_password_env = None\<rparr>]))) \<and>
   bgp_config_of (raw\<lparr>raw_peer_ip := Some ip, raw_peer_asn := Some asn, raw_peers := None\<rparr>) =
     bgp_config_of (raw\<lparr>raw_peer_ip := None, raw_peer_asn := None, raw_peers := Some
       [\<lparr>bp_peer_ip = ip, bp_peer_asn = asn, bp_port = 179, bp_hold_time_secs = None,
         bp_communities = None, bp_enabled = True, bp_md5_password = None, bp_md5_password_env = None\<rparr>]\<rparr>)"
proof (rule conjI)
  have peers: "bgp_peers_of raw = Inr ps \<longleftrightarrow>
      (\<exists>p qs. raw_peers raw = Some (p # qs) \<and> raw_peer_ip raw = None \<and> raw_peer_asn raw = None \<and> ps = p # qs) \<or>
      (\<exists>ip asn. raw_peers raw = None \<and> raw_peer_ip raw = Some ip \<and> raw_peer_asn raw = Some asn \<and>
         ps = [legacy_peer ip asn])" for ps
    by (auto simp: bgp_peers_of_def neq_Nil_conv split: option.splits if_splits)
  have "bgp_config_of raw = Inr c \<longleftrightarrow> bgp_peers_of raw = Inr (bgp_peers c) \<and>
      bgp_local_asn c = raw_local_asn raw \<and> bgp_router_id c = raw_router_id raw \<and>
      bgp_communities c = raw_communities raw \<and> bgp_next_hop_self c = raw_next_hop_self raw"
    by (cases c) (auto simp: bgp_config_of_def split: sum.splits)
  then show "bgp_config_of raw = Inr c \<longleftrightarrow>
      bgp_local_asn c = raw_local_asn raw \<and> bgp_router_id c = raw_router_id raw \<and>
      bgp_communities c = raw_communities raw \<and> bgp_next_hop_self c = raw_next_hop_self raw \<and>
      ((\<exists>p ps. raw_peers raw = Some (p # ps) \<and> raw_peer_ip raw = None \<and> raw_peer_asn raw = None \<and>
          bgp_peers c = p # ps) \<or>
       (\<exists>ip asn. raw_peers raw = None \<and> raw_peer_ip raw = Some ip \<and> raw_peer_asn raw = Some asn \<and>
          bgp_peers c = [\<lparr>bp_peer_ip = ip, bp_peer_asn = asn, bp_port = 179, bp_hold_time_secs = None,
            bp_communities = None, bp_enabled = True, bp_md5_password = None, bp_md5_password_env = None\<rparr>]))"
    unfolding peers legacy_peer_def default_bgp_port_def by auto
qed (simp add: bgp_config_of_def bgp_peers_of_def legacy_peer_def default_bgp_port_def)

subsection \<open>The other sections\<close>

datatype socket_addr = SocketAddr (sa_ip: ip_addr) (sa_port: u16)

datatype io_backend = Mock | AfXdp

definition io_backend_default :: io_backend where "io_backend_default = Mock"

record cpu_affinity_config =
  ca_steering :: "nat list"
  ca_rewriters :: "nat list"
  ca_muxer :: "nat list"

record node_section =
  ns_id :: string
  ns_loopback_ip :: ip_addr
  ns_data_iface :: string
  ns_num_threads :: nat
  ns_metrics_addr :: socket_addr
  ns_io_backend :: io_backend
  ns_cpu_affinity :: "cpu_affinity_config option"

record control_plane_config =
  cp_config_file :: string
  cp_local_cache :: string

record conn_ttls_config =
  ct_tcp_handshake :: "duration option"
  ct_tcp_established :: "duration option"
  ct_tcp_closing :: "duration option"
  ct_udp :: "duration option"
  ct_other :: "duration option"

record forwarder_section =
  fs_packet_pool_size :: nat
  fs_connection_table_size :: nat
  fs_fragment_table_size :: nat
  fs_fragment_ttl :: duration
  fs_batch_size :: nat
  fs_batch_flush_interval :: duration
  fs_connection_ttl :: duration
  fs_connection_ttls :: "conn_ttls_config option"
  fs_network_mtu :: u16
  fs_icmp_rate_limit :: u32

record node_config =
  nc_node :: node_section
  nc_bgp :: bgp_config
  nc_control_plane :: control_plane_config
  nc_forwarder :: forwarder_section
  nc_health_check_defaults :: health_check_config

definition default_num_threads :: nat where "default_num_threads = 7"
definition default_metrics_addr :: socket_addr where
  "default_metrics_addr = SocketAddr (V4 (Ipv4 127 0 0 1)) 9100"
definition default_packet_pool_size :: nat where "default_packet_pool_size = 4096"
definition default_connection_table_size :: nat where "default_connection_table_size = 131072"
definition default_fragment_table_size :: nat where "default_fragment_table_size = 8192"
definition default_fragment_ttl :: duration where "default_fragment_ttl = secs 10"
definition default_batch_size :: nat where "default_batch_size = 64"
definition default_network_mtu :: u16 where "default_network_mtu = 1500"
definition default_icmp_rate_limit :: u32 where "default_icmp_rate_limit = 100"
definition default_healthy_threshold :: u32 where "default_healthy_threshold = 2"
definition default_unhealthy_threshold :: u32 where "default_unhealthy_threshold = 3"

text \<open>Every TTL that is not set explicitly has the default derived from \<open>connection_ttl\<close>.\<close>

definition unwrap_or :: "'a option \<Rightarrow> 'a \<Rightarrow> 'a" where
  "unwrap_or x d = (case x of Some v \<Rightarrow> v | None \<Rightarrow> d)"

definition resolved_conn_ttls :: "forwarder_section \<Rightarrow> conn_ttls" where
  "resolved_conn_ttls f =
     (let defaults = conn_ttls_with_established (fs_connection_ttl f)
      in case fs_connection_ttls f of
           None \<Rightarrow> defaults
         | Some c \<Rightarrow>
             \<lparr>ttl_tcp_handshake = unwrap_or (ct_tcp_handshake c) (ttl_tcp_handshake defaults),
              ttl_tcp_established = unwrap_or (ct_tcp_established c) (ttl_tcp_established defaults),
              ttl_tcp_closing = unwrap_or (ct_tcp_closing c) (ttl_tcp_closing defaults),
              ttl_udp = unwrap_or (ct_udp c) (ttl_udp defaults),
              ttl_other = unwrap_or (ct_other c) (ttl_other defaults)\<rparr>)"

lemma resolved_conn_ttls_established:
  "ttl_tcp_established (resolved_conn_ttls f) =
     (case fs_connection_ttls f of
        Some c \<Rightarrow> (case ct_tcp_established c of Some t \<Rightarrow> t | None \<Rightarrow> fs_connection_ttl f)
      | None \<Rightarrow> fs_connection_ttl f)"
  by (simp add: resolved_conn_ttls_def conn_ttls_with_established_def unwrap_or_def Let_def
      split: option.splits)

text \<open>The defaults satisfy the lower bound the tunnel needs.\<close>

lemma default_mtu_accepted: "\<exists>c. mtu_config_new default_network_mtu = Inr c"
  using mtu_config_new_spec [of default_network_mtu]
  by (cases "mtu_config_new default_network_mtu") (simp_all add: default_network_mtu_def)

end
