(* ===== verification/BgpSpeaker.thy ===== *)
theory BgpSpeaker
  imports BgpMessages Config
begin

text \<open>
  The BGP speaker (crate lb-bgp, speaker.rs): a supervisor that fans announcements out over
  unbounded channels, and per configured peer a session task that connects, performs the OPEN
  handshake, pumps commands, keepalives and inbound bytes until the session ends, and backs
  off exponentially before it reconnects.

  A task is a state machine: its control point (\<open>phase\<close>), its locals, the channel's queue, the
  events it has emitted and the bytes written on the current connection. Every \<^verbatim>\<open>await\<close> that
  yields is a label of \<open>session_step\<close>; the outcomes of system calls are arguments of the
  label. An instant is the monotonic clock in nanoseconds, whose seconds are a signed 64-bit
  number, so adding a duration may panic.
\<close>

definition DEFAULT_HOLD_TIME_SECS :: u16 where "DEFAULT_HOLD_TIME_SECS = 90"
definition RECONNECT_BACKOFF_MIN :: duration where "RECONNECT_BACKOFF_MIN = secs 1"
definition RECONNECT_BACKOFF_MAX :: duration where "RECONNECT_BACKOFF_MAX = secs 60"

definition instant_add :: "instant \<Rightarrow> duration \<Rightarrow> instant panics" where
  "instant_add t d = (if t + d < secs (2 ^ 63) then Some (t + d) else None)"

datatype bgp_error = BgpIo string | BgpSession string | BgpTimeout

fun bgp_error_text :: "bgp_error \<Rightarrow> string" where
  "bgp_error_text (BgpIo e) = ''I/O error: '' @ e"
| "bgp_error_text (BgpSession e) = ''BGP session error: '' @ e"
| "bgp_error_text BgpTimeout = ''connection timeout''"

datatype peer_state = Idle | Connecting | Established | Backoff | Disabled

datatype bgp_event =
    PeerConnected ip_addr
  | PeerDisconnected ip_addr string
  | AnnounceFailed ip_addr
  | WithdrawFailed ip_addr
  | PeerNotification ip_addr u8 u8

datatype session_cmd = Announce "ipv4_addr list" | Withdraw "ipv4_addr list" | Shutdown

record disconnect =
  dc_reason :: string
  dc_terminal :: bool

definition disconnect_terminal :: "string \<Rightarrow> disconnect" where
  "disconnect_terminal r = \<lparr>dc_reason = r, dc_terminal = True\<rparr>"

definition disconnect_transient :: "string \<Rightarrow> disconnect" where
  "disconnect_transient r = \<lparr>dc_reason = r, dc_terminal = False\<rparr>"

record peer_session_ctx =
  px_peer :: bgp_peer_config
  px_local_asn :: u16
  px_router_id :: ipv4_addr

subsection \<open>The TCP-MD5 key (apply_tcp_md5sig, Linux)\<close>

definition MAX_KEYLEN :: nat where "MAX_KEYLEN = 80"

record tcp_md5_sig =
  tcpm_addr :: ipv4_addr
  tcpm_keylen :: u16
  tcpm_key :: "u8 list"

text \<open>The error of \<^verbatim>\<open>setsockopt\<close>, when it has one, is the outcome of the call.\<close>

definition apply_tcp_md5sig ::
    "(tcp_md5_sig \<Rightarrow> string option) \<Rightarrow> ip_addr \<Rightarrow> string \<Rightarrow> string + unit" where
  "apply_tcp_md5sig setsockopt peer password =
     (if length password > MAX_KEYLEN
      then Inl (''TCP_MD5SIG password too long ('' @ dec (length password) @ '' bytes > 80)'')
      else case peer of
        V6 _ \<Rightarrow> Inl ''TCP_MD5SIG not yet wired for IPv6 peers''
      | V4 v4 \<Rightarrow>
          (case setsockopt
             \<lparr>tcpm_addr = v4, tcpm_keylen = word_of_nat (length password),
              tcpm_key = str_bytes password @ replicate (MAX_KEYLEN - length password) 0\<rparr> of
             Some e \<Rightarrow> Inl e
           | None \<Rightarrow> Inr ()))"

text \<open>The kernel is given the whole password, at its true length, in a key of 80 bytes.\<close>

lemma apply_tcp_md5sig_key:
  assumes "length password \<le> 80"
  shows "apply_tcp_md5sig setsockopt (V4 a) password =
    (case setsockopt \<lparr>tcpm_addr = a, tcpm_keylen = word_of_nat (length password),
        tcpm_key = str_bytes password @ replicate (80 - length password) 0\<rparr> of
       Some e \<Rightarrow> Inl e | None \<Rightarrow> Inr ()) \<and>
    unat (word_of_nat (length password) :: u16) = length password \<and>
    length (str_bytes password @ replicate (80 - length password) (0 :: u8)) = 80"
  using assms by (simp add: apply_tcp_md5sig_def MAX_KEYLEN_def str_bytes_def unat_of_nat_u16)

subsection \<open>Handshake (connect)\<close>

datatype tcp_outcome = TimedOut | Refused string | Accepted

text \<open>The outcomes of the system calls of one attempt; a read gives at most 4096 bytes.\<close>

record connect_io =
  ci_socket :: "string option"
  ci_setsockopt :: "tcp_md5_sig \<Rightarrow> string option"
  ci_connect :: tcp_outcome
  ci_write_open :: "string option"
  ci_read :: "string + u8 list"
  ci_write_keepalive :: "string option"

definition debug_type :: "bgp_message_type option \<Rightarrow> string" where
  "debug_type t =
     (case t of
        None \<Rightarrow> ''None''
      | Some Open \<Rightarrow> ''Some(Open)''
      | Some Update \<Rightarrow> ''Some(Update)''
      | Some Notification \<Rightarrow> ''Some(Notification)''
      | Some Keepalive \<Rightarrow> ''Some(Keepalive)'')"

text \<open>What the first read must be: a message header of type OPEN that reaches the hold time.\<close>

definition check_open :: "u8 list \<Rightarrow> u16 \<Rightarrow> bgp_error + u16" where
  "check_open buf our_hold =
     (if length buf < 19 then Inl (BgpSession ''incomplete BGP message from peer'')
      else if parse_message_type buf \<noteq> Some Open
      then Inl (BgpSession (''expected OPEN from peer, got '' @ debug_type (parse_message_type buf)))
      else case parse_open_hold_time buf of
             None \<Rightarrow> Inl (BgpSession ''peer OPEN was malformed; missing hold_time'')
           | Some peer_hold \<Rightarrow> Inr (min our_hold peer_hold))"

text \<open>Gives the negotiated hold time or the error, and the messages written.\<close>

definition connect ::
    "(string \<Rightarrow> string option) \<Rightarrow> connect_io \<Rightarrow> peer_session_ctx \<Rightarrow> u16 \<Rightarrow>
     (bgp_error + u16) \<times> u8 list list" where
  "connect env io ctx our_hold =
     (case ci_socket io of
        Some e \<Rightarrow> (Inl (BgpIo e), [])
      | None \<Rightarrow>
     (case resolved_md5_password env (px_peer ctx) of
        Inl e \<Rightarrow> (Inl (BgpIo e), [])
      | Inr md5 \<Rightarrow>
     (case (case md5 of
              None \<Rightarrow> Inr ()
            | Some password \<Rightarrow>
                apply_tcp_md5sig (ci_setsockopt io) (bp_peer_ip (px_peer ctx)) password) of
        Inl e \<Rightarrow> (Inl (BgpIo e), [])
      | Inr _ \<Rightarrow>
     (case ci_connect io of
        TimedOut \<Rightarrow> (Inl BgpTimeout, [])
      | Refused e \<Rightarrow> (Inl (BgpIo e), [])
      | Accepted \<Rightarrow>
     (case ci_write_open io of
        Some e \<Rightarrow> (Inl (BgpIo e), [])
      | None \<Rightarrow>
        let open_msg = encode_open (px_local_asn ctx) our_hold (px_router_id ctx) in
     (case ci_read io of
        Inl e \<Rightarrow> (Inl (BgpIo e), [open_msg])
      | Inr buf \<Rightarrow>
     (case check_open buf our_hold of
        Inl e \<Rightarrow> (Inl e, [open_msg])
      | Inr negotiated \<Rightarrow>
     (case ci_write_keepalive io of
        Some e \<Rightarrow> (Inl (BgpIo e), [open_msg])
      | None \<Rightarrow> (Inr negotiated, [open_msg, encode_keepalive])))))))))"

text \<open>The handshake of two speakers: each side's OPEN gives the other the smaller hold time.\<close>

lemma check_open_encode: "check_open (encode_open asn hold rid @ rest) our_hold = Inr (min our_hold hold)"
proof -
  have "parse_message_type (encode_open asn hold rid @ rest) = Some Open"
    by (simp add: encode_open_eq parse_type_header)
  moreover have "length (encode_open asn hold rid) = 29"
    by (simp add: encode_open_eq)
  ultimately show ?thesis
    by (cases rid) (simp add: check_open_def parse_open_hold_time_def encode_open_eq to_be16_def nth_append)
qed

text \<open>
  A configured password is never silently dropped: a connection attempt that succeeds has
  installed it, and it was not empty when it came from the environment.
\<close>

lemma connect_authenticates:
  assumes "fst (connect env io ctx h) = Inr n"
  shows "(bp_md5_password (px_peer ctx) = None \<and> bp_md5_password_env (px_peer ctx) = None) \<or>
    (\<exists>p a. resolved_md5_password env (px_peer ctx) = Inr (Some p) \<and> length p \<le> 80 \<and>
       bp_peer_ip (px_peer ctx) = V4 a \<and>
       ci_setsockopt io \<lparr>tcpm_addr = a, tcpm_keylen = word_of_nat (length p),
         tcpm_key = str_bytes p @ replicate (80 - length p) 0\<rparr> = None)"
proof (cases "resolved_md5_password env (px_peer ctx)")
  case (Inr md5)
  show ?thesis
  proof (cases md5)
    case None
    with Inr have "bp_md5_password (px_peer ctx) = None \<and> bp_md5_password_env (px_peer ctx) = None"
      using resolved_md5_cases [where env = env and c = "px_peer ctx"] by simp
    then show ?thesis ..
  next
    case (Some p)
    from assms Inr Some have "apply_tcp_md5sig (ci_setsockopt io) (bp_peer_ip (px_peer ctx)) p = Inr ()"
      by (auto simp: connect_def split: option.splits sum.splits)
    with Inr Some show ?thesis
      by (auto simp: apply_tcp_md5sig_def MAX_KEYLEN_def split: if_splits ip_addr.splits option.splits)
  qed
qed (use assms in \<open>auto simp: connect_def split: option.splits\<close>)

subsection \<open>The established session (drive)\<close>

record drive_state =
  dr_incoming :: "u8 list"
  dr_last_inbound :: instant
  dr_next_tick :: instant

definition keepalive_interval :: "u16 \<Rightarrow> duration" where
  "keepalive_interval hold =
     (if 0 < hold then secs (max (unat hold div 3) 1) else secs (2 ^ 63 - 1))"

definition hold_deadline :: "u16 \<Rightarrow> instant \<Rightarrow> instant \<Rightarrow> instant panics" where
  "hold_deadline hold now since =
     (if 0 < hold then instant_add since (secs (unat hold))
      else instant_add now (secs (2 ^ 63 - 1)))"

definition drive_start :: "u16 \<Rightarrow> instant \<Rightarrow> drive_state panics" where
  "drive_start hold now = do {
     next_tick \<leftarrow> instant_add now (keepalive_interval hold);
     Some \<lparr>dr_incoming = [], dr_last_inbound = now, dr_next_tick = next_tick\<rparr>
   }"

text \<open>
  \<^verbatim>\<open>send_announce\<close> and \<^verbatim>\<open>send_withdraw\<close>: one UPDATE per VIP until a write fails; \<open>out k\<close> is the
  error of the \<open>k\<close>-th write, if any. The result is what was written and the error.
\<close>

fun send_updates ::
    "(ipv4_addr \<Rightarrow> u8 list panics) \<Rightarrow> (nat \<Rightarrow> string option) \<Rightarrow> nat \<Rightarrow> ipv4_addr list \<Rightarrow>
     (u8 list list \<times> bgp_error option) panics" where
  "send_updates encode out k [] = Some ([], None)"
| "send_updates encode out k (vip # vips) = do {
     msg \<leftarrow> encode vip;
     (case out k of
        Some e \<Rightarrow> Some ([], Some (BgpIo e))
      | None \<Rightarrow> do {
          (written, r) \<leftarrow> send_updates encode out (Suc k) vips;
          Some (msg # written, r)
        })
   }"

definition send_announce ::
    "peer_session_ctx \<Rightarrow> (nat \<Rightarrow> string option) \<Rightarrow> ipv4_addr list \<Rightarrow>
     (u8 list list \<times> bgp_error option) panics" where
  "send_announce ctx out vips =
     send_updates (\<lambda>vip. encode_update_announce vip 32 (px_router_id ctx) (px_local_asn ctx)) out 0 vips"

definition send_withdraw ::
    "(nat \<Rightarrow> string option) \<Rightarrow> ipv4_addr list \<Rightarrow> (u8 list list \<times> bgp_error option) panics" where
  "send_withdraw out vips = send_updates (\<lambda>vip. encode_update_withdraw vip 32) out 0 vips"

text \<open>The arm of the \<^verbatim>\<open>select!\<close> that completed, with the outcome of its reads and writes.\<close>

datatype drive_event =
    GotCommand "session_cmd option" "nat \<Rightarrow> string option"
  | Ticked "string option"
  | GotRead "string + u8 list"
  | HoldExpired "string option"

text \<open>The result of one turn: the locals, the events, the messages written, and how it ended.\<close>

type_synonym drive_result =
  "drive_state \<times> bgp_event list \<times> u8 list list \<times> disconnect option"

definition drive_command ::
    "peer_session_ctx \<Rightarrow> session_cmd option \<Rightarrow> (nat \<Rightarrow> string option) \<Rightarrow> drive_state \<Rightarrow>
     drive_result panics" where
  "drive_command ctx cmd out d =
     (case cmd of
        None \<Rightarrow> Some (d, [], [], Some (disconnect_terminal ''supervisor dropped''))
      | Some Shutdown \<Rightarrow> Some (d, [], [], Some (disconnect_terminal ''shutdown''))
      | Some (Announce vips) \<Rightarrow> do {
          (written, r) \<leftarrow> send_announce ctx out vips;
          (case r of
             None \<Rightarrow> Some (d, [], written, None)
           | Some e \<Rightarrow> Some (d, [AnnounceFailed (bp_peer_ip (px_peer ctx))], written,
               Some (disconnect_transient (''announce: '' @ bgp_error_text e))))
        }
      | Some (Withdraw vips) \<Rightarrow> do {
          (written, r) \<leftarrow> send_withdraw out vips;
          (case r of
             None \<Rightarrow> Some (d, [], written, None)
           | Some e \<Rightarrow> Some (d, [WithdrawFailed (bp_peer_ip (px_peer ctx))], written,
               Some (disconnect_transient (''withdraw: '' @ bgp_error_text e))))
        })"

definition drive_tick :: "u16 \<Rightarrow> string option \<Rightarrow> drive_state \<Rightarrow> drive_result" where
  "drive_tick hold failed d =
     (let d = d\<lparr>dr_next_tick := dr_next_tick d + keepalive_interval hold\<rparr>
      in case failed of
           None \<Rightarrow> (d, [], [encode_keepalive], None)
         | Some e \<Rightarrow> (d, [], [], Some (disconnect_transient (''keepalive: '' @ e))))"

definition drive_read ::
    "peer_session_ctx \<Rightarrow> instant \<Rightarrow> string + u8 list \<Rightarrow> drive_state \<Rightarrow> drive_result" where
  "drive_read ctx now outcome d =
     (case outcome of
        Inl e \<Rightarrow> (d, [], [], Some (disconnect_transient (''read: '' @ e)))
      | Inr [] \<Rightarrow> (d, [], [], Some (disconnect_transient ''peer closed connection''))
      | Inr bytes \<Rightarrow>
          (case scan_incoming (dr_incoming d @ bytes) of
             (None, rest) \<Rightarrow> (d\<lparr>dr_last_inbound := now, dr_incoming := rest\<rparr>, [], [], None)
           | (Some (code, subcode), rest) \<Rightarrow>
               (d\<lparr>dr_last_inbound := now, dr_incoming := rest\<rparr>,
                [PeerNotification (bp_peer_ip (px_peer ctx)) code subcode], [],
                Some (disconnect_transient (''NOTIFICATION code='' @ dec (unat code) @
                        '' subcode='' @ dec (unat subcode))))))"

definition drive_hold :: "u16 \<Rightarrow> string option \<Rightarrow> drive_state \<Rightarrow> drive_result" where
  "drive_hold hold failed d =
     (d, [], if failed = None then [encode_notification HOLD_TIMER_EXPIRED 0] else [],
      Some (disconnect_transient
        (''hold timer expired after '' @ dec (unat hold) @ ''s of peer silence'')))"

definition drive_step ::
    "peer_session_ctx \<Rightarrow> u16 \<Rightarrow> instant \<Rightarrow> drive_event \<Rightarrow> drive_state \<Rightarrow> drive_result panics" where
  "drive_step ctx hold now ev d = do {
     _ \<leftarrow> hold_deadline hold now (dr_last_inbound d);
     (case ev of
        GotCommand cmd out \<Rightarrow> drive_command ctx cmd out d
      | Ticked failed \<Rightarrow> Some (drive_tick hold failed d)
      | GotRead outcome \<Rightarrow> Some (drive_read ctx now outcome d)
      | HoldExpired failed \<Rightarrow> Some (drive_hold hold failed d))
   }"

text \<open>Which arm may complete at which time.\<close>

definition drive_ready :: "u16 \<Rightarrow> instant \<Rightarrow> drive_event \<Rightarrow> drive_state \<Rightarrow> bool" where
  "drive_ready hold now ev d =
     (case ev of
        GotCommand _ _ \<Rightarrow> True
      | Ticked _ \<Rightarrow> dr_next_tick d \<le> now
      | GotRead outcome \<Rightarrow> (case outcome of Inl _ \<Rightarrow> True | Inr bytes \<Rightarrow> length bytes \<le> 4096)
      | HoldExpired _ \<Rightarrow> 0 < hold \<and> dr_last_inbound d + secs (unat hold) \<le> now)"


subsection \<open>The session task (run)\<close>

datatype phase =
    LoopTop
  | InConnect
  | InDrive u16 drive_state
  | InBackoff instant
  | Finished
  | Panicked

text \<open>
  \<open>ss_state\<close> is the shared \<^verbatim>\<open>Mutex<PeerState>\<close>, \<open>ss_queue\<close> the commands sent and not yet
  received, \<open>ss_open\<close> whether the supervisor still holds the sender, \<open>ss_wire\<close> the messages
  written on the current connection.
\<close>

record session =
  ss_state :: peer_state
  ss_phase :: phase
  ss_backoff :: duration
  ss_queue :: "session_cmd list"
  ss_open :: bool
  ss_events :: "bgp_event list"
  ss_wire :: "u8 list list"

definition session_new :: session where
  "session_new = \<lparr>ss_state = Idle, ss_phase = LoopTop, ss_backoff = RECONNECT_BACKOFF_MIN,
     ss_queue = [], ss_open = True, ss_events = [], ss_wire = []\<rparr>"

definition our_hold :: "peer_session_ctx \<Rightarrow> u16" where
  "our_hold ctx = unwrap_or (bp_hold_time_secs (px_peer ctx)) DEFAULT_HOLD_TIME_SECS"

text \<open>The top of the loop: queued commands are dropped, unless one of them is a shutdown.\<close>

fun drain_commands :: "session_cmd list \<Rightarrow> session_cmd list option" where
  "drain_commands [] = None"
| "drain_commands (cmd # q) = (if cmd = Shutdown then Some q else drain_commands q)"

definition run_top :: "session \<Rightarrow> session" where
  "run_top s =
     (case drain_commands (ss_queue s) of
        Some rest \<Rightarrow> s\<lparr>ss_queue := rest, ss_state := Idle, ss_phase := Finished\<rparr>
      | None \<Rightarrow> s\<lparr>ss_queue := [], ss_state := Connecting, ss_phase := InConnect\<rparr>)"

definition enter_backoff :: "instant \<Rightarrow> session \<Rightarrow> session" where
  "enter_backoff now s = s\<lparr>ss_state := Backoff, ss_phase := InBackoff (now + ss_backoff s)\<rparr>"

definition leave_backoff :: "session \<Rightarrow> session" where
  "leave_backoff s =
     s\<lparr>ss_backoff := min (ss_backoff s * 2) RECONNECT_BACKOFF_MAX, ss_phase := LoopTop\<rparr>"

definition run_connected ::
    "(string \<Rightarrow> string option) \<Rightarrow> peer_session_ctx \<Rightarrow> instant \<Rightarrow> connect_io \<Rightarrow> session \<Rightarrow> session" where
  "run_connected env ctx now io s =
     (case connect env io ctx (our_hold ctx) of
        (Inr hold, written) \<Rightarrow>
          let s = s\<lparr>ss_backoff := RECONNECT_BACKOFF_MIN, ss_state := Established, ss_wire := written,
                    ss_events := ss_events s @ [PeerConnected (bp_peer_ip (px_peer ctx))]\<rparr>
          in (case drive_start hold now of
                Some d \<Rightarrow> s\<lparr>ss_phase := InDrive hold d\<rparr>
              | None \<Rightarrow> s\<lparr>ss_phase := Panicked\<rparr>)
      | (Inl _, written) \<Rightarrow> enter_backoff now (s\<lparr>ss_wire := written\<rparr>))"

definition run_drive ::
    "peer_session_ctx \<Rightarrow> instant \<Rightarrow> u16 \<Rightarrow> drive_event \<Rightarrow> drive_state \<Rightarrow> session \<Rightarrow> session" where
  "run_drive ctx now hold ev d s =
     (case drive_step ctx hold now ev d of
        None \<Rightarrow> s\<lparr>ss_phase := Panicked\<rparr>
      | Some (d', events, written, ended) \<Rightarrow>
          let s = s\<lparr>ss_events := ss_events s @ events, ss_wire := ss_wire s @ written\<rparr>
          in (case ended of
                None \<Rightarrow> s\<lparr>ss_phase := InDrive hold d'\<rparr>
              | Some dc \<Rightarrow>
                  let s = s\<lparr>ss_events := ss_events s @
                              [PeerDisconnected (bp_peer_ip (px_peer ctx)) (dc_reason dc)]\<rparr>
                  in if dc_terminal dc then s\<lparr>ss_state := Idle, ss_phase := Finished\<rparr>
                     else enter_backoff now s))"

text \<open>\<^verbatim>\<open>rx.recv()\<close>: the next command, or \<^const>\<open>None\<close> once the queue is empty and the sender gone.\<close>

definition recv :: "session \<Rightarrow> (session_cmd option \<times> session) option" where
  "recv s =
     (case ss_queue s of
        cmd # q \<Rightarrow> Some (Some cmd, s\<lparr>ss_queue := q\<rparr>)
      | [] \<Rightarrow> if ss_open s then None else Some (None, s))"

definition run_backoff_command :: "session_cmd option \<Rightarrow> session \<Rightarrow> session" where
  "run_backoff_command cmd s =
     (if cmd = None \<or> cmd = Some Shutdown then s\<lparr>ss_state := Idle, ss_phase := Finished\<rparr>
      else leave_backoff s)"

text \<open>A send succeeds while the task lives; otherwise the command is dropped.\<close>

definition task_gone :: "session \<Rightarrow> bool" where
  "task_gone s \<longleftrightarrow> ss_phase s = Finished \<or> ss_phase s = Panicked"

definition send_cmd :: "session_cmd \<Rightarrow> session \<Rightarrow> session" where
  "send_cmd cmd s = (if task_gone s then s else s\<lparr>ss_queue := ss_queue s @ [cmd]\<rparr>)"

text \<open>The moves of the task, and those of the supervisor at its channel.\<close>

datatype session_label =
    Send session_cmd
  | DropSender
  | Top
  | ConnectDone connect_io
  | DriveCommand "nat \<Rightarrow> string option"
  | DriveTick "string option"
  | DriveRead "string + u8 list"
  | DriveHold "string option"
  | BackoffOver
  | BackoffCommand

definition session_step ::
    "(string \<Rightarrow> string option) \<Rightarrow> peer_session_ctx \<Rightarrow> instant \<Rightarrow> session_label \<Rightarrow> session \<Rightarrow>
     session option" where
  "session_step env ctx now l s =
     (case l of
        Send cmd \<Rightarrow> if ss_open s then Some (send_cmd cmd s) else None
      | DropSender \<Rightarrow> Some (s\<lparr>ss_open := False\<rparr>)
      | _ \<Rightarrow>
     (case (ss_phase s, l) of
        (LoopTop, Top) \<Rightarrow> Some (run_top s)
      | (InConnect, ConnectDone io) \<Rightarrow>
          (case ci_read io of
             Inr buf \<Rightarrow> if length buf \<le> 4096 then Some (run_connected env ctx now io s) else None
           | Inl _ \<Rightarrow> Some (run_connected env ctx now io s))
      | (InDrive hold d, DriveCommand out) \<Rightarrow>
          (case recv s of
             None \<Rightarrow> None
           | Some (cmd, s') \<Rightarrow> Some (run_drive ctx now hold (GotCommand cmd out) d s'))
      | (InDrive hold d, DriveTick failed) \<Rightarrow>
          if drive_ready hold now (Ticked failed) d
          then Some (run_drive ctx now hold (Ticked failed) d s) else None
      | (InDrive hold d, DriveRead outcome) \<Rightarrow>
          if drive_ready hold now (GotRead outcome) d
          then Some (run_drive ctx now hold (GotRead outcome) d s) else None
      | (InDrive hold d, DriveHold failed) \<Rightarrow>
          if drive_ready hold now (HoldExpired failed) d
          then Some (run_drive ctx now hold (HoldExpired failed) d s) else None
      | (InBackoff deadline, BackoffOver) \<Rightarrow> if deadline \<le> now then Some (leave_backoff s) else None
      | (InBackoff deadline, BackoffCommand) \<Rightarrow>
          (case recv s of None \<Rightarrow> None | Some (cmd, s') \<Rightarrow> Some (run_backoff_command cmd s'))
      | _ \<Rightarrow> None))"

text \<open>
  The clock is monotonic and has run for less than \<open>2 ^ 62\<close> seconds, so that only the endless
  timers of a session without hold time can overflow it.
\<close>

inductive session_run ::
    "(string \<Rightarrow> string option) \<Rightarrow> peer_session_ctx \<Rightarrow> instant \<Rightarrow> session \<Rightarrow> instant \<Rightarrow> session \<Rightarrow> bool"
  for env :: "string \<Rightarrow> string option" and ctx :: peer_session_ctx where
  session_run_start: "session_run env ctx t s t s"
| session_run_step: "session_run env ctx t0 s0 t s \<Longrightarrow> t \<le> now \<Longrightarrow> now < secs (2 ^ 62) \<Longrightarrow>
    session_step env ctx now l s = Some s' \<Longrightarrow> session_run env ctx t0 s0 now s'"


subsection \<open>The life of a task\<close>

lemma instant_add_ok: "t < secs (2 ^ 62) \<Longrightarrow> d \<le> secs 65535 \<Longrightarrow> instant_add t d = Some (t + d)"
  by (simp add: instant_add_def secs_def)

lemma keepalive_interval_le: "0 < hold \<Longrightarrow> keepalive_interval hold \<le> secs 65535"
proof -
  assume "0 < hold"
  have "max (unat hold div 3) 1 \<le> 65535" by (simp add: div_le_dividend [THEN order_trans])
  with \<open>0 < hold\<close> show ?thesis by (simp add: keepalive_interval_def secs_def)
qed

lemma drive_start_ok:
  assumes "now < secs (2 ^ 62)" and "0 < hold"
  shows "drive_start hold now =
    Some \<lparr>dr_incoming = [], dr_last_inbound = now, dr_next_tick = now + keepalive_interval hold\<rparr>"
  using assms by (simp add: drive_start_def instant_add_ok keepalive_interval_le)

lemma drive_start_no_hold: "secs 1 \<le> now \<Longrightarrow> drive_start 0 now = None"
  by (simp add: drive_start_def instant_add_def keepalive_interval_def secs_def)

lemma hold_deadline_ok:
  assumes "since < secs (2 ^ 62)" and "0 < hold"
  shows "hold_deadline hold now since = Some (since + secs (unat hold))"
proof -
  have "secs (unat hold) \<le> secs 65535" by (simp add: secs_def)
  with assms show ?thesis by (simp add: hold_deadline_def instant_add_ok)
qed

lemma send_updates_returns:
  assumes "\<And>vip. encode vip \<noteq> None"
  shows "send_updates encode out k vips \<noteq> None"
proof (induction vips arbitrary: k)
  case (Cons vip vips)
  obtain w r where "send_updates encode out (Suc k) vips = Some (w, r)"
    using Cons.IH [of "Suc k"] by auto
  moreover obtain m where "encode vip = Some m" using assms [of vip] by auto
  ultimately show ?case by (simp split: option.splits)
qed simp

lemma send_announce_returns: "send_announce ctx out vips \<noteq> None"
  unfolding send_announce_def
  by (rule send_updates_returns) (simp add: encode_update_announce_eq)

lemma send_withdraw_returns: "send_withdraw out vips \<noteq> None"
  unfolding send_withdraw_def
  by (rule send_updates_returns) (simp add: encode_update_withdraw_eq)

lemma drive_command_returns: "drive_command ctx cmd out d \<noteq> None"
proof (cases cmd)
  case (Some c)
  show ?thesis
  proof (cases c)
    case (Announce vips)
    obtain w r where "send_announce ctx out vips = Some (w, r)"
      using send_announce_returns [of ctx out vips] by auto
    with Some Announce show ?thesis by (simp add: drive_command_def split: option.splits)
  next
    case (Withdraw vips)
    obtain w r where "send_withdraw out vips = Some (w, r)"
      using send_withdraw_returns [of out vips] by auto
    with Some Withdraw show ?thesis by (simp add: drive_command_def split: option.splits)
  qed (simp add: Some drive_command_def)
qed (simp add: drive_command_def)

text \<open>A turn of the loop panics only in its timers, and then only without a hold time.\<close>

lemma drive_step_returns:
  assumes "dr_last_inbound d < secs (2 ^ 62)" and "0 < hold"
  shows "drive_step ctx hold now ev d \<noteq> None"
  using hold_deadline_ok [OF assms, of now] drive_command_returns
  by (cases ev) (simp_all add: drive_step_def del: not_None_eq)

lemma drive_step_inbound:
  assumes "drive_step ctx hold now ev d = Some (d', rest)" and "dr_last_inbound d \<le> t" and "t \<le> now"
  shows "dr_last_inbound d' \<le> now"
  using assms
  by (auto simp: drive_step_def drive_command_def drive_tick_def drive_read_def drive_hold_def Let_def
      bind_eq_Some_conv split: drive_event.splits option.splits session_cmd.splits sum.splits
      list.splits prod.splits)

text \<open>
  The log of a task alternates: connected, then what happened in that session, then
  disconnected. \<open>event_log b es\<close> replays \<open>es\<close> from up (\<open>b\<close>) or down and gives where it ends.
\<close>

fun event_log :: "bool \<Rightarrow> bgp_event list \<Rightarrow> bool option" where
  "event_log up [] = Some up"
| "event_log up (PeerConnected ip # es) = (if up then None else event_log True es)"
| "event_log up (PeerDisconnected ip r # es) = (if up then event_log False es else None)"
| "event_log up (_ # es) = (if up then event_log up es else None)"

lemma event_log_append:
  "event_log up (es @ fs) = (case event_log up es of None \<Rightarrow> None | Some b \<Rightarrow> event_log b fs)"
  by (induction up es rule: event_log.induct) simp_all

lemma drive_step_events:
  assumes "drive_step ctx hold now ev d = Some (d', events, rest)"
  shows "event_log True events = Some True"
  using assms
  by (auto simp: drive_step_def drive_command_def drive_tick_def drive_read_def drive_hold_def Let_def
      bind_eq_Some_conv split: drive_event.splits option.splits session_cmd.splits sum.splits
      list.splits prod.splits)

definition backoffs :: "duration set" where
  "backoffs = secs ` {1, 2, 4, 8, 16, 32, 60}"

lemma backoffs_step: "b \<in> backoffs \<Longrightarrow> min (b * 2) RECONNECT_BACKOFF_MAX \<in> backoffs"
  by (auto simp: backoffs_def RECONNECT_BACKOFF_MAX_def secs_def)

lemma backoffs_min: "RECONNECT_BACKOFF_MIN \<in> backoffs"
  by (simp add: backoffs_def RECONNECT_BACKOFF_MIN_def)

fun phase_state :: "phase \<Rightarrow> peer_state set" where
  "phase_state LoopTop = {Idle, Backoff}"
| "phase_state InConnect = {Connecting}"
| "phase_state (InDrive _ _) = {Established}"
| "phase_state (InBackoff _) = {Backoff}"
| "phase_state Finished = {Idle}"
| "phase_state Panicked = {Established}"

fun session_up :: "phase \<Rightarrow> bool" where
  "session_up (InDrive _ _) = True"
| "session_up Panicked = True"
| "session_up _ = False"

definition session_ok :: "instant \<Rightarrow> session \<Rightarrow> bool" where
  "session_ok t s \<longleftrightarrow> ss_state s \<in> phase_state (ss_phase s) \<and> ss_backoff s \<in> backoffs \<and>
     event_log False (ss_events s) = Some (session_up (ss_phase s)) \<and>
     (case ss_phase s of InDrive hold d \<Rightarrow> dr_last_inbound d \<le> t | _ \<Rightarrow> True)"

lemma session_ok_new: "session_ok t session_new"
  by (simp add: session_ok_def session_new_def backoffs_min)

lemma drive_start_inbound: "drive_start hold now = Some d \<Longrightarrow> dr_last_inbound d = now"
  by (auto simp: drive_start_def bind_eq_Some_conv)

lemma run_connected_ok:
  assumes "session_ok t s" and "ss_phase s = InConnect"
  shows "session_ok now (run_connected env ctx now io s)"
  using assms
  by (auto simp: run_connected_def enter_backoff_def session_ok_def event_log_append Let_def
      backoffs_min drive_start_inbound split: prod.splits sum.splits option.splits)

lemma run_drive_ok:
  assumes "session_ok t s" and "ss_phase s = InDrive hold d" and "t \<le> now"
  shows "session_ok now (run_drive ctx now hold ev d s)"
proof (cases "drive_step ctx hold now ev d")
  case None
  with assms show ?thesis by (simp add: run_drive_def session_ok_def)
next
  case (Some r)
  obtain d' events written ended where r: "r = (d', events, written, ended)" by (cases r)
  from assms have d: "dr_last_inbound d \<le> t" by (simp add: session_ok_def)
  have inb: "dr_last_inbound d' \<le> now"
    using drive_step_inbound [OF _ d assms(3)] Some r by blast
  have ev: "event_log True events = Some True" using drive_step_events Some r by blast
  from assms Some r inb ev show ?thesis
    by (cases ended) (simp_all add: run_drive_def session_ok_def enter_backoff_def event_log_append Let_def)
qed

lemma session_step_ok:
  assumes "session_step env ctx now l s = Some s'" and "session_ok t s" and "t \<le> now"
  shows "session_ok now s'"
proof (cases l)
  case Top
  with assms show ?thesis
    by (auto simp: session_step_def run_top_def session_ok_def split: phase.splits option.splits)
next
  case (ConnectDone io)
  with assms have "ss_phase s = InConnect" "s' = run_connected env ctx now io s"
    by (auto simp: session_step_def split: phase.splits sum.splits if_splits)
  with run_connected_ok [OF assms(2)] show ?thesis by simp
next
  case (DriveCommand out)
  with assms obtain hold d cmd s1 where "ss_phase s = InDrive hold d" "recv s = Some (cmd, s1)"
    "s' = run_drive ctx now hold (GotCommand cmd out) d s1"
    by (auto simp: session_step_def split: phase.splits option.splits)
  moreover from this have "session_ok t s1" "ss_phase s1 = InDrive hold d"
    using assms(2) by (auto simp: recv_def session_ok_def split: list.splits if_splits)
  ultimately show ?thesis using run_drive_ok [OF _ _ assms(3)] by simp
next
  case (BackoffCommand)
  with assms show ?thesis
    by (auto simp: session_step_def recv_def run_backoff_command_def leave_backoff_def session_ok_def
        backoffs_step split: phase.splits list.splits if_splits)
next
  case (BackoffOver)
  with assms show ?thesis
    by (auto simp: session_step_def leave_backoff_def session_ok_def backoffs_step
        split: phase.splits if_splits)
next
  case (Send cmd)
  with assms show ?thesis
    by (auto simp: session_step_def send_cmd_def session_ok_def split: if_splits phase.splits)
next
  case DropSender
  with assms show ?thesis
    by (auto simp: session_step_def session_ok_def split: phase.splits)
qed (use assms run_drive_ok [OF assms(2) _ assms(3)] in
      \<open>auto simp: session_step_def split: phase.splits if_splits\<close>)

subsection \<open>The waits between attempts\<close>

text \<open>
  An observer of the task counts the waits since a session was last up, in \<open>n\<close>, and notes when the
  last of them began, in \<open>since\<close>.
\<close>

definition tally :: "instant \<Rightarrow> session \<Rightarrow> session \<Rightarrow> nat \<times> instant \<Rightarrow> nat \<times> instant" where
  "tally now s s' m =
     (case ss_phase s' of
        InDrive _ _ \<Rightarrow> (0, snd m)
      | InBackoff _ \<Rightarrow> (case ss_phase s of InBackoff _ \<Rightarrow> m | _ \<Rightarrow> (Suc (fst m), now))
      | _ \<Rightarrow> m)"

inductive session_tally ::
    "(string \<Rightarrow> string option) \<Rightarrow> peer_session_ctx \<Rightarrow> instant \<Rightarrow> nat \<Rightarrow> instant \<Rightarrow> instant \<Rightarrow> session \<Rightarrow> bool"
  for env :: "string \<Rightarrow> string option" and ctx :: peer_session_ctx where
  session_tally_start: "session_tally env ctx t 0 t t session_new"
| session_tally_step: "session_tally env ctx t0 n since t s \<Longrightarrow> t \<le> now \<Longrightarrow> now < secs (2 ^ 62) \<Longrightarrow>
    session_step env ctx now l s = Some s' \<Longrightarrow>
    session_tally env ctx t0 (fst (tally now s s' (n, since))) (snd (tally now s s' (n, since))) now s'"

lemma session_tally_run: "session_tally env ctx t0 n since t s \<Longrightarrow> session_run env ctx t0 session_new t s"
  by (induction rule: session_tally.induct) (auto intro: session_run.intros)

text \<open>Every run is counted.\<close>

lemma session_run_tally:
  assumes "session_run env ctx t0 session_new t s"
  shows "\<exists>n since. session_tally env ctx t0 n since t s"
  using assms
proof (induction t0 session_new t s rule: session_run.induct)
  case (session_run_start t)
  show ?case using session_tally_start by blast
next
  case (session_run_step t0 t s now l s')
  then show ?case using session_tally_step by blast
qed

definition wait_of :: "nat \<Rightarrow> duration" where
  "wait_of n = secs (min 60 (2 ^ n))"

definition waits_ok :: "nat \<Rightarrow> instant \<Rightarrow> session \<Rightarrow> bool" where
  "waits_ok n since s \<longleftrightarrow>
     (case ss_phase s of
        LoopTop \<Rightarrow> ss_backoff s = wait_of n
      | InConnect \<Rightarrow> ss_backoff s = wait_of n
      | InDrive _ _ \<Rightarrow> n = 0 \<and> ss_backoff s = wait_of 0
      | InBackoff deadline \<Rightarrow> 0 < n \<and> ss_backoff s = wait_of (n - 1) \<and> deadline = since + wait_of (n - 1)
      | _ \<Rightarrow> True)"

lemma wait_of_0: "wait_of 0 = RECONNECT_BACKOFF_MIN"
  by (simp add: wait_of_def RECONNECT_BACKOFF_MIN_def)

lemma wait_of_double: "min (wait_of n * 2) RECONNECT_BACKOFF_MAX = wait_of (Suc n)"
  by (simp add: wait_of_def RECONNECT_BACKOFF_MAX_def secs_def min_def)

lemma leave_backoff_waits:
  assumes "waits_ok n since s" and "ss_phase s = InBackoff dl" and "ss_backoff s1 = ss_backoff s"
  shows "ss_phase (leave_backoff s1) = LoopTop" and "ss_backoff (leave_backoff s1) = wait_of n"
  using assms wait_of_double [of "n - 1"] by (simp_all add: waits_ok_def leave_backoff_def)

lemma enter_backoff_waits:
  assumes "ss_backoff s = wait_of n"
  shows "ss_phase (enter_backoff now s) = InBackoff (now + wait_of n)"
    and "ss_backoff (enter_backoff now s) = wait_of n"
  using assms by (simp_all add: enter_backoff_def)

lemma run_drive_waits:
  assumes "ss_phase s = InDrive hold d" and "ss_backoff s = wait_of 0"
  shows "waits_ok (fst (tally now s (run_drive ctx now hold ev d s) (0, since)))
     (snd (tally now s (run_drive ctx now hold ev d s) (0, since))) (run_drive ctx now hold ev d s)"
  using assms
  by (auto simp: run_drive_def tally_def waits_ok_def enter_backoff_def Let_def split: option.splits)

lemma session_step_waits:
  assumes "session_step env ctx now l s = Some s'" and w: "waits_ok n since s"
  shows "waits_ok (fst (tally now s s' (n, since))) (snd (tally now s s' (n, since))) s'"
proof (cases l)
  case Top
  with assms show ?thesis
    by (auto simp: session_step_def run_top_def waits_ok_def tally_def split: phase.splits option.splits)
next
  case (ConnectDone io)
  with assms have "ss_phase s = InConnect" "s' = run_connected env ctx now io s"
    by (auto simp: session_step_def split: phase.splits sum.splits if_splits)
  with w show ?thesis
    by (auto simp: run_connected_def enter_backoff_def waits_ok_def tally_def wait_of_0 Let_def
        split: prod.splits sum.splits option.splits)
next
  case (DriveCommand out)
  with assms obtain hold d cmd s1 where p: "ss_phase s = InDrive hold d" "recv s = Some (cmd, s1)"
    "s' = run_drive ctx now hold (GotCommand cmd out) d s1"
    by (auto simp: session_step_def split: phase.splits option.splits)
  then have s1: "ss_phase s1 = InDrive hold d" "ss_backoff s1 = ss_backoff s"
    by (auto simp: recv_def split: list.splits if_splits)
  have "n = 0" "ss_backoff s1 = wait_of 0" using w p(1) s1(2) by (simp_all add: waits_ok_def)
  moreover have "tally now s s' (n, since) = tally now s1 s' (n, since)"
    by (simp add: tally_def p(1) s1(1) split: phase.splits)
  ultimately show ?thesis
    using run_drive_waits [OF s1(1), of now ctx "GotCommand cmd out" since] p(3) by simp
next
  case BackoffCommand
  with assms obtain dl cmd s1 where p: "ss_phase s = InBackoff dl" "recv s = Some (cmd, s1)"
    "s' = run_backoff_command cmd s1"
    by (auto simp: session_step_def split: phase.splits option.splits)
  then have "ss_backoff s1 = ss_backoff s" by (auto simp: recv_def split: list.splits if_splits)
  then show ?thesis
    using leave_backoff_waits [OF w p(1)] p(3) by (auto simp: run_backoff_command_def waits_ok_def tally_def)
next
  case BackoffOver
  with assms obtain dl where p: "ss_phase s = InBackoff dl" "s' = leave_backoff s"
    by (auto simp: session_step_def split: phase.splits if_splits)
  then show ?thesis using leave_backoff_waits [OF w p(1), of s] by (simp add: waits_ok_def tally_def)
next
  case (Send cmd)
  with assms show ?thesis
    by (auto simp: session_step_def send_cmd_def waits_ok_def tally_def split: if_splits phase.splits)
next
  case DropSender
  with assms show ?thesis
    by (auto simp: session_step_def waits_ok_def tally_def split: phase.splits)
next
  case (DriveTick failed)
  with assms obtain hold d where "ss_phase s = InDrive hold d" "s' = run_drive ctx now hold (Ticked failed) d s"
    by (auto simp: session_step_def split: phase.splits if_splits)
  with w run_drive_waits show ?thesis by (simp add: waits_ok_def [of n])
next
  case (DriveRead outcome)
  with assms obtain hold d where "ss_phase s = InDrive hold d" "s' = run_drive ctx now hold (GotRead outcome) d s"
    by (auto simp: session_step_def split: phase.splits if_splits)
  with w run_drive_waits show ?thesis by (simp add: waits_ok_def [of n])
next
  case (DriveHold failed)
  with assms obtain hold d where "ss_phase s = InDrive hold d" "s' = run_drive ctx now hold (HoldExpired failed) d s"
    by (auto simp: session_step_def split: phase.splits if_splits)
  with w run_drive_waits show ?thesis by (simp add: waits_ok_def [of n])
qed

lemma session_tally_waits: "session_tally env ctx t0 n since t s \<Longrightarrow> waits_ok n since s"
proof (induction rule: session_tally.induct)
  case (session_tally_start t)
  show ?case by (simp add: waits_ok_def session_new_def wait_of_0)
qed (rule session_step_waits)

text \<open>A new attempt starts out of a wait, when it is over or when a command ends it early.\<close>

lemma new_attempt_waits:
  assumes "session_step env ctx now l s = Some s'" and "ss_phase s' = LoopTop" and "ss_phase s \<noteq> LoopTop"
  shows "\<exists>dl. ss_phase s = InBackoff dl \<and>
     (dl \<le> now \<or> l = BackoffCommand \<and> (\<exists>cmd q. ss_queue s = cmd # q \<and> cmd \<noteq> Shutdown))"
proof (cases l)
  case (ConnectDone io)
  with assms show ?thesis
    by (auto simp: session_step_def run_connected_def enter_backoff_def Let_def
        split: phase.splits prod.splits sum.splits option.splits if_splits)
next
  case BackoffCommand
  with assms show ?thesis
    by (auto simp: session_step_def recv_def run_backoff_command_def split: phase.splits list.splits if_splits)
qed (use assms in \<open>auto simp: session_step_def run_top_def run_drive_def enter_backoff_def send_cmd_def Let_def
      split: phase.splits option.splits if_splits\<close>)

text \<open>
  C34. Whatever the network does, a session task keeps its published state in step with what it is
  doing, and its events form a sequence of connected ... disconnected groups that ends connected
  exactly while the session is up. Between two attempts it always waits: the \<open>n\<close>th wait since a
  session was last up, begun at the time \<open>since\<close>, ends \<open>2 ^ (n - 1)\<close> seconds later but at most 60,
  and a new attempt starts no earlier, unless a command other than a shutdown arrives.
\<close>

theorem session_task_invariant:
  assumes "session_tally env ctx t0 n since t s"
  shows "ss_state s \<in> phase_state (ss_phase s) \<and>
    event_log False (ss_events s) = Some (session_up (ss_phase s)) \<and>
    (case ss_phase s of
       InBackoff deadline \<Rightarrow> 0 < n \<and> deadline = since + secs (min 60 (2 ^ (n - 1)))
     | _ \<Rightarrow> True) \<and>
    (\<forall>now l s'. session_step env ctx now l s = Some s' \<and> ss_phase s' = LoopTop \<and> ss_phase s \<noteq> LoopTop \<longrightarrow>
       (\<exists>deadline. ss_phase s = InBackoff deadline) \<and>
       (since + secs (min 60 (2 ^ (n - 1))) \<le> now \<or>
        l = BackoffCommand \<and> (\<exists>cmd q. ss_queue s = cmd # q \<and> cmd \<noteq> Shutdown)))"
proof -
  have "session_run env ctx t0 session_new t s" by (rule session_tally_run [OF assms])
  then have "session_ok t s"
  proof (induction t0 session_new t s rule: session_run.induct)
    case (session_run_step t0 t s now l s')
    then show ?case using session_step_ok by blast
  qed (rule session_ok_new)
  moreover have w: "waits_ok n since s" by (rule session_tally_waits [OF assms])
  moreover have "(\<exists>deadline. ss_phase s = InBackoff deadline) \<and>
       (since + secs (min 60 (2 ^ (n - 1))) \<le> now \<or>
        l = BackoffCommand \<and> (\<exists>cmd q. ss_queue s = cmd # q \<and> cmd \<noteq> Shutdown))"
    if "session_step env ctx now l s = Some s'" "ss_phase s' = LoopTop" "ss_phase s \<noteq> LoopTop" for now l s'
    using new_attempt_waits [OF that] w by (auto simp: waits_ok_def wait_of_def)
  ultimately show ?thesis by (auto simp: session_ok_def waits_ok_def wait_of_def split: phase.splits)
qed


subsection \<open>A session without hold time\<close>

lemma panicked_frozen:
  assumes "session_run env ctx t s t' s'" and "ss_phase s = Panicked"
  shows "ss_phase s' = Panicked \<and> ss_state s' = ss_state s \<and> ss_queue s' = ss_queue s \<and>
         ss_events s' = ss_events s \<and> ss_wire s' = ss_wire s"
  using assms
proof (induction t s t' s' rule: session_run.induct)
  case (session_run_step t0 s0 t s now l s')
  then show ?case
    by (cases l) (auto simp: session_step_def send_cmd_def task_gone_def split: if_splits)
qed simp

lemma step_connect_done:
  assumes "session_step env ctx now (ConnectDone io) s = Some s1"
  shows "ss_phase s = InConnect \<and> s1 = run_connected env ctx now io s"
  using assms by (auto simp: session_step_def split: phase.splits sum.splits if_splits)

text \<open>
  C35. When both sides agree on a hold time of zero, which the comments describe as a session
  without keepalives, the task panics on any host that has been up for a second (adding
  \<open>2 ^ 63 - 1\<close> seconds overflows the clock) and never acts again: the peer keeps being reported
  as established and every later announcement is dropped. With any other hold time the
  session starts.
\<close>

theorem zero_hold_kills_session:
  assumes "session_step env ctx now (ConnectDone io) s = Some s1"
    and "fst (connect env io ctx (our_hold ctx)) = Inr hold"
    and "secs 1 \<le> now" and "now < secs (2 ^ 62)"
  shows "if hold = 0
    then \<forall>t s2. session_run env ctx now s1 t s2 \<longrightarrow>
           ss_phase s2 = Panicked \<and> ss_state s2 = Established \<and> ss_queue s2 = ss_queue s \<and>
           ss_wire s2 = ss_wire s1
    else (\<exists>d. ss_phase s1 = InDrive hold d) \<and> ss_state s1 = Established"
proof -
  obtain written where c: "connect env io ctx (our_hold ctx) = (Inr hold, written)"
    using assms(2) by (cases "connect env io ctx (our_hold ctx)") simp
  have s1: "s1 = run_connected env ctx now io s"
    using step_connect_done [OF assms(1)] by simp
  show ?thesis
  proof (cases "hold = 0")
    case True
    with c s1 drive_start_no_hold [OF assms(3)]
    have "ss_phase s1 = Panicked \<and> ss_state s1 = Established \<and> ss_queue s1 = ss_queue s"
      by (simp add: run_connected_def Let_def)
    with True panicked_frozen [of env ctx now s1] show ?thesis by force
  next
    case False
    then have "0 < hold" by (simp add: word_neq_0_conv)
    with False c s1 drive_start_ok [OF assms(4)] show ?thesis
      by (simp add: run_connected_def Let_def)
  qed
qed

subsection \<open>Shutdown\<close>

lemma drain_commands_None: "drain_commands q = None \<longleftrightarrow> Shutdown \<notin> set q"
  by (induction q) auto

lemma run_top_shutdown: "Shutdown \<in> set (ss_queue s) \<Longrightarrow> ss_phase (run_top s) = Finished"
  using drain_commands_None [of "ss_queue s"] by (auto simp: run_top_def split: option.splits)

lemma run_drive_phase: "ss_phase (run_drive ctx now hold ev d s) \<noteq> InConnect \<and>
    ss_queue (run_drive ctx now hold ev d s) = ss_queue s"
  by (auto simp: run_drive_def enter_backoff_def Let_def split: option.splits)

lemma run_drive_command_phase:
  "ss_phase (run_drive ctx now hold (GotCommand (Some Shutdown) out) d s) \<in> {Finished, Panicked}"
  by (auto simp: run_drive_def drive_step_def drive_command_def disconnect_terminal_def Let_def
      bind_eq_Some_conv split: option.splits)

text \<open>A pending shutdown stays pending until it ends the task, and no attempt starts meanwhile.\<close>

definition shutting_down :: "session \<Rightarrow> bool" where
  "shutting_down s \<longleftrightarrow> task_gone s \<or> Shutdown \<in> set (ss_queue s) \<and> ss_phase s \<noteq> InConnect"

lemma shutting_down_step:
  assumes "session_step env ctx now l s = Some s'" and "shutting_down s"
  shows "shutting_down s'"
proof (cases "task_gone s")
  case True
  with assms show ?thesis
    by (cases l) (auto simp: session_step_def send_cmd_def shutting_down_def task_gone_def split: if_splits)
next
  case False
  with assms(2) have q: "Shutdown \<in> set (ss_queue s)" "ss_phase s \<noteq> InConnect"
    by (auto simp: shutting_down_def)
  show ?thesis
  proof (cases l)
    case Top
    with assms q show ?thesis
      by (auto simp: session_step_def shutting_down_def task_gone_def run_top_shutdown split: phase.splits)
  next
    case (DriveCommand out)
    with assms(1) obtain hold d cmd s1 where s1: "recv s = Some (cmd, s1)"
      "s' = run_drive ctx now hold (GotCommand cmd out) d s1"
      by (auto simp: session_step_def split: phase.splits option.splits)
    from s1(1) q obtain c rest where c: "cmd = Some c" "ss_queue s = c # rest" "ss_queue s1 = rest"
      by (auto simp: recv_def split: list.splits)
    show ?thesis
    proof (cases "c = Shutdown")
      case True
      with c s1 run_drive_command_phase [of ctx now hold out d s1] show ?thesis
        by (auto simp: shutting_down_def task_gone_def)
    next
      case False
      with c q s1 run_drive_phase [of ctx now hold "GotCommand cmd out" d s1] show ?thesis
        by (auto simp: shutting_down_def)
    qed
  next
    case (ConnectDone io)
    with assms(1) q step_connect_done show ?thesis by blast
  next
    case BackoffCommand
    with assms(1) q show ?thesis
      by (auto simp: session_step_def shutting_down_def task_gone_def recv_def run_backoff_command_def
          leave_backoff_def split: phase.splits list.splits if_splits)
  qed (use assms(1) q run_drive_phase in
      \<open>auto simp: session_step_def shutting_down_def send_cmd_def leave_backoff_def
        split: phase.splits if_splits\<close>)
qed

lemma shutting_down_run:
  assumes "session_run env ctx t s t' s'" and "shutting_down s"
  shows "shutting_down s'"
  using assms by (induction t s t' s' rule: session_run.induct) (auto intro: shutting_down_step)

lemma run_one_step:
  assumes "t < secs (2 ^ 62)" and "session_step env ctx t l s = Some s'"
  shows "session_run env ctx t s t s'"
  using assms by (blast intro: session_run.intros)

lemma session_run_trans:
  assumes "session_run env ctx t1 s1 t2 s2" and "session_run env ctx t0 s0 t1 s1"
  shows "session_run env ctx t0 s0 t2 s2"
  using assms by (induction t1 s1 t2 s2 rule: session_run.induct) (auto intro: session_run.intros)

lemma top_finishes:
  assumes "t < secs (2 ^ 62)" and "Shutdown \<in> set (ss_queue s)" and "ss_phase s = LoopTop"
  shows "\<exists>s'. session_run env ctx t s t s' \<and> ss_phase s' = Finished"
  using assms run_one_step [of t env ctx Top s] run_top_shutdown [OF assms(2)]
  by (auto simp: session_step_def)

lemma backoff_finishes:
  assumes t: "t < secs (2 ^ 62)" and q: "Shutdown \<in> set (ss_queue s)" and p: "ss_phase s = InBackoff dl"
  shows "\<exists>s'. session_run env ctx t s t s' \<and> ss_phase s' = Finished"
proof -
  from q obtain c rest where c: "ss_queue s = c # rest" by (cases "ss_queue s") auto
  define s1 where "s1 = run_backoff_command (Some c) (s\<lparr>ss_queue := rest\<rparr>)"
  have step: "session_run env ctx t s t s1"
    using c p t by (intro run_one_step [where l = BackoffCommand]) (simp_all add: session_step_def recv_def s1_def)
  show ?thesis
  proof (cases "c = Shutdown")
    case True
    with step show ?thesis by (auto simp: s1_def run_backoff_command_def)
  next
    case False
    with q c have "Shutdown \<in> set (ss_queue s1)" "ss_phase s1 = LoopTop"
      by (auto simp: s1_def run_backoff_command_def leave_backoff_def)
    from top_finishes [OF t this] step show ?thesis by (blast intro: session_run_trans)
  qed
qed

lemma drive_finishes:
  assumes t: "t < secs (2 ^ 62)" and "Shutdown \<in> set (ss_queue s)" and "ss_phase s = InDrive hold d"
    and "dr_last_inbound d \<le> t" and h: "0 < hold"
  shows "\<exists>s'. session_run env ctx t s t s' \<and> ss_phase s' = Finished"
  using assms(2-4)
proof (induction "ss_queue s" arbitrary: s d)
  case (Cons c rest)
  define s0 where "s0 = s\<lparr>ss_queue := rest\<rparr>"
  define s1 where "s1 = run_drive ctx t hold (GotCommand (Some c) (\<lambda>_. None)) d s0"
  have step: "session_run env ctx t s t s1"
    using Cons.hyps(2) [symmetric] Cons.prems(2) t
    by (intro run_one_step [where l = "DriveCommand (\<lambda>_. None)"])
      (simp_all add: session_step_def recv_def s1_def s0_def)
  from Cons.prems(3) t have last: "dr_last_inbound d < secs (2 ^ 62)" by simp
  obtain d' events written ended where
    r: "drive_step ctx hold t (GotCommand (Some c) (\<lambda>_. None)) d = Some (d', events, written, ended)"
    using drive_step_returns [OF last h] by (metis not_None_eq prod_cases4)
  show ?case
  proof (cases "c = Shutdown")
    case True
    then have "ss_phase s1 = Finished"
      using r hold_deadline_ok [OF last h, of t]
      by (auto simp: s1_def run_drive_def drive_step_def drive_command_def disconnect_terminal_def Let_def)
    with step show ?thesis by blast
  next
    case False
    show ?thesis
    proof (cases ended)
      case None
      have ph: "ss_phase s1 = InDrive hold d'" and q1: "ss_queue s1 = rest"
        using r None by (simp_all add: s1_def s0_def run_drive_def Let_def)
      have "Shutdown \<in> set rest" using Cons.hyps(2) [symmetric] Cons.prems(1) False by simp
      moreover have "dr_last_inbound d' \<le> t"
        using drive_step_inbound [OF r Cons.prems(3)] by simp
      ultimately show ?thesis
        using Cons.hyps(1) [of s1 d'] ph q1 step by (auto intro: session_run_trans)
    next
      case (Some dc)
      have q1: "Shutdown \<in> set (ss_queue s1)"
        using Cons.hyps(2) [symmetric] Cons.prems(1) False run_drive_phase
        by (auto simp: s1_def s0_def)
      have "ss_phase s1 = Finished \<or> ss_phase s1 = InBackoff (t + ss_backoff s)"
        using r Some by (simp add: s1_def s0_def run_drive_def Let_def enter_backoff_def)
      with backoff_finishes [OF t q1] step show ?thesis by (blast intro: session_run_trans)
    qed
  qed
qed simp

text \<open>
  C36. Once a shutdown is queued for a task that is not inside a connection attempt, the task
  starts no further attempt whatever happens, and it can end at once, without the network:
  it only has to take the commands in front of the shutdown.
\<close>

theorem shutdown_completes:
  assumes "session_run env ctx t0 session_new t s" and "t < secs (2 ^ 62)"
    and "Shutdown \<in> set (ss_queue s)"
    and "ss_phase s \<notin> {InConnect, Panicked}" and "\<forall>d. ss_phase s \<noteq> InDrive 0 d"
  shows "(\<exists>s'. session_run env ctx t s t s' \<and> ss_phase s' = Finished) \<and>
         (\<forall>t' s'. session_run env ctx t s t' s' \<longrightarrow> ss_phase s' \<noteq> InConnect)"
proof
  have ok: "session_ok t s"
    using assms(1)
    by (induction t0 session_new t s rule: session_run.induct) (auto intro: session_ok_new session_step_ok)
  show "\<exists>s'. session_run env ctx t s t s' \<and> ss_phase s' = Finished"
  proof (cases "ss_phase s")
    case LoopTop
    with top_finishes [OF assms(2,3)] show ?thesis by blast
  next
    case (InDrive hold d)
    with assms(5) have "0 < hold" by (cases "hold = 0") (auto simp: word_neq_0_conv)
    with drive_finishes [OF assms(2,3) InDrive] ok InDrive show ?thesis by (auto simp: session_ok_def)
  next
    case (InBackoff dl)
    with backoff_finishes [OF assms(2,3)] show ?thesis by blast
  next
    case Finished
    then show ?thesis using session_run_start by blast
  qed (use assms(4) in auto)
  have "shutting_down s" using assms(3,4) by (simp add: shutting_down_def)
  then show "\<forall>t' s'. session_run env ctx t s t' s' \<longrightarrow> ss_phase s' \<noteq> InConnect"
    using shutting_down_run by (fastforce simp: shutting_down_def task_gone_def)
qed

text \<open>
  Inside a connection attempt nothing but the outcome of the attempt moves the task: a peer
  that accepts the connection and stays silent keeps a queued shutdown waiting for ever, as
  the read of its OPEN has no timeout.
\<close>

lemma connect_ignores_shutdown:
  assumes "session_step env ctx now l s = Some s'" and "ss_phase s = InConnect"
    and "\<forall>io. l \<noteq> ConnectDone io"
  shows "ss_phase s' = InConnect"
  using assms by (cases l) (auto simp: session_step_def send_cmd_def split: if_splits)

text \<open>
  The reassembly buffer is not bounded: a read that leaves it out of step with the markers
  drops one byte and keeps the rest.
\<close>

lemma desync_buffer_grows:
  assumes "19 \<le> length (buf @ chunk)" and "take 16 (buf @ chunk) \<noteq> MARKER"
  shows "scan_incoming (buf @ chunk) = (None, tl (buf @ chunk)) \<and>
         length (snd (scan_incoming (buf @ chunk))) = length buf + length chunk - 1"
  using assms
  by (simp add: scan_incoming.simps [of "buf @ chunk"] take_message_def MARKER_def)


subsection \<open>What the peer learns\<close>

text \<open>The routing table a peer builds from the messages of one connection, /32 routes only.\<close>

definition hosts :: "(u8 \<times> u8 list) list \<Rightarrow> ipv4_addr set" where
  "hosts ps = {a. (32, octets4 a) \<in> set ps}"

definition apply_message :: "u8 list \<Rightarrow> ipv4_addr set \<Rightarrow> ipv4_addr set" where
  "apply_message m R =
     (case decode_update m of
        None \<Rightarrow> R
      | Some u \<Rightarrow> (R - hosts (withdrawn_routes u)) \<union> hosts (reachable_routes u))"

definition rib :: "u8 list list \<Rightarrow> ipv4_addr set" where
  "rib wire = fold apply_message wire {}"

fun apply_cmd :: "session_cmd \<Rightarrow> ipv4_addr set \<Rightarrow> ipv4_addr set" where
  "apply_cmd (Announce vips) R = R \<union> set vips"
| "apply_cmd (Withdraw vips) R = R - set vips"
| "apply_cmd Shutdown R = R"

text \<open>What the peer has learnt from a session: nothing while there is none.\<close>

definition learnt :: "session \<Rightarrow> ipv4_addr set" where
  "learnt s = (case ss_phase s of InDrive _ _ \<Rightarrow> rib (ss_wire s) | _ \<Rightarrow> {})"

text \<open>The routes the peer will have once the queued commands are written.\<close>

definition promised :: "session \<Rightarrow> ipv4_addr set" where
  "promised s = fold apply_cmd (ss_queue s) (learnt s)"

lemma promised_drive: "ss_phase s = InDrive hold d \<Longrightarrow> promised s = fold apply_cmd (ss_queue s) (rib (ss_wire s))"
  by (simp add: promised_def learnt_def)

lemma promised_idle: "\<not> session_up (ss_phase s) \<Longrightarrow> promised s = fold apply_cmd (ss_queue s) {}"
  by (cases "ss_phase s") (simp_all add: promised_def learnt_def)

lemma apply_cmd_mono: "R \<subseteq> S \<Longrightarrow> apply_cmd c R \<subseteq> apply_cmd c S"
  by (cases c) auto

lemma fold_apply_mono: "R \<subseteq> S \<Longrightarrow> fold apply_cmd q R \<subseteq> fold apply_cmd q S"
  by (induction q arbitrary: R S) (simp_all add: apply_cmd_mono)

lemma rib_append: "rib (ws @ vs) = fold apply_message vs (rib ws)"
  by (simp add: rib_def)

lemma hosts_one: "hosts [(32, octets4 a)] = {a}"
  by (auto simp: hosts_def)

lemma hosts_Nil [simp]: "hosts [] = {}"
  by (simp add: hosts_def)

lemma send_announce_routes:
  assumes "send_updates (\<lambda>v. encode_update_announce v 32 nh asn) out k vips = Some (ws, None)"
  shows "fold apply_message ws R = R \<union> set vips"
  using assms
proof (induction vips arbitrary: k ws R)
  case (Cons v vips)
  obtain m where m: "encode_update_announce v 32 nh asn = Some m"
    "apply_message m R' = R' \<union> {v}" for R'
    using announce_decodes [of 32 v nh asn] by (auto simp: apply_message_def hosts_one)
  with Cons.prems obtain ws' where "ws = m # ws'"
    "send_updates (\<lambda>v. encode_update_announce v 32 nh asn) out (Suc k) vips = Some (ws', None)"
    by (auto simp: bind_eq_Some_conv split: option.splits)
  with Cons.IH m show ?case by auto
qed simp

lemma send_withdraw_routes:
  assumes "send_updates (\<lambda>v. encode_update_withdraw v 32) out k vips = Some (ws, None)"
  shows "fold apply_message ws R = R - set vips"
  using assms
proof (induction vips arbitrary: k ws R)
  case (Cons v vips)
  obtain m where m: "encode_update_withdraw v 32 = Some m" "apply_message m R' = R' - {v}" for R'
    using withdraw_decodes [of 32 v] by (auto simp: apply_message_def hosts_one)
  with Cons.prems obtain ws' where "ws = m # ws'"
    "send_updates (\<lambda>v. encode_update_withdraw v 32) out (Suc k) vips = Some (ws', None)"
    by (auto simp: bind_eq_Some_conv split: option.splits)
  with Cons.IH m show ?case by auto
qed simp

lemma drive_command_routes:
  assumes "drive_command ctx (Some c) out d = Some (d', es, ws, None)"
  shows "fold apply_message ws R = apply_cmd c R"
  using assms
  by (cases c) (auto simp: drive_command_def send_announce_def send_withdraw_def bind_eq_Some_conv
      send_announce_routes send_withdraw_routes split: option.splits)

lemma run_drive_wire:
  assumes "ss_phase (run_drive ctx now hold ev d s) = InDrive hold' d'"
  shows "hold' = hold \<and> (\<exists>es ws. drive_step ctx hold now ev d = Some (d', es, ws, None) \<and>
    ss_wire (run_drive ctx now hold ev d s) = ss_wire s @ ws)"
  using assms by (auto simp: run_drive_def enter_backoff_def Let_def split: option.splits if_splits)

lemma drive_quiet:
  assumes "drive_step ctx hold now ev d = Some (d', es, ws, None)" and "\<forall>c out. ev \<noteq> GotCommand c out"
  shows "fold apply_message ws R = R"
  using assms
  by (cases ev) (auto simp: drive_step_def drive_tick_def drive_read_def drive_hold_def apply_message_def
      bind_eq_Some_conv Let_def split: option.splits sum.splits list.splits prod.splits)

lemma run_drive_quiet:
  assumes "ss_phase s = InDrive hold d0" and "ss_phase (run_drive ctx now hold ev d s) = InDrive hold' d'" and "\<forall>c out. ev \<noteq> GotCommand c out"
  shows "hold' = hold \<and> promised (run_drive ctx now hold ev d s) = promised s"
proof -
  from run_drive_wire [OF assms(2)] obtain es ws where
    "hold' = hold" "drive_step ctx hold now ev d = Some (d', es, ws, None)"
    "ss_wire (run_drive ctx now hold ev d s) = ss_wire s @ ws" by blast
  moreover from drive_quiet [OF this(2) assms(3)] have "fold apply_message ws R = R" for R .
  ultimately show ?thesis
    using run_drive_phase promised_drive [OF assms(1)] promised_drive [OF assms(2)]
    by (simp add: rib_append)
qed

lemma session_step_promise:
  assumes "session_step env ctx now l s = Some s'"
    and "ss_phase s = InDrive hold d" and "ss_phase s' = InDrive hold' d'"
  shows "hold' = hold \<and>
    promised s' = (case l of Send c \<Rightarrow> apply_cmd c (promised s) | _ \<Rightarrow> promised s)"
proof -
  show "hold' = hold \<and> promised s' = (case l of Send c \<Rightarrow> apply_cmd c (promised s) | _ \<Rightarrow> promised s)"
  proof (cases l)
    case (Send c)
    with assms show ?thesis
      by (auto simp: session_step_def send_cmd_def task_gone_def promised_def learnt_def split: if_splits)
  next
    case DropSender
    with assms show ?thesis by (auto simp: session_step_def promised_def learnt_def)
  next
    case (DriveCommand out)
    with assms(1,2) obtain cmd s1 where s1: "recv s = Some (cmd, s1)"
      "s' = run_drive ctx now hold (GotCommand cmd out) d s1"
      by (auto simp: session_step_def split: option.splits)
    from run_drive_wire assms(3) s1(2) obtain es ws where w: "hold' = hold"
      "drive_step ctx hold now (GotCommand cmd out) d = Some (d', es, ws, None)"
      "ss_wire s' = ss_wire s1 @ ws" by blast
    then have c: "drive_command ctx cmd out d = Some (d', es, ws, None)"
      by (auto simp: drive_step_def bind_eq_Some_conv)
    then obtain c' rest where q: "cmd = Some c'" "ss_queue s = c' # rest" "s1 = s\<lparr>ss_queue := rest\<rparr>"
      using s1(1) by (auto simp: recv_def drive_command_def split: list.splits if_splits)
    have "fold apply_message ws R = apply_cmd c' R" for R
      using drive_command_routes c q(1) by blast
    moreover have "ss_queue s' = rest" "ss_wire s' = ss_wire s @ ws"
      using w(3) q(3) s1(2) run_drive_phase [of ctx now hold "GotCommand cmd out" d s1] by simp_all
    ultimately show ?thesis
      using w(1) q(2) DriveCommand
      by (simp add: promised_drive [OF assms(2)] promised_drive [OF assms(3)] rib_append)
  next
    case (DriveTick f)
    with assms run_drive_quiet [of s hold d ctx now "Ticked f" d hold' d'] show ?thesis
      by (auto simp: session_step_def split: if_splits)
  next
    case (DriveRead r)
    with assms run_drive_quiet [of s hold d ctx now "GotRead r" d hold' d'] show ?thesis
      by (auto simp: session_step_def split: if_splits)
  next
    case (DriveHold f)
    with assms run_drive_quiet [of s hold d ctx now "HoldExpired f" d hold' d'] show ?thesis
      by (auto simp: session_step_def split: if_splits)
  qed (use assms in \<open>auto simp: session_step_def\<close>)
qed

text \<open>
  C37. While a session is up, its wire and queue refine a set of routes: sending a command to
  the task applies it to the set, and every step of the task that keeps the session up leaves
  the set alone, so that with an empty queue the peer's table is what was asked for.
\<close>

theorem session_refines_routes:
  assumes "session_step env ctx now l s = Some s'"
    and "ss_phase s = InDrive hold d" and "ss_phase s' = InDrive hold' d'"
  shows "hold' = hold \<and>
    promised s' = (case l of Send c \<Rightarrow> apply_cmd c (promised s) | _ \<Rightarrow> promised s) \<and>
    (ss_queue s' = [] \<longrightarrow> promised s' = rib (ss_wire s'))"
  using session_step_promise [OF assms] by (simp add: promised_drive [OF assms(3)])

text \<open>A new session starts from an empty table; commands that came during the attempt are kept.\<close>

lemma connected_routes:
  assumes "session_step env ctx now (ConnectDone io) s = Some s'" and "ss_phase s' = InDrive hold d"
  shows "rib (ss_wire s') = {} \<and> ss_queue s' = ss_queue s \<and> ss_state s' = Established"
proof -
  obtain r ws where c: "connect env io ctx (our_hold ctx) = (r, ws)"
    by (cases "connect env io ctx (our_hold ctx)")
  have s': "s' = run_connected env ctx now io s" using step_connect_done [OF assms(1)] by simp
  with assms(2) c obtain h where r: "r = Inr h"
    by (cases r) (auto simp: run_connected_def enter_backoff_def)
  with c have "ws = [encode_open (px_local_asn ctx) (our_hold ctx) (px_router_id ctx), encode_keepalive]"
    by (auto simp: connect_def Let_def split: option.splits sum.splits tcp_outcome.splits)
  with s' c r assms(2) show ?thesis
    by (auto simp: run_connected_def rib_def apply_message_def Let_def split: option.splits)
qed

text \<open>No step of the task adds a route that was not asked for.\<close>

lemma promised_shrinks:
  assumes "session_step env ctx now l s = Some s'" and "\<forall>c. l \<noteq> Send c" and "\<not> task_gone s'"
  shows "promised s' \<subseteq> promised s"
proof -
  have drop: "fold apply_cmd rest {} \<subseteq> promised s"
    if "ss_queue s = rest \<or> (\<exists>c. ss_queue s = c # rest)" for rest
    using that by (auto simp: promised_def intro: fold_apply_mono [THEN subsetD])
  have same: "ss_queue s = ss_queue s' \<or> (\<exists>c. ss_queue s = c # ss_queue s')"
    if "l \<noteq> Top" using assms that run_drive_phase
    by (cases l) (auto simp: session_step_def recv_def run_connected_def enter_backoff_def leave_backoff_def
        run_backoff_command_def Let_def split: phase.splits list.splits sum.splits option.splits if_splits prod.splits)
  show ?thesis
  proof (cases "\<exists>hold d. ss_phase s' = InDrive hold d")
    case True
    then obtain hold' d' where p': "ss_phase s' = InDrive hold' d'" by blast
    show ?thesis
    proof (cases l)
      case (ConnectDone io)
      with assms(1) have "ss_phase s = InConnect" "rib (ss_wire s') = {}" "ss_queue s' = ss_queue s"
        using connected_routes p' step_connect_done by blast+
      with p' show ?thesis by (simp add: promised_def learnt_def)
    next
      case DropSender
      with assms(1) p' show ?thesis by (auto simp: session_step_def promised_def learnt_def)
    qed (use assms p' session_step_promise [OF assms(1) _ p'] in
      \<open>auto simp: session_step_def run_top_def leave_backoff_def run_backoff_command_def recv_def
        split: phase.splits if_splits option.splits list.splits\<close>)
  next
    case False
    with assms(3) have "\<not> session_up (ss_phase s')"
      by (cases "ss_phase s'") (auto simp: task_gone_def)
    then have eq: "promised s' = fold apply_cmd (ss_queue s') {}" by (rule promised_idle)
    show ?thesis
    proof (cases "l = Top")
      case True
      with assms have "ss_queue s' = []"
        by (auto simp: session_step_def run_top_def task_gone_def split: phase.splits option.splits)
      with eq show ?thesis by simp
    next
      case False
      from drop [OF same [OF False]] eq show ?thesis by simp
    qed
  qed
qed

subsection \<open>The supervisor\<close>

record peer_handle =
  ph_peer_ip :: ip_addr
  ph_ctx :: peer_session_ctx
  ph_session :: session
  ph_enabled :: bool

record bgp_speaker =
  sp_config :: bgp_config
  sp_peers :: "peer_handle list"
  sp_event_rx :: bool

definition speaker_new :: "bgp_config \<Rightarrow> bgp_speaker" where
  "speaker_new config = \<lparr>sp_config = config, sp_peers = [], sp_event_rx = True\<rparr>"

text \<open>Whether the receiver was still there to be taken.\<close>

definition take_event_rx :: "bgp_speaker \<Rightarrow> bool \<times> bgp_speaker" where
  "take_event_rx sp = (sp_event_rx sp, sp\<lparr>sp_event_rx := False\<rparr>)"

definition spawn_peer :: "bgp_config \<Rightarrow> ipv4_addr \<Rightarrow> bgp_peer_config \<Rightarrow> peer_handle" where
  "spawn_peer config router_id peer_cfg =
     \<lparr>ph_peer_ip = bp_peer_ip peer_cfg,
      ph_ctx = \<lparr>px_peer = peer_cfg, px_local_asn = ucast (bgp_local_asn config), px_router_id = router_id\<rparr>,
      ph_session = session_new\<lparr>ss_state := (if bp_enabled peer_cfg then Idle else Disabled)\<rparr>,
      ph_enabled = bp_enabled peer_cfg\<rparr>"

text \<open>The assertion that no peer has been spawned before, and the refusal of an IPv6 router id.\<close>

definition spawn :: "bgp_speaker \<Rightarrow> bgp_speaker panics" where
  "spawn sp =
     (if sp_peers sp \<noteq> [] then None
      else case bgp_router_id (sp_config sp) of
             V6 _ \<Rightarrow> Some sp
           | V4 v4 \<Rightarrow> Some (sp\<lparr>sp_peers := map (spawn_peer (sp_config sp) v4) (bgp_peers (sp_config sp))\<rparr>))"

definition peer_states :: "bgp_speaker \<Rightarrow> (ip_addr \<times> peer_state) list" where
  "peer_states sp = map (\<lambda>p. (ph_peer_ip p, ss_state (ph_session p))) (sp_peers sp)"

definition send_to :: "session_cmd \<Rightarrow> peer_handle \<Rightarrow> peer_handle" where
  "send_to cmd p = p\<lparr>ph_session := send_cmd cmd (ph_session p)\<rparr>"

definition speaker_announce :: "ipv4_addr list \<Rightarrow> bgp_speaker \<Rightarrow> bgp_speaker" where
  "speaker_announce vips sp =
     (if vips = [] then sp
      else sp\<lparr>sp_peers := map (\<lambda>p. if ph_enabled p then send_to (Announce vips) p else p) (sp_peers sp)\<rparr>)"

definition speaker_withdraw :: "ipv4_addr list \<Rightarrow> bgp_speaker \<Rightarrow> bgp_speaker" where
  "speaker_withdraw vips sp =
     (if vips = [] then sp
      else sp\<lparr>sp_peers := map (\<lambda>p. if ph_enabled p then send_to (Withdraw vips) p else p) (sp_peers sp)\<rparr>)"

text \<open>The first half of \<^verbatim>\<open>shutdown\<close>; the second awaits the tasks.\<close>

definition speaker_shutdown :: "bgp_speaker \<Rightarrow> bgp_speaker" where
  "speaker_shutdown sp = sp\<lparr>sp_peers := map (send_to Shutdown) (sp_peers sp)\<rparr>"

text \<open>The task of a disabled peer only takes commands until a shutdown.\<close>

definition disabled_step :: "session \<Rightarrow> session option" where
  "disabled_step s =
     (case recv s of
        None \<Rightarrow> None
      | Some (cmd, s') \<Rightarrow>
          Some (if cmd = None \<or> cmd = Some Shutdown then s'\<lparr>ss_phase := Finished\<rparr> else s'))"

text \<open>
  The contract of \<^verbatim>\<open>trait BgpAnnouncer\<close> as the controller relies on it: for a session \<open>i\<close> that
  is \<open>live\<close>, announcing adds to the routes its peer will have and withdrawing removes them.
\<close>

locale bgp_announcer =
  fixes announce withdraw :: "ipv4_addr list \<Rightarrow> 'b \<Rightarrow> 'b"
    and routes :: "'b \<Rightarrow> 'i \<Rightarrow> ipv4_addr set"
    and live :: "'b \<Rightarrow> 'i \<Rightarrow> bool"
  assumes live_announce: "live (announce vips b) i = live b i"
    and live_withdraw: "live (withdraw vips b) i = live b i"
    and routes_announce: "live b i \<Longrightarrow> routes (announce vips b) i = routes b i \<union> set vips"
    and routes_withdraw: "live b i \<Longrightarrow> routes (withdraw vips b) i = routes b i - set vips"
begin

text \<open>Announcing and withdrawing a difference moves the routes to the desired set.\<close>

lemma reconcile:
  assumes "live b i" and "set add = desired - routes b i" and "set del = routes b i - desired"
  shows "routes (withdraw del (announce add b)) i = desired"
  using assms by (auto simp: routes_withdraw routes_announce live_announce)

lemma announce_all:
  assumes "live b i" and "routes b i \<subseteq> set vips"
  shows "routes (announce vips b) i = set vips"
  using assms by (auto simp: routes_announce)

end

text \<open>
  In the speaker every enabled peer whose task runs is live, connected or not: the routes are
  those its peer will have once the queue is written.
\<close>

definition peer_live :: "bgp_speaker \<Rightarrow> nat \<Rightarrow> bool" where
  "peer_live sp i \<longleftrightarrow> i < length (sp_peers sp) \<and> ph_enabled (sp_peers sp ! i) \<and>
     \<not> task_gone (ph_session (sp_peers sp ! i))"

definition peer_routes :: "bgp_speaker \<Rightarrow> nat \<Rightarrow> ipv4_addr set" where
  "peer_routes sp i = promised (ph_session (sp_peers sp ! i))"

lemma send_cmd_promised:
  "\<not> task_gone s \<Longrightarrow> promised (send_cmd cmd s) = apply_cmd cmd (promised s)"
  by (simp add: send_cmd_def promised_def learnt_def split: phase.splits)

lemma send_cmd_live:
  "ss_state (send_cmd cmd s) = ss_state s \<and> task_gone (send_cmd cmd s) = task_gone s"
  by (simp add: send_cmd_def task_gone_def)

interpretation speaker: bgp_announcer speaker_announce speaker_withdraw peer_routes peer_live
proof unfold_locales
  show "peer_live (speaker_announce vips b) i = peer_live b i" for vips b i
    by (auto simp: peer_live_def speaker_announce_def send_to_def send_cmd_live split: if_splits)
  show "peer_live (speaker_withdraw vips b) i = peer_live b i" for vips b i
    by (auto simp: peer_live_def speaker_withdraw_def send_to_def send_cmd_live split: if_splits)
  show "peer_live b i \<Longrightarrow> peer_routes (speaker_announce vips b) i = peer_routes b i \<union> set vips" for vips b i
    by (auto simp: peer_live_def peer_routes_def speaker_announce_def send_to_def send_cmd_promised)
  show "peer_live b i \<Longrightarrow> peer_routes (speaker_withdraw vips b) i = peer_routes b i - set vips" for vips b i
    by (auto simp: peer_live_def peer_routes_def speaker_withdraw_def send_to_def send_cmd_promised)
qed


subsection \<open>A concrete session\<close>

text \<open>A peer that accepts at once and offers the hold time \<open>h\<close>; our own offer is 90 seconds.\<close>

definition sample_ctx :: peer_session_ctx where
  "sample_ctx = \<lparr>px_peer = legacy_peer (V4 (Ipv4 10 0 0 2)) 1, px_local_asn = 2,
     px_router_id = Ipv4 10 0 0 1\<rparr>"

definition sample_io :: "u16 \<Rightarrow> connect_io" where
  "sample_io h = \<lparr>ci_socket = None, ci_setsockopt = (\<lambda>_. None), ci_connect = Accepted,
     ci_write_open = None, ci_read = Inr (encode_open 1 h (Ipv4 10 0 0 2)), ci_write_keepalive = None\<rparr>"

definition sample_up :: "u16 \<Rightarrow> session" where
  "sample_up h = run_connected (\<lambda>_. None) sample_ctx (secs 1) (sample_io h) (run_top session_new)"

lemma sample_connect: "fst (connect (\<lambda>_. None) (sample_io h) sample_ctx (our_hold sample_ctx)) = Inr (min 90 h)"
  using check_open_encode [of 1 h "Ipv4 10 0 0 2" "[]" 90]
  by (simp add: connect_def sample_io_def sample_ctx_def our_hold_def legacy_peer_def
      resolved_md5_password_def unwrap_or_def DEFAULT_HOLD_TIME_SECS_def Let_def)

lemma sample_top: "session_step env ctx now Top session_new = Some (run_top session_new)"
  by (simp add: session_step_def session_new_def)

lemma sample_step:
  "session_step (\<lambda>_. None) sample_ctx (secs 1) (ConnectDone (sample_io h)) (run_top session_new) =
   Some (sample_up h)"
proof -
  have "length (encode_open 1 h (Ipv4 10 0 0 2)) = 29" by (simp add: encode_open_eq)
  then show ?thesis
    by (simp add: session_step_def run_top_def session_new_def sample_io_def sample_up_def)
qed

lemma sample_clock: "secs 1 < secs (2 ^ 62)" "secs 1 \<le> secs 1" "0 \<le> secs 1"
  by (simp_all add: secs_def)

lemma sample_run: "session_run (\<lambda>_. None) sample_ctx (secs 1) session_new (secs 1) (sample_up h)"
  by (rule session_run_step [OF run_one_step [OF sample_clock(1) sample_top] sample_clock(2,1) sample_step])

lemma sample_up_phase:
  assumes "0 < h"
  shows "\<exists>hold d. 0 < hold \<and> ss_phase (sample_up h) = InDrive hold d"
proof -
  obtain ws where c: "connect (\<lambda>_. None) (sample_io h) sample_ctx (our_hold sample_ctx) = (Inr (min 90 h), ws)"
    using sample_connect [of h] by (metis fst_conv surj_pair)
  have pos: "0 < min 90 h" using assms by (simp add: min_def)
  from c drive_start_ok [OF sample_clock(1) pos] have
    "ss_phase (sample_up h) = InDrive (min 90 h)
       \<lparr>dr_incoming = [], dr_last_inbound = secs 1, dr_next_tick = secs 1 + keepalive_interval (min 90 h)\<rparr>"
    by (simp add: sample_up_def run_connected_def Let_def)
  with pos show ?thesis by blast
qed

text \<open>An attempt that is refused.\<close>

definition sample_refused :: connect_io where
  "sample_refused = (sample_io 0)\<lparr>ci_connect := Refused [], ci_read := Inl []\<rparr>"

definition sample_waiting :: session where
  "sample_waiting = run_connected (\<lambda>_. None) sample_ctx (secs 1) sample_refused (run_top session_new)"

lemma sample_waiting_phase: "ss_phase sample_waiting = InBackoff (secs 1 + secs 1)"
  by (simp add: sample_waiting_def run_connected_def connect_def sample_refused_def sample_io_def sample_ctx_def
      legacy_peer_def resolved_md5_password_def enter_backoff_def run_top_def session_new_def RECONNECT_BACKOFF_MIN_def)

lemma sample_tally: "session_tally (\<lambda>_. None) sample_ctx (secs 1) 1 (secs 1) (secs 1) sample_waiting"
proof -
  let ?s = "run_top session_new"
  have top: "ss_phase ?s = InConnect" by (simp add: run_top_def session_new_def)
  have "session_tally (\<lambda>_. None) sample_ctx (secs 1) 0 (secs 1) (secs 1) ?s"
    using session_tally_step [OF session_tally_start sample_clock(2,1) sample_top] by (simp add: tally_def top)
  moreover have "session_step (\<lambda>_. None) sample_ctx (secs 1) (ConnectDone sample_refused) ?s = Some sample_waiting"
    by (simp add: session_step_def top sample_refused_def sample_waiting_def)
  ultimately have "session_tally (\<lambda>_. None) sample_ctx (secs 1)
      (fst (tally (secs 1) ?s sample_waiting (0, secs 1))) (snd (tally (secs 1) ?s sample_waiting (0, secs 1)))
      (secs 1) sample_waiting"
    using session_tally_step sample_clock(1,2) by blast
  then show ?thesis by (simp add: tally_def top sample_waiting_phase)
qed

lemma session_task_invariant_witness:
  "ss_state sample_waiting = Backoff \<and> ss_phase sample_waiting = InBackoff (secs 2) \<and>
   event_log False (ss_events sample_waiting) = Some False"
  using session_task_invariant [OF sample_tally] by (simp add: sample_waiting_phase secs_def)

lemma zero_hold_kills_session_witness:
  "ss_phase (sample_up 0) = Panicked \<and> ss_state (sample_up 0) = Established"
  using zero_hold_kills_session [OF sample_step [of 0] sample_connect sample_clock(2,1)]
    session_run_start [of "\<lambda>_. None" sample_ctx "secs 1" "sample_up 0"] by simp

lemma shutdown_completes_witness:
  "\<exists>s'. session_run (\<lambda>_. None) sample_ctx (secs 1) (send_cmd Shutdown (sample_up 9)) (secs 1) s' \<and>
        ss_phase s' = Finished"
proof -
  obtain hold d where p: "0 < hold" "ss_phase (sample_up 9) = InDrive hold d"
    using sample_up_phase [of 9] by auto
  have "ss_open (sample_up 9)"
    by (simp add: sample_up_def run_connected_def run_top_def session_new_def enter_backoff_def Let_def
        split: prod.splits sum.splits option.splits)
  then have step: "session_step (\<lambda>_. None) sample_ctx (secs 1) (Send Shutdown) (sample_up 9) =
      Some (send_cmd Shutdown (sample_up 9))"
    by (simp add: session_step_def)
  have run: "session_run (\<lambda>_. None) sample_ctx (secs 1) session_new (secs 1) (send_cmd Shutdown (sample_up 9))"
    by (rule session_run_step [OF sample_run sample_clock(2,1) step])
  from p have q: "Shutdown \<in> set (ss_queue (send_cmd Shutdown (sample_up 9)))"
    "ss_phase (send_cmd Shutdown (sample_up 9)) = InDrive hold d"
    by (simp_all add: send_cmd_def task_gone_def)
  show ?thesis
    by (rule shutdown_completes [OF run sample_clock(1) q(1), THEN conjunct1]) (use p q in auto)
qed

lemma session_refines_routes_witness:
  "promised (send_cmd (Announce [Ipv4 10 0 0 9]) (sample_up 9)) = {Ipv4 10 0 0 9}"
proof -
  obtain hold d where p: "ss_phase (sample_up 9) = InDrive hold d"
    using sample_up_phase [of 9] by auto
  have "ss_open (sample_up 9)" "ss_queue (sample_up 9) = []"
    by (simp_all add: sample_up_def run_connected_def run_top_def session_new_def enter_backoff_def Let_def
        split: prod.splits sum.splits option.splits)
  moreover have "rib (ss_wire (sample_up 9)) = {}"
    using connected_routes [OF sample_step p] by simp
  ultimately have empty: "promised (sample_up 9) = {}" by (simp add: promised_drive [OF p])
  have step: "session_step (\<lambda>_. None) sample_ctx (secs 1) (Send (Announce [Ipv4 10 0 0 9])) (sample_up 9) =
      Some (send_cmd (Announce [Ipv4 10 0 0 9]) (sample_up 9))"
    using \<open>ss_open (sample_up 9)\<close> by (simp add: session_step_def)
  have p': "ss_phase (send_cmd (Announce [Ipv4 10 0 0 9]) (sample_up 9)) = InDrive hold d"
    using p by (simp add: send_cmd_def task_gone_def)
  from session_refines_routes [OF step p p'] empty show ?thesis by simp
qed

end
