(* ===== verification/ConfigManager.thy ===== *)
theory ConfigManager
  imports Maglev
begin

text \<open>
  The configuration manager (crate lb-config-manager): loading, caching and validating the
  VIP and pool file (loader.rs, cache.rs, validator.rs), the file watcher (watcher.rs) and the
  applier that turns pools and health into Maglev tables (applier.rs).

  The JSON codec of serde and the file system are parameters or outcomes passed in. A
  \<^verbatim>\<open>HashMap\<close> is a map; where the code iterates over one, the order of its keys is an argument.
  \<^verbatim>\<open>Arc<ArcSwap<..>>\<close> is the value it holds.
\<close>

record lb_config =
  lc_vips :: "vip list"
  lc_pools :: "backend_pool list"

subsection \<open>Loading and caching\<close>

datatype load_error = LoadIo string | LoadJson string

definition load_from_file ::
    "(string \<Rightarrow> string + lb_config) \<Rightarrow> string + string \<Rightarrow> load_error + lb_config" where
  "load_from_file from_json file =
     (case file of
        Inl e \<Rightarrow> Inl (LoadIo e)
      | Inr contents \<Rightarrow> (case from_json contents of Inl e \<Rightarrow> Inl (LoadJson e) | Inr c \<Rightarrow> Inr c))"

datatype cache_error = CacheIo string | CacheJson string

text \<open>Saving gives the new contents of the file, or the error (\<open>fails\<close> is that of the write).\<close>

definition save_cache ::
    "(lb_config \<Rightarrow> string + string) \<Rightarrow> string option \<Rightarrow> lb_config \<Rightarrow> cache_error + string" where
  "save_cache to_json fails config =
     (case to_json config of
        Inl e \<Rightarrow> Inl (CacheJson e)
      | Inr json \<Rightarrow> (case fails of Some e \<Rightarrow> Inl (CacheIo e) | None \<Rightarrow> Inr json))"

definition load_cache ::
    "(string \<Rightarrow> string + lb_config) \<Rightarrow> string + string \<Rightarrow> cache_error + lb_config" where
  "load_cache from_json file =
     (case file of
        Inl e \<Rightarrow> Inl (CacheIo e)
      | Inr contents \<Rightarrow> (case from_json contents of Inl e \<Rightarrow> Inl (CacheJson e) | Inr c \<Rightarrow> Inr c))"

lemma load_saved_cache:
  assumes "\<And>json. to_json c = Inr json \<Longrightarrow> from_json json = Inr c" and "save_cache to_json fails c = Inr file"
  shows "load_cache from_json (Inr file) = Inr c"
  using assms by (auto simp: save_cache_def load_cache_def split: sum.splits option.splits)

subsection \<open>Validation\<close>

definition dangling_error :: "vip \<Rightarrow> vip_service \<Rightarrow> string" where
  "dangling_error v svc =
     ''VIP '' @ [CHR 0x27] @ vip_ident v @ [CHR 0x27] @ '' references pool '' @ [CHR 0x27] @
     svc_backend_pool svc @ [CHR 0x27] @ '' which does not exist''"

definition dangling_errors :: "(string \<rightharpoonup> backend_pool) \<Rightarrow> vip list \<Rightarrow> string list" where
  "dangling_errors pools vips =
     concat (map (\<lambda>v. map (dangling_error v) (filter (\<lambda>svc. pools (svc_backend_pool svc) = None) (vip_services v))) vips)"

fun empty_pool_errors :: "(string \<rightharpoonup> backend_pool) \<Rightarrow> string list \<Rightarrow> string list" where
  "empty_pool_errors pools [] = []"
| "empty_pool_errors pools (pid # pids) =
     (case pools pid of
        Some p \<Rightarrow>
          if pool_backends p = []
          then (''pool '' @ [CHR 0x27] @ pid @ [CHR 0x27] @ '' has no backends'') # empty_pool_errors pools pids
          else empty_pool_errors pools pids
      | None \<Rightarrow> empty_pool_errors pools pids)"

fun duplicate_errors :: "vip_id set \<Rightarrow> vip list \<Rightarrow> string list" where
  "duplicate_errors seen [] = []"
| "duplicate_errors seen (v # vips) =
     (if vip_ident v \<in> seen
      then (''duplicate VIP ID '' @ [CHR 0x27] @ vip_ident v @ [CHR 0x27]) # duplicate_errors seen vips
      else duplicate_errors (insert (vip_ident v) seen) vips)"

definition validate :: "vip list \<Rightarrow> (string \<rightharpoonup> backend_pool) \<Rightarrow> string list \<Rightarrow> string list + unit" where
  "validate vips pools order =
     (let errors = dangling_errors pools vips @ empty_pool_errors pools order @ duplicate_errors {} vips
      in if errors = [] then Inr () else Inl errors)"

text \<open>The pools as \<^verbatim>\<open>validate_config\<close> collects them: of two with one id the later one stays.\<close>

definition pool_map :: "lb_config \<Rightarrow> (string \<rightharpoonup> backend_pool)" where
  "pool_map c = map_of (rev (map (\<lambda>p. (pool_id p, p)) (lc_pools c)))"

datatype watch_error = WatcherInit string | LoadFailed load_error | ValidationFailed "string list"

definition validate_config :: "(lb_config \<Rightarrow> string list) \<Rightarrow> lb_config \<Rightarrow> watch_error + unit" where
  "validate_config order c =
     (case validate (lc_vips c) (pool_map c) (order c) of
        Inl es \<Rightarrow> Inl (ValidationFailed es)
      | Inr _ \<Rightarrow> Inr ())"

definition valid_config :: "lb_config \<Rightarrow> bool" where
  "valid_config c \<longleftrightarrow>
     (\<forall>v \<in> set (lc_vips c). \<forall>svc \<in> set (vip_services v). \<exists>p \<in> set (lc_pools c). pool_id p = svc_backend_pool svc) \<and>
     (\<forall>pid p. pool_map c pid = Some p \<longrightarrow> pool_backends p \<noteq> []) \<and>
     distinct (map vip_ident (lc_vips c))"

lemma dom_pool_map: "n \<in> dom (pool_map c) \<longleftrightarrow> (\<exists>p \<in> set (lc_pools c). pool_id p = n)"
  by (auto simp: pool_map_def dom_map_of_conv_image_fst image_image)

lemma dangling_Nil:
  "dangling_errors pools vips = [] \<longleftrightarrow>
     (\<forall>v \<in> set vips. \<forall>svc \<in> set (vip_services v). svc_backend_pool svc \<in> dom pools)"
  by (auto simp: dangling_errors_def filter_empty_conv)

lemma empty_pool_Nil:
  "empty_pool_errors pools pids = [] \<longleftrightarrow>
     (\<forall>pid \<in> set pids. \<forall>p. pools pid = Some p \<longrightarrow> pool_backends p \<noteq> [])"
  by (induction pids) (auto split: option.splits)

lemma duplicate_Nil:
  "duplicate_errors seen vips = [] \<longleftrightarrow>
     distinct (map vip_ident vips) \<and> seen \<inter> vip_ident ` set vips = {}"
  by (induction vips arbitrary: seen) auto

lemma validate_config_ok:
  assumes "set (order c) = dom (pool_map c)"
  shows "validate_config order c = Inr () \<longleftrightarrow> valid_config c"
proof -
  have "(\<forall>pid \<in> dom (pool_map c). \<forall>p. pool_map c pid = Some p \<longrightarrow> pool_backends p \<noteq> []) \<longleftrightarrow>
        (\<forall>pid p. pool_map c pid = Some p \<longrightarrow> pool_backends p \<noteq> [])"
    by blast
  then show ?thesis
    unfolding validate_config_def validate_def valid_config_def Let_def
    using assms by (simp add: dangling_Nil empty_pool_Nil duplicate_Nil dom_pool_map)
qed

subsection \<open>The watcher\<close>

datatype path_component = RootDir | CurDir | ParentDir | Normal string
type_synonym path = "path_component list"

text \<open>The components of a Unix path, as \<^verbatim>\<open>std::path\<close> reads and compares it.\<close>

fun split_on :: "char \<Rightarrow> string \<Rightarrow> string list" where
  "split_on sep [] = [[]]"
| "split_on sep (c # cs) =
     (let parts = split_on sep cs in if c = sep then [] # parts else (c # hd parts) # tl parts)"

definition path_of :: "string \<Rightarrow> path" where
  "path_of s =
     (let parts = split_on CHR 0x2F s;
          component = (\<lambda>part. if part = ''..'' then ParentDir else Normal part);
          start = (if s \<noteq> [] \<and> hd parts = [] then [RootDir] else if hd parts = ''.'' then [CurDir] else [])
      in start @ map component (filter (\<lambda>part. part \<noteq> [] \<and> part \<noteq> ''.'') parts))"

lemma path_of_example:
  "path_of ''/etc//lb/./config.json'' = [RootDir, Normal ''etc'', Normal ''lb'', Normal ''config.json'']"
  "path_of ''./lb.json'' = [CurDir, Normal ''lb.json'']" "path_of [] = []"
  by (simp_all add: path_of_def)

definition file_name :: "path \<Rightarrow> string option" where
  "file_name p = (case rev p of Normal n # _ \<Rightarrow> Some n | _ \<Rightarrow> None)"

datatype event_kind = Modify | Create | Remove | OtherKind

record fs_event =
  ev_kind :: event_kind
  ev_paths :: "path list"

definition is_relevant_event :: "fs_event \<Rightarrow> path \<Rightarrow> bool" where
  "is_relevant_event ev config_path =
     (if ev_kind ev \<notin> {Modify, Create, Remove} then False
      else let config_name = file_name config_path
           in list_ex (\<lambda>p. p = config_path \<or> (config_name \<noteq> None \<and> file_name p = config_name)) (ev_paths ev))"

text \<open>\<open>file\<close> is the outcome of reading the configuration file at that moment.\<close>

definition try_reload ::
    "(string \<Rightarrow> string + lb_config) \<Rightarrow> (lb_config \<Rightarrow> string list) \<Rightarrow> string + string \<Rightarrow>
     watch_error + lb_config" where
  "try_reload from_json order file =
     (case load_from_file from_json file of
        Inl e \<Rightarrow> Inl (LoadFailed e)
      | Inr c \<Rightarrow> (case validate_config order c of Inl e \<Rightarrow> Inl e | Inr _ \<Rightarrow> Inr c))"

text \<open>\<^verbatim>\<open>ConfigWatcher::new\<close>: the initial load, then the registration of the watch.\<close>

definition watcher_new ::
    "(string \<Rightarrow> string + lb_config) \<Rightarrow> (lb_config \<Rightarrow> string list) \<Rightarrow> string + string \<Rightarrow> string option \<Rightarrow>
     string option \<Rightarrow> watch_error + lb_config" where
  "watcher_new from_json order file init_fails watch_fails =
     (case try_reload from_json order file of
        Inl e \<Rightarrow> Inl e
      | Inr c \<Rightarrow>
          (case init_fails of
             Some e \<Rightarrow> Inl (WatcherInit e)
           | None \<Rightarrow> (case watch_fails of Some e \<Rightarrow> Inl (WatcherInit e) | None \<Rightarrow> Inr c)))"

text \<open>
  One turn of \<^verbatim>\<open>wait_for_change\<close>: the shutdown flag as read, and what the channel gave within
  200 ms (with the file's contents at that moment, should the event lead to a reload).
\<close>

datatype poll =
    GotEvent fs_event "string + string"
  | WatchError string
  | PollTimeout
  | Disconnected

fun wait_for_change ::
    "(string \<Rightarrow> string + lb_config) \<Rightarrow> (lb_config \<Rightarrow> string list) \<Rightarrow> path \<Rightarrow> (bool \<times> poll) list \<Rightarrow>
     lb_config option option" where
  "wait_for_change from_json order config_path [] = None"
| "wait_for_change from_json order config_path ((shutdown, p) # turns) =
     (if shutdown then Some None
      else case p of
        GotEvent ev file \<Rightarrow>
          if \<not> is_relevant_event ev config_path then wait_for_change from_json order config_path turns
          else (case try_reload from_json order file of
                  Inr c \<Rightarrow> Some (Some c)
                | Inl _ \<Rightarrow> wait_for_change from_json order config_path turns)
      | WatchError _ \<Rightarrow> wait_for_change from_json order config_path turns
      | PollTimeout \<Rightarrow> wait_for_change from_json order config_path turns
      | Disconnected \<Rightarrow> Some None)"

lemma try_reload_valid:
  assumes "set (order c) = dom (pool_map c)" and "try_reload from_json order file = Inr c"
  shows "valid_config c \<and> (\<exists>json. file = Inr json \<and> from_json json = Inr c)"
  using assms validate_config_ok [of order c]
  by (auto simp: try_reload_def load_from_file_def split: sum.splits)

text \<open>
  C38. Neither the start nor any sequence of file events makes the watcher hand on a
  configuration that is not valid: every referenced pool exists, no pool is empty and the VIP
  ids are distinct. What it hands on is what the file held, and a change of the file that
  cannot be read, parsed or validated leaves the previous configuration in force.
\<close>

theorem watcher_configs_valid:
  assumes "\<And>c'. set (order c') = dom (pool_map c')"
  shows "(watcher_new from_json order file e1 e2 = Inr c \<longrightarrow> valid_config c) \<and>
    (wait_for_change from_json order config_path turns = Some (Some c) \<longrightarrow>
       valid_config c \<and>
       (\<exists>ev json. (False, GotEvent ev (Inr json)) \<in> set turns \<and> is_relevant_event ev config_path \<and>
          from_json json = Inr c))"
proof
  show "watcher_new from_json order file e1 e2 = Inr c \<longrightarrow> valid_config c"
    using try_reload_valid [where order = order, OF assms] by (auto simp: watcher_new_def split: sum.splits option.splits)
  show "wait_for_change from_json order config_path turns = Some (Some c) \<longrightarrow>
       valid_config c \<and>
       (\<exists>ev json. (False, GotEvent ev (Inr json)) \<in> set turns \<and> is_relevant_event ev config_path \<and>
          from_json json = Inr c)"
  proof (induction turns)
    case (Cons turn turns)
    obtain shutdown p where turn: "turn = (shutdown, p)" by (cases turn)
    show ?case
    proof (cases p)
      case (GotEvent ev contents)
      show ?thesis
      proof (cases "try_reload from_json order contents")
        case (Inr c')
        from try_reload_valid [where order = order, OF assms Inr] obtain json where
          "valid_config c'" "contents = Inr json" "from_json json = Inr c'" by blast
        with Cons turn GotEvent Inr show ?thesis by (cases "is_relevant_event ev config_path") auto
      qed (use Cons turn GotEvent in auto)
    qed (use Cons turn in auto)
  qed simp
qed


subsection \<open>The applier\<close>

text \<open>A backend takes part unless it is drained or declared unhealthy.\<close>

definition usable :: "(ip_addr \<rightharpoonup> health_status) \<Rightarrow> backend \<Rightarrow> bool" where
  "usable health b =
     (if be_drain b then False
      else (case health (be_ip b) of Some s \<Rightarrow> s \<noteq> Unhealthy | None \<Rightarrow> True))"

definition active_backends :: "(ip_addr \<rightharpoonup> health_status) \<Rightarrow> backend list \<Rightarrow> backend list" where
  "active_backends health bs = filter (usable health) bs"

text \<open>The backends a pool's table is built from: the usable ones, or all when there is none.\<close>

definition table_backends :: "(ip_addr \<rightharpoonup> health_status) \<Rightarrow> backend_pool \<Rightarrow> backend list" where
  "table_backends health p =
     (if active_backends health (pool_backends p) = [] then pool_backends p
      else active_backends health (pool_backends p))"

type_synonym lookup_tables = "backend_pool_id \<rightharpoonup> lookup_table"

fun tables_loop ::
    "(u8 list \<Rightarrow> u64 \<Rightarrow> u64) \<Rightarrow> (ip_addr \<rightharpoonup> health_status) \<Rightarrow> nat \<Rightarrow> backend_pool list \<Rightarrow> lookup_tables \<Rightarrow>
     lookup_tables panics" where
  "tables_loop xxh3 health m [] tables = Some tables"
| "tables_loop xxh3 health m (p # ps) tables = do {
     t \<leftarrow> build_table xxh3 (table_backends health p) m;
     tables_loop xxh3 health m ps
       (case t of Inr table \<Rightarrow> tables(pool_id p \<mapsto> table) | Inl _ \<Rightarrow> tables)
   }"

definition build_lookup_tables_for_pools ::
    "(u8 list \<Rightarrow> u64 \<Rightarrow> u64) \<Rightarrow> backend_pool list \<Rightarrow> (ip_addr \<rightharpoonup> health_status) \<Rightarrow> nat \<Rightarrow>
     lookup_tables panics" where
  "build_lookup_tables_for_pools xxh3 pools health m = tables_loop xxh3 health m pools Map.empty"

definition build_lookup_tables ::
    "(u8 list \<Rightarrow> u64 \<Rightarrow> u64) \<Rightarrow> lb_config \<Rightarrow> (ip_addr \<rightharpoonup> health_status) \<Rightarrow> nat \<Rightarrow>
     lookup_tables panics" where
  "build_lookup_tables xxh3 config health m = build_lookup_tables_for_pools xxh3 (lc_pools config) health m"

text \<open>The reverse index; an address without pools has no entry.\<close>

definition index_add :: "backend_pool_id \<Rightarrow> backend \<Rightarrow> (ip_addr \<rightharpoonup> backend_pool_id set) \<Rightarrow>
    (ip_addr \<rightharpoonup> backend_pool_id set)" where
  "index_add pid b index =
     index(be_ip b \<mapsto> insert pid (case index (be_ip b) of Some ids \<Rightarrow> ids | None \<Rightarrow> {}))"

definition build_backend_pool_index :: "lb_config \<Rightarrow> (ip_addr \<rightharpoonup> backend_pool_id set)" where
  "build_backend_pool_index config =
     fold (\<lambda>p index. fold (index_add (pool_id p)) (pool_backends p) index) (lc_pools config) Map.empty"

definition apply_tables :: "lookup_tables \<Rightarrow> lookup_tables \<Rightarrow> lookup_tables" where
  "apply_tables updates shared = shared ++ updates"

definition replace_tables :: "lookup_tables \<Rightarrow> lookup_tables \<Rightarrow> lookup_tables" where
  "replace_tables new_tables shared = new_tables"

subsection \<open>What the applier builds\<close>

lemma index_add_fold:
  "fold (index_add pid) bs index ip =
     (if ip \<in> be_ip ` set bs
      then Some (insert pid (case index ip of Some ids \<Rightarrow> ids | None \<Rightarrow> {})) else index ip)"
proof (induction bs arbitrary: index)
  case (Cons b bs)
  show ?case
    unfolding fold_simps comp_apply
    by (subst Cons.IH) (auto simp: index_add_def split: option.splits)
qed simp

lemma index_fold:
  "fold (\<lambda>p. fold (index_add (pool_id p)) (pool_backends p)) ps index ip =
     (if \<exists>p \<in> set ps. ip \<in> be_ip ` set (pool_backends p)
      then Some ({pool_id p | p. p \<in> set ps \<and> ip \<in> be_ip ` set (pool_backends p)} \<union>
                 (case index ip of Some ids \<Rightarrow> ids | None \<Rightarrow> {}))
      else index ip)"
proof (induction ps arbitrary: index)
  case (Cons p ps)
  show ?case
    unfolding fold_simps comp_apply
    by (subst Cons.IH) (auto simp: index_add_fold split: option.splits)
qed simp

text \<open>The reverse index gives exactly the pools an address is in.\<close>

lemma build_backend_pool_index_spec:
  "build_backend_pool_index c ip =
     (let ids = {pool_id p | p. p \<in> set (lc_pools c) \<and> ip \<in> be_ip ` set (pool_backends p)}
      in if ids = {} then None else Some ids)"
  unfolding build_backend_pool_index_def Let_def
  by (subst index_fold) auto

text \<open>The table of one pool by itself, \<^const>\<open>None\<close> when it cannot be built.\<close>

definition pool_table ::
    "(u8 list \<Rightarrow> u64 \<Rightarrow> u64) \<Rightarrow> (ip_addr \<rightharpoonup> health_status) \<Rightarrow> nat \<Rightarrow> backend_pool \<Rightarrow> lookup_table option" where
  "pool_table xxh3 health m p =
     (case build_table xxh3 (table_backends health p) m of Some (Inr t) \<Rightarrow> Some t | _ \<Rightarrow> None)"

definition sized_config :: "nat \<Rightarrow> backend_pool list \<Rightarrow> bool" where
  "sized_config m ps \<longleftrightarrow> is_prime m \<and> m < 2 ^ 32 \<and> (\<forall>p \<in> set ps. length (pool_backends p) < 2 ^ 63)"

lemma table_backends_length: "length (table_backends health p) \<le> length (pool_backends p)"
  by (simp add: table_backends_def active_backends_def)

lemma build_table_returns:
  assumes "is_prime m" and "m < 2 ^ 32" and "length bs < 2 ^ 63"
  shows "\<exists>r. build_table xxh3 bs m = Some r"
proof (cases "filter (\<lambda>b. 0 < be_weight b) bs = []")
  case False
  have "length (filter (\<lambda>b. 0 < be_weight b) bs) < USIZE_MAX"
    using assms(3) length_filter_le le_less_trans USIZE_bound by blast
  from build_table_ok [OF assms(1,2) False this, of xxh3] show ?thesis by blast
qed (simp add: build_table_def)

lemma sized_build:
  assumes "sized_config m ps" and "p \<in> set ps"
  shows "\<exists>r. build_table xxh3 (table_backends health p) m = Some r"
proof -
  have "length (table_backends health p) < 2 ^ 63"
    using assms table_backends_length [of health p] by (auto simp: sized_config_def intro: le_less_trans)
  with assms show ?thesis by (intro build_table_returns) (auto simp: sized_config_def)
qed

lemma tables_loop_ok:
  assumes "sized_config m ps"
  shows "tables_loop xxh3 health m ps tables =
    Some (fold (\<lambda>p ts. case pool_table xxh3 health m p of Some t \<Rightarrow> ts(pool_id p \<mapsto> t) | None \<Rightarrow> ts) ps tables)"
  using assms
proof (induction ps arbitrary: tables)
  case (Cons p ps)
  obtain r where r: "build_table xxh3 (table_backends health p) m = Some r"
    using sized_build [OF Cons.prems, of p] by auto
  have "sized_config m ps" using Cons.prems by (simp add: sized_config_def)
  with Cons.IH r show ?case by (cases r) (simp_all add: pool_table_def)
qed simp

lemma tables_fold:
  assumes "distinct (map pool_id ps)"
  shows "fold (\<lambda>p ts. case pool_table xxh3 health m p of Some t \<Rightarrow> ts(pool_id p \<mapsto> t) | None \<Rightarrow> ts) ps tables pid =
    (case find (\<lambda>p. pool_id p = pid) ps of
       Some p \<Rightarrow> (case pool_table xxh3 health m p of Some t \<Rightarrow> Some t | None \<Rightarrow> tables pid)
     | None \<Rightarrow> tables pid)"
  using assms
proof (induction ps arbitrary: tables)
  case (Cons p ps)
  show ?case
  proof (cases "pool_id p = pid")
    case True
    with Cons.prems have "pid \<notin> pool_id ` set ps" by simp
    then have "find (\<lambda>p. pool_id p = pid) ps = None"
      unfolding find_None_iff by blast
    with Cons True show ?thesis by (simp split: option.splits)
  next
    case False
    with Cons show ?thesis by (simp split: option.splits)
  qed
qed simp

lemma tables_for_pools:
  assumes "sized_config m ps" and "distinct (map pool_id ps)"
  shows "\<exists>T. build_lookup_tables_for_pools xxh3 ps health m = Some T \<and>
    (\<forall>p \<in> set ps. T (pool_id p) = pool_table xxh3 health m p) \<and>
    dom T \<subseteq> pool_id ` set ps"
proof -
  define T where "T = fold (\<lambda>p ts. case pool_table xxh3 health m p of Some t \<Rightarrow> ts(pool_id p \<mapsto> t) | None \<Rightarrow> ts) ps Map.empty"
  have T: "T pid = (case find (\<lambda>p. pool_id p = pid) ps of Some p \<Rightarrow> pool_table xxh3 health m p | None \<Rightarrow> None)" for pid
    unfolding T_def by (subst tables_fold [OF assms(2)]) (simp split: option.splits)
  have "T (pool_id p) = pool_table xxh3 health m p" if "p \<in> set ps" for p
  proof -
    from that obtain q where q: "find (\<lambda>q. pool_id q = pool_id p) ps = Some q"
      by (cases "find (\<lambda>q. pool_id q = pool_id p) ps") (auto simp: find_None_iff)
    then have "q \<in> set ps" "pool_id q = pool_id p" by (auto simp: find_Some_iff)
    with assms(2) that have "q = p" by (meson distinct_map inj_on_eq_iff)
    with q T show ?thesis by simp
  qed
  moreover have "dom T \<subseteq> pool_id ` set ps"
    by (auto simp: T find_Some_iff split: option.splits)
  ultimately show ?thesis
    unfolding build_lookup_tables_for_pools_def
    by (intro exI [of _ T]) (simp add: tables_loop_ok [OF assms(1)] T_def)
qed

text \<open>
  Building the tables of a configuration with distinct pool ids always returns. A pool
  gets a table exactly when a backend it is built from has positive weight, and that table
  sends traffic to exactly those backends: the usable ones, that is neither drained nor
  unhealthy, unless the pool has none, when all take part.
\<close>

theorem build_lookup_tables_spec:
  assumes "sized_config m (lc_pools c)" and "distinct (map pool_id (lc_pools c))"
  shows "\<exists>T. build_lookup_tables xxh3 c health m = Some T \<and> dom T \<subseteq> pool_id ` set (lc_pools c) \<and>
    (\<forall>p \<in> set (lc_pools c).
       let eligible = (if \<exists>b \<in> set (pool_backends p). usable health b
                       then filter (usable health) (pool_backends p) else pool_backends p)
       in (case T (pool_id p) of
             None \<Rightarrow> \<forall>b \<in> set eligible. be_weight b = 0
           | Some t \<Rightarrow> lt_backends t = filter (\<lambda>b. 0 < be_weight b) eligible \<and> lt_backends t \<noteq> [] \<and>
               lt_table_size t = m \<and> (\<forall>h. \<exists>b. table_lookup t h = Some b \<and> b \<in> set (lt_backends t))))"
proof -
  from tables_for_pools [OF assms, of xxh3 health] obtain T where
    T: "build_lookup_tables xxh3 c health m = Some T" "dom T \<subseteq> pool_id ` set (lc_pools c)"
      "\<forall>p \<in> set (lc_pools c). T (pool_id p) = pool_table xxh3 health m p"
    by (auto simp: build_lookup_tables_def)
  have "let eligible = (if \<exists>b \<in> set (pool_backends p). usable health b
                       then filter (usable health) (pool_backends p) else pool_backends p)
       in (case T (pool_id p) of
             None \<Rightarrow> \<forall>b \<in> set eligible. be_weight b = 0
           | Some t \<Rightarrow> lt_backends t = filter (\<lambda>b. 0 < be_weight b) eligible \<and> lt_backends t \<noteq> [] \<and>
               lt_table_size t = m \<and> (\<forall>h. \<exists>b. table_lookup t h = Some b \<and> b \<in> set (lt_backends t)))"
    if p: "p \<in> set (lc_pools c)" for p
  proof -
    define bs where "bs = table_backends health p"
    have el: "(if \<exists>b \<in> set (pool_backends p). usable health b
               then filter (usable health) (pool_backends p) else pool_backends p) = bs"
      by (simp add: bs_def table_backends_def active_backends_def filter_empty_conv)
    have m: "is_prime m" "m < 2 ^ 32" "length bs < 2 ^ 63"
      using assms(1) p table_backends_length [of health p]
      by (auto simp: sized_config_def bs_def intro: le_less_trans)
    from sized_build [OF assms(1) p, of xxh3 health] obtain r where
      r: "build_table xxh3 bs m = Some r" unfolding bs_def by blast
    show ?thesis
    proof (cases r)
      case (Inl e)
      with r have "filter (\<lambda>b. 0 < be_weight b) bs = []"
        using build_table_ok [OF m(1,2)] m(3)
        by (auto simp: build_table_def Let_def bind_eq_Some_conv split: if_splits)
      then have "\<forall>b \<in> set bs. be_weight b = 0"
        unfolding filter_empty_conv by (metis word_neq_0_conv)
      moreover from r Inl T(3) p have "T (pool_id p) = None" by (simp add: pool_table_def bs_def)
      ultimately show ?thesis by (simp add: el)
    next
      case (Inr t)
      with r have b: "build_table xxh3 bs m = Some (Inr t)" by simp
      from build_table_cases [OF m b] have t: "lt_table_size t = m"
        "lt_backends t = filter (\<lambda>b. 0 < be_weight b) bs" by simp_all
      from b have ne: "lt_backends t \<noteq> []" by (auto simp: t(2) build_table_def)
      have "\<exists>b. table_lookup t h = Some b \<and> b \<in> set (lt_backends t)" for h
        using table_lookup_ok [OF build_table_table_ok [OF m b], of h] by metis
      moreover from b T(3) p have "T (pool_id p) = Some t" by (simp add: pool_table_def bs_def)
      ultimately show ?thesis using t ne by (simp add: el)
    qed
  qed
  with T show ?thesis by blast
qed


subsection \<open>A concrete configuration\<close>

text \<open>One VIP on one pool of two backends, the second of them drained.\<close>

definition sample_pool :: backend_pool where
  "sample_pool = \<lparr>pool_id = ''web'',
     pool_backends = [backend_new (V4 (Ipv4 10 0 0 1)) 80,
                      (backend_new (V4 (Ipv4 10 0 0 2)) 80)\<lparr>be_drain := True\<rparr>],
     pool_health_check = None\<rparr>"

definition sample_vip :: vip where
  "sample_vip = \<lparr>vip_ident = ''v'', vip_address = V4 (Ipv4 10 9 0 1),
     vip_services = [\<lparr>svc_protocol = Tcp, svc_port = 80, svc_backend_pool = ''web''\<rparr>],
     vip_owner = ''ops'', vip_description = []\<rparr>"

definition sample_lb_config :: lb_config where
  "sample_lb_config = \<lparr>lc_vips = [sample_vip], lc_pools = [sample_pool]\<rparr>"

lemma watcher_configs_valid_witness:
  "watcher_new (\<lambda>_. Inr sample_lb_config) (\<lambda>c. map pool_id (lc_pools c)) (Inr []) None None =
     Inr sample_lb_config \<and> valid_config sample_lb_config"
proof -
  have order: "set (map pool_id (lc_pools c)) = dom (pool_map c)" for c
    by (simp add: set_eq_iff dom_pool_map image_iff eq_commute)
  have "watcher_new (\<lambda>_. Inr sample_lb_config) (\<lambda>c. map pool_id (lc_pools c)) (Inr []) None None =
     Inr sample_lb_config"
    by (simp add: watcher_new_def try_reload_def load_from_file_def validate_config_def validate_def
        dangling_errors_def pool_map_def sample_lb_config_def sample_vip_def sample_pool_def)
  with watcher_configs_valid [of "\<lambda>c. map pool_id (lc_pools c)" "\<lambda>_. Inr sample_lb_config" "Inr []"
      None None sample_lb_config, OF order] show ?thesis by blast
qed

lemma sample_sized: "sized_config 7 (lc_pools sample_lb_config)"
  using is_prime_7 by (simp add: sized_config_def sample_lb_config_def sample_pool_def)

lemma build_lookup_tables_spec_witness:
  "\<exists>T t. build_lookup_tables (\<lambda>name seed. seed + 5) sample_lb_config Map.empty 7 = Some T \<and>
     T ''web'' = Some t \<and> lt_backends t = [backend_new (V4 (Ipv4 10 0 0 1)) 80]"
proof -
  have "distinct (map pool_id (lc_pools sample_lb_config))" by (simp add: sample_lb_config_def)
  from build_lookup_tables_spec [OF sample_sized this, of "\<lambda>name seed. seed + 5" Map.empty]
  obtain T where T: "build_lookup_tables (\<lambda>name seed. seed + 5) sample_lb_config Map.empty 7 = Some T"
    and p: "\<forall>p \<in> set (lc_pools sample_lb_config).
       let eligible = (if \<exists>b \<in> set (pool_backends p). usable Map.empty b
                       then filter (usable Map.empty) (pool_backends p) else pool_backends p)
       in (case T (pool_id p) of
             None \<Rightarrow> \<forall>b \<in> set eligible. be_weight b = 0
           | Some t \<Rightarrow> lt_backends t = filter (\<lambda>b. 0 < be_weight b) eligible \<and> lt_backends t \<noteq> [] \<and>
               lt_table_size t = 7 \<and> (\<forall>h. \<exists>b. table_lookup t h = Some b \<and> b \<in> set (lt_backends t)))"
    by blast
  from p have "case T ''web'' of None \<Rightarrow> False
      | Some t \<Rightarrow> lt_backends t = [backend_new (V4 (Ipv4 10 0 0 1)) 80]"
    by (simp add: sample_lb_config_def sample_pool_def usable_def backend_new_def split: option.splits)
  with T show ?thesis by (auto split: option.splits)
qed

text \<open>
  The fallback to all backends looks at drain and health only: a pool whose usable backends all
  have weight zero gets no table, although a drained one with weight could serve.
\<close>

lemma zero_weight_pool_without_table:
  assumes "usable health a" and "be_weight a = 0" and "\<not> usable health b"
  shows "pool_table xxh3 health m \<lparr>pool_id = pid, pool_backends = [a, b], pool_health_check = hc\<rparr> = None"
  using assms by (simp add: pool_table_def table_backends_def active_backends_def build_table_def)

end
