(* ===== verification/Controller.thy ===== *)
theory Controller
  imports BgpSpeaker ConfigManager
begin

text \<open>
  The control-plane orchestrator (crate lb-controller, orchestrator.rs): it owns the current
  configuration, rebuilds Maglev tables on configuration changes at once and on health changes
  after a debounce window, and keeps the set of announced VIPs in step with the pools' health.

  The BGP announcer behind \<^verbatim>\<open>dyn BgpAnnouncer\<close> is a state \<open>'b\<close> with the operations in \<open>ops\<close>; the
  controller's lemmas about it are proved in the locale \<^verbatim>\<open>bgp_announcer\<close> and used for the
  speaker. The shared maps (\<^verbatim>\<open>LookupTables\<close>, the health map) are fields of the state, as the
  controller is their only writer. A \<^verbatim>\<open>BTreeSet\<close> is a set, listed in the order of addresses.
\<close>

definition DEBOUNCE_WINDOW :: duration where "DEBOUNCE_WINDOW = 50000000"

record 'b announcer_ops =
  op_announce :: "ipv4_addr list \<Rightarrow> 'b \<Rightarrow> 'b"
  op_withdraw :: "ipv4_addr list \<Rightarrow> 'b \<Rightarrow> 'b"

record 'b controller =
  ct_lookup_tables :: lookup_tables
  ct_health_status :: "ip_addr \<rightharpoonup> health_status"
  ct_config :: "lb_config option"
  ct_backend_pool_index :: "ip_addr \<rightharpoonup> backend_pool_id set"
  ct_pending_pools :: "backend_pool_id set"
  ct_pending_since :: "instant option"
  ct_cache_path :: "string option"
  ct_table_size :: nat
  ct_bgp :: "'b option"
  ct_vips_announced :: "ipv4_addr set"

definition controller_new :: "lookup_tables \<Rightarrow> (ip_addr \<rightharpoonup> health_status) \<Rightarrow> nat \<Rightarrow> 'b controller" where
  "controller_new tables health m =
     \<lparr>ct_lookup_tables = tables, ct_health_status = health, ct_config = None,
      ct_backend_pool_index = Map.empty, ct_pending_pools = {}, ct_pending_since = None,
      ct_cache_path = None, ct_table_size = m, ct_bgp = None, ct_vips_announced = {}\<rparr>"

definition with_cache_path :: "string \<Rightarrow> 'b controller \<Rightarrow> 'b controller" where
  "with_cache_path p c = c\<lparr>ct_cache_path := Some p\<rparr>"

definition with_bgp :: "'b \<Rightarrow> 'b controller \<Rightarrow> 'b controller" where
  "with_bgp b c = c\<lparr>ct_bgp := Some b\<rparr>"

definition reannounce_all :: "'b announcer_ops \<Rightarrow> 'b controller \<Rightarrow> 'b controller" where
  "reannounce_all ops c =
     (case ct_bgp c of
        None \<Rightarrow> c
      | Some b \<Rightarrow>
          let vips = sorted_list_of_set (ct_vips_announced c)
          in if vips \<noteq> [] then c\<lparr>ct_bgp := Some (op_announce ops vips b)\<rparr> else c)"

definition withdraw_all :: "'b announcer_ops \<Rightarrow> 'b controller \<Rightarrow> 'b controller" where
  "withdraw_all ops c =
     (case ct_bgp c of
        None \<Rightarrow> c\<lparr>ct_vips_announced := {}\<rparr>
      | Some b \<Rightarrow>
          let vips = sorted_list_of_set (ct_vips_announced c);
              c = c\<lparr>ct_vips_announced := {}\<rparr>
          in if vips \<noteq> [] then c\<lparr>ct_bgp := Some (op_withdraw ops vips b)\<rparr> else c)"

subsection \<open>Which VIPs to announce\<close>

definition any_healthy :: "(ip_addr \<rightharpoonup> health_status) \<Rightarrow> backend_pool \<Rightarrow> bool" where
  "any_healthy health p \<longleftrightarrow>
     list_ex (\<lambda>b. case health (be_ip b) of Some s \<Rightarrow> s \<noteq> Unhealthy | None \<Rightarrow> True) (pool_backends p)"

text \<open>The map from pool ids to whether the pool has a healthy backend, filled in order.\<close>

definition pool_healthy :: "(ip_addr \<rightharpoonup> health_status) \<Rightarrow> backend_pool list \<Rightarrow> (backend_pool_id \<rightharpoonup> bool)" where
  "pool_healthy health ps = fold (\<lambda>p m. m(pool_id p \<mapsto> any_healthy health p)) ps Map.empty"

definition vip_serviceable :: "(backend_pool_id \<rightharpoonup> bool) \<Rightarrow> vip \<Rightarrow> bool" where
  "vip_serviceable healthy v \<longleftrightarrow>
     list_ex (\<lambda>svc. case healthy (svc_backend_pool svc) of Some h \<Rightarrow> h | None \<Rightarrow> False) (vip_services v)"

fun desired_vips :: "(backend_pool_id \<rightharpoonup> bool) \<Rightarrow> vip list \<Rightarrow> ipv4_addr set" where
  "desired_vips healthy [] = {}"
| "desired_vips healthy (v # vs) =
     (case vip_address v of
        V4 a \<Rightarrow> if vip_serviceable healthy v then insert a (desired_vips healthy vs) else desired_vips healthy vs
      | V6 _ \<Rightarrow> desired_vips healthy vs)"

definition desired_announced_vips :: "'b controller \<Rightarrow> ipv4_addr set" where
  "desired_announced_vips c =
     (case ct_config c of
        None \<Rightarrow> {}
      | Some config \<Rightarrow>
          desired_vips (pool_healthy (ct_health_status c) (lc_pools config)) (lc_vips config))"

definition sync_bgp_announcements :: "'b announcer_ops \<Rightarrow> 'b controller \<Rightarrow> 'b controller" where
  "sync_bgp_announcements ops c =
     (case ct_bgp c of
        None \<Rightarrow> c
      | Some b \<Rightarrow>
          let desired = desired_announced_vips c;
              to_announce = sorted_list_of_set (desired - ct_vips_announced c);
              to_withdraw = sorted_list_of_set (ct_vips_announced c - desired);
              b = (if to_announce \<noteq> [] then op_announce ops to_announce b else b);
              b = (if to_withdraw \<noteq> [] then op_withdraw ops to_withdraw b else b)
          in c\<lparr>ct_bgp := Some b, ct_vips_announced := desired\<rparr>)"

subsection \<open>Configuration and health changes\<close>

text \<open>
  The result of the cache write is only logged; \<open>saved\<close> gives it so that the new contents of
  the cache file are part of the result.
\<close>

definition apply_config ::
    "(u8 list \<Rightarrow> u64 \<Rightarrow> u64) \<Rightarrow> 'b announcer_ops \<Rightarrow> (string \<Rightarrow> lb_config \<Rightarrow> cache_error + string) \<Rightarrow>
     lb_config \<Rightarrow> 'b controller \<Rightarrow> ('b controller \<times> string option) panics" where
  "apply_config xxh3 ops saved config c =
     (let c = c\<lparr>ct_pending_pools := {}, ct_pending_since := None\<rparr>
      in do {
        new_tables \<leftarrow> build_lookup_tables xxh3 config (ct_health_status c) (ct_table_size c);
        let c = c\<lparr>ct_lookup_tables := replace_tables new_tables (ct_lookup_tables c),
                  ct_backend_pool_index := build_backend_pool_index config\<rparr>;
        let written = (case ct_cache_path c of
                         None \<Rightarrow> None
                       | Some p \<Rightarrow> (case saved p config of Inr contents \<Rightarrow> Some contents | Inl _ \<Rightarrow> None));
        let c = c\<lparr>ct_config := Some config\<rparr>;
        Some (sync_bgp_announcements ops c, written)
      })"

definition flush :: "(u8 list \<Rightarrow> u64 \<Rightarrow> u64) \<Rightarrow> 'b controller \<Rightarrow> 'b controller panics" where
  "flush xxh3 c =
     (if ct_pending_pools c = {} then Some (c\<lparr>ct_pending_since := None\<rparr>)
      else case ct_config c of
        None \<Rightarrow> Some (c\<lparr>ct_pending_pools := {}, ct_pending_since := None\<rparr>)
      | Some config \<Rightarrow>
          let affected_pools = filter (\<lambda>p. pool_id p \<in> ct_pending_pools c) (lc_pools config)
          in do {
            c \<leftarrow> (if affected_pools \<noteq> []
                  then do {
                    new_tables \<leftarrow> build_lookup_tables_for_pools xxh3 affected_pools
                                    (ct_health_status c) (ct_table_size c);
                    Some (c\<lparr>ct_lookup_tables := apply_tables new_tables (ct_lookup_tables c)\<rparr>)
                  }
                  else Some c);
            Some (c\<lparr>ct_pending_pools := {}, ct_pending_since := None\<rparr>)
          })"

definition maybe_flush :: "(u8 list \<Rightarrow> u64 \<Rightarrow> u64) \<Rightarrow> instant \<Rightarrow> 'b controller \<Rightarrow> 'b controller panics" where
  "maybe_flush xxh3 now c =
     (case ct_pending_since c of
        None \<Rightarrow> Some c
      | Some since \<Rightarrow> if DEBOUNCE_WINDOW \<le> duration_since now since then flush xxh3 c else Some c)"

text \<open>The clock is read when the window opens and again when it is tested.\<close>

definition on_health_change ::
    "(u8 list \<Rightarrow> u64 \<Rightarrow> u64) \<Rightarrow> 'b announcer_ops \<Rightarrow> ip_addr \<Rightarrow> health_status \<Rightarrow> instant \<Rightarrow> instant \<Rightarrow>
     'b controller \<Rightarrow> 'b controller panics" where
  "on_health_change xxh3 ops backend_ip status now now' c =
     (let c = c\<lparr>ct_health_status := (ct_health_status c)(backend_ip \<mapsto> status)\<rparr>;
          c = (case ct_backend_pool_index c backend_ip of
                 None \<Rightarrow> c
               | Some pool_ids \<Rightarrow>
                   let c = c\<lparr>ct_pending_pools := ct_pending_pools c \<union> pool_ids\<rparr>
                   in if ct_pending_since c = None then c\<lparr>ct_pending_since := Some now\<rparr> else c);
          c = sync_bgp_announcements ops c
      in maybe_flush xxh3 now' c)"

definition tick :: "(u8 list \<Rightarrow> u64 \<Rightarrow> u64) \<Rightarrow> instant \<Rightarrow> 'b controller \<Rightarrow> 'b controller panics" where
  "tick xxh3 now c = maybe_flush xxh3 now c"

definition has_pending_rebuilds :: "'b controller \<Rightarrow> bool" where
  "has_pending_rebuilds c \<longleftrightarrow> ct_pending_since c \<noteq> None"

definition flush_pending :: "(u8 list \<Rightarrow> u64 \<Rightarrow> u64) \<Rightarrow> 'b controller \<Rightarrow> 'b controller panics" where
  "flush_pending xxh3 c = flush xxh3 c"

text \<open>The operations as the node calls them, in any order.\<close>

datatype ctl_op =
    ApplyConfig lb_config
  | HealthChange ip_addr health_status instant instant
  | Tick instant
  | FlushPending
  | ReannounceAll
  | WithdrawAll

definition ctl_step ::
    "(u8 list \<Rightarrow> u64 \<Rightarrow> u64) \<Rightarrow> 'b announcer_ops \<Rightarrow> (string \<Rightarrow> lb_config \<Rightarrow> cache_error + string) \<Rightarrow>
     ctl_op \<Rightarrow> 'b controller \<Rightarrow> 'b controller panics" where
  "ctl_step xxh3 ops saved p c =
     (case p of
        ApplyConfig config \<Rightarrow> map_option fst (apply_config xxh3 ops saved config c)
      | HealthChange ip s now now' \<Rightarrow> on_health_change xxh3 ops ip s now now' c
      | Tick now \<Rightarrow> tick xxh3 now c
      | FlushPending \<Rightarrow> flush_pending xxh3 c
      | ReannounceAll \<Rightarrow> Some (reannounce_all ops c)
      | WithdrawAll \<Rightarrow> Some (withdraw_all ops c))"

fun ctl_steps ::
    "(u8 list \<Rightarrow> u64 \<Rightarrow> u64) \<Rightarrow> 'b announcer_ops \<Rightarrow> (string \<Rightarrow> lb_config \<Rightarrow> cache_error + string) \<Rightarrow>
     ctl_op list \<Rightarrow> 'b controller \<Rightarrow> 'b controller panics" where
  "ctl_steps xxh3 ops saved [] c = Some c"
| "ctl_steps xxh3 ops saved (p # ps) c = do {
     c \<leftarrow> ctl_step xxh3 ops saved p c;
     ctl_steps xxh3 ops saved ps c
   }"


subsection \<open>The tables follow the health of the backends\<close>

definition config_ok :: "nat \<Rightarrow> lb_config \<Rightarrow> bool" where
  "config_ok m cfg \<longleftrightarrow> sized_config m (lc_pools cfg) \<and> distinct (map pool_id (lc_pools cfg))"

text \<open>The shared table of a pool is the one a build from the current health gives.\<close>

definition table_current :: "(u8 list \<Rightarrow> u64 \<Rightarrow> u64) \<Rightarrow> 'b controller \<Rightarrow> backend_pool \<Rightarrow> bool" where
  "table_current xxh3 c p \<longleftrightarrow>
     (\<forall>t. pool_table xxh3 (ct_health_status c) (ct_table_size c) p = Some t \<longrightarrow>
          ct_lookup_tables c (pool_id p) = Some t)"

definition ctl_inv :: "(u8 list \<Rightarrow> u64 \<Rightarrow> u64) \<Rightarrow> 'b controller \<Rightarrow> bool" where
  "ctl_inv xxh3 c \<longleftrightarrow> (ct_pending_since c = None \<longleftrightarrow> ct_pending_pools c = {}) \<and>
     (case ct_config c of
        None \<Rightarrow> ct_backend_pool_index c = Map.empty
      | Some cfg \<Rightarrow> config_ok (ct_table_size c) cfg \<and>
          ct_backend_pool_index c = build_backend_pool_index cfg \<and>
          (\<forall>p \<in> set (lc_pools cfg). pool_id p \<in> ct_pending_pools c \<or> table_current xxh3 c p))"

lemma sync_fields [simp]:
  "ct_lookup_tables (sync_bgp_announcements ops c) = ct_lookup_tables c"
  "ct_health_status (sync_bgp_announcements ops c) = ct_health_status c"
  "ct_config (sync_bgp_announcements ops c) = ct_config c"
  "ct_backend_pool_index (sync_bgp_announcements ops c) = ct_backend_pool_index c"
  "ct_pending_pools (sync_bgp_announcements ops c) = ct_pending_pools c"
  "ct_pending_since (sync_bgp_announcements ops c) = ct_pending_since c"
  "ct_table_size (sync_bgp_announcements ops c) = ct_table_size c"
  by (simp_all add: sync_bgp_announcements_def Let_def split: option.splits)

lemma ctl_inv_sync [simp]: "ctl_inv xxh3 (sync_bgp_announcements ops c) = ctl_inv xxh3 c"
  by (cases "ct_config c") (simp_all add: ctl_inv_def table_current_def)

text \<open>What a flush gives: every table current, nothing pending, the rest unchanged.\<close>

definition flushed :: "(u8 list \<Rightarrow> u64 \<Rightarrow> u64) \<Rightarrow> 'b controller \<Rightarrow> 'b controller \<Rightarrow> bool" where
  "flushed xxh3 c c' \<longleftrightarrow> ctl_inv xxh3 c' \<and> ct_pending_pools c' = {} \<and>
     (\<exists>tables. c' = c\<lparr>ct_lookup_tables := tables, ct_pending_pools := {}, ct_pending_since := None\<rparr>)"

lemma flush_ok:
  assumes "ctl_inv xxh3 c"
  shows "\<exists>c'. flush xxh3 c = Some c' \<and> flushed xxh3 c c'"
proof (cases "ct_pending_pools c = {} \<or> ct_config c = None")
  case True
  then have "flush xxh3 c = Some (c\<lparr>ct_pending_pools := {}, ct_pending_since := None\<rparr>)"
    using assms by (auto simp: flush_def)
  moreover have "flushed xxh3 c (c\<lparr>ct_pending_pools := {}, ct_pending_since := None\<rparr>)"
    unfolding flushed_def
  proof (intro conjI exI)
    show "ctl_inv xxh3 (c\<lparr>ct_pending_pools := {}, ct_pending_since := None\<rparr>)"
      using assms True by (auto simp: ctl_inv_def table_current_def split: option.splits)
    show "c\<lparr>ct_pending_pools := {}, ct_pending_since := None\<rparr> =
      c\<lparr>ct_lookup_tables := ct_lookup_tables c, ct_pending_pools := {}, ct_pending_since := None\<rparr>" by simp
  qed simp
  ultimately show ?thesis by blast
next
  case False
  then obtain cfg where cfg: "ct_config c = Some cfg" and pend: "ct_pending_pools c \<noteq> {}" by auto
  define affected where "affected = filter (\<lambda>p. pool_id p \<in> ct_pending_pools c) (lc_pools cfg)"
  have ok: "sized_config (ct_table_size c) affected" "distinct (map pool_id affected)"
    using assms cfg by (auto simp: ctl_inv_def config_ok_def sized_config_def affected_def distinct_map_filter)
  from tables_for_pools [OF ok, of xxh3 "ct_health_status c"] obtain T where
    T: "build_lookup_tables_for_pools xxh3 affected (ct_health_status c) (ct_table_size c) = Some T"
      "\<And>p. p \<in> set affected \<Longrightarrow> T (pool_id p) = pool_table xxh3 (ct_health_status c) (ct_table_size c) p"
      "dom T \<subseteq> pool_id ` set affected" by blast
  define tables where "tables = (if affected \<noteq> [] then apply_tables T (ct_lookup_tables c) else ct_lookup_tables c)"
  define c' where "c' = c\<lparr>ct_lookup_tables := tables, ct_pending_pools := {}, ct_pending_since := None\<rparr>"
  have "flush xxh3 c = Some c'"
    using cfg pend T(1)
    by (simp add: flush_def affected_def [symmetric] tables_def c'_def Let_def)
  moreover have "table_current xxh3 c' p" if p: "p \<in> set (lc_pools cfg)" for p
  proof (cases "pool_id p \<in> ct_pending_pools c")
    case True
    with p have a: "p \<in> set affected" by (simp add: affected_def)
    then have "affected \<noteq> []" by auto
    with T(2) [OF a] show ?thesis
      by (auto simp: table_current_def c'_def tables_def apply_tables_def map_add_def)
  next
    case False
    then have "T (pool_id p) = None" using T(3) by (auto simp: affected_def)
    then have "tables (pool_id p) = ct_lookup_tables c (pool_id p)"
      by (simp add: tables_def apply_tables_def map_add_def)
    with False p assms cfg show ?thesis
      by (auto simp: ctl_inv_def table_current_def c'_def)
  qed
  then have "ctl_inv xxh3 c'" using assms cfg by (simp add: ctl_inv_def c'_def)
  ultimately show ?thesis unfolding flushed_def c'_def by auto
qed

lemma maybe_flush_ok:
  assumes "ctl_inv xxh3 c"
  shows "\<exists>c'. maybe_flush xxh3 now c = Some c' \<and> (c' = c \<or> flushed xxh3 c c') \<and>
    ((\<forall>since. ct_pending_since c = Some since \<longrightarrow> DEBOUNCE_WINDOW \<le> now - since) \<longrightarrow> ct_pending_pools c' = {})"
proof (cases "ct_pending_since c")
  case None
  with assms show ?thesis by (simp add: maybe_flush_def ctl_inv_def)
next
  case (Some since)
  show ?thesis
  proof (cases "DEBOUNCE_WINDOW \<le> now - since")
    case True
    from flush_ok [OF assms] obtain c' where "flush xxh3 c = Some c'" "flushed xxh3 c c'" by blast
    with True Some show ?thesis by (simp add: maybe_flush_def duration_since_def flushed_def)
  next
    case False
    with Some show ?thesis by (simp add: maybe_flush_def duration_since_def)
  qed
qed

lemma pool_table_other_health:
  assumes "ip \<notin> be_ip ` set (pool_backends p)"
  shows "pool_table xxh3 (health(ip \<mapsto> st)) m p = pool_table xxh3 health m p"
proof -
  have "active_backends (health(ip \<mapsto> st)) (pool_backends p) = active_backends health (pool_backends p)"
    unfolding active_backends_def using assms
    by (intro filter_cong) (auto simp: usable_def)
  then show ?thesis by (simp add: pool_table_def table_backends_def)
qed

text \<open>The state of a health change before the window is tested.\<close>

definition mark_health :: "ip_addr \<Rightarrow> health_status \<Rightarrow> instant \<Rightarrow> 'b controller \<Rightarrow> 'b controller" where
  "mark_health ip st now c =
     (let c = c\<lparr>ct_health_status := (ct_health_status c)(ip \<mapsto> st)\<rparr>
      in case ct_backend_pool_index c ip of
           None \<Rightarrow> c
         | Some pool_ids \<Rightarrow>
             let c = c\<lparr>ct_pending_pools := ct_pending_pools c \<union> pool_ids\<rparr>
             in if ct_pending_since c = None then c\<lparr>ct_pending_since := Some now\<rparr> else c)"

lemma on_health_change_eq:
  "on_health_change xxh3 ops ip st now now' c =
   maybe_flush xxh3 now' (sync_bgp_announcements ops (mark_health ip st now c))"
  by (simp add: on_health_change_def mark_health_def Let_def)

lemma mark_health_fields:
  "ct_config (mark_health ip st now c) = ct_config c"
  "ct_table_size (mark_health ip st now c) = ct_table_size c"
  "ct_bgp (mark_health ip st now c) = ct_bgp c"
  "ct_vips_announced (mark_health ip st now c) = ct_vips_announced c"
  "ct_backend_pool_index (mark_health ip st now c) = ct_backend_pool_index c"
  "ct_lookup_tables (mark_health ip st now c) = ct_lookup_tables c"
  "ct_health_status (mark_health ip st now c) = (ct_health_status c)(ip \<mapsto> st)"
  "ct_pending_pools (mark_health ip st now c) =
     ct_pending_pools c \<union> (case ct_backend_pool_index c ip of Some ids \<Rightarrow> ids | None \<Rightarrow> {})"
  by (simp_all add: mark_health_def Let_def split: option.splits)

lemma index_nonempty: "build_backend_pool_index cfg ip = Some ids \<Longrightarrow> ids \<noteq> {}"
  by (auto simp: build_backend_pool_index_spec Let_def split: if_splits)

lemma mark_health_inv:
  assumes "ctl_inv xxh3 c"
  shows "ctl_inv xxh3 (mark_health ip st now c)"
proof (cases "ct_config c")
  case None
  with assms show ?thesis
    by (simp add: ctl_inv_def mark_health_def Let_def)
next
  case (Some cfg)
  let ?c = "mark_health ip st now c"
  have since: "ct_pending_since ?c = None \<longleftrightarrow> ct_pending_pools ?c = {}"
    using assms Some index_nonempty [of cfg ip]
    by (auto simp: ctl_inv_def mark_health_def Let_def split: option.splits)
  have "pool_id p \<in> ct_pending_pools ?c \<or> table_current xxh3 ?c p" if p: "p \<in> set (lc_pools cfg)" for p
  proof (cases "ip \<in> be_ip ` set (pool_backends p)")
    case True
    with p have "\<exists>ids. build_backend_pool_index cfg ip = Some ids \<and> pool_id p \<in> ids"
      unfolding build_backend_pool_index_spec Let_def by auto
    with assms Some show ?thesis by (auto simp: ctl_inv_def mark_health_fields)
  next
    case False
    from pool_table_other_health [OF this] assms Some p show ?thesis
      by (auto simp: ctl_inv_def table_current_def mark_health_fields)
  qed
  with since assms Some show ?thesis by (simp add: ctl_inv_def mark_health_fields)
qed

lemma apply_config_ok:
  assumes "config_ok (ct_table_size c) cfg"
  shows "\<exists>T written. apply_config xxh3 ops saved cfg c = Some (sync_bgp_announcements ops
      (c\<lparr>ct_pending_pools := {}, ct_pending_since := None, ct_lookup_tables := T,
         ct_backend_pool_index := build_backend_pool_index cfg, ct_config := Some cfg\<rparr>), written) \<and>
    ctl_inv xxh3 (c\<lparr>ct_pending_pools := {}, ct_pending_since := None, ct_lookup_tables := T,
         ct_backend_pool_index := build_backend_pool_index cfg, ct_config := Some cfg\<rparr>)"
proof -
  from assms tables_for_pools [of "ct_table_size c" "lc_pools cfg" xxh3 "ct_health_status c"] obtain T where
    T: "build_lookup_tables xxh3 cfg (ct_health_status c) (ct_table_size c) = Some T"
      "\<And>p. p \<in> set (lc_pools cfg) \<Longrightarrow>
         T (pool_id p) = pool_table xxh3 (ct_health_status c) (ct_table_size c) p"
    by (auto simp: config_ok_def build_lookup_tables_def)
  show ?thesis
    by (rule exI [of _ T]) (use assms T in
      \<open>simp add: apply_config_def replace_tables_def ctl_inv_def table_current_def\<close>)
qed

fun op_ok :: "nat \<Rightarrow> ctl_op \<Rightarrow> bool" where
  "op_ok m (ApplyConfig cfg) = config_ok m cfg"
| "op_ok m _ = True"

lemma ctl_step_ok:
  assumes "ctl_inv xxh3 c" and "op_ok (ct_table_size c) p"
  shows "\<exists>c'. ctl_step xxh3 ops saved p c = Some c' \<and> ctl_inv xxh3 c' \<and> ct_table_size c' = ct_table_size c"
proof (cases p)
  case (ApplyConfig cfg)
  with assms(2) have "config_ok (ct_table_size c) cfg" by simp
  from apply_config_ok [OF this, of xxh3 ops saved] ApplyConfig show ?thesis
    by (auto simp: ctl_step_def)
next
  case (HealthChange ip st now now')
  let ?c = "sync_bgp_announcements ops (mark_health ip st now c)"
  have "ctl_inv xxh3 ?c" using mark_health_inv [OF assms(1)] by simp
  from maybe_flush_ok [OF this, of now'] this obtain c' where
    "maybe_flush xxh3 now' ?c = Some c'" "ctl_inv xxh3 c'" "ct_table_size c' = ct_table_size ?c"
    by (auto simp: flushed_def)
  with HealthChange show ?thesis by (simp add: ctl_step_def on_health_change_eq mark_health_fields)
next
  case (Tick now)
  from maybe_flush_ok [OF assms(1), of now] assms(1) Tick show ?thesis
    by (auto simp: ctl_step_def tick_def flushed_def)
next
  case FlushPending
  from flush_ok [OF assms(1)] FlushPending show ?thesis
    by (auto simp: ctl_step_def flush_pending_def flushed_def)
next
  case ReannounceAll
  with assms(1) show ?thesis
    by (auto simp: ctl_step_def reannounce_all_def Let_def ctl_inv_def table_current_def split: option.splits)
next
  case WithdrawAll
  with assms(1) show ?thesis
    by (auto simp: ctl_step_def withdraw_all_def Let_def ctl_inv_def table_current_def split: option.splits)
qed

lemma ctl_steps_ok:
  assumes "ctl_inv xxh3 c" and "list_all (op_ok (ct_table_size c)) ps"
  shows "\<exists>c'. ctl_steps xxh3 ops saved ps c = Some c' \<and> ctl_inv xxh3 c' \<and> ct_table_size c' = ct_table_size c"
  using assms
proof (induction ps arbitrary: c)
  case (Cons p ps)
  then obtain c1 where "ctl_step xxh3 ops saved p c = Some c1" "ctl_inv xxh3 c1" "ct_table_size c1 = ct_table_size c"
    using ctl_step_ok by fastforce
  with Cons show ?case by fastforce
qed simp

lemma controller_new_inv: "ctl_inv xxh3 (with_bgp b (controller_new tables health m))"
  by (simp add: ctl_inv_def with_bgp_def controller_new_def)

text \<open>
  C39. No sequence of configuration and health changes makes the controller panic, provided the
  configurations have distinct pool ids and the table size is prime. After any such sequence
  each pool of the current configuration is either waiting for its rebuild or served by
  exactly the table that its backends' current health gives, rebuilds wait only while a window
  is open, and a tick 50 ms after the window opened leaves every pool with its current table.
\<close>

theorem tables_follow_health:
  assumes "list_all (op_ok m) ps"
  shows "\<exists>c. ctl_steps xxh3 ops saved ps (with_bgp b (controller_new tables health m)) = Some c \<and>
    (has_pending_rebuilds c \<longleftrightarrow> ct_pending_pools c \<noteq> {}) \<and>
    (\<forall>cfg p. ct_config c = Some cfg \<longrightarrow> p \<in> set (lc_pools cfg) \<longrightarrow>
       pool_id p \<in> ct_pending_pools c \<or> table_current xxh3 c p) \<and>
    (\<forall>now. (\<forall>since. ct_pending_since c = Some since \<longrightarrow> DEBOUNCE_WINDOW \<le> now - since) \<longrightarrow>
       (\<exists>c'. tick xxh3 now c = Some c' \<and> \<not> has_pending_rebuilds c' \<and> ct_config c' = ct_config c \<and>
          (\<forall>cfg p. ct_config c = Some cfg \<longrightarrow> p \<in> set (lc_pools cfg) \<longrightarrow> table_current xxh3 c' p)))"
proof -
  let ?c0 = "with_bgp b (controller_new tables health m)"
  have "ct_table_size ?c0 = m" by (simp add: with_bgp_def controller_new_def)
  with ctl_steps_ok [OF controller_new_inv, of b tables health m ps] assms obtain c where
    c: "ctl_steps xxh3 ops saved ps ?c0 = Some c" "ctl_inv xxh3 c" by metis
  have tick: "\<exists>c'. tick xxh3 now c = Some c' \<and> \<not> has_pending_rebuilds c' \<and> ct_config c' = ct_config c \<and>
      (\<forall>cfg p. ct_config c = Some cfg \<longrightarrow> p \<in> set (lc_pools cfg) \<longrightarrow> table_current xxh3 c' p)"
    if "\<forall>since. ct_pending_since c = Some since \<longrightarrow> DEBOUNCE_WINDOW \<le> now - since" for now
  proof -
    from maybe_flush_ok [OF c(2), of now] that c(2) obtain c' where
      "tick xxh3 now c = Some c'" "ctl_inv xxh3 c'" "ct_pending_pools c' = {}" "ct_config c' = ct_config c"
      by (auto simp: tick_def flushed_def)
    then show ?thesis by (auto simp: ctl_inv_def has_pending_rebuilds_def)
  qed
  from c have "(has_pending_rebuilds c \<longleftrightarrow> ct_pending_pools c \<noteq> {}) \<and>
    (\<forall>cfg p. ct_config c = Some cfg \<longrightarrow> p \<in> set (lc_pools cfg) \<longrightarrow>
       pool_id p \<in> ct_pending_pools c \<or> table_current xxh3 c p)"
    by (auto simp: ctl_inv_def has_pending_rebuilds_def)
  with c(1) tick show ?thesis by blast
qed


subsection \<open>Announcements\<close>

definition announcer_of ::
    "(ipv4_addr list \<Rightarrow> 'b \<Rightarrow> 'b) \<Rightarrow> (ipv4_addr list \<Rightarrow> 'b \<Rightarrow> 'b) \<Rightarrow> 'b announcer_ops" where
  "announcer_of announce withdraw = \<lparr>op_announce = announce, op_withdraw = withdraw\<rparr>"

lemma desired_vips_spec:
  "desired_vips healthy vs = {a. \<exists>v \<in> set vs. vip_address v = V4 a \<and> vip_serviceable healthy v}"
  by (induction vs) (auto split: ip_addr.splits)

lemma vip_serviceable_iff:
  "vip_serviceable healthy v \<longleftrightarrow>
     (\<exists>svc \<in> set (vip_services v). healthy (svc_backend_pool svc) = Some True)"
  by (auto simp: vip_serviceable_def list_ex_iff split: option.splits)

lemma finite_desired: "finite (desired_announced_vips c)"
proof -
  have "finite (desired_vips healthy vs)" for healthy vs
    by (induction vs) (auto split: ip_addr.splits)
  then show ?thesis by (simp add: desired_announced_vips_def split: option.splits)
qed

lemma desired_cong:
  "ct_config c' = ct_config c \<Longrightarrow> ct_health_status c' = ct_health_status c \<Longrightarrow>
   desired_announced_vips c' = desired_announced_vips c"
  by (cases "ct_config c") (simp_all add: desired_announced_vips_def)

lemma flush_frame:
  assumes "flush xxh3 c = Some c'"
  shows "ct_bgp c' = ct_bgp c \<and> ct_vips_announced c' = ct_vips_announced c \<and>
    ct_config c' = ct_config c \<and> ct_health_status c' = ct_health_status c"
  using assms by (auto simp: flush_def Let_def bind_eq_Some_conv split: option.splits if_splits)

lemma maybe_flush_frame:
  assumes "maybe_flush xxh3 now c = Some c'"
  shows "ct_bgp c' = ct_bgp c \<and> ct_vips_announced c' = ct_vips_announced c \<and>
    ct_config c' = ct_config c \<and> ct_health_status c' = ct_health_status c"
  using assms flush_frame by (auto simp: maybe_flush_def split: option.splits if_splits)

context bgp_announcer
begin

text \<open>One reconciliation, for every session at once.\<close>

lemma sync_routes:
  assumes "ct_bgp c = Some b" and "finite (ct_vips_announced c)"
  shows "\<exists>b'. ct_bgp (sync_bgp_announcements (announcer_of announce withdraw) c) = Some b' \<and>
    ct_vips_announced (sync_bgp_announcements (announcer_of announce withdraw) c) = desired_announced_vips c \<and>
    (\<forall>i. live b' i = live b i) \<and>
    (\<forall>i. live b i \<longrightarrow> routes b' i =
       (routes b i \<union> (desired_announced_vips c - ct_vips_announced c)) -
       (ct_vips_announced c - desired_announced_vips c))"
proof -
  let ?D = "desired_announced_vips c" and ?A = "ct_vips_announced c"
  define add where "add = sorted_list_of_set (?D - ?A)"
  define del where "del = sorted_list_of_set (?A - ?D)"
  have sets: "set add = ?D - ?A" "set del = ?A - ?D"
    using assms(2) finite_desired [of c] by (simp_all add: add_def del_def)
  define b1 where "b1 = (if add \<noteq> [] then announce add b else b)"
  define b2 where "b2 = (if del \<noteq> [] then withdraw del b1 else b1)"
  have b1: "live b1 i = live b i" "live b i \<Longrightarrow> routes b1 i = routes b i \<union> set add" for i
    by (simp_all add: b1_def live_announce routes_announce)
  have b2: "live b2 i = live b1 i" "live b1 i \<Longrightarrow> routes b2 i = routes b1 i - set del" for i
    by (simp_all add: b2_def live_withdraw routes_withdraw)
  have "sync_bgp_announcements (announcer_of announce withdraw) c = c\<lparr>ct_bgp := Some b2, ct_vips_announced := ?D\<rparr>"
    using assms(1)
    by (simp add: sync_bgp_announcements_def announcer_of_def Let_def b2_def b1_def add_def del_def)
  with b1 b2 sets show ?thesis by simp
qed

text \<open>
  What each operation does to the sessions: the routes stay within the announced set, routes
  that are the announced set stay it, and a re-announcement makes them so.
\<close>

lemma sync_step_routes:
  assumes mid: "ct_bgp mid = Some b" "ct_vips_announced mid = ct_vips_announced c"
    and c': "ct_bgp c' = ct_bgp (sync_bgp_announcements (announcer_of announce withdraw) mid)"
      "ct_vips_announced c' = ct_vips_announced (sync_bgp_announcements (announcer_of announce withdraw) mid)"
      "ct_config c' = ct_config mid" "ct_health_status c' = ct_health_status mid"
    and p: "p \<noteq> ReannounceAll" and c: "finite (ct_vips_announced c)"
  shows "\<exists>b'. ct_bgp c' = Some b' \<and> finite (ct_vips_announced c') \<and> (\<forall>i. live b' i = live b i) \<and>
    (\<forall>i. live b i \<longrightarrow> routes b i \<subseteq> ct_vips_announced c \<longrightarrow>
       routes b' i \<subseteq> ct_vips_announced c' \<and>
       (routes b i = ct_vips_announced c \<or> p = ReannounceAll \<longrightarrow> routes b' i = ct_vips_announced c')) \<and>
    (p \<noteq> WithdrawAll \<and> ct_vips_announced c = desired_announced_vips c \<longrightarrow>
       ct_vips_announced c' = desired_announced_vips c')"
proof -
  have fin: "finite (ct_vips_announced mid)" using c mid(2) by simp
  from sync_routes [OF mid(1) fin] obtain b' where
    "ct_bgp c' = Some b'" "ct_vips_announced c' = desired_announced_vips mid"
    "\<forall>i. live b' i = live b i"
    "\<forall>i. live b i \<longrightarrow> routes b' i =
       (routes b i \<union> (desired_announced_vips mid - ct_vips_announced mid)) -
       (ct_vips_announced mid - desired_announced_vips mid)"
    using c' by auto
  moreover have "desired_announced_vips c' = desired_announced_vips mid"
    using c' by (intro desired_cong) simp_all
  ultimately show ?thesis
    using p mid(2) finite_desired [of mid] by (intro exI [of _ b']) auto
qed

lemma step_routes:
  assumes "ctl_step xxh3 (announcer_of announce withdraw) saved p c = Some c'"
    and "ct_bgp c = Some b" and "finite (ct_vips_announced c)"
  shows "\<exists>b'. ct_bgp c' = Some b' \<and> finite (ct_vips_announced c') \<and> (\<forall>i. live b' i = live b i) \<and>
    (\<forall>i. live b i \<longrightarrow> routes b i \<subseteq> ct_vips_announced c \<longrightarrow>
       routes b' i \<subseteq> ct_vips_announced c' \<and>
       (routes b i = ct_vips_announced c \<or> p = ReannounceAll \<longrightarrow> routes b' i = ct_vips_announced c')) \<and>
    (p \<noteq> WithdrawAll \<and> ct_vips_announced c = desired_announced_vips c \<longrightarrow>
       ct_vips_announced c' = desired_announced_vips c')"
proof -
  let ?ops = "announcer_of announce withdraw"
  show ?thesis
  proof (cases p)
    case (ApplyConfig cfg)
    with assms(1) obtain w where "apply_config xxh3 ?ops saved cfg c = Some (c', w)"
      by (auto simp: ctl_step_def)
    then obtain T where c': "c' = sync_bgp_announcements ?ops (c\<lparr>ct_pending_pools := {}, ct_pending_since := None,
        ct_lookup_tables := T, ct_backend_pool_index := build_backend_pool_index cfg, ct_config := Some cfg\<rparr>)"
      by (auto simp: apply_config_def Let_def bind_eq_Some_conv)
    show ?thesis
      by (rule sync_step_routes [where mid = "c\<lparr>ct_pending_pools := {}, ct_pending_since := None,
        ct_lookup_tables := T, ct_backend_pool_index := build_backend_pool_index cfg, ct_config := Some cfg\<rparr>"])
        (use c' assms(2,3) ApplyConfig in simp_all)
  next
    case (HealthChange ip st now now')
    with assms(1) have "maybe_flush xxh3 now' (sync_bgp_announcements ?ops (mark_health ip st now c)) = Some c'"
      by (simp add: ctl_step_def on_health_change_eq)
    from maybe_flush_frame [OF this] show ?thesis
      by (intro sync_step_routes [where mid = "mark_health ip st now c"])
        (use assms(2,3) HealthChange in \<open>simp_all add: mark_health_fields\<close>)
  next
    case (Tick now)
    with assms(1) have "maybe_flush xxh3 now c = Some c'" by (simp add: ctl_step_def tick_def)
    from maybe_flush_frame [OF this] desired_cong [of c' c] Tick assms(2,3) show ?thesis by auto
  next
    case FlushPending
    with assms(1) have "flush xxh3 c = Some c'" by (simp add: ctl_step_def flush_pending_def)
    from flush_frame [OF this] desired_cong [of c' c] FlushPending assms(2,3) show ?thesis by auto
  next
    case ReannounceAll
    let ?vs = "sorted_list_of_set (ct_vips_announced c)"
    have set: "set ?vs = ct_vips_announced c" using assms(3) by simp
    from ReannounceAll assms(1,2) have c': "c' = (if ?vs \<noteq> [] then c\<lparr>ct_bgp := Some (announce ?vs b)\<rparr> else c)"
      by (auto simp: ctl_step_def reannounce_all_def announcer_of_def Let_def split: if_splits)
    have "desired_announced_vips c' = desired_announced_vips c" by (rule desired_cong) (simp_all add: c')
    with c' set ReannounceAll assms(2,3) show ?thesis
      by (cases "?vs = []") (auto simp: live_announce routes_announce)
  next
    case WithdrawAll
    let ?vs = "sorted_list_of_set (ct_vips_announced c)"
    have set: "set ?vs = ct_vips_announced c" using assms(3) by simp
    from WithdrawAll assms(1,2) have c': "c' =
        (if ?vs \<noteq> [] then c\<lparr>ct_vips_announced := {}, ct_bgp := Some (withdraw ?vs b)\<rparr>
         else c\<lparr>ct_vips_announced := {}\<rparr>)"
      by (auto simp: ctl_step_def withdraw_all_def announcer_of_def Let_def split: if_splits)
    with set WithdrawAll assms(2,3) show ?thesis
      by (cases "?vs = []") (auto simp: live_withdraw routes_withdraw)
  qed
qed

end

subsection \<open>The controller, the speaker and its tasks together\<close>

definition speaker_ops :: "bgp_speaker announcer_ops" where
  "speaker_ops = announcer_of speaker_announce speaker_withdraw"

definition update_peer :: "nat \<Rightarrow> session \<Rightarrow> bgp_speaker \<Rightarrow> bgp_speaker" where
  "update_peer i s sp = sp\<lparr>sp_peers := (sp_peers sp)[i := (sp_peers sp ! i)\<lparr>ph_session := s\<rparr>]\<rparr>"

text \<open>
  A step of the running node: an operation of the controller, or a step of one session task.
  The tasks run concurrently, so the steps interleave in any order.
\<close>

inductive sys_step ::
    "(string \<Rightarrow> string option) \<Rightarrow> (u8 list \<Rightarrow> u64 \<Rightarrow> u64) \<Rightarrow> (string \<Rightarrow> lb_config \<Rightarrow> cache_error + string) \<Rightarrow>
     bgp_speaker controller \<Rightarrow> bgp_speaker controller \<Rightarrow> bool"
  for env :: "string \<Rightarrow> string option" and xxh3 :: "u8 list \<Rightarrow> u64 \<Rightarrow> u64"
    and saved :: "string \<Rightarrow> lb_config \<Rightarrow> cache_error + string" where
  sys_ctl: "p \<noteq> WithdrawAll \<Longrightarrow> ctl_step xxh3 speaker_ops saved p c = Some c' \<Longrightarrow>
    sys_step env xxh3 saved c c'"
| sys_task: "ct_bgp c = Some sp \<Longrightarrow> i < length (sp_peers sp) \<Longrightarrow> ph_enabled (sp_peers sp ! i) \<Longrightarrow>
    session_step env (ph_ctx (sp_peers sp ! i)) now l (ph_session (sp_peers sp ! i)) = Some s' \<Longrightarrow>
    \<forall>cmd. l \<noteq> Send cmd \<Longrightarrow>
    sys_step env xxh3 saved c (c\<lparr>ct_bgp := Some (update_peer i s' sp)\<rparr>)"

inductive sys_run ::
    "(string \<Rightarrow> string option) \<Rightarrow> (u8 list \<Rightarrow> u64 \<Rightarrow> u64) \<Rightarrow> (string \<Rightarrow> lb_config \<Rightarrow> cache_error + string) \<Rightarrow>
     (bgp_speaker controller \<Rightarrow> bool) \<Rightarrow> bgp_speaker controller \<Rightarrow> bgp_speaker controller \<Rightarrow> bool"
  for env :: "string \<Rightarrow> string option" and xxh3 :: "u8 list \<Rightarrow> u64 \<Rightarrow> u64"
    and saved :: "string \<Rightarrow> lb_config \<Rightarrow> cache_error + string"
    and during :: "bgp_speaker controller \<Rightarrow> bool" where
  sys_start: "during c \<Longrightarrow> sys_run env xxh3 saved during c c"
| sys_more: "sys_run env xxh3 saved during c0 c \<Longrightarrow> sys_step env xxh3 saved c c' \<Longrightarrow> during c' \<Longrightarrow>
    sys_run env xxh3 saved during c0 c'"

text \<open>Peer \<open>i\<close> has an established session.\<close>

definition peer_up :: "nat \<Rightarrow> bgp_speaker controller \<Rightarrow> bool" where
  "peer_up i c \<longleftrightarrow> (\<exists>sp hold d. ct_bgp c = Some sp \<and> i < length (sp_peers sp) \<and>
     ph_enabled (sp_peers sp ! i) \<and> ss_phase (ph_session (sp_peers sp ! i)) = InDrive hold d)"

definition sys_inv :: "bgp_speaker controller \<Rightarrow> bool" where
  "sys_inv c \<longleftrightarrow> ct_vips_announced c = desired_announced_vips c \<and>
     (\<exists>sp. ct_bgp c = Some sp \<and> (\<forall>i. peer_live sp i \<longrightarrow> peer_routes sp i \<subseteq> ct_vips_announced c))"

lemma sys_inv_finite: "sys_inv c \<Longrightarrow> finite (ct_vips_announced c)"
  by (simp add: sys_inv_def finite_desired)

lemma update_peer_other:
  "j \<noteq> i \<Longrightarrow> peer_live (update_peer i s sp) j = peer_live sp j \<and>
             peer_routes (update_peer i s sp) j = peer_routes sp j"
  by (simp add: peer_live_def peer_routes_def update_peer_def)

lemma update_peer_same:
  "i < length (sp_peers sp) \<Longrightarrow>
   peer_live (update_peer i s sp) i = (ph_enabled (sp_peers sp ! i) \<and> \<not> task_gone s) \<and>
   peer_routes (update_peer i s sp) i = promised s"
  by (simp add: peer_live_def peer_routes_def update_peer_def)

lemma gone_stays:
  "session_step env ctx now l s = Some s' \<Longrightarrow> task_gone s \<Longrightarrow> task_gone s'"
  by (cases l) (auto simp: session_step_def task_gone_def send_cmd_def split: if_splits)

lemma sys_step_inv:
  assumes "sys_step env xxh3 saved c c'" and "sys_inv c"
  shows "sys_inv c'"
  using assms
proof cases
  case (sys_ctl p)
  from assms(2) obtain sp where sp: "ct_bgp c = Some sp"
    "\<forall>i. peer_live sp i \<longrightarrow> peer_routes sp i \<subseteq> ct_vips_announced c"
    "ct_vips_announced c = desired_announced_vips c" by (auto simp: sys_inv_def)
  from speaker.step_routes [OF sys_ctl(2) [unfolded speaker_ops_def] sp(1) sys_inv_finite [OF assms(2)]]
    sp sys_ctl(1) show ?thesis unfolding sys_inv_def by fastforce
next
  case (sys_task sp i now l s')
  let ?s = "ph_session (sp_peers sp ! i)"
  have inv: "\<forall>j. peer_live sp j \<longrightarrow> peer_routes sp j \<subseteq> ct_vips_announced c"
    using assms(2) sys_task(2) by (auto simp: sys_inv_def)
  have "peer_routes (update_peer i s' sp) j \<subseteq> ct_vips_announced c"
    if live: "peer_live (update_peer i s' sp) j" for j
  proof (cases "j = i")
    case True
    with live sys_task(3) have ok: "\<not> task_gone s'" using update_peer_same [of i sp s'] by simp
    then have "\<not> task_gone ?s" using gone_stays sys_task(5) by blast
    with sys_task(3,4) inv have "promised ?s \<subseteq> ct_vips_announced c"
      by (auto simp: peer_live_def peer_routes_def)
    with promised_shrinks [OF sys_task(5,6) ok] True update_peer_same [OF sys_task(3)] show ?thesis by auto
  next
    case False
    with live inv update_peer_other show ?thesis by metis
  qed
  moreover have "desired_announced_vips c' = desired_announced_vips c"
    using sys_task(1) by (intro desired_cong) simp_all
  ultimately show ?thesis using assms(2) sys_task(1) by (auto simp: sys_inv_def)
qed

lemma sys_run_inv:
  assumes "sys_run env xxh3 saved during c0 c" and "sys_inv c0"
  shows "sys_inv c"
  using assms by (induction rule: sys_run.induct) (auto intro: sys_step_inv)

text \<open>The node starts with every task at the top of its loop and nothing announced.\<close>

definition node_start ::
    "bgp_config \<Rightarrow> lookup_tables \<Rightarrow> (ip_addr \<rightharpoonup> health_status) \<Rightarrow> nat \<Rightarrow> bgp_speaker controller panics" where
  "node_start config tables health m = do {
     sp \<leftarrow> spawn (speaker_new config);
     Some (with_bgp sp (controller_new tables health m))
   }"

lemma node_start_inv:
  assumes "node_start config tables health m = Some c"
  shows "sys_inv c"
proof -
  from assms obtain sp where sp: "spawn (speaker_new config) = Some sp"
    "c = with_bgp sp (controller_new tables health m)" by (auto simp: node_start_def bind_eq_Some_conv)
  have "peer_routes sp i = {}" if "i < length (sp_peers sp)" for i
    using sp(1) that
    by (auto simp: spawn_def speaker_new_def spawn_peer_def peer_routes_def promised_def learnt_def
        session_new_def split: ip_addr.splits)
  with sp(2) show ?thesis
    by (auto simp: sys_inv_def with_bgp_def controller_new_def desired_announced_vips_def peer_live_def)
qed

text \<open>A session that stays up keeps exactly the announced routes.\<close>

definition peer_synced :: "nat \<Rightarrow> bgp_speaker controller \<Rightarrow> bool" where
  "peer_synced i c \<longleftrightarrow> (\<exists>sp. ct_bgp c = Some sp \<and> peer_live sp i \<and> peer_routes sp i = ct_vips_announced c)"

lemma peer_up_live: "peer_up i c \<Longrightarrow> ct_bgp c = Some sp \<Longrightarrow> peer_live sp i"
  by (auto simp: peer_up_def peer_live_def task_gone_def)

lemma sys_step_synced:
  assumes "sys_step env xxh3 saved c c'" and "sys_inv c" and "peer_synced i c"
    and "peer_up i c" and "peer_up i c'"
  shows "peer_synced i c'"
  using assms(1)
proof cases
  case (sys_ctl p)
  from assms(3) obtain sp where sp: "ct_bgp c = Some sp" "peer_live sp i"
    "peer_routes sp i = ct_vips_announced c" by (auto simp: peer_synced_def)
  from speaker.step_routes [OF sys_ctl(2) [unfolded speaker_ops_def] sp(1) sys_inv_finite [OF assms(2)]] sp
  show ?thesis unfolding peer_synced_def by fastforce
next
  case (sys_task sp j now l s')
  from assms(3) sys_task(2) have sp: "peer_live sp i" "peer_routes sp i = ct_vips_announced c"
    by (auto simp: peer_synced_def)
  have live': "peer_live (update_peer j s' sp) i"
    using peer_up_live [OF assms(5)] sys_task(1) by simp
  show ?thesis
  proof (cases "j = i")
    case True
    from assms(4) sys_task(2) obtain hold d where p: "ss_phase (ph_session (sp_peers sp ! i)) = InDrive hold d"
      by (auto simp: peer_up_def)
    from assms(5) sys_task(1,3) True obtain hold' d' where p': "ss_phase s' = InDrive hold' d'"
      by (auto simp: peer_up_def update_peer_def)
    have "promised s' = promised (ph_session (sp_peers sp ! i))"
      using session_step_promise [OF sys_task(5) [unfolded True] p p'] sys_task(6)
      by (cases l) auto
    with sp live' True sys_task(1,3) update_peer_same [of i sp s'] show ?thesis
      by (simp add: peer_synced_def peer_routes_def)
  next
    case False
    with sp live' sys_task(1) update_peer_other [of i j s' sp] show ?thesis
      by (simp add: peer_synced_def)
  qed
qed


text \<open>Announcing everything again brings every peer that is up in step.\<close>

lemma reannounce_syncs:
  assumes "sys_inv c" and "peer_up i (reannounce_all speaker_ops c)"
  shows "peer_synced i (reannounce_all speaker_ops c)"
proof -
  from assms(1) obtain sp where sp: "ct_bgp c = Some sp"
    "\<forall>i. peer_live sp i \<longrightarrow> peer_routes sp i \<subseteq> ct_vips_announced c" by (auto simp: sys_inv_def)
  have step: "ctl_step undefined (announcer_of speaker_announce speaker_withdraw) undefined ReannounceAll c =
      Some (reannounce_all speaker_ops c)"
    by (simp add: ctl_step_def speaker_ops_def)
  from speaker.step_routes [OF step sp(1) sys_inv_finite [OF assms(1)]]
  obtain sp2 where sp2: "ct_bgp (reannounce_all speaker_ops c) = Some sp2" "\<forall>i. peer_live sp2 i = peer_live sp i"
    "\<forall>i. peer_live sp i \<longrightarrow> peer_routes sp i \<subseteq> ct_vips_announced c \<longrightarrow>
       peer_routes sp2 i = ct_vips_announced (reannounce_all speaker_ops c)" by blast
  from peer_up_live [OF assms(2) sp2(1)] sp sp2 show ?thesis by (simp add: peer_synced_def)
qed

lemma sys_run_during: "sys_run env xxh3 saved during c0 c \<Longrightarrow> during c"
  by (erule sys_run.cases) simp_all

lemma sys_run_synced:
  assumes "sys_run env xxh3 saved (peer_up i) c0 c" and "sys_inv c0" and "peer_synced i c0"
  shows "sys_inv c \<and> peer_synced i c"
  using assms
proof (induction rule: sys_run.induct)
  case (sys_more c0 c c')
  have "peer_up i c" by (rule sys_run_during [OF sys_more.hyps(1)])
  with sys_more show ?case using sys_step_inv sys_step_synced by blast
qed simp

text \<open>
  From the start of the node, whatever the configurations, health changes and network
  events were before: once the event pump has answered a peer's connection with a
  re-announcement, and for as long as that session lasts, the routes written or queued for the
  peer are exactly the VIPs that have a healthy backend; when the queue is empty, they are the
  peer's routing table.
\<close>

theorem peers_learn_healthy_vips:
  assumes "node_start config tables health m = Some c0"
    and "sys_run env xxh3 saved (\<lambda>_. True) c0 c1"
    and "ctl_step xxh3 speaker_ops saved ReannounceAll c1 = Some c2"
    and "sys_run env xxh3 saved (peer_up i) c2 c3"
  shows "\<exists>sp. ct_bgp c3 = Some sp \<and> peer_routes sp i = desired_announced_vips c3 \<and>
    (ss_queue (ph_session (sp_peers sp ! i)) = [] \<longrightarrow>
       rib (ss_wire (ph_session (sp_peers sp ! i))) = desired_announced_vips c3)"
proof -
  have inv1: "sys_inv c1" by (rule sys_run_inv [OF assms(2) node_start_inv [OF assms(1)]])
  have inv2: "sys_inv c2"
    by (rule sys_step_inv [OF _ inv1]) (rule sys_ctl [OF _ assms(3)], simp)
  have up2: "peer_up i c2" using assms(4) by (induction rule: sys_run.induct)
  have "c2 = reannounce_all speaker_ops c1" using assms(3) by (simp add: ctl_step_def)
  with reannounce_syncs [OF inv1] up2 have "peer_synced i c2" by simp
  with sys_run_synced [OF assms(4) inv2] have c3: "sys_inv c3" "peer_synced i c3" by auto
  from sys_run_during [OF assms(4)] c3(2) obtain sp hold d where sp: "ct_bgp c3 = Some sp"
    "peer_routes sp i = ct_vips_announced c3" "ss_phase (ph_session (sp_peers sp ! i)) = InDrive hold d"
    by (auto simp: peer_up_def peer_synced_def)
  with c3(1) promised_drive [OF sp(3)] show ?thesis by (auto simp: sys_inv_def peer_routes_def)
qed

text \<open>Which pool an id stands for: the last one that has it.\<close>

lemma pool_healthy_find:
  "pool_healthy health ps pid =
     map_option (any_healthy health) (List.find (\<lambda>p. pool_id p = pid) (rev ps))"
  by (induction ps rule: rev_induct) (auto simp: pool_healthy_def)

lemma pool_healthy_iff:
  "pool_healthy health ps pid = Some True \<longleftrightarrow>
     (\<exists>p. List.find (\<lambda>p. pool_id p = pid) (rev ps) = Some p \<and>
        (\<exists>be \<in> set (pool_backends p). health (be_ip be) \<noteq> Some Unhealthy))"
  by (auto simp: pool_healthy_find any_healthy_def list_ex_iff split: option.splits)

text \<open>
  C40. In every state the node can reach, the announced set is the set of the IPv4 VIPs of the
  configuration in force with a service whose pool (the last with that id) has at least one backend
  whose health state is not unhealthy, no peer is or will be told of any other VIP, and withdrawing
  all for a shutdown leaves every live session with nothing.
\<close>

theorem only_healthy_vips_announced:
  assumes "node_start config tables health m = Some c0"
    and "sys_run env xxh3 saved (\<lambda>_. True) c0 c"
  shows "(\<exists>sp. ct_bgp c = Some sp \<and>
      (\<forall>i. peer_live sp i \<longrightarrow> peer_routes sp i \<subseteq> ct_vips_announced c) \<and>
      (\<exists>sp'. ct_bgp (withdraw_all speaker_ops c) = Some sp' \<and>
         (\<forall>i. peer_live sp i \<longrightarrow> peer_live sp' i \<and> peer_routes sp' i = {}))) \<and>
    ct_vips_announced c = (case ct_config c of
      None \<Rightarrow> {}
    | Some cfg \<Rightarrow> {a. \<exists>v \<in> set (lc_vips cfg). vip_address v = V4 a \<and>
        (\<exists>svc \<in> set (vip_services v). \<exists>p.
           List.find (\<lambda>p. pool_id p = svc_backend_pool svc) (rev (lc_pools cfg)) = Some p \<and>
           (\<exists>be \<in> set (pool_backends p). ct_health_status c (be_ip be) \<noteq> Some Unhealthy))})"
proof -
  have inv: "sys_inv c" by (rule sys_run_inv [OF assms(2) node_start_inv [OF assms(1)]])
  then obtain sp where sp: "ct_bgp c = Some sp"
    "\<forall>i. peer_live sp i \<longrightarrow> peer_routes sp i \<subseteq> ct_vips_announced c"
    "ct_vips_announced c = desired_announced_vips c" by (auto simp: sys_inv_def)
  have step: "ctl_step undefined (announcer_of speaker_announce speaker_withdraw) undefined WithdrawAll c =
      Some (withdraw_all speaker_ops c)"
    by (simp add: ctl_step_def speaker_ops_def)
  have empty: "ct_vips_announced (withdraw_all speaker_ops c) = {}"
    by (simp add: withdraw_all_def Let_def split: option.splits)
  from speaker.step_routes [OF step sp(1) sys_inv_finite [OF inv]] sp(2) empty
  have "\<exists>sp'. ct_bgp (withdraw_all speaker_ops c) = Some sp' \<and>
    (\<forall>i. peer_live sp i \<longrightarrow> peer_live sp' i \<and> peer_routes sp' i = {})" by fastforce
  moreover have "ct_vips_announced c = (case ct_config c of
      None \<Rightarrow> {}
    | Some cfg \<Rightarrow> {a. \<exists>v \<in> set (lc_vips cfg). vip_address v = V4 a \<and>
        (\<exists>svc \<in> set (vip_services v). \<exists>p.
           List.find (\<lambda>p. pool_id p = svc_backend_pool svc) (rev (lc_pools cfg)) = Some p \<and>
           (\<exists>be \<in> set (pool_backends p). ct_health_status c (be_ip be) \<noteq> Some Unhealthy))})"
    by (simp add: sp(3) desired_announced_vips_def desired_vips_spec vip_serviceable_iff pool_healthy_iff
        split: option.splits)
  ultimately show ?thesis using sp by blast
qed

text \<open>
  The order at shutdown matters: a health change after \<^const>\<open>withdraw_all\<close> announces the
  healthy VIPs again, as the reconciliation compares with the emptied set.
\<close>

lemma health_change_reannounces_after_withdrawal:
  assumes "ct_bgp c = Some b" and "ct_config c = Some cfg"
    and "desired_announced_vips (mark_health ip st now c) = {a}"
  shows "\<exists>c' b'. ct_bgp (withdraw_all ops c) = Some b' \<and>
    on_health_change xxh3 ops ip st now now (withdraw_all ops c) =
      maybe_flush xxh3 now (c'\<lparr>ct_bgp := Some (op_announce ops [a] b'), ct_vips_announced := {a}\<rparr>)"
proof -
  let ?w = "withdraw_all ops c"
  obtain b' where b': "ct_bgp ?w = Some b'" "ct_vips_announced ?w = {}"
    "ct_config ?w = ct_config c" "ct_health_status ?w = ct_health_status c"
    using assms(1)
    by (cases "sorted_list_of_set (ct_vips_announced c) = []") (auto simp: withdraw_all_def Let_def)
  have "desired_announced_vips (mark_health ip st now ?w) = desired_announced_vips (mark_health ip st now c)"
    by (rule desired_cong) (simp_all add: mark_health_fields b')
  with b' assms(3) have "sync_bgp_announcements ops (mark_health ip st now ?w) =
      (mark_health ip st now ?w)\<lparr>ct_bgp := Some (op_announce ops [a] b'), ct_vips_announced := {a}\<rparr>"
    by (simp add: sync_bgp_announcements_def mark_health_fields Let_def)
  with b'(1) show ?thesis unfolding on_health_change_eq by metis
qed


subsection \<open>A concrete run\<close>

text \<open>
  One peer, whose task connects; then the sample configuration is applied and the event pump
  re-announces.
\<close>

definition sample_bgp_config :: bgp_config where
  "sample_bgp_config = \<lparr>bgp_local_asn = 2, bgp_router_id = V4 (Ipv4 10 0 0 1), bgp_communities = [],
     bgp_next_hop_self = True, bgp_peers = [legacy_peer (V4 (Ipv4 10 0 0 2)) 1]\<rparr>"

abbreviation (input) sample_xxh3 :: "u8 list \<Rightarrow> u64 \<Rightarrow> u64" where
  "sample_xxh3 \<equiv> (\<lambda>name seed. seed + 5)"

abbreviation (input) sample_saved :: "string \<Rightarrow> lb_config \<Rightarrow> cache_error + string" where
  "sample_saved \<equiv> (\<lambda>p c. Inr [])"

lemma sample_config_ok: "config_ok 7 sample_lb_config"
  using sample_sized by (simp add: config_ok_def sample_lb_config_def)

lemma tables_follow_health_witness:
  "\<exists>c. ctl_steps sample_xxh3 speaker_ops sample_saved
     [ApplyConfig sample_lb_config, HealthChange (V4 (Ipv4 10 0 0 1)) Unhealthy 1 2]
     (with_bgp (speaker_new sample_bgp_config) (controller_new Map.empty Map.empty 7)) = Some c \<and>
     (has_pending_rebuilds c \<longleftrightarrow> ct_pending_pools c \<noteq> {})"
  using tables_follow_health [of 7 "[ApplyConfig sample_lb_config, HealthChange (V4 (Ipv4 10 0 0 1)) Unhealthy 1 2]"
      sample_xxh3 speaker_ops sample_saved "speaker_new sample_bgp_config" Map.empty Map.empty] sample_config_ok
  by auto

definition sample_peer :: "session \<Rightarrow> peer_handle" where
  "sample_peer s = \<lparr>ph_peer_ip = V4 (Ipv4 10 0 0 2), ph_ctx = sample_ctx, ph_session = s, ph_enabled = True\<rparr>"

definition sample_speaker :: "session \<Rightarrow> bgp_speaker" where
  "sample_speaker s = \<lparr>sp_config = sample_bgp_config, sp_peers = [sample_peer s], sp_event_rx = True\<rparr>"

definition sample_node :: "session \<Rightarrow> bgp_speaker controller" where
  "sample_node s = with_bgp (sample_speaker s) (controller_new Map.empty Map.empty 7)"

lemma sample_node_start: "node_start sample_bgp_config Map.empty Map.empty 7 = Some (sample_node session_new)"
  by (simp add: node_start_def spawn_def speaker_new_def spawn_peer_def sample_bgp_config_def sample_node_def
      sample_speaker_def sample_peer_def sample_ctx_def legacy_peer_def session_new_def)

lemma sample_task:
  assumes "session_step (\<lambda>_. None) sample_ctx now l s = Some s'" and "\<forall>cmd. l \<noteq> Send cmd"
  shows "sys_step (\<lambda>_. None) xxh3 saved (sample_node s) (sample_node s')"
proof -
  have "sys_step (\<lambda>_. None) xxh3 saved (sample_node s)
      (sample_node s\<lparr>ct_bgp := Some (update_peer 0 s' (sample_speaker s))\<rparr>)"
    by (rule sys_task [where l = l and now = now])
      (use assms in \<open>simp_all add: sample_node_def sample_speaker_def sample_peer_def with_bgp_def\<close>)
  then show ?thesis
    by (simp add: sample_node_def sample_speaker_def sample_peer_def with_bgp_def update_peer_def)
qed

lemma sample_node_run:
  "sys_run (\<lambda>_. None) xxh3 saved (\<lambda>_. True) (sample_node session_new) (sample_node (sample_up 9))"
proof -
  have "sys_run (\<lambda>_. None) xxh3 saved (\<lambda>_. True) (sample_node session_new) (sample_node (run_top session_new))"
    by (rule sys_more [OF sys_start sample_task [OF sample_top]]) simp_all
  then show ?thesis by (rule sys_more [OF _ sample_task [OF sample_step]]) simp_all
qed

lemma peer_up_bgp:
  assumes "peer_up i c" and "ct_bgp c = Some sp"
    and "ct_bgp c' \<in> Some ` {sp, speaker_announce vs sp, speaker_withdraw ws sp, speaker_withdraw ws (speaker_announce vs sp)}"
  shows "peer_up i c'"
  using assms
  by (auto simp: peer_up_def speaker_announce_def speaker_withdraw_def send_to_def send_cmd_def)

lemma peer_up_sync: "peer_up i c \<Longrightarrow> peer_up i (sync_bgp_announcements speaker_ops c)"
proof -
  assume up: "peer_up i c"
  then obtain sp where sp: "ct_bgp c = Some sp" by (auto simp: peer_up_def)
  show ?thesis
    by (rule peer_up_bgp [OF up sp, of _ "sorted_list_of_set (desired_announced_vips c - ct_vips_announced c)"
          "sorted_list_of_set (ct_vips_announced c - desired_announced_vips c)"])
      (simp add: sync_bgp_announcements_def sp speaker_ops_def announcer_of_def Let_def)
qed

text \<open>The state after the configuration has been applied to the connected node.\<close>

lemma sample_applied:
  obtains c where "ctl_step sample_xxh3 speaker_ops sample_saved (ApplyConfig sample_lb_config)
      (sample_node (sample_up 9)) = Some c"
    and "desired_announced_vips c = {Ipv4 10 9 0 1}" and "peer_up 0 c" and "ct_config c = Some sample_lb_config"
proof -
  let ?n = "sample_node (sample_up 9)"
  have ok: "config_ok (ct_table_size ?n) sample_lb_config"
    using sample_config_ok by (simp add: sample_node_def with_bgp_def controller_new_def)
  obtain hold d where "ss_phase (sample_up 9) = InDrive hold d" using sample_up_phase [of 9] by auto
  then have up: "peer_up 0 ?n"
    by (simp add: peer_up_def sample_node_def sample_speaker_def sample_peer_def with_bgp_def)
  from apply_config_ok [OF ok, of sample_xxh3 speaker_ops sample_saved] obtain T w where
    a: "apply_config sample_xxh3 speaker_ops sample_saved sample_lb_config ?n = Some (sync_bgp_announcements speaker_ops
      (?n\<lparr>ct_pending_pools := {}, ct_pending_since := None, ct_lookup_tables := T,
         ct_backend_pool_index := build_backend_pool_index sample_lb_config, ct_config := Some sample_lb_config\<rparr>), w)"
    by blast
  define c where "c = sync_bgp_announcements speaker_ops
      (?n\<lparr>ct_pending_pools := {}, ct_pending_since := None, ct_lookup_tables := T,
         ct_backend_pool_index := build_backend_pool_index sample_lb_config, ct_config := Some sample_lb_config\<rparr>)"
  have "peer_up 0 c"
    unfolding c_def by (rule peer_up_sync) (use up in \<open>simp add: peer_up_def\<close>)
  moreover have "desired_announced_vips c = {Ipv4 10 9 0 1}"
    by (simp add: c_def desired_announced_vips_def sample_node_def with_bgp_def controller_new_def
        sample_lb_config_def sample_vip_def sample_pool_def pool_healthy_def any_healthy_def vip_serviceable_def)
  ultimately show ?thesis
    using that [of c] a by (simp add: ctl_step_def c_def [symmetric]) (simp add: c_def)
qed

lemma peers_learn_healthy_vips_witness:
  "\<exists>c sp. ct_bgp c = Some sp \<and> peer_routes sp 0 = {Ipv4 10 9 0 1} \<and>
     desired_announced_vips c = {Ipv4 10 9 0 1}"
proof -
  obtain c1 where c1: "ctl_step sample_xxh3 speaker_ops sample_saved (ApplyConfig sample_lb_config)
      (sample_node (sample_up 9)) = Some c1" "desired_announced_vips c1 = {Ipv4 10 9 0 1}" "peer_up 0 c1"
    using sample_applied by blast
  have run1: "sys_run (\<lambda>_. None) sample_xxh3 sample_saved (\<lambda>_. True) (sample_node session_new) c1"
    by (rule sys_more [OF sample_node_run sys_ctl [OF _ c1(1)]]) simp_all
  define c2 where "c2 = reannounce_all speaker_ops c1"
  have re: "ctl_step sample_xxh3 speaker_ops sample_saved ReannounceAll c1 = Some c2"
    by (simp add: ctl_step_def c2_def)
  obtain sp1 where sp1: "ct_bgp c1 = Some sp1" using c1(3) by (auto simp: peer_up_def)
  have "peer_up 0 c2"
    by (rule peer_up_bgp [OF c1(3) sp1, of _ "sorted_list_of_set (ct_vips_announced c1)" "[]"])
      (simp add: c2_def reannounce_all_def sp1 speaker_ops_def announcer_of_def Let_def)
  then have run2: "sys_run (\<lambda>_. None) sample_xxh3 sample_saved (peer_up 0) c2 c2" by (rule sys_start)
  have "desired_announced_vips c2 = desired_announced_vips c1"
    by (rule desired_cong) (simp_all add: c2_def reannounce_all_def Let_def split: option.splits)
  with peers_learn_healthy_vips [OF sample_node_start run1 re run2] c1(2) show ?thesis by auto
qed

lemma only_healthy_vips_announced_witness:
  "\<exists>c :: bgp_speaker controller. ct_config c = Some sample_lb_config \<and> ct_vips_announced c =
     {a. \<exists>v \<in> set (lc_vips sample_lb_config). vip_address v = V4 a \<and> (\<exists>svc \<in> set (vip_services v). \<exists>p.
        List.find (\<lambda>p. pool_id p = svc_backend_pool svc) (rev (lc_pools sample_lb_config)) = Some p \<and>
        (\<exists>be \<in> set (pool_backends p). ct_health_status c (be_ip be) \<noteq> Some Unhealthy))}"
proof -
  obtain c1 where c1: "ctl_step sample_xxh3 speaker_ops sample_saved (ApplyConfig sample_lb_config)
      (sample_node (sample_up 9)) = Some c1" "ct_config c1 = Some sample_lb_config"
    using sample_applied by blast
  have run1: "sys_run (\<lambda>_. None) sample_xxh3 sample_saved (\<lambda>_. True) (sample_node session_new) c1"
    by (rule sys_more [OF sample_node_run sys_ctl [OF _ c1(1)]]) simp_all
  from only_healthy_vips_announced [OF sample_node_start run1, THEN conjunct2] c1(2) show ?thesis
    by (intro exI [of _ c1]) simp
qed

end
