(* ===== verification/PacketPool.thy ===== *)
theory PacketPool
  imports PacketIo
begin

text \<open>
  The arena of packet frames (crate lb-forwarder, packet\_pool.rs). Threads exchange frame indices;
  a frame may be touched only by whoever holds its index, which the Rust code cannot check. The
  free list is an \<^verbatim>\<open>ArrayQueue\<close>, a parameter of the operations; the locale \<open>frame_pool\<close> fixes its
  contract and proves what the operations do to the set of free indices. Whether the protocol that
  makes the accesses exclusive is kept is a property of the threads, in theory Threading.
\<close>

type_synonym frame_index = u32

record frame =
  fr_data :: "u8 list"
  fr_len :: nat

definition INVALID_FRAME :: frame_index where "INVALID_FRAME = - 1"

definition frame_new :: frame where
  "frame_new = \<lparr>fr_data = replicate PACKET_BUF_SIZE 0, fr_len = 0\<rparr>"

definition write_from :: "frame \<Rightarrow> u8 list \<Rightarrow> frame" where
  "write_from f src =
     (let copy_len = min (length src) PACKET_BUF_SIZE
      in \<lparr>fr_data = take copy_len src @ drop copy_len (fr_data f), fr_len = copy_len\<rparr>)"

definition frame_slice :: "frame \<Rightarrow> u8 list panics" where
  "frame_slice f = (if fr_len f \<le> length (fr_data f) then Some (take (fr_len f) (fr_data f)) else None)"

definition frame_ok :: "frame \<Rightarrow> bool" where
  "frame_ok f \<longleftrightarrow> length (fr_data f) = PACKET_BUF_SIZE \<and> fr_len f \<le> PACKET_BUF_SIZE"

definition frame_bytes :: "frame \<Rightarrow> u8 list" where
  "frame_bytes f = take (fr_len f) (fr_data f)"

lemma frame_new_ok [simp]: "frame_ok frame_new"
  by (simp add: frame_ok_def frame_new_def)

lemma write_from_ok [simp]: "frame_ok f \<Longrightarrow> frame_ok (write_from f src)"
  by (simp add: frame_ok_def write_from_def Let_def)

lemma frame_slice_Some [simp]: "frame_ok f \<Longrightarrow> frame_slice f = Some (frame_bytes f)"
  by (simp add: frame_slice_def frame_ok_def frame_bytes_def)

lemma frame_bytes_write_from [simp]: "frame_bytes (write_from f src) = take PACKET_BUF_SIZE src"
  by (cases "length src \<le> PACKET_BUF_SIZE") (simp_all add: frame_bytes_def write_from_def Let_def)

subsection \<open>The pool\<close>

record 'q packet_pool =
  pp_frames :: "frame list"
  pp_free :: 'q
  pp_capacity :: nat

fun push_range :: "('q, frame_index) queue_ops \<Rightarrow> nat \<Rightarrow> nat \<Rightarrow> 'q \<Rightarrow> 'q" where
  "push_range ops i 0 q = q"
| "push_range ops i (Suc n) q =
     push_range ops (Suc i) n (case q_push ops q (word_of_nat i) of None \<Rightarrow> q | Some q' \<Rightarrow> q')"

text \<open>\<open>free_list\<close> is the new, empty \<^verbatim>\<open>ArrayQueue\<close> of the given capacity.\<close>

definition packet_pool_new :: "('q, frame_index) queue_ops \<Rightarrow> 'q \<Rightarrow> nat \<Rightarrow> 'q packet_pool" where
  "packet_pool_new ops free_list capacity =
     \<lparr>pp_frames = replicate capacity frame_new, pp_free = push_range ops 0 capacity free_list,
      pp_capacity = capacity\<rparr>"

definition pool_alloc ::
  "('q, frame_index) queue_ops \<Rightarrow> 'q packet_pool \<Rightarrow> frame_index option \<times> 'q packet_pool" where
  "pool_alloc ops p =
     (case q_pop ops (pp_free p) of
        None \<Rightarrow> (None, p) | Some (i, q) \<Rightarrow> (Some i, p\<lparr>pp_free := q\<rparr>))"

definition pool_free :: "('q, frame_index) queue_ops \<Rightarrow> 'q packet_pool \<Rightarrow> frame_index \<Rightarrow> 'q packet_pool" where
  "pool_free ops p idx =
     (case q_push ops (pp_free p) idx of None \<Rightarrow> p | Some q \<Rightarrow> p\<lparr>pp_free := q\<rparr>)"

definition pool_get :: "'q packet_pool \<Rightarrow> frame_index \<Rightarrow> frame panics" where
  "pool_get p idx = byte_at (pp_frames p) (unat idx)"

text \<open>\<^verbatim>\<open>get_mut\<close> lends the frame to code that replaces it.\<close>

definition pool_put :: "'q packet_pool \<Rightarrow> frame_index \<Rightarrow> frame \<Rightarrow> 'q packet_pool panics" where
  "pool_put p idx f = do {
     frames \<leftarrow> store_at (pp_frames p) (unat idx) f;
     Some (p\<lparr>pp_frames := frames\<rparr>) }"

definition pool_available :: "('q, frame_index) queue_ops \<Rightarrow> 'q packet_pool \<Rightarrow> nat" where
  "pool_available ops p = q_len ops (pp_free p)"

definition frame_indices :: "nat \<Rightarrow> frame_index list" where
  "frame_indices n = map word_of_nat [0..<n]"

lemma frame_indices_below:
  "n \<le> 2 ^ 32 \<Longrightarrow> i \<in> set (frame_indices n) \<Longrightarrow> unat i < n"
  by (auto simp: frame_indices_def unat_of_nat)

lemma length_frame_indices [simp]: "length (frame_indices n) = n"
  by (simp add: frame_indices_def)

lemma distinct_frame_indices: "n \<le> 2 ^ 32 \<Longrightarrow> distinct (frame_indices n)"
proof -
  assume n: "n \<le> 2 ^ 32"
  have "unat (word_of_nat i :: u32) = i" if "i < n" for i
    using that n by (simp add: unat_of_nat)
  then have "inj_on (word_of_nat :: nat \<Rightarrow> u32) {..<n}"
    by (metis inj_onI lessThan_iff)
  then show ?thesis by (simp add: frame_indices_def distinct_map atLeast0LessThan)
qed

locale frame_pool = array_queue ops contents cap
  for ops :: "('q, frame_index) queue_ops" and contents :: "'q \<Rightarrow> frame_index list" and cap :: "'q \<Rightarrow> nat"
begin

lemma push_range_contents:
  "length (contents q) + n \<le> cap q \<Longrightarrow>
   contents (push_range ops i n q) = contents q @ map word_of_nat [i..<i + n] \<and>
   cap (push_range ops i n q) = cap q"
proof (induction n arbitrary: i q)
  case (Suc n)
  then obtain q' where "q_push ops q (word_of_nat i) = Some q'" "contents q' = contents q @ [word_of_nat i]"
    "cap q' = cap q" using push_room [of q "word_of_nat i"] by auto
  with Suc.IH [of q' "Suc i"] Suc.prems show ?case
    by (simp add: upt_conv_Cons del: upt_Suc)
qed simp

text \<open>All frames start on the free list; an allocation takes the oldest, a release appends.\<close>

lemma pool_new_contents:
  assumes "contents q = []" and "cap q = n"
  shows "contents (pp_free (packet_pool_new ops q n)) = frame_indices n"
    and "cap (pp_free (packet_pool_new ops q n)) = n"
  using push_range_contents [of q n 0] assms by (simp_all add: packet_pool_new_def frame_indices_def)

lemma pool_alloc_None: "pool_alloc ops p = (None, p') \<Longrightarrow> p' = p \<and> contents (pp_free p) = []"
  using pop_NoneD [of "pp_free p"] by (auto simp: pool_alloc_def split: option.splits)

lemma pool_alloc_Some:
  "pool_alloc ops p = (Some i, p') \<Longrightarrow>
   contents (pp_free p) = i # contents (pp_free p') \<and> cap (pp_free p') = cap (pp_free p) \<and>
   pp_frames p' = pp_frames p \<and> pp_capacity p' = pp_capacity p"
  using pop_SomeD [of "pp_free p"] by (auto simp: pool_alloc_def split: option.splits)

lemma pool_free_contents:
  assumes "length (contents (pp_free p)) < cap (pp_free p)"
  shows "contents (pp_free (pool_free ops p i)) = contents (pp_free p) @ [i]"
    and "cap (pp_free (pool_free ops p i)) = cap (pp_free p)"
  using push_room [OF assms, of i] by (auto simp: pool_free_def)

lemma pool_free_frames [simp]:
  "pp_frames (pool_free ops p i) = pp_frames p" "pp_capacity (pool_free ops p i) = pp_capacity p"
  by (simp_all add: pool_free_def split: option.splits)

lemma pool_available_contents: "pool_available ops p = length (contents (pp_free p))"
  by (simp add: pool_available_def len_contents)

end

interpretation list_pool: frame_pool "list_ring_ops n" "\<lambda>q. q" "\<lambda>_. n" for n ..

end
