(* ===== verification/PoolRewriter.thy ===== *)
theory PoolRewriter
  imports Rewriter PacketPool
begin

text \<open>
  What a rewriter thread of the multi-threaded engine does with one frame (crate lb-forwarder,
  threading.rs: \<^verbatim>\<open>run_rewriter\<close> and its helpers). The code repeats the pipeline of rewriter.rs on
  frames of the shared arena instead of packet buffers. The development models the repetition and
  shows that it agrees with the original, on the packets that need neither MSS clamping nor an
  ICMP reply (\<open>pool_rewriter_agrees\<close>); those two stages do not exist here.

  \<open>thr_rewriter\<close> holds a thread's own state; \<open>thr_shared\<close> what it loads from the shared
  \<^verbatim>\<open>ArcSwap\<close>s and the health map. The Prometheus counters are shared in the code; here every
  thread counts its own contribution.
\<close>

record thr_shared =
  sh_tables :: "backend_pool_id \<rightharpoonup> lookup_table"
  sh_matcher :: vip_matcher
  sh_health :: "ip_addr \<rightharpoonup> health_status"

record thr_rewriter =
  tw_src :: ipv4_addr
  tw_conn :: conn_table
  tw_frag :: fragment_table
  tw_metrics :: forwarder_metrics
  tw_indices :: "frame_index list"
  tw_draining :: bool

text \<open>A thread with an IPv6 source address returns at once.\<close>

definition thr_rewriter_new ::
  "ip_addr \<Rightarrow> nat \<Rightarrow> conn_ttls \<Rightarrow> nat \<Rightarrow> duration \<Rightarrow> instant \<Rightarrow> thr_rewriter option panics" where
  "thr_rewriter_new src conn_table_size ttls fragment_table_size fragment_ttl now = do {
     conn \<leftarrow> conn_table_new conn_table_size ttls now;
     frag \<leftarrow> fragment_table_new fragment_table_size fragment_ttl now;
     Some (case src of
       V6 _ \<Rightarrow> None
     | V4 v4 \<Rightarrow> Some \<lparr>tw_src = v4, tw_conn = conn, tw_frag = frag, tw_metrics = forwarder_metrics_new,
                     tw_indices = [], tw_draining = True\<rparr>) }"

definition thr_count :: "fwd_counter \<Rightarrow> thr_rewriter \<Rightarrow> thr_rewriter" where
  "thr_count c t = t\<lparr>tw_metrics := fm_inc c (tw_metrics t)\<rparr>"

definition thr_insert_tracked ::
  "thr_rewriter \<Rightarrow> u64 \<Rightarrow> ip_addr \<Rightarrow> flow_proto \<Rightarrow> tcp_flow_state \<Rightarrow> instant \<Rightarrow> thr_rewriter panics" where
  "thr_insert_tracked t hash backend pr st now = do {
     (res, conn) \<leftarrow> conn_insert (tw_conn t) hash backend pr st now;
     let t = t\<lparr>tw_conn := conn\<rparr>;
     Some (case res of
       Inserted \<Rightarrow> thr_count ConnTableInserts t
     | Updated \<Rightarrow> thr_count ConnTableInserts t
     | EvictedExpired \<Rightarrow> thr_count EvictionExpiredOnInsert (thr_count ConnTableInserts t)
     | DroppedFull \<Rightarrow> thr_count EvictionDroppedFull t) }"

definition thr_apply_tcp_transitions ::
  "thr_rewriter \<Rightarrow> u64 \<Rightarrow> tcp_flags \<Rightarrow> instant \<Rightarrow> thr_rewriter panics" where
  "thr_apply_tcp_transitions t hash flags now =
     (if flag_rst flags
      then do { conn \<leftarrow> mark_closing (tw_conn t) hash now;
                Some (thr_count TcpTransitionClosingRst (t\<lparr>tw_conn := conn\<rparr>)) }
      else if flag_fin flags
      then do { conn \<leftarrow> mark_closing (tw_conn t) hash now;
                Some (thr_count TcpTransitionClosingFin (t\<lparr>tw_conn := conn\<rparr>)) }
      else if flag_ack flags \<and> \<not> flag_syn flags
      then do { conn \<leftarrow> mark_established (tw_conn t) hash now;
                Some (thr_count TcpTransitionEstablished (t\<lparr>tw_conn := conn\<rparr>)) }
      else Some t)"

definition thr_select_backend ::
  "thr_shared \<Rightarrow> thr_rewriter \<Rightarrow> lookup_table \<Rightarrow> u64 \<Rightarrow> flow_proto \<Rightarrow> tcp_flow_state \<Rightarrow> instant \<Rightarrow>
   (ip_addr \<times> thr_rewriter) panics" where
  "thr_select_backend sh t table hash pr initial_state now = do {
     cached \<leftarrow> conn_get (tw_conn t) hash now;
     case cached of
       Some ip \<Rightarrow>
         let healthy = (case sh_health sh ip of None \<Rightarrow> True | Some s \<Rightarrow> s \<noteq> Unhealthy) in
         if healthy
         then do {
           let t = thr_count ConnTableHits t;
           conn \<leftarrow> conn_touch (tw_conn t) hash now;
           Some (ip, t\<lparr>tw_conn := conn\<rparr>) }
         else do {
           let t = thr_count ConnTableFallbackToMaglev t;
           backend \<leftarrow> table_lookup table hash;
           t \<leftarrow> thr_insert_tracked t hash (be_ip backend) pr initial_state now;
           Some (be_ip backend, t) }
     | None \<Rightarrow> do {
         let t = thr_count ConnTableMisses t;
         backend \<leftarrow> table_lookup table hash;
         t \<leftarrow> thr_insert_tracked t hash (be_ip backend) pr initial_state now;
         Some (be_ip backend, t) } }"

text \<open>The verdict on a frame: queue it for the muxer, or give it back to the pool.\<close>

datatype frame_verdict = Transmit | Release

definition thr_encapsulate ::
  "fwd_counter list \<Rightarrow> thr_rewriter \<Rightarrow> frame \<Rightarrow> ipv4_addr \<Rightarrow> (frame_verdict \<times> frame \<times> thr_rewriter) panics" where
  "thr_encapsulate counters t fr dst = do {
     (r, data) \<leftarrow> encapsulate_ipv4_buf (fr_data fr) (fr_len fr) (tw_src t) dst;
     let fr = fr\<lparr>fr_data := data\<rparr>;
     Some (case r of
       Some new_len \<Rightarrow> (Transmit, fr\<lparr>fr_len := new_len\<rparr>, foldr thr_count counters t)
     | None \<Rightarrow> (Release, fr, thr_count PacketsDropped t)) }"

definition thr_later_fragment ::
  "(u8 list \<Rightarrow> u64) \<Rightarrow> thr_rewriter \<Rightarrow> frame \<Rightarrow> instant \<Rightarrow> (frame_verdict \<times> frame \<times> thr_rewriter) panics" where
  "thr_later_fragment xxh3 t fr now = do {
     bytes \<leftarrow> frame_slice fr;
     fid \<leftarrow> fragment_id_from_ipv4_bytes bytes;
     hit \<leftarrow> (case fid of None \<Rightarrow> Some None | Some f \<Rightarrow> fragment_get (tw_frag t) (fragment_hash xxh3 f) now);
     case hit of
       None \<Rightarrow> Some (Release, fr, thr_count PacketsDropped (thr_count FragmentDropNoMapping t))
     | Some (V6 _) \<Rightarrow> Some (Release, fr, thr_count PacketsDropped t)
     | Some (V4 dst) \<Rightarrow> thr_encapsulate [PacketsForwarded, FragmentSubsequentForwarded] t fr dst }"

definition thr_record_first_fragment ::
  "(u8 list \<Rightarrow> u64) \<Rightarrow> thr_rewriter \<Rightarrow> u8 list \<Rightarrow> ip_addr \<Rightarrow> instant \<Rightarrow> thr_rewriter panics" where
  "thr_record_first_fragment xxh3 t bytes backend now = do {
     frag \<leftarrow> is_fragment bytes;
     if \<not> frag then Some t
     else do {
       fid \<leftarrow> fragment_id_from_ipv4_bytes bytes;
       case fid of
         None \<Rightarrow> Some t
       | Some f \<Rightarrow> do {
           ft \<leftarrow> fragment_insert (tw_frag t) (fragment_hash xxh3 f) backend now;
           Some (thr_count FragmentFirst (t\<lparr>tw_frag := ft\<rparr>)) } } }"

definition thr_process ::
  "(u8 list \<Rightarrow> u64) \<Rightarrow> thr_shared \<Rightarrow> thr_rewriter \<Rightarrow> frame \<Rightarrow> instant \<Rightarrow>
   (frame_verdict \<times> frame \<times> thr_rewriter) panics" where
  "thr_process xxh3 sh t0 fr now = do {
     let t = thr_count PacketsReceived t0;
     let drop = (Release, fr, thr_count PacketsDropped t);
     bytes \<leftarrow> frame_slice fr;
     later \<leftarrow> is_non_first_fragment bytes;
     if later then thr_later_fragment xxh3 t fr now
     else do {
       parsed \<leftarrow> from_ipv4_bytes bytes;
       case parsed of
         None \<Rightarrow> Some drop
       | Some meta \<Rightarrow> (case match_packet (sh_matcher sh) (dst_ip meta) (proto meta) (dst_port meta) of
           None \<Rightarrow> Some drop
         | Some pool \<Rightarrow> (case sh_tables sh pool of
             None \<Rightarrow> Some drop
           | Some table \<Rightarrow> do {
               let hash = flow_hash xxh3 meta;
               (backend, t) \<leftarrow> thr_select_backend sh t table hash (flow_proto_from (proto meta))
                                (initial_tcp_state (meta_flags meta)) now;
               t \<leftarrow> (case meta_flags meta of
                      None \<Rightarrow> Some t
                    | Some flags \<Rightarrow> thr_apply_tcp_transitions t hash flags now);
               t \<leftarrow> thr_record_first_fragment xxh3 t bytes backend now;
               case backend of
                 V6 _ \<Rightarrow> Some (Release, fr, thr_count PacketsDropped t)
               | V4 dst \<Rightarrow> thr_encapsulate [PacketsForwarded] t fr dst })) } }"

subsection \<open>The thread's state inside the state of the pipeline\<close>

definition as_rewriter :: "mtu_config \<Rightarrow> icmp_rate_limiter \<Rightarrow> thr_shared \<Rightarrow> thr_rewriter \<Rightarrow> rewriter" where
  "as_rewriter mtu icmp sh t =
     \<lparr>rw_src_ip = V4 (tw_src t), rw_conn = tw_conn t, rw_frag = tw_frag t, rw_tables = sh_tables sh,
      rw_matcher = sh_matcher sh, rw_health = sh_health sh, rw_metrics = tw_metrics t, rw_mtu = mtu,
      rw_icmp = icmp\<rparr>"

definition absorb :: "thr_rewriter \<Rightarrow> rewriter \<Rightarrow> thr_rewriter" where
  "absorb t r = t\<lparr>tw_conn := rw_conn r, tw_frag := rw_frag r, tw_metrics := rw_metrics r\<rparr>"

definition buf_of :: "frame \<Rightarrow> packet_buf" where
  "buf_of fr = \<lparr>pkt_data = fr_data fr, pkt_len = fr_len fr\<rparr>"

lemma as_rewriter_sel [simp]:
  "rw_src_ip (as_rewriter m i sh t) = V4 (tw_src t)" "rw_conn (as_rewriter m i sh t) = tw_conn t"
  "rw_frag (as_rewriter m i sh t) = tw_frag t" "rw_tables (as_rewriter m i sh t) = sh_tables sh"
  "rw_matcher (as_rewriter m i sh t) = sh_matcher sh" "rw_health (as_rewriter m i sh t) = sh_health sh"
  "rw_metrics (as_rewriter m i sh t) = tw_metrics t" "rw_mtu (as_rewriter m i sh t) = m" "rw_icmp (as_rewriter m i sh t) = i"
  by (simp_all add: as_rewriter_def)

lemma absorb_sel [simp]:
  "tw_src (absorb t r) = tw_src t" "tw_conn (absorb t r) = rw_conn r" "tw_frag (absorb t r) = rw_frag r"
  "tw_metrics (absorb t r) = rw_metrics r" "tw_indices (absorb t r) = tw_indices t"
  "tw_draining (absorb t r) = tw_draining t"
  by (simp_all add: absorb_def)

lemma buf_of_sel [simp]:
  "pkt_data (buf_of fr) = fr_data fr" "pkt_len (buf_of fr) = fr_len fr"
  "packet_buf_ok (buf_of fr) = frame_ok fr" "valid_bytes (buf_of fr) = frame_bytes fr"
  by (simp_all add: buf_of_def packet_buf_ok_def frame_ok_def valid_bytes_def frame_bytes_def)

lemma as_rewriter_count [simp]: "as_rewriter m i sh (thr_count c t) = count c (as_rewriter m i sh t)"
  by (simp add: as_rewriter_def thr_count_def count_def)

lemma thr_count_sel [simp]:
  "tw_src (thr_count c t) = tw_src t" "tw_conn (thr_count c t) = tw_conn t" "tw_frag (thr_count c t) = tw_frag t"
  "tw_indices (thr_count c t) = tw_indices t" "tw_draining (thr_count c t) = tw_draining t"
  by (simp_all add: thr_count_def)

lemma absorb_count: "absorb t (count c r) = thr_count c (absorb t r)"
  by (simp add: absorb_def thr_count_def count_def)

lemma absorb_absorb [simp]: "absorb (absorb t r) r' = absorb t r'"
  by (simp add: absorb_def)

lemma absorb_thr_count [simp]: "absorb (thr_count c t) r = absorb t r"
  by (simp add: absorb_def thr_count_def)

lemma absorb_upd [simp]:
  "absorb t (r\<lparr>rw_conn := c\<rparr>) = (absorb t r)\<lparr>tw_conn := c\<rparr>"
  "absorb t (r\<lparr>rw_frag := f\<rparr>) = (absorb t r)\<lparr>tw_frag := f\<rparr>"
  by (simp_all add: absorb_def)

lemma absorb_embed [simp]: "absorb t (as_rewriter m i sh t) = t"
  by (simp add: absorb_def as_rewriter_def)

text \<open>A stage that keeps what the thread shares maps the embedded state to the embedded state.\<close>

lemma as_rewriter_absorb:
  assumes "rw_keeps (as_rewriter m i sh t) r" and "rw_icmp r = i"
  shows "as_rewriter m i sh (absorb t r) = r"
  using assms by (simp add: rw_keeps_def as_rewriter_def absorb_def)

lemma thr_insert_tracked_eq:
  "thr_insert_tracked t h ip pr st now =
     map_option (absorb t) (insert_tracked (as_rewriter m i sh t) h ip pr st now)"
  by (cases "conn_insert (tw_conn t) h ip pr st now")
    (auto simp: thr_insert_tracked_def insert_tracked_def absorb_count Let_def split: insert_result.splits)

lemma thr_apply_tcp_transitions_eq:
  "thr_apply_tcp_transitions t h fl now =
     map_option (absorb t) (apply_tcp_transitions (as_rewriter m i sh t) h fl now)"
  by (cases "mark_closing (tw_conn t) h now"; cases "mark_established (tw_conn t) h now")
    (simp_all add: thr_apply_tcp_transitions_def apply_tcp_transitions_def absorb_count)

lemma thr_select_backend_eq:
  "thr_select_backend sh t table h pr st now =
     map_option (\<lambda>(ip, r). (ip, absorb t r)) (select_backend (as_rewriter m i sh t) table h pr st now)"
proof -
  have ins: "map_option (\<lambda>(ip, r). (ip, absorb t r))
        (do { r \<leftarrow> insert_tracked (count c (as_rewriter m i sh t)) h ip pr st now; Some (ip, r) }) =
      do { t \<leftarrow> thr_insert_tracked (thr_count c t) h ip pr st now; Some (ip, t) }" for c ip
    using thr_insert_tracked_eq [of "thr_count c t" h ip pr st now m i sh]
    by (cases "insert_tracked (count c (as_rewriter m i sh t)) h ip pr st now") simp_all
  obtain g where g: "conn_get (tw_conn t) h now = g" by blast
  show ?thesis
  proof (cases "\<exists>ip. g = Some (Some ip) \<and> cached_backend_usable (as_rewriter m i sh t) ip")
    case True
    then show ?thesis
      by (cases "conn_touch (tw_conn t) h now")
        (auto simp: thr_select_backend_def select_backend_def cached_backend_usable_def g absorb_count Let_def
          split: option.splits)
  next
    case False
    then show ?thesis
      using g ins
      by (cases g; cases "the g"; cases "table_lookup table h")
        (auto simp: thr_select_backend_def select_backend_def cached_backend_usable_def Let_def)
  qed
qed

lemma thr_record_first_fragment_eq:
  "frame_ok fr \<Longrightarrow> thr_record_first_fragment xxh3 t (frame_bytes fr) b now =
     map_option (absorb t) (record_first_fragment xxh3 (as_rewriter m i sh t) (buf_of fr) b now)"
  by (cases "is_fragment (frame_bytes fr)"; cases "fragment_id_from_ipv4_bytes (frame_bytes fr)")
    (auto simp: thr_record_first_fragment_def record_first_fragment_def absorb_count
      split: option.splits bind_split)

subsection \<open>The counters do not influence the pipeline\<close>

lemma count_commute: "count c (count d r) = count d (count c r)"
  by (cases "c = d") (simp_all add: count_def fm_inc_def fun_upd_twist)

lemma count_upd: "(count c r)\<lparr>rw_conn := t\<rparr> = count c (r\<lparr>rw_conn := t\<rparr>)"
  "(count c r)\<lparr>rw_frag := f\<rparr> = count c (r\<lparr>rw_frag := f\<rparr>)"
  by (simp_all add: count_def)

lemma insert_tracked_count:
  "insert_tracked (count c r) h ip pr st now = map_option (count c) (insert_tracked r h ip pr st now)"
  by (cases "conn_insert (rw_conn r) h ip pr st now")
    (auto simp: insert_tracked_def Let_def count_upd count_commute [of _ c] split: insert_result.splits)

lemma apply_tcp_transitions_count:
  "apply_tcp_transitions (count c r) h fl now = map_option (count c) (apply_tcp_transitions r h fl now)"
  by (cases "mark_closing (rw_conn r) h now"; cases "mark_established (rw_conn r) h now")
    (simp_all add: apply_tcp_transitions_def count_upd count_commute [of _ c])

lemma select_backend_count:
  "select_backend (count c r) table h pr st now =
     map_option (\<lambda>(ip, r). (ip, count c r)) (select_backend r table h pr st now)"
proof -
  have ins: "do { r \<leftarrow> insert_tracked (count d (count c r)) h ip pr st now; Some (ip, r) } =
      map_option (\<lambda>(ip, r). (ip, count c r))
        (do { r \<leftarrow> insert_tracked (count d r) h ip pr st now; Some (ip, r) })" for d ip
    by (cases "insert_tracked (count d r) h ip pr st now")
      (simp_all add: count_commute [of d c] insert_tracked_count [of c])
  have usable: "cached_backend_usable (count c r) = cached_backend_usable r"
    by (simp add: cached_backend_usable_def fun_eq_iff)
  obtain g where g: "conn_get (rw_conn r) h now = g" by blast
  show ?thesis
  proof (cases "\<exists>ip. g = Some (Some ip) \<and> cached_backend_usable r ip")
    case True
    then show ?thesis
      by (cases "conn_touch (rw_conn r) h now")
        (auto simp: select_backend_def usable g Let_def count_upd count_commute [of _ c])
  next
    case False
    then show ?thesis
      using g ins
      by (cases g; cases "the g"; cases "table_lookup table h")
        (auto simp: select_backend_def usable Let_def)
  qed
qed

lemma record_first_fragment_count:
  "record_first_fragment xxh3 (count c r) p b now =
     map_option (count c) (record_first_fragment xxh3 r p b now)"
  by (simp add: record_first_fragment_def count_upd count_commute [of _ c] split: bind_split option.split)

definition stages ::
  "(u8 list \<Rightarrow> u64) \<Rightarrow> rewriter \<Rightarrow> packet_buf \<Rightarrow> packet_meta \<Rightarrow> lookup_table \<Rightarrow> instant \<Rightarrow> (ip_addr \<times> rewriter) panics" where
  "stages xxh3 r p meta table now = do {
     (b, r) \<leftarrow> select_backend r table (flow_hash xxh3 meta) (flow_proto_from (proto meta))
                 (initial_tcp_state (meta_flags meta)) now;
     r \<leftarrow> (case meta_flags meta of None \<Rightarrow> Some r
           | Some flags \<Rightarrow> apply_tcp_transitions r (flow_hash xxh3 meta) flags now);
     r \<leftarrow> record_first_fragment xxh3 r p b now;
     Some (b, r) }"

lemma stages_count:
  "stages xxh3 (count c r) p meta table now =
     map_option (\<lambda>(ip, r). (ip, count c r)) (stages xxh3 r p meta table now)"
proof -
  have tcp: "(case fl of None \<Rightarrow> Some (count c r) | Some flags \<Rightarrow> apply_tcp_transitions (count c r) h flags now) =
      map_option (count c) (case fl of None \<Rightarrow> Some r | Some flags \<Rightarrow> apply_tcp_transitions r h flags now)"
    for fl h r by (simp add: apply_tcp_transitions_count split: option.split)
  show ?thesis
    by (auto simp: stages_def select_backend_count tcp record_first_fragment_count
        map_option_case split: bind_split option.split)
qed

lemma stages_clamp:
  "stages xxh3 (count_clamp c r) p meta table now =
     map_option (\<lambda>(ip, r). (ip, count_clamp c r)) (stages xxh3 r p meta table now)"
  by (cases c) (simp_all add: count_clamp_def stages_count case_prod_beta option.map_id flip: id_def)

lemma stages_ok:
  assumes wf: "rewriter_wf r" and tok: "table_ok table" and ok: "packet_buf_ok p"
  shows "\<exists>b r'. stages xxh3 r p meta table now = Some (b, r') \<and> rw_keeps r r' \<and> rw_icmp r' = rw_icmp r"
proof -
  let ?h = "flow_hash xxh3 meta"
  obtain b r1 where s: "select_backend r table ?h (flow_proto_from (proto meta))
      (initial_tcp_state (meta_flags meta)) now = Some (b, r1)" "rw_keeps r r1" "rw_icmp r1 = rw_icmp r"
    using select_backend_ok [OF wf tok] by blast
  obtain r2 where t: "(case meta_flags meta of None \<Rightarrow> Some r1
      | Some flags \<Rightarrow> apply_tcp_transitions r1 ?h flags now) = Some r2" "rw_keeps r1 r2" "rw_icmp r2 = rw_icmp r1"
    using apply_tcp_transitions_ok [OF rw_keeps_wf [OF s(2)]] rw_keeps_refl [OF rw_keeps_wf [OF s(2)]]
    by (cases "meta_flags meta") (simp, metis option.simps(5))
  obtain r3 where f: "record_first_fragment xxh3 r2 p b now = Some r3" "rw_keeps r2 r3" "rw_icmp r3 = rw_icmp r2"
    using record_first_fragment_ok [OF rw_keeps_wf [OF t(2)] ok] by blast
  have "rw_keeps r r3" using s(2) t(2) f(2) by (blast intro: rw_keeps_trans)
  with s t f show ?thesis by (simp add: stages_def)
qed

subsection \<open>One frame\<close>

definition thr_wf :: "thr_rewriter \<Rightarrow> bool" where
  "thr_wf t \<longleftrightarrow> conn_table_wf (tw_conn t) \<and> fragment_table_wf (tw_frag t)"

definition shared_ok :: "thr_shared \<Rightarrow> bool" where
  "shared_ok sh \<longleftrightarrow> (\<forall>p tb. sh_tables sh p = Some tb \<longrightarrow> table_ok tb)"

text \<open>What processing a frame keeps of the thread's state.\<close>

definition thr_same :: "thr_rewriter \<Rightarrow> thr_rewriter \<Rightarrow> bool" where
  "thr_same t t' \<longleftrightarrow> tw_src t' = tw_src t \<and> tw_indices t' = tw_indices t \<and> tw_draining t' = tw_draining t"

lemma as_rewriter_wf: "rewriter_wf (as_rewriter m i sh t) \<longleftrightarrow> thr_wf t \<and> shared_ok sh"
  by (auto simp: rewriter_wf_def thr_wf_def shared_ok_def)

lemma thr_count_wf [simp]: "thr_wf (thr_count c t) = thr_wf t"
  by (simp add: thr_wf_def)

lemma thr_same_refl [simp]: "thr_same t t" "thr_same t (thr_count c t') = thr_same t t'"
  "thr_same t (absorb t r)" "thr_same (thr_count c t) t' = thr_same t t'"
  by (simp_all add: thr_same_def)

lemma foldr_thr_count [simp]:
  "thr_wf (foldr thr_count cs t) = thr_wf t" "thr_same u (foldr thr_count cs t) = thr_same u t"
  "tw_conn (foldr thr_count cs t) = tw_conn t" "tw_frag (foldr thr_count cs t) = tw_frag t"
  by (induction cs) simp_all

lemma thr_encapsulate_eq:
  assumes "frame_ok fr"
  shows "\<exists>v fr' t'. thr_encapsulate cs t fr dst = Some (v, fr', t') \<and> frame_ok fr' \<and>
     tw_conn t' = tw_conn t \<and> tw_frag t' = tw_frag t \<and> thr_same t t' \<and>
     gre_encap_to (V4 (tw_src t)) (buf_of fr) (V4 dst) =
       Some (if v = Transmit then Forwarded (buf_of fr') else Dropped)"
proof -
  have ok: "packet_buf_ok (buf_of fr)" using assms by simp
  let ?e = "encapsulate_ipv4_buf (fr_data fr) (fr_len fr) (tw_src t) dst"
  obtain res where "gre_encap_to (V4 (tw_src t)) (buf_of fr) (V4 dst) = Some res" "result_ok res"
    using gre_encap_to_ok [OF ok] by blast
  moreover have "length (fr_data fr) = length data" if "?e = Some (None, data)" for data
    using that encapsulate_ipv4_buf_full [of "fr_data fr" "fr_len fr" "tw_src t" dst]
      encapsulate_ipv4_buf_eq [of "fr_len fr" "fr_data fr" "tw_src t" dst]
    by (metis not_le option.inject prod.inject option.distinct(1))
  ultimately show ?thesis
    using assms
    by (cases ?e)
      (auto simp: thr_encapsulate_def gre_encap_to_def encapsulate_ipv4_def buf_of_def frame_ok_def
        packet_buf_ok_def result_ok_def split: option.splits)
qed

lemma thr_main_path:
  assumes wf: "thr_wf t" "shared_ok sh" and ok: "frame_ok fr" and tok: "table_ok table"
    and st: "stages xxh3 (as_rewriter m i sh t) (buf_of fr) meta table now = Some (b, r)"
    and k: "rw_keeps (as_rewriter m i sh t) r" "rw_icmp r = i"
  shows "do {
      (backend, t) \<leftarrow> thr_select_backend sh t table (flow_hash xxh3 meta) (flow_proto_from (proto meta))
                       (initial_tcp_state (meta_flags meta)) now;
      t \<leftarrow> (case meta_flags meta of None \<Rightarrow> Some t
            | Some flags \<Rightarrow> thr_apply_tcp_transitions t (flow_hash xxh3 meta) flags now);
      t \<leftarrow> thr_record_first_fragment xxh3 t (frame_bytes fr) backend now;
      f backend t } = f b (absorb t r)"
proof -
  let ?h = "flow_hash xxh3 meta"
  have rwf: "rewriter_wf (as_rewriter m i sh t)" using wf by (simp add: as_rewriter_wf)
  obtain b1 r1 where s: "select_backend (as_rewriter m i sh t) table ?h (flow_proto_from (proto meta))
      (initial_tcp_state (meta_flags meta)) now = Some (b1, r1)" "rw_keeps (as_rewriter m i sh t) r1"
      "rw_icmp r1 = i"
    using select_backend_ok [OF rwf tok] by (metis as_rewriter_sel(9))
  have e1: "as_rewriter m i sh (absorb t r1) = r1" by (rule as_rewriter_absorb [OF s(2,3)])
  obtain r2 where t: "(case meta_flags meta of None \<Rightarrow> Some r1
      | Some flags \<Rightarrow> apply_tcp_transitions r1 ?h flags now) = Some r2" "rw_keeps r1 r2" "rw_icmp r2 = i"
    using apply_tcp_transitions_ok [OF rw_keeps_wf [OF s(2)]] rw_keeps_refl [OF rw_keeps_wf [OF s(2)]] s(3)
    by (cases "meta_flags meta") (simp, metis option.simps(5))
  have e2: "as_rewriter m i sh (absorb t r2) = r2"
    by (rule as_rewriter_absorb [OF rw_keeps_trans [OF s(2) t(2)] t(3)])
  have thr_t: "(case meta_flags meta of None \<Rightarrow> Some (absorb t r1)
      | Some flags \<Rightarrow> thr_apply_tcp_transitions (absorb t r1) ?h flags now) = Some (absorb t r2)"
    using t(1) thr_apply_tcp_transitions_eq [of "absorb t r1" ?h _ now m i sh]
    by (cases "meta_flags meta") (simp_all add: e1 comp_def)
  from st s(1) t(1) have rec: "record_first_fragment xxh3 r2 (buf_of fr) b1 now = Some r" and "b1 = b"
    by (auto simp: stages_def split: bind_splits)
  with thr_record_first_fragment_eq [OF ok, of xxh3 "absorb t r2" b1 now m i sh] e2
  have "thr_record_first_fragment xxh3 (absorb t r2) (frame_bytes fr) b now = Some (absorb t r)" by simp
  with thr_select_backend_eq [of sh t table ?h _ _ now m i] s(1) thr_t \<open>b1 = b\<close> show ?thesis by simp
qed

lemma thr_later_fragment_eq:
  assumes wf: "thr_wf t" and ok: "frame_ok fr"
    and t0: "tw_src t0 = tw_src t" "tw_conn t0 = tw_conn t" "tw_frag t0 = tw_frag t"
  shows "\<exists>v fr' t' r'. thr_later_fragment xxh3 t fr now = Some (v, fr', t') \<and> frame_ok fr' \<and>
     tw_conn t' = tw_conn t \<and> tw_frag t' = tw_frag t \<and> thr_same t t' \<and>
     process_later_fragment xxh3 (as_rewriter m i sh t0) (buf_of fr) now =
       Some (if v = Transmit then Forwarded (buf_of fr') else Dropped, r') \<and>
     rw_conn r' = tw_conn t \<and> rw_frag r' = tw_frag t"
proof -
  obtain fid where fid: "fragment_id_from_ipv4_bytes (frame_bytes fr) = Some fid"
    using fragment_id_no_panic by blast
  note defs = thr_later_fragment_def process_later_fragment_def fid ok t0
  have fw: "fragment_table_wf (tw_frag t)" using wf by (simp add: thr_wf_def)
  show ?thesis
  proof (cases fid)
    case None
    with ok show ?thesis by (simp add: defs)
  next
    case (Some f)
    obtain hit where hit: "fragment_get (tw_frag t) (fragment_hash xxh3 f) now = Some hit"
      using fragment_get_total [OF fw] by blast
    show ?thesis
    proof (cases hit)
      case None
      with Some hit ok show ?thesis by (simp add: defs)
    next
      case (Some ip)
      show ?thesis
      proof (cases ip)
        case (V4 dst)
        from thr_encapsulate_eq [OF ok, of "[PacketsForwarded, FragmentSubsequentForwarded]" t dst]
        show ?thesis using \<open>fid = Some f\<close> hit Some V4 by (auto simp: defs)
      next
        case (V6 a)
        then show ?thesis
          using \<open>fid = Some f\<close> hit Some ok by (simp add: defs gre_encap_to_def)
      qed
    qed
  qed
qed

text \<open>
  The two pipelines on one frame, whatever the frame: either the thread runs the same stages, or
  one of the guards before them answers.
\<close>

definition guard_drops :: "(u8 list \<Rightarrow> u64) \<Rightarrow> thr_shared \<Rightarrow> frame \<Rightarrow> bool" where
  "guard_drops xxh3 sh fr \<longleftrightarrow>
     (case from_ipv4_bytes (frame_bytes fr) of
        Some (Some meta) \<Rightarrow>
          (case match_packet (sh_matcher sh) (dst_ip meta) (proto meta) (dst_port meta) of
             Some pool \<Rightarrow> sh_tables sh pool = None
           | None \<Rightarrow> True)
      | _ \<Rightarrow> True)"

lemma thr_process_stages:
  assumes wf: "thr_wf t" "shared_ok sh" and ok: "frame_ok fr"
    and first: "is_non_first_fragment (frame_bytes fr) = Some False" and "\<not> guard_drops xxh3 sh fr"
  shows "\<exists>meta pool table b r. from_ipv4_bytes (frame_bytes fr) = Some (Some meta) \<and>
     match_packet (sh_matcher sh) (dst_ip meta) (proto meta) (dst_port meta) = Some pool \<and>
     sh_tables sh pool = Some table \<and>
     stages xxh3 (as_rewriter m i sh t) (buf_of fr) meta table now = Some (b, r) \<and>
     rw_keeps (as_rewriter m i sh t) r \<and>
     thr_process xxh3 sh t fr now = (case b of
         V6 _ \<Rightarrow> Some (Release, fr, thr_count PacketsDropped (absorb t (count PacketsReceived r)))
       | V4 dst \<Rightarrow> thr_encapsulate [PacketsForwarded] (absorb t (count PacketsReceived r)) fr dst)"
proof -
  let ?t = "thr_count PacketsReceived t"
  obtain meta pool table where m: "from_ipv4_bytes (frame_bytes fr) = Some (Some meta)"
    "match_packet (sh_matcher sh) (dst_ip meta) (proto meta) (dst_port meta) = Some pool"
    "sh_tables sh pool = Some table"
    using assms(5) from_ipv4_bytes_no_panic [of "frame_bytes fr"]
    by (auto simp: guard_drops_def split: option.splits)
  have tok: "table_ok table" using wf(2) m(3) by (auto simp: shared_ok_def)
  obtain b r where st: "stages xxh3 (as_rewriter m i sh t) (buf_of fr) meta table now = Some (b, r)"
    "rw_keeps (as_rewriter m i sh t) r" "rw_icmp r = i"
    using stages_ok [of "as_rewriter m i sh t" table "buf_of fr" xxh3 meta now] tok wf ok
    by (auto simp: as_rewriter_wf)
  have st': "stages xxh3 (as_rewriter m i sh ?t) (buf_of fr) meta table now = Some (b, count PacketsReceived r)"
    using st(1) by (simp add: stages_count)
  obtain b' r' where "stages xxh3 (as_rewriter m i sh ?t) (buf_of fr) meta table now = Some (b', r')"
    "rw_keeps (as_rewriter m i sh ?t) r'" "rw_icmp r' = i"
    using stages_ok [of "as_rewriter m i sh ?t" table "buf_of fr" xxh3 meta now] tok wf ok
    by (auto simp: as_rewriter_wf simp del: as_rewriter_count)
  with st' have "rw_keeps (as_rewriter m i sh ?t) (count PacketsReceived r)" "rw_icmp (count PacketsReceived r) = i"
    by auto
  from thr_main_path [OF _ wf(2) ok tok st' this] wf(1) first m ok st(1,2)
  show ?thesis
    by (intro exI [of _ meta] exI [of _ pool] exI [of _ table] exI [of _ b] exI [of _ r])
      (simp add: thr_process_def Let_def)
qed

lemma thr_process_guard:
  assumes "frame_ok fr" and "is_non_first_fragment (frame_bytes fr) = Some False" and "guard_drops xxh3 sh fr"
  shows "thr_process xxh3 sh t fr now = Some (Release, fr, thr_count PacketsDropped (thr_count PacketsReceived t))"
  using assms from_ipv4_bytes_no_panic [of "frame_bytes fr"]
  by (auto simp: thr_process_def guard_drops_def Let_def split: option.splits)

lemma thr_process_ok:
  assumes wf: "thr_wf t" "shared_ok sh" and ok: "frame_ok fr"
  shows "\<exists>v fr' t'. thr_process xxh3 sh t fr now = Some (v, fr', t') \<and> frame_ok fr' \<and> thr_wf t' \<and> thr_same t t'"
proof -
  obtain later where later: "is_non_first_fragment (frame_bytes fr) = Some later"
    using is_non_first_fragment_no_panic by blast
  show ?thesis
  proof (cases later)
    case True
    have "thr_wf (thr_count PacketsReceived t)" using wf by simp
    from thr_later_fragment_eq [OF this ok refl refl refl, of xxh3 now undefined undefined sh]
    obtain v fr' t' where
      "thr_later_fragment xxh3 (thr_count PacketsReceived t) fr now = Some (v, fr', t')" "frame_ok fr'"
      "tw_conn t' = tw_conn t" "tw_frag t' = tw_frag t" "thr_same t t'" by auto
    with wf later ok True show ?thesis by (simp add: thr_process_def thr_wf_def)
  next
    case first: False
    show ?thesis
    proof (cases "guard_drops xxh3 sh fr")
      case True
      with thr_process_guard [OF ok _ True] later first wf ok show ?thesis by simp
    next
      case False
      have "is_non_first_fragment (frame_bytes fr) = Some False" using later first by simp
      from thr_process_stages [OF wf ok this False, of undefined undefined now]
      obtain b r where r: "rw_keeps (as_rewriter undefined undefined sh t) r"
        "thr_process xxh3 sh t fr now = (case b of
           V6 _ \<Rightarrow> Some (Release, fr, thr_count PacketsDropped (absorb t (count PacketsReceived r)))
         | V4 dst \<Rightarrow> thr_encapsulate [PacketsForwarded] (absorb t (count PacketsReceived r)) fr dst)"
        by blast
      have w: "thr_wf (absorb t (count PacketsReceived r))"
        using rw_keeps_wf [OF r(1)] by (simp add: rewriter_wf_def thr_wf_def)
      show ?thesis
      proof (cases b)
        case (V4 dst)
        with thr_encapsulate_eq [OF ok, of "[PacketsForwarded]" "absorb t (count PacketsReceived r)" dst] r(2) w
        show ?thesis by (auto simp: thr_wf_def thr_same_def)
      next
        case (V6 a)
        with r(2) w ok show ?thesis by simp
      qed
    qed
  qed
qed

lemma as_mut_slice_same:
  assumes "frame_ok fr" and "f (frame_bytes fr) = Some (c, frame_bytes fr)"
  shows "as_mut_slice (buf_of fr) f = Some (c, buf_of fr)"
  using assms by (simp add: as_mut_slice_def) (simp add: buf_of_def frame_bytes_def)

text \<open>
  The two pipelines agree on a frame: both end without a panic, with the same verdict, the same
  bytes to transmit and the same two tables. Its three cases (a later fragment, a guard that
  drops, a packet that reaches a backend) are proved one by one.
\<close>

definition outcome_agrees ::
  "(u8 list \<Rightarrow> u64) \<Rightarrow> mtu_config \<Rightarrow> icmp_rate_limiter \<Rightarrow> thr_shared \<Rightarrow> thr_rewriter \<Rightarrow> frame \<Rightarrow> instant \<Rightarrow> bool"
where
  "outcome_agrees xxh3 mtu icmp sh t fr now \<longleftrightarrow>
    (\<exists>v fr' t' r'. thr_process xxh3 sh t fr now = Some (v, fr', t') \<and>
     process_one xxh3 (as_rewriter mtu icmp sh t) (buf_of fr) now =
       Some (if v = Transmit then Forwarded (buf_of fr') else Dropped, r') \<and>
     rw_conn r' = tw_conn t' \<and> rw_frag r' = tw_frag t' \<and> thr_same t t')"

lemma later_fragment_agrees:
  assumes "thr_wf t" and "frame_ok fr" and "is_non_first_fragment (frame_bytes fr) = Some True"
  shows "outcome_agrees xxh3 mtu icmp sh t fr now"
proof -
  have "thr_wf (thr_count PacketsReceived t)" using assms(1) by simp
  from thr_later_fragment_eq [OF this assms(2), of t xxh3 now mtu icmp sh] obtain v fr' t' r' where
    "thr_later_fragment xxh3 (thr_count PacketsReceived t) fr now = Some (v, fr', t')" "thr_same t t'"
    "process_later_fragment xxh3 (as_rewriter mtu icmp sh t) (buf_of fr) now =
       Some (if v = Transmit then Forwarded (buf_of fr') else Dropped, r')"
    "rw_conn r' = tw_conn t'" "rw_frag r' = tw_frag t'" by auto
  with assms(2,3) show ?thesis unfolding outcome_agrees_def
    by (intro exI [of _ v] exI [of _ fr'] exI [of _ t'] exI [of _ r'])
      (simp add: thr_process_def process_one_def)
qed

lemma guarded_agrees:
  assumes "frame_ok fr" and "is_non_first_fragment (frame_bytes fr) = Some False"
    and "guard_drops xxh3 sh fr"
    and "as_mut_slice (buf_of fr) (\<lambda>d. clamp_mss d (tcp_mss_clamp mtu)) = Some (c, buf_of fr)"
  shows "outcome_agrees xxh3 mtu icmp sh t fr now"
proof -
  let ?r = "as_rewriter mtu icmp sh t"
  have "process_one xxh3 ?r (buf_of fr) now = Some (Dropped, ?r) \<or>
      process_one xxh3 ?r (buf_of fr) now = Some (Dropped, count_clamp c ?r)"
    using assms from_ipv4_bytes_no_panic [of "frame_bytes fr"]
    by (auto simp: process_one_def guard_drops_def Let_def split: option.splits)
  with thr_process_guard [OF assms(1-3)] show ?thesis unfolding outcome_agrees_def by auto
qed

lemma tracked_agrees:
  assumes "thr_wf t" and "shared_ok sh" and "frame_ok fr"
    and no: "is_non_first_fragment (frame_bytes fr) = Some False"
    and go: "\<not> guard_drops xxh3 sh fr"
    and clamp: "as_mut_slice (buf_of fr) (\<lambda>d. clamp_mss d (tcp_mss_clamp mtu)) = Some (c, buf_of fr)"
    and icmp: "should_generate_icmp (frame_bytes fr) (network_mtu mtu) = Some False"
  shows "outcome_agrees xxh3 mtu icmp sh t fr now"
proof -
  let ?r = "as_rewriter mtu icmp sh t"
  obtain meta pool table b r where m: "from_ipv4_bytes (frame_bytes fr) = Some (Some meta)"
    "match_packet (sh_matcher sh) (dst_ip meta) (proto meta) (dst_port meta) = Some pool"
    "sh_tables sh pool = Some table"
    and st: "stages xxh3 ?r (buf_of fr) meta table now = Some (b, r)"
    and k: "rw_keeps ?r r"
    and run: "thr_process xxh3 sh t fr now = (case b of
     V6 _ \<Rightarrow> Some (Release, fr, thr_count PacketsDropped (absorb t (count PacketsReceived r)))
   | V4 dst \<Rightarrow> thr_encapsulate [PacketsForwarded] (absorb t (count PacketsReceived r)) fr dst)"
    using thr_process_stages [OF assms(1-3) no go, of mtu icmp now] by blast
  have st': "stages xxh3 (count_clamp c ?r) (buf_of fr) meta table now = Some (b, count_clamp c r)"
    by (simp add: stages_clamp st)
  have same: "rw_mtu r = mtu" "rw_src_ip r = V4 (tw_src t)" using k by (simp_all add: rw_keeps_def)
  have "process_one xxh3 ?r (buf_of fr) now =
      finish_packet (count_clamp c r) (buf_of fr) (dst_ip meta) b now"
    using no m clamp st' assms(3) by (auto simp: process_one_def stages_def Let_def split: bind_splits)
  then have one: "process_one xxh3 ?r (buf_of fr) now =
      do { res \<leftarrow> gre_encap_to (V4 (tw_src t)) (buf_of fr) b; Some (res, count_clamp c r) }"
    using assms(3) icmp same by (simp add: finish_packet_def)
  show ?thesis
  proof (cases b)
    case (V4 dst)
    with thr_encapsulate_eq [OF assms(3), of "[PacketsForwarded]" "absorb t (count PacketsReceived r)" dst]
      run one show ?thesis by (auto simp: thr_same_def outcome_agrees_def)
  next
    case (V6 a)
    with run one show ?thesis by (simp add: gre_encap_to_def outcome_agrees_def)
  qed
qed

text \<open>
  C21. On a frame that needs neither MSS clamping nor an ICMP reply the thread of the arena does
  what the original pipeline does on the same bytes: the same verdict, byte for byte the same
  frame to transmit, and the same connection and fragment tables afterwards. Neither panics.
\<close>

theorem pool_rewriter_agrees:
  assumes "thr_wf t" and "shared_ok sh" and "frame_ok fr"
    and "clamp_mss (frame_bytes fr) (tcp_mss_clamp mtu) = Some (c, frame_bytes fr)"
    and "should_generate_icmp (frame_bytes fr) (network_mtu mtu) = Some False"
  shows "\<exists>v fr' t' r'. thr_process xxh3 sh t fr now = Some (v, fr', t') \<and>
     process_one xxh3 (as_rewriter mtu icmp sh t) (buf_of fr) now =
       Some (if v = Transmit then Forwarded (buf_of fr') else Dropped, r') \<and>
     rw_conn r' = tw_conn t' \<and> rw_frag r' = tw_frag t' \<and> thr_same t t'"
proof -
  have clamp: "as_mut_slice (buf_of fr) (\<lambda>d. clamp_mss d (tcp_mss_clamp mtu)) = Some (c, buf_of fr)"
    using as_mut_slice_same [OF assms(3), of "\<lambda>d. clamp_mss d (tcp_mss_clamp mtu)"] assms(4) by blast
  obtain later where "is_non_first_fragment (frame_bytes fr) = Some later"
    using is_non_first_fragment_no_panic by blast
  then have "outcome_agrees xxh3 mtu icmp sh t fr now"
    using later_fragment_agrees [OF assms(1,3)] guarded_agrees [OF assms(3) _ _ clamp]
      tracked_agrees [OF assms(1-3) _ _ clamp assms(5)] by (cases later; cases "guard_drops xxh3 sh fr") simp_all
  then show ?thesis by (simp only: outcome_agrees_def)
qed

definition sample_frame :: frame where
  "sample_frame = write_from frame_new (sample_bytes 0x20 0)"

lemma buf_of_write_from: "buf_of (write_from frame_new bs) = from_slice bs"
  by (simp add: buf_of_def write_from_def from_slice_def frame_new_def packet_buf_new_def Let_def)

lemma sample_thread:
  "\<exists>r t sh. sample_start = Some r \<and> thr_wf t \<and> shared_ok sh \<and>
     as_rewriter (rw_mtu r) (rw_icmp r) sh t = r \<and>
     rw_mtu r = \<lparr>network_mtu = 1500, effective_inner_mtu = 1476, tcp_mss_clamp = 1436\<rparr>"
proof -
  obtain r where r: "sample_start = Some r" "rewriter_wf r" "rw_src_ip r = V4 (Ipv4 172 16 0 1)"
    "rw_mtu r = \<lparr>network_mtu = 1500, effective_inner_mtu = 1476, tcp_mss_clamp = 1436\<rparr>"
    using sample_started by blast
  define t where "t = \<lparr>tw_src = Ipv4 172 16 0 1, tw_conn = rw_conn r, tw_frag = rw_frag r,
    tw_metrics = rw_metrics r, tw_indices = [], tw_draining = True\<rparr>"
  define sh where "sh = \<lparr>sh_tables = rw_tables r, sh_matcher = rw_matcher r, sh_health = rw_health r\<rparr>"
  have e: "as_rewriter (rw_mtu r) (rw_icmp r) sh t = r"
    using r(3) by (simp add: as_rewriter_def t_def sh_def)
  with r(2) as_rewriter_wf [of "rw_mtu r" "rw_icmp r" sh t] have "thr_wf t \<and> shared_ok sh" by simp
  with e r show ?thesis by blast
qed

lemma pool_rewriter_agrees_witness:
  "\<exists>r t sh fr' t' r'. sample_start = Some r \<and>
     thr_process (\<lambda>_. 0) sh t sample_frame 7 = Some (Transmit, fr', t') \<and>
     process_one (\<lambda>_. 0) r (buf_of sample_frame) 7 = Some (Forwarded (buf_of fr'), r') \<and>
     rw_conn r' = tw_conn t'"
proof -
  obtain r t sh where s: "sample_start = Some r" "thr_wf t" "shared_ok sh"
    "as_rewriter (rw_mtu r) (rw_icmp r) sh t = r"
    "rw_mtu r = \<lparr>network_mtu = 1500, effective_inner_mtu = 1476, tcp_mss_clamp = 1436\<rparr>"
    using sample_thread by blast
  have f: "frame_ok sample_frame" "frame_bytes sample_frame = sample_bytes 0x20 0"
    by (simp_all add: sample_frame_def)
  obtain q r1 where fwd: "process_one (\<lambda>_. 0) r (buf_of sample_frame) 7 = Some (Forwarded q, r1)"
    using sample_forwarded unfolding s(1) sample_frame_def buf_of_write_from by blast
  have "clamp_mss (frame_bytes sample_frame) (tcp_mss_clamp (rw_mtu r)) = Some (CNotTcp, frame_bytes sample_frame)"
    "should_generate_icmp (frame_bytes sample_frame) (network_mtu (rw_mtu r)) = Some False"
    using sample_parse(7,8) by (simp_all add: f s(5))
  from pool_rewriter_agrees [OF s(2,3) f(1) this, of "\<lambda>_. 0" 7 "rw_icmp r"]
  obtain v fr' t' r' where "thr_process (\<lambda>_. 0) sh t sample_frame 7 = Some (v, fr', t')"
    "process_one (\<lambda>_. 0) r (buf_of sample_frame) 7 =
       Some (if v = Transmit then Forwarded (buf_of fr') else Dropped, r')" "rw_conn r' = tw_conn t'"
    unfolding s(4) by blast
  with fwd have "thr_process (\<lambda>_. 0) sh t sample_frame 7 = Some (Transmit, fr', t')"
    "process_one (\<lambda>_. 0) r (buf_of sample_frame) 7 = Some (Forwarded (buf_of fr'), r')"
    "rw_conn r' = tw_conn t'" by (cases v; simp)+
  with s(1) show ?thesis by blast
qed

end
