(* ===== verification/Threading.thy ===== *)
theory Threading
  imports PoolRewriter "HOL-Library.Multiset"
begin

text \<open>
  The multi-threaded forwarder (crate lb-forwarder, threading.rs): one steering thread, the
  rewriter threads and one muxer thread exchange frame indices through \<^verbatim>\<open>ArrayQueue\<close>s. The state
  holds the arena, the queues and what each thread has in its local variables; a rule of
  \<open>fwd_step\<close> is one atomic queue operation of one thread together with the local work around it,
  so a run is any interleaving of the threads. The queues are a parameter with crossbeam's
  contract (locale \<open>array_queue\<close>).

  The lemmas of \<open>frame_pool\<close>, the locale of the arena, are continued here: in every reachable
  state each frame index is in exactly one place (\<open>ownership\<close>), no thread panics, and the system
  can always run until all frames are free again.
\<close>

subsection \<open>Constants and configuration\<close>

definition QUEUE_CAPACITY :: nat where "QUEUE_CAPACITY = 4096"
definition BATCH_DRAIN_SIZE :: nat where "BATCH_DRAIN_SIZE = 64"
definition SPIN_BEFORE_PARK :: nat where "SPIN_BEFORE_PARK = 64"

record cpu_affinity =
  aff_steering :: "nat list"
  aff_rewriters :: "nat list"
  aff_muxer :: "nat list"

record forwarder_config =
  fc_src_ip :: ip_addr
  fc_connection_table_size :: nat
  fc_conn_ttls :: conn_ttls
  fc_fragment_table_size :: nat
  fc_fragment_ttl :: duration
  fc_batch_size :: nat
  fc_mtu_config :: mtu_config
  fc_icmp_rate_limit :: u32
  fc_cpu_affinity :: "cpu_affinity option"

subsection \<open>State\<close>

text \<open>
  Steering has packets of a batch left to distribute, or holds an index it is about to queue; the
  muxer collects from queue \<open>q\<close> on, or returns the indices it has sent.
\<close>

datatype steer_pc = Distribute "packet_buf list" | Enqueue frame_index nat "packet_buf list"
datatype mux_pc = Collect nat "frame_index list" | Return "frame_index list"

record 'q forwarder =
  fw_pool :: "'q packet_pool"
  fw_rx :: "'q list"
  fw_tx :: "'q list"
  fw_steer :: steer_pc
  fw_rws :: "thr_rewriter list"
  fw_panicked :: bool  \<comment> \<open>a rewriter thread panicked as it started\<close>
  fw_mux :: mux_pc
  fw_out :: "u8 list list"  \<comment> \<open>the packets handed to \<open>send_batch\<close>, in order\<close>

definition pool_size :: "nat \<Rightarrow> nat \<Rightarrow> nat" where
  "pool_size num_rewriters batch_size = QUEUE_CAPACITY * num_rewriters * 2 + batch_size * 2"

text \<open>
  \<open>mk n\<close> is \<^verbatim>\<open>ArrayQueue::new(n)\<close>. Each rewriter thread builds its tables first: if a size is not
  a power of two it panics there, which ends that thread only, all of them here as the sizes are the
  same. With an IPv6 source address the threads return at once. Steering and muxer run either way.
\<close>

definition fwd_start ::
  "('q, frame_index) queue_ops \<Rightarrow> (nat \<Rightarrow> 'q) \<Rightarrow> forwarder_config \<Rightarrow> nat \<Rightarrow> instant \<Rightarrow> 'q forwarder" where
  "fwd_start ops mk config num_rewriters0 now =
     (let num_rewriters = max num_rewriters0 1;
          size = pool_size num_rewriters (fc_batch_size config);
          thread = thr_rewriter_new (fc_src_ip config) (fc_connection_table_size config)
                     (fc_conn_ttls config) (fc_fragment_table_size config) (fc_fragment_ttl config) now
      in \<lparr>fw_pool = packet_pool_new ops (mk size) size,
          fw_rx = replicate num_rewriters (mk QUEUE_CAPACITY),
          fw_tx = replicate num_rewriters (mk QUEUE_CAPACITY),
          fw_steer = Distribute [],
          fw_rws = (case thread of
              None \<Rightarrow> []
            | Some None \<Rightarrow> []
            | Some (Some t) \<Rightarrow> replicate num_rewriters t),
          fw_panicked = (thread = None),
          fw_mux = Collect 0 [],
          fw_out = []\<rparr>)"

subsection \<open>Steering\<close>

definition steer_alloc ::
  "('q, frame_index) queue_ops \<Rightarrow> (u8 list \<Rightarrow> u64) \<Rightarrow> 'q forwarder \<Rightarrow> packet_buf \<Rightarrow> packet_buf list \<Rightarrow>
   'q forwarder panics" where
  "steer_alloc ops xxh3 s p ps =
     (case pool_alloc ops (fw_pool s) of
        (None, _) \<Rightarrow> Some (s\<lparr>fw_steer := Distribute ps\<rparr>)
      | (Some idx, pool) \<Rightarrow> do {
          bytes \<leftarrow> as_slice p;
          fr \<leftarrow> pool_get pool idx;
          let fr = write_from fr bytes;
          pool \<leftarrow> pool_put pool idx fr;
          data \<leftarrow> frame_slice fr;
          parsed \<leftarrow> from_ip_bytes data;
          q \<leftarrow> (case parsed of Some meta \<Rightarrow> assign_queue xxh3 meta (length (fw_rx s)) | None \<Rightarrow> Some 0);
          Some (s\<lparr>fw_pool := pool, fw_steer := Enqueue idx q ps\<rparr>) })"

definition steer_push ::
  "('q, frame_index) queue_ops \<Rightarrow> 'q forwarder \<Rightarrow> frame_index \<Rightarrow> nat \<Rightarrow> packet_buf list \<Rightarrow>
   'q forwarder panics" where
  "steer_push ops s idx q ps = do {
     rx \<leftarrow> byte_at (fw_rx s) q;
     Some (case q_push ops rx idx of
       Some rx' \<Rightarrow> s\<lparr>fw_rx := (fw_rx s)[q := rx'], fw_steer := Distribute ps\<rparr>
     | None \<Rightarrow> s\<lparr>fw_pool := pool_free ops (fw_pool s) idx, fw_steer := Distribute ps\<rparr>) }"

subsection \<open>Rewriters\<close>

text \<open>An empty receive queue ends the drain of a batch, unless nothing was drained: then the
  thread spins or parks and tries again.\<close>

definition rw_pop :: "('q, frame_index) queue_ops \<Rightarrow> 'q forwarder \<Rightarrow> nat \<Rightarrow> thr_rewriter \<Rightarrow> 'q forwarder panics" where
  "rw_pop ops s i t =
     (if length (tw_indices t) < BATCH_DRAIN_SIZE
      then do {
        rx \<leftarrow> byte_at (fw_rx s) i;
        Some (case q_pop ops rx of
          Some (idx, rx') \<Rightarrow> s\<lparr>fw_rx := (fw_rx s)[i := rx'],
            fw_rws := (fw_rws s)[i := t\<lparr>tw_indices := tw_indices t @ [idx]\<rparr>]\<rparr>
        | None \<Rightarrow> if tw_indices t = [] then s
                  else s\<lparr>fw_rws := (fw_rws s)[i := t\<lparr>tw_draining := False\<rparr>]\<rparr>) }
      else Some (s\<lparr>fw_rws := (fw_rws s)[i := t\<lparr>tw_draining := False\<rparr>]\<rparr>))"

definition rw_process ::
  "('q, frame_index) queue_ops \<Rightarrow> (u8 list \<Rightarrow> u64) \<Rightarrow> thr_shared \<Rightarrow> instant \<Rightarrow> 'q forwarder \<Rightarrow> nat \<Rightarrow>
   thr_rewriter \<Rightarrow> frame_index \<Rightarrow> frame_index list \<Rightarrow> 'q forwarder panics" where
  "rw_process ops xxh3 sh now s i t idx rest = do {
     fr \<leftarrow> pool_get (fw_pool s) idx;
     (v, fr, t) \<leftarrow> thr_process xxh3 sh t fr now;
     pool \<leftarrow> pool_put (fw_pool s) idx fr;
     let s = s\<lparr>fw_pool := pool, fw_rws := (fw_rws s)[i := t\<lparr>tw_indices := rest\<rparr>]\<rparr>;
     case v of
       Release \<Rightarrow> Some (s\<lparr>fw_pool := pool_free ops pool idx\<rparr>)
     | Transmit \<Rightarrow> do {
         tx \<leftarrow> byte_at (fw_tx s) i;
         Some (case q_push ops tx idx of
           Some tx' \<Rightarrow> s\<lparr>fw_tx := (fw_tx s)[i := tx']\<rparr>
         | None \<Rightarrow> s\<lparr>fw_pool := pool_free ops pool idx\<rparr>) } }"

definition rw_end :: "'q forwarder \<Rightarrow> nat \<Rightarrow> thr_rewriter \<Rightarrow> 'q forwarder" where
  "rw_end s i t = s\<lparr>fw_rws := (fw_rws s)[i := t\<lparr>tw_draining := True,
     tw_metrics := (tw_metrics t)\<lparr>fm_conn_table_size := int (conn_len (tw_conn t)),
                                  fm_conn_table_fill_bp := fill_bp (tw_conn t)\<rparr>\<rparr>]\<rparr>"

subsection \<open>Muxer\<close>

definition mux_pop ::
  "('q, frame_index) queue_ops \<Rightarrow> 'q forwarder \<Rightarrow> nat \<Rightarrow> frame_index list \<Rightarrow> 'q forwarder panics" where
  "mux_pop ops s q ids = do {
     tx \<leftarrow> byte_at (fw_tx s) q;
     Some (case q_pop ops tx of
       Some (idx, tx') \<Rightarrow> s\<lparr>fw_tx := (fw_tx s)[q := tx'], fw_mux := Collect q (ids @ [idx])\<rparr>
     | None \<Rightarrow> s\<lparr>fw_mux := Collect (Suc q) ids\<rparr>) }"

fun gather :: "'q packet_pool \<Rightarrow> frame_index list \<Rightarrow> u8 list list panics" where
  "gather pool [] = Some []"
| "gather pool (idx # ids) = do {
     fr \<leftarrow> pool_get pool idx;
     d \<leftarrow> frame_slice fr;
     ds \<leftarrow> gather pool ids;
     Some (d # ds) }"

definition mux_send :: "'q forwarder \<Rightarrow> frame_index list \<Rightarrow> 'q forwarder panics" where
  "mux_send s ids =
     (if ids = [] then Some (s\<lparr>fw_mux := Collect 0 []\<rparr>)
      else do {
        packets \<leftarrow> gather (fw_pool s) ids;
        Some (s\<lparr>fw_out := fw_out s @ packets, fw_mux := Return ids\<rparr>) })"

definition mux_free :: "('q, frame_index) queue_ops \<Rightarrow> 'q forwarder \<Rightarrow> frame_index \<Rightarrow> frame_index list \<Rightarrow> 'q forwarder" where
  "mux_free ops s idx ids = s\<lparr>fw_pool := pool_free ops (fw_pool s) idx, fw_mux := Return ids\<rparr>"

subsection \<open>Steps\<close>

inductive fwd_step ::
  "('q, frame_index) queue_ops \<Rightarrow> (u8 list \<Rightarrow> u64) \<Rightarrow> nat \<Rightarrow> 'q forwarder \<Rightarrow> 'q forwarder \<Rightarrow> bool"
  for ops xxh3 batch where
  Recv: "fw_steer s = Distribute [] \<Longrightarrow> length ps \<le> batch \<Longrightarrow> list_all packet_buf_ok ps \<Longrightarrow>
    fwd_step ops xxh3 batch s (s\<lparr>fw_steer := Distribute ps\<rparr>)"
| Alloc: "fw_steer s = Distribute (p # ps) \<Longrightarrow> steer_alloc ops xxh3 s p ps = Some s' \<Longrightarrow>
    fwd_step ops xxh3 batch s s'"
| Push: "fw_steer s = Enqueue idx q ps \<Longrightarrow> steer_push ops s idx q ps = Some s' \<Longrightarrow>
    fwd_step ops xxh3 batch s s'"
| Drain: "i < length (fw_rws s) \<Longrightarrow> tw_draining (fw_rws s ! i) \<Longrightarrow> rw_pop ops s i (fw_rws s ! i) = Some s' \<Longrightarrow>
    fwd_step ops xxh3 batch s s'"
| Process: "i < length (fw_rws s) \<Longrightarrow> \<not> tw_draining (fw_rws s ! i) \<Longrightarrow> tw_indices (fw_rws s ! i) = idx # rest \<Longrightarrow>
    shared_ok sh \<Longrightarrow> rw_process ops xxh3 sh now s i (fw_rws s ! i) idx rest = Some s' \<Longrightarrow>
    fwd_step ops xxh3 batch s s'"
| EndBatch: "i < length (fw_rws s) \<Longrightarrow> \<not> tw_draining (fw_rws s ! i) \<Longrightarrow> tw_indices (fw_rws s ! i) = [] \<Longrightarrow>
    fwd_step ops xxh3 batch s (rw_end s i (fw_rws s ! i))"
| MuxPop: "fw_mux s = Collect q ids \<Longrightarrow> q < length (fw_tx s) \<Longrightarrow> length ids < batch \<Longrightarrow>
    mux_pop ops s q ids = Some s' \<Longrightarrow> fwd_step ops xxh3 batch s s'"
| MuxSend: "fw_mux s = Collect q ids \<Longrightarrow> length (fw_tx s) \<le> q \<or> batch \<le> length ids \<Longrightarrow>
    mux_send s ids = Some s' \<Longrightarrow> fwd_step ops xxh3 batch s s'"
| MuxFree: "fw_mux s = Return (idx # ids) \<Longrightarrow> fwd_step ops xxh3 batch s (mux_free ops s idx ids)"
| MuxDone: "fw_mux s = Return [] \<Longrightarrow> fwd_step ops xxh3 batch s (s\<lparr>fw_mux := Collect 0 []\<rparr>)"

abbreviation fwd_steps ::
  "('q, frame_index) queue_ops \<Rightarrow> (u8 list \<Rightarrow> u64) \<Rightarrow> nat \<Rightarrow> 'q forwarder \<Rightarrow> 'q forwarder \<Rightarrow> bool" where
  "fwd_steps ops xxh3 batch \<equiv> (fwd_step ops xxh3 batch)\<^sup>*\<^sup>*"

subsection \<open>Where the indices are\<close>

fun steer_holds :: "steer_pc \<Rightarrow> frame_index list" where
  "steer_holds (Distribute ps) = []"
| "steer_holds (Enqueue idx q ps) = [idx]"

fun steer_packets :: "steer_pc \<Rightarrow> packet_buf list" where
  "steer_packets (Distribute ps) = ps"
| "steer_packets (Enqueue idx q ps) = ps"

fun mux_holds :: "mux_pc \<Rightarrow> frame_index list" where
  "mux_holds (Collect q ids) = ids"
| "mux_holds (Return ids) = ids"

definition indices_of :: "('q \<Rightarrow> frame_index list) \<Rightarrow> 'q forwarder \<Rightarrow> frame_index list" where
  "indices_of contents s =
     contents (pp_free (fw_pool s)) @ steer_holds (fw_steer s) @ concat (map contents (fw_rx s)) @
     concat (map tw_indices (fw_rws s)) @ concat (map contents (fw_tx s)) @ mux_holds (fw_mux s)"

text \<open>
  The invariant. The capacity of the arena is \<open>n\<close>; the free list has room for all of them.
\<close>

definition fwd_inv ::
  "('q \<Rightarrow> frame_index list) \<Rightarrow> ('q \<Rightarrow> nat) \<Rightarrow> nat \<Rightarrow> nat \<Rightarrow> 'q forwarder \<Rightarrow> bool" where
  "fwd_inv contents cap n batch s \<longleftrightarrow>
     mset (indices_of contents s) = mset (frame_indices n) \<and> n \<le> 2 ^ 32 \<and>
     cap (pp_free (fw_pool s)) = n \<and> length (pp_frames (fw_pool s)) = n \<and>
     list_all frame_ok (pp_frames (fw_pool s)) \<and>
     fw_rx s \<noteq> [] \<and> length (fw_tx s) = length (fw_rx s) \<and> length (fw_rws s) \<le> length (fw_rx s) \<and>
     list_all thr_wf (fw_rws s) \<and> list_all packet_buf_ok (steer_packets (fw_steer s)) \<and>
     (\<forall>idx q ps. fw_steer s = Enqueue idx q ps \<longrightarrow> q < length (fw_rx s)) \<and>
     length (mux_holds (fw_mux s)) \<le> batch"

lemma concat_update:
  "i < length xs \<Longrightarrow> mset (concat (map f (xs[i := y]))) + mset (f (xs ! i)) = mset (concat (map f xs)) + mset (f y)"
proof (induction xs arbitrary: i)
  case (Cons x xs)
  then show ?case by (cases i) (auto simp: ac_simps)
qed simp

lemma concat_pop:
  "i < length xs \<Longrightarrow> f (xs ! i) = x # f y \<Longrightarrow>
   mset (concat (map f xs)) = add_mset x (mset (concat (map f (xs[i := y]))))"
  using concat_update [of i xs f y] by simp

lemma concat_push:
  "i < length xs \<Longrightarrow> f y = f (xs ! i) @ [x] \<Longrightarrow>
   mset (concat (map f (xs[i := y]))) = add_mset x (mset (concat (map f xs)))"
  using concat_update [of i xs f y] by simp

lemma concat_same:
  "i < length xs \<Longrightarrow> f y = f (xs ! i) \<Longrightarrow> mset (concat (map f (xs[i := y]))) = mset (concat (map f xs))"
  using concat_update [of i xs f y] by simp

subsection \<open>The invariant is kept\<close>

context frame_pool
begin

abbreviation inv :: "nat \<Rightarrow> nat \<Rightarrow> 'q forwarder \<Rightarrow> bool" where
  "inv n batch s \<equiv> fwd_inv contents cap n batch s"

lemma inv_below:
  assumes "inv n batch s" and "idx \<in> set (indices_of contents s)"
  shows "unat idx < length (pp_frames (fw_pool s))"
proof -
  have "set (indices_of contents s) = set (frame_indices n)"
    using assms(1) unfolding fwd_inv_def by (metis set_mset_mset)
  with assms frame_indices_below [of n idx] show ?thesis by (simp add: fwd_inv_def)
qed

lemma inv_room:
  assumes "inv n batch s" and "indices_of contents s = contents (pp_free (fw_pool s)) @ rest" and "rest \<noteq> []"
  shows "length (contents (pp_free (fw_pool s))) < cap (pp_free (fw_pool s))"
proof -
  have "length (indices_of contents s) = n"
    using assms(1) unfolding fwd_inv_def by (metis length_frame_indices size_mset)
  then have "length (contents (pp_free (fw_pool s))) + length rest = n" using assms(2) by simp
  moreover have "0 < length rest" using assms(3) by simp
  moreover have "cap (pp_free (fw_pool s)) = n" using assms(1) by (simp add: fwd_inv_def)
  ultimately show ?thesis by linarith
qed

lemma pool_get_held:
  assumes "inv n batch s" and "idx \<in> set (indices_of contents s)"
  shows "\<exists>fr. pool_get (fw_pool s) idx = Some fr \<and> frame_ok fr"
  using inv_below [OF assms] assms(1) by (auto simp: pool_get_def fwd_inv_def list_all_length)

lemma pool_put_ok:
  "unat idx < length (pp_frames p) \<Longrightarrow>
   pool_put p idx fr = Some (p\<lparr>pp_frames := (pp_frames p)[unat idx := fr]\<rparr>)"
  by (simp add: pool_put_def)

lemma steer_alloc_ok:
  assumes inv: "inv n batch s" and pc: "fw_steer s = Distribute (p # ps)"
  shows "\<exists>s'. steer_alloc ops xxh3 s p ps = Some s' \<and> inv n batch s' \<and>
     (fw_steer s' = Distribute ps \<or> (\<exists>idx q. fw_steer s' = Enqueue idx q ps)) \<and>
     fw_rx s' = fw_rx s \<and> fw_tx s' = fw_tx s \<and> fw_rws s' = fw_rws s \<and> fw_mux s' = fw_mux s"
proof (cases "pool_alloc ops (fw_pool s)")
  case (Pair r pool)
  show ?thesis
  proof (cases r)
    case None
    with Pair inv pc show ?thesis
      by (auto simp: steer_alloc_def fwd_inv_def indices_of_def)
  next
    case (Some idx)
    note al = pool_alloc_Some [OF Pair [unfolded Some]]
    have held: "idx \<in> set (indices_of contents s)" using al by (simp add: indices_of_def)
    obtain fr where fr: "pool_get pool idx = Some fr" "frame_ok fr"
      using pool_get_held [OF inv held] al by (auto simp: pool_get_def)
    have p: "packet_buf_ok p" using inv pc by (simp add: fwd_inv_def)
    have below: "unat idx < length (pp_frames pool)" using inv_below [OF inv held] al by simp
    obtain parsed where parsed: "from_ip_bytes (frame_bytes (write_from fr (valid_bytes p))) = Some parsed"
      using from_ip_bytes_no_panic by blast
    have rx: "0 < length (fw_rx s)" using inv by (simp add: fwd_inv_def)
    obtain q where q: "(case parsed of Some meta \<Rightarrow> assign_queue xxh3 meta (length (fw_rx s)) | None \<Rightarrow> Some 0) = Some q"
      "q < length (fw_rx s)"
      using assign_queue_range [OF rx] rx by (cases parsed) auto
    let ?pool = "pool\<lparr>pp_frames := (pp_frames pool)[unat idx := write_from fr (valid_bytes p)]\<rparr>"
    have "steer_alloc ops xxh3 s p ps = Some (s\<lparr>fw_pool := ?pool, fw_steer := Enqueue idx q ps\<rparr>)"
      using Pair Some p fr pool_put_ok [OF below] parsed q(1) by (simp add: steer_alloc_def)
    moreover have "inv n batch (s\<lparr>fw_pool := ?pool, fw_steer := Enqueue idx q ps\<rparr>)"
      using inv pc al q(2) fr(2) by (auto simp: fwd_inv_def indices_of_def list_all_update)
    ultimately show ?thesis by simp
  qed
qed

lemma steer_push_ok:
  assumes inv: "inv n batch s" and pc: "fw_steer s = Enqueue idx q ps"
  shows "\<exists>s'. steer_push ops s idx q ps = Some s' \<and> inv n batch s' \<and> fw_steer s' = Distribute ps \<and>
     (fw_rx s' = fw_rx s \<or> (\<exists>rx'. contents rx' = contents (fw_rx s ! q) @ [idx] \<and> fw_rx s' = (fw_rx s)[q := rx'])) \<and>
     q < length (fw_rx s) \<and> fw_tx s' = fw_tx s \<and> fw_rws s' = fw_rws s \<and> fw_mux s' = fw_mux s"
proof -
  have q: "q < length (fw_rx s)" using inv pc by (simp add: fwd_inv_def)
  show ?thesis
  proof (cases "q_push ops (fw_rx s ! q) idx")
    case (Some rx')
    note ps = push_SomeD [OF Some]
    have "inv n batch (s\<lparr>fw_rx := (fw_rx s)[q := rx'], fw_steer := Distribute ps\<rparr>)"
      using inv pc concat_push [OF q, of contents rx' idx] ps by (auto simp: fwd_inv_def indices_of_def)
    with Some q ps show ?thesis by (auto simp: steer_push_def)
  next
    case None
    have "length (contents (pp_free (fw_pool s))) < cap (pp_free (fw_pool s))"
      using pc by (intro inv_room [OF inv]) (auto simp: indices_of_def)
    note fr = pool_free_contents [OF this, of idx]
    have "inv n batch (s\<lparr>fw_pool := pool_free ops (fw_pool s) idx, fw_steer := Distribute ps\<rparr>)"
      using inv pc fr by (auto simp: fwd_inv_def indices_of_def)
    with None q show ?thesis by (auto simp: steer_push_def)
  qed
qed

lemma rw_pop_ok:
  assumes inv: "inv n batch s" and i: "i < length (fw_rws s)"
  shows "\<exists>s'. rw_pop ops s i (fw_rws s ! i) = Some s' \<and> inv n batch s' \<and>
     fw_steer s' = fw_steer s \<and> fw_tx s' = fw_tx s \<and> fw_mux s' = fw_mux s \<and>
     (if length (tw_indices (fw_rws s ! i)) < BATCH_DRAIN_SIZE \<and> contents (fw_rx s ! i) \<noteq> []
      then \<exists>idx rx'. contents (fw_rx s ! i) = idx # contents rx' \<and> fw_rx s' = (fw_rx s)[i := rx'] \<and>
             fw_rws s' = (fw_rws s)[i := (fw_rws s ! i)\<lparr>tw_indices := tw_indices (fw_rws s ! i) @ [idx]\<rparr>]
      else fw_rx s' = fw_rx s \<and>
           (tw_indices (fw_rws s ! i) \<noteq> [] \<longrightarrow>
              fw_rws s' = (fw_rws s)[i := (fw_rws s ! i)\<lparr>tw_draining := False\<rparr>]))"
proof -
  let ?t = "fw_rws s ! i"
  have rx: "i < length (fw_rx s)" and wf: "thr_wf ?t" using inv i by (auto simp: fwd_inv_def list_all_length)
  have stop: "inv n batch (s\<lparr>fw_rws := (fw_rws s)[i := ?t\<lparr>tw_draining := False\<rparr>]\<rparr>)"
    using inv wf concat_same [OF i, of tw_indices "?t\<lparr>tw_draining := False\<rparr>"]
    by (auto simp: fwd_inv_def indices_of_def thr_wf_def intro!: list_all_update)
  show ?thesis
  proof (cases "length (tw_indices ?t) < BATCH_DRAIN_SIZE")
    case False
    with stop show ?thesis by (simp add: rw_pop_def BATCH_DRAIN_SIZE_def)
  next
    case True
    show ?thesis
    proof (cases "q_pop ops (fw_rx s ! i)")
      case None
      with True stop rx inv pop_NoneD [OF None] show ?thesis by (auto simp: rw_pop_def)
    next
      case (Some r)
      then obtain idx rx' where r: "q_pop ops (fw_rx s ! i) = Some (idx, rx')" by (cases r) auto
      note pop = pop_SomeD [OF r]
      let ?t' = "?t\<lparr>tw_indices := tw_indices ?t @ [idx]\<rparr>"
      have "mset (concat (map contents (fw_rx s))) = add_mset idx (mset (concat (map contents ((fw_rx s)[i := rx']))))"
        using pop by (intro concat_pop [OF rx]) simp
      moreover have "mset (concat (map tw_indices ((fw_rws s)[i := ?t']))) =
          add_mset idx (mset (concat (map tw_indices (fw_rws s))))"
        by (intro concat_push [OF i]) simp
      ultimately have "inv n batch (s\<lparr>fw_rx := (fw_rx s)[i := rx'], fw_rws := (fw_rws s)[i := ?t']\<rparr>)"
        using inv wf by (auto simp: fwd_inv_def indices_of_def thr_wf_def intro!: list_all_update)
      with True r rx pop show ?thesis by (auto simp: rw_pop_def)
    qed
  qed
qed

lemma rw_process_ok:
  assumes inv: "inv n batch s" and i: "i < length (fw_rws s)" and sh: "shared_ok sh"
    and ids: "tw_indices (fw_rws s ! i) = idx # rest"
  shows "\<exists>s' t'. rw_process ops xxh3 sh now s i (fw_rws s ! i) idx rest = Some s' \<and> inv n batch s' \<and>
     fw_steer s' = fw_steer s \<and> fw_rx s' = fw_rx s \<and> fw_mux s' = fw_mux s \<and>
     fw_rws s' = (fw_rws s)[i := t'] \<and> tw_indices t' = rest \<and> tw_draining t' = tw_draining (fw_rws s ! i) \<and>
     (fw_tx s' = fw_tx s \<or> (\<exists>tx'. contents tx' = contents (fw_tx s ! i) @ [idx] \<and> fw_tx s' = (fw_tx s)[i := tx'])) \<and>
     i < length (fw_tx s)"
proof -
  let ?t = "fw_rws s ! i"
  have tx: "i < length (fw_tx s)" and wf: "thr_wf ?t" using inv i by (auto simp: fwd_inv_def list_all_length)
  have "idx \<in> set (concat (map tw_indices (fw_rws s)))"
    using ids nth_mem [OF i] by (auto intro!: bexI [of _ ?t])
  then have held: "idx \<in> set (indices_of contents s)" by (simp add: indices_of_def)
  obtain fr where fr: "pool_get (fw_pool s) idx = Some fr" "frame_ok fr" using pool_get_held [OF inv held] by blast
  obtain v fr' t1 where run: "thr_process xxh3 sh ?t fr now = Some (v, fr', t1)" "frame_ok fr'" "thr_wf t1" "thr_same ?t t1"
    using thr_process_ok [OF wf sh fr(2)] by blast
  let ?t' = "t1\<lparr>tw_indices := rest\<rparr>"
  let ?pool = "(fw_pool s)\<lparr>pp_frames := (pp_frames (fw_pool s))[unat idx := fr']\<rparr>"
  let ?s = "s\<lparr>fw_pool := ?pool, fw_rws := (fw_rws s)[i := ?t']\<rparr>"
  have put: "pool_put (fw_pool s) idx fr' = Some ?pool" by (rule pool_put_ok [OF inv_below [OF inv held]])
  have moved: "mset (concat (map tw_indices (fw_rws s))) = add_mset idx (mset (concat (map tw_indices ((fw_rws s)[i := ?t']))))"
    using ids by (intro concat_pop [OF i]) simp
  have keep: "tw_draining ?t' = tw_draining ?t" "tw_indices ?t' = rest" using run(4) by (simp_all add: thr_same_def)
  have wf': "thr_wf ?t'" using run(3) by (simp add: thr_wf_def)
  have "concat (map tw_indices (fw_rws s)) \<noteq> []" using moved by (metis add_mset_not_empty mset.simps(1))
  then have room: "length (contents (pp_free (fw_pool s))) < cap (pp_free (fw_pool s))"
    by (intro inv_room [OF inv]) (auto simp: indices_of_def)
  then have room': "length (contents (pp_free ?pool)) < cap (pp_free ?pool)" by simp
  note fc = pool_free_contents [OF room', of idx]
  have free: "inv n batch (?s\<lparr>fw_pool := pool_free ops ?pool idx\<rparr>)"
    using inv wf' run(2) moved fc by (auto simp: fwd_inv_def indices_of_def list_all_update)
  show ?thesis
  proof (cases v)
    case Release
    with fr run put free keep tx show ?thesis
      by (auto simp: rw_process_def Let_def intro!: exI [of _ ?t'])
  next
    case Transmit
    show ?thesis
    proof (cases "q_push ops (fw_tx s ! i) idx")
      case None
      with Transmit fr run put free keep tx show ?thesis
        by (auto simp: rw_process_def Let_def intro!: exI [of _ ?t'])
    next
      case (Some tx')
      note ps = push_SomeD [OF Some]
      have "inv n batch (?s\<lparr>fw_tx := (fw_tx s)[i := tx']\<rparr>)"
        using inv wf' run(2) moved ps concat_push [OF tx, of contents tx' idx]
        by (auto simp: fwd_inv_def indices_of_def list_all_update)
      with Transmit Some fr run put keep tx ps show ?thesis
        by (auto simp: rw_process_def Let_def intro!: exI [of _ ?t'])
    qed
  qed
qed

lemma rw_end_ok:
  assumes inv: "inv n batch s" and i: "i < length (fw_rws s)"
  shows "inv n batch (rw_end s i (fw_rws s ! i))"
proof -
  let ?t' = "(fw_rws s ! i)\<lparr>tw_draining := True, tw_metrics := (tw_metrics (fw_rws s ! i))
     \<lparr>fm_conn_table_size := int (conn_len (tw_conn (fw_rws s ! i))),
      fm_conn_table_fill_bp := fill_bp (tw_conn (fw_rws s ! i))\<rparr>\<rparr>"
  have "thr_wf (fw_rws s ! i)" using inv i by (auto simp: fwd_inv_def list_all_length)
  then have "thr_wf ?t'" by (simp add: thr_wf_def)
  then show ?thesis
    using inv concat_same [OF i, of tw_indices ?t']
    by (auto simp: rw_end_def fwd_inv_def indices_of_def intro!: list_all_update)
qed

lemma mux_pop_ok:
  assumes inv: "inv n batch s" and pc: "fw_mux s = Collect q ids" and q: "q < length (fw_tx s)"
    and room: "length ids < batch"
  shows "\<exists>s'. mux_pop ops s q ids = Some s' \<and> inv n batch s' \<and>
     fw_steer s' = fw_steer s \<and> fw_rx s' = fw_rx s \<and> fw_rws s' = fw_rws s \<and>
     (if contents (fw_tx s ! q) = [] then fw_tx s' = fw_tx s \<and> fw_mux s' = Collect (Suc q) ids
      else \<exists>idx tx'. contents (fw_tx s ! q) = idx # contents tx' \<and> fw_tx s' = (fw_tx s)[q := tx'] \<and>
             fw_mux s' = Collect q (ids @ [idx]))"
proof (cases "q_pop ops (fw_tx s ! q)")
  case None
  with inv pc q pop_NoneD [OF None] show ?thesis
    by (auto simp: mux_pop_def fwd_inv_def indices_of_def)
next
  case (Some r)
  then obtain idx tx' where r: "q_pop ops (fw_tx s ! q) = Some (idx, tx')" by (cases r) auto
  note pop = pop_SomeD [OF r]
  have "mset (concat (map contents (fw_tx s))) = add_mset idx (mset (concat (map contents ((fw_tx s)[q := tx']))))"
    using pop by (intro concat_pop [OF q]) simp
  then have "inv n batch (s\<lparr>fw_tx := (fw_tx s)[q := tx'], fw_mux := Collect q (ids @ [idx])\<rparr>)"
    using inv pc room by (auto simp: fwd_inv_def indices_of_def)
  with r q pop show ?thesis by (auto simp: mux_pop_def)
qed

lemma gather_ok:
  "list_all frame_ok (pp_frames p) \<Longrightarrow> (\<And>idx. idx \<in> set ids \<Longrightarrow> unat idx < length (pp_frames p)) \<Longrightarrow>
   gather p ids = Some (map (\<lambda>idx. frame_bytes (pp_frames p ! unat idx)) ids)"
  by (induction ids) (simp_all add: pool_get_def list_all_length)

lemma mux_send_ok:
  assumes inv: "inv n batch s" and pc: "fw_mux s = Collect q ids"
  shows "\<exists>s'. mux_send s ids = Some s' \<and> inv n batch s' \<and>
     fw_steer s' = fw_steer s \<and> fw_rx s' = fw_rx s \<and> fw_rws s' = fw_rws s \<and> fw_tx s' = fw_tx s \<and>
     fw_mux s' = (if ids = [] then Collect 0 [] else Return ids)"
proof (cases "ids = []")
  case True
  with inv pc show ?thesis by (simp add: mux_send_def fwd_inv_def indices_of_def)
next
  case False
  have "unat idx < length (pp_frames (fw_pool s))" if "idx \<in> set ids" for idx
    using inv_below [OF inv, of idx] that pc by (simp add: indices_of_def)
  then have "gather (fw_pool s) ids = Some (map (\<lambda>idx. frame_bytes (pp_frames (fw_pool s) ! unat idx)) ids)"
    using inv by (intro gather_ok) (simp_all add: fwd_inv_def)
  with False inv pc show ?thesis by (simp add: mux_send_def fwd_inv_def indices_of_def)
qed

lemma mux_free_ok:
  assumes inv: "inv n batch s" and pc: "fw_mux s = Return (idx # ids)"
  shows "inv n batch (mux_free ops s idx ids)"
proof -
  have "length (contents (pp_free (fw_pool s))) < cap (pp_free (fw_pool s))"
    using pc by (intro inv_room [OF inv]) (auto simp: indices_of_def)
  from inv pc pool_free_contents [OF this, of idx] show ?thesis
    by (auto simp: mux_free_def fwd_inv_def indices_of_def)
qed

lemma step_inv:
  assumes "fwd_step ops xxh3 batch s s'" and inv: "inv n batch s"
  shows "inv n batch s'"
  using assms(1)
proof (cases rule: fwd_step.cases)
  case (Recv ps)
  with inv show ?thesis by (simp add: fwd_inv_def indices_of_def)
next
  case (Alloc p ps)
  with steer_alloc_ok [OF inv Alloc(1), of xxh3] show ?thesis by auto
next
  case (Push idx q ps)
  with steer_push_ok [OF inv Push(1)] show ?thesis by auto
next
  case (Drain i)
  with rw_pop_ok [OF inv Drain(1)] show ?thesis by auto
next
  case (Process i idx rest sh now)
  with rw_process_ok [OF inv Process(1,4,3), of xxh3 now] show ?thesis by auto
next
  case (EndBatch i)
  with rw_end_ok [OF inv] show ?thesis by simp
next
  case (MuxPop q ids)
  with mux_pop_ok [OF inv MuxPop(1-3)] show ?thesis by auto
next
  case (MuxSend q ids)
  with mux_send_ok [OF inv MuxSend(1)] show ?thesis by auto
next
  case (MuxFree idx ids)
  with mux_free_ok [OF inv] show ?thesis by simp
next
  case MuxDone
  with inv show ?thesis by (simp add: fwd_inv_def indices_of_def)
qed

lemma steps_inv: "fwd_steps ops xxh3 batch s s' \<Longrightarrow> inv n batch s \<Longrightarrow> inv n batch s'"
  by (induction rule: rtranclp_induct) (auto intro: step_inv)

text \<open>\<open>mk\<close> builds empty queues of the capacity it is given.\<close>

lemma start_inv:
  assumes mk: "\<And>k. contents (mk k) = [] \<and> cap (mk k) = k"
    and size: "pool_size (max num 1) (fc_batch_size config) \<le> 2 ^ 32"
  shows "inv (pool_size (max num 1) (fc_batch_size config)) (fc_batch_size config)
    (fwd_start ops mk config num now)"
proof -
  let ?n = "pool_size (max num 1) (fc_batch_size config)"
  have wf: "thr_wf t \<and> tw_indices t = []" if "thr_rewriter_new src a b c d now = Some (Some t)" for src a b c d t
    using that conn_table_new_wf(1) fragment_table_new_wf(1)
    by (auto simp: thr_rewriter_new_def thr_wf_def split: bind_splits ip_addr.splits)
  have empty: "concat (map contents (replicate k (mk m))) = []" for k m
    using mk by (induction k) simp_all
  have none: "concat (map tw_indices (replicate k t)) = []" if "tw_indices t = []" for k t
    using that by (induction k) simp_all
  show ?thesis
    using size pool_new_contents [of "mk ?n" ?n] mk wf none
    by (auto simp: fwd_start_def fwd_inv_def indices_of_def Let_def empty packet_pool_new_def list_all_length
        split: option.splits)
qed

end

subsection \<open>A measure of the work that is left\<close>

text \<open>
  Every place an index can be in has a weight, and the weights fall along the way of a frame:
  packet, steering, receive queue, rewriter, transmit queue, muxer, free list. The rest counts the
  steps a thread needs to get to its next frame. \<open>k\<close> is the number of queues plus two.
\<close>

definition rw_work :: "nat \<Rightarrow> thr_rewriter \<Rightarrow> nat" where
  "rw_work k t = (2 * k + 4) * length (tw_indices t) +
     (if tw_draining t \<longleftrightarrow> tw_indices t = [] then 0 else 1)"

definition behind :: "('q \<Rightarrow> frame_index list) \<Rightarrow> 'q list \<Rightarrow> nat \<Rightarrow> bool" where
  "behind contents tx q \<longleftrightarrow> (\<exists>j<q. j < length tx \<and> contents (tx ! j) \<noteq> [])"

fun mux_work :: "('q \<Rightarrow> frame_index list) \<Rightarrow> nat \<Rightarrow> 'q list \<Rightarrow> mux_pc \<Rightarrow> nat" where
  "mux_work contents k tx (Collect q ids) =
     (k + 1) * length ids + (length tx - q) + (if behind contents tx q then length tx + 1 else 0)"
| "mux_work contents k tx (Return ids) = length ids + length tx + 1"

definition queue_work :: "('q \<Rightarrow> frame_index list) \<Rightarrow> nat \<Rightarrow> 'q list \<Rightarrow> nat" where
  "queue_work contents w qs = sum_list (map (\<lambda>q. w * length (contents q)) qs)"

definition work :: "('q \<Rightarrow> frame_index list) \<Rightarrow> nat \<Rightarrow> 'q forwarder \<Rightarrow> nat" where
  "work contents k s =
     (2 * k + 8) * length (steer_packets (fw_steer s)) + (2 * k + 7) * length (steer_holds (fw_steer s)) +
     queue_work contents (2 * k + 6) (fw_rx s) + sum_list (map (rw_work k) (fw_rws s)) +
     queue_work contents (k + 2) (fw_tx s) + mux_work contents k (fw_tx s) (fw_mux s)"

definition at_rest :: "('q \<Rightarrow> frame_index list) \<Rightarrow> 'q forwarder \<Rightarrow> bool" where
  "at_rest contents s \<longleftrightarrow> steer_packets (fw_steer s) = [] \<and> steer_holds (fw_steer s) = [] \<and>
     list_all (\<lambda>q. contents q = []) (fw_rx s) \<and> list_all (\<lambda>t. tw_indices t = []) (fw_rws s) \<and>
     list_all (\<lambda>q. contents q = []) (fw_tx s) \<and> mux_holds (fw_mux s) = []"

lemma sum_list_update_nat:
  "i < length xs \<Longrightarrow> sum_list (map f (xs[i := y])) + f (xs ! i) = sum_list (map f xs) + (f y :: nat)"
proof (induction xs arbitrary: i)
  case (Cons x xs)
  then show ?case by (cases i) (auto simp: add.assoc add.left_commute)
qed simp

lemma queue_work_pop:
  "i < length qs \<Longrightarrow> contents (qs ! i) = x # contents q' \<Longrightarrow>
   queue_work contents w (qs[i := q']) + w = queue_work contents w qs"
  using sum_list_update_nat [of i qs "\<lambda>q. w * length (contents q)" q'] by (simp add: queue_work_def)

lemma queue_work_push:
  "i < length qs \<Longrightarrow> contents q' = contents (qs ! i) @ [x] \<Longrightarrow>
   queue_work contents w (qs[i := q']) = queue_work contents w qs + w"
  using sum_list_update_nat [of i qs "\<lambda>q. w * length (contents q)" q'] by (simp add: queue_work_def)

lemma mux_work_push:
  assumes "length tx' = length tx"
  shows "mux_work contents k tx' pc \<le> mux_work contents k tx pc + length tx + 1"
  using assms by (cases pc) auto

lemma behind_pop: "behind contents (tx[q := tx']) q = behind contents tx q"
  by (auto simp: behind_def)

lemma behind_Suc: "contents (tx ! q) = [] \<Longrightarrow> behind contents tx (Suc q) = behind contents tx q"
  by (auto simp: behind_def less_Suc_eq)

lemma rw_work_pop:
  "rw_work k (t\<lparr>tw_indices := tw_indices t @ [idx]\<rparr>) \<le> rw_work k t + (2 * k + 5)"
  by (simp add: rw_work_def)

context frame_pool
begin

lemma step_alloc:
  assumes inv: "inv n batch s" and pc: "fw_steer s = Distribute (p # ps)"
  shows "\<exists>s'. fwd_step ops xxh3 batch s s' \<and> work contents k s' < work contents k s \<and>
    length (fw_rws s') = length (fw_rws s) \<and> length (fw_tx s') = length (fw_tx s)"
proof -
  obtain s' where s': "steer_alloc ops xxh3 s p ps = Some s'"
    "fw_steer s' = Distribute ps \<or> (\<exists>idx q. fw_steer s' = Enqueue idx q ps)"
    "fw_rx s' = fw_rx s" "fw_tx s' = fw_tx s" "fw_rws s' = fw_rws s" "fw_mux s' = fw_mux s"
    using steer_alloc_ok [OF inv pc, of xxh3] by blast
  then have "work contents k s' < work contents k s" using pc by (auto simp: work_def)
  with fwd_step.Alloc [OF pc s'(1)] s' show ?thesis by (intro exI [of _ s']) simp
qed

lemma step_push:
  assumes inv: "inv n batch s" and pc: "fw_steer s = Enqueue idx q ps"
  shows "\<exists>s'. fwd_step ops xxh3 batch s s' \<and> work contents k s' < work contents k s \<and>
    length (fw_rws s') = length (fw_rws s) \<and> length (fw_tx s') = length (fw_tx s)"
proof -
  obtain s' where s': "steer_push ops s idx q ps = Some s'" "fw_steer s' = Distribute ps"
    "fw_rx s' = fw_rx s \<or> (\<exists>rx'. contents rx' = contents (fw_rx s ! q) @ [idx] \<and> fw_rx s' = (fw_rx s)[q := rx'])"
    "q < length (fw_rx s)" "fw_tx s' = fw_tx s" "fw_rws s' = fw_rws s" "fw_mux s' = fw_mux s"
    using steer_push_ok [OF inv pc] by blast
  have "queue_work contents (2 * k + 6) (fw_rx s') \<le> queue_work contents (2 * k + 6) (fw_rx s) + (2 * k + 6)"
    using s'(3) queue_work_push [OF s'(4), of contents _ idx "2 * k + 6"] by auto
  then have "work contents k s' < work contents k s" using s' pc by (simp add: work_def)
  with fwd_step.Push [OF pc s'(1)] s' show ?thesis by (intro exI [of _ s']) simp
qed

lemma step_rewriter:
  assumes inv: "inv n batch s" and i: "i < length (fw_rws s)" and k: "k = length (fw_tx s) + 2"
    and busy: "tw_indices (fw_rws s ! i) \<noteq> [] \<or> contents (fw_rx s ! i) \<noteq> []"
  shows "\<exists>s'. fwd_step ops xxh3 batch s s' \<and> work contents k s' < work contents k s \<and>
    length (fw_rws s') = length (fw_rws s) \<and> length (fw_tx s') = length (fw_tx s)"
proof (cases "tw_draining (fw_rws s ! i)")
  case True
  let ?t = "fw_rws s ! i"
  have rx: "i < length (fw_rx s)" using inv i by (simp add: fwd_inv_def)
  obtain s' where s': "rw_pop ops s i ?t = Some s'" "fw_steer s' = fw_steer s" "fw_tx s' = fw_tx s" "fw_mux s' = fw_mux s"
    and cases: "if length (tw_indices ?t) < BATCH_DRAIN_SIZE \<and> contents (fw_rx s ! i) \<noteq> []
      then \<exists>idx rx'. contents (fw_rx s ! i) = idx # contents rx' \<and> fw_rx s' = (fw_rx s)[i := rx'] \<and>
             fw_rws s' = (fw_rws s)[i := ?t\<lparr>tw_indices := tw_indices ?t @ [idx]\<rparr>]
      else fw_rx s' = fw_rx s \<and>
           (tw_indices ?t \<noteq> [] \<longrightarrow> fw_rws s' = (fw_rws s)[i := ?t\<lparr>tw_draining := False\<rparr>])"
    using rw_pop_ok [OF inv i] by blast
  have "work contents k s' < work contents k s \<and> length (fw_rws s') = length (fw_rws s)"
  proof (cases "length (tw_indices ?t) < BATCH_DRAIN_SIZE \<and> contents (fw_rx s ! i) \<noteq> []")
    case True
    with cases obtain idx rx' where m: "contents (fw_rx s ! i) = idx # contents rx'" "fw_rx s' = (fw_rx s)[i := rx']"
      "fw_rws s' = (fw_rws s)[i := ?t\<lparr>tw_indices := tw_indices ?t @ [idx]\<rparr>]" by auto
    from queue_work_pop [OF rx m(1), of "2 * k + 6"] m(2,3) s'(2-4) rw_work_pop [of k ?t idx]
      sum_list_update_nat [OF i, of "rw_work k" "?t\<lparr>tw_indices := tw_indices ?t @ [idx]\<rparr>"]
    show ?thesis by (simp add: work_def)
  next
    case False
    with busy have "tw_indices ?t \<noteq> []" by (auto simp: BATCH_DRAIN_SIZE_def)
    with cases False have "fw_rx s' = fw_rx s" "fw_rws s' = (fw_rws s)[i := ?t\<lparr>tw_draining := False\<rparr>]" by auto
    with s'(2-4) \<open>tw_draining ?t\<close> \<open>tw_indices ?t \<noteq> []\<close>
      sum_list_update_nat [OF i, of "rw_work k" "?t\<lparr>tw_draining := False\<rparr>"]
    show ?thesis by (simp add: work_def rw_work_def)
  qed
  with fwd_step.Drain [OF i True s'(1)] s'(3) show ?thesis by (intro exI [of _ s']) simp
next
  case False
  let ?t = "fw_rws s ! i"
  show ?thesis
  proof (cases "tw_indices ?t")
    case Nil
    let ?t' = "?t\<lparr>tw_draining := True, tw_metrics := (tw_metrics ?t)
       \<lparr>fm_conn_table_size := int (conn_len (tw_conn ?t)), fm_conn_table_fill_bp := fill_bp (tw_conn ?t)\<rparr>\<rparr>"
    from Nil False sum_list_update_nat [OF i, of "rw_work k" ?t']
    have "work contents k (rw_end s i ?t) < work contents k s"
      by (simp add: work_def rw_end_def rw_work_def)
    with fwd_step.EndBatch [OF i False Nil] show ?thesis
      by (intro exI [of _ "rw_end s i ?t"]) (simp add: rw_end_def)
  next
    case (Cons idx rest)
    define sh where "sh = \<lparr>sh_tables = Map.empty, sh_matcher = Map.empty, sh_health = Map.empty\<rparr>"
    have sh: "shared_ok sh" by (simp add: sh_def shared_ok_def)
    obtain s' t' where s': "rw_process ops xxh3 sh 0 s i ?t idx rest = Some s'" "fw_steer s' = fw_steer s"
      "fw_rx s' = fw_rx s" "fw_mux s' = fw_mux s" "fw_rws s' = (fw_rws s)[i := t']" "tw_indices t' = rest"
      "tw_draining t' = tw_draining ?t"
      and tx: "fw_tx s' = fw_tx s \<or> (\<exists>tx'. contents tx' = contents (fw_tx s ! i) @ [idx] \<and> fw_tx s' = (fw_tx s)[i := tx'])"
      "i < length (fw_tx s)"
      using rw_process_ok [OF inv i sh Cons, of xxh3 0] by blast
    have len: "length (fw_tx s') = length (fw_tx s)" using tx(1) by auto
    have "queue_work contents (k + 2) (fw_tx s') \<le> queue_work contents (k + 2) (fw_tx s) + (k + 2)"
      using tx queue_work_push [OF tx(2), of contents _ idx "k + 2"] by auto
    moreover have "mux_work contents k (fw_tx s') (fw_mux s) \<le> mux_work contents k (fw_tx s) (fw_mux s) + k"
      using mux_work_push [OF len, of contents k "fw_mux s"] k by simp
    moreover have "rw_work k t' + (2 * k + 4) \<le> rw_work k ?t + 1"
      using s'(6,7) Cons False by (simp add: rw_work_def)
    ultimately have "work contents k s' < work contents k s"
      using sum_list_update_nat [OF i, of "rw_work k" t'] s'(2-5) by (simp add: work_def)
    with fwd_step.Process [OF i False Cons sh s'(1)] s'(5) len show ?thesis by (intro exI [of _ s']) simp
  qed
qed

lemma step_muxer:
  assumes inv: "inv n batch s" and k: "k = length (fw_tx s) + 2" and batch: "0 < batch"
    and busy: "mux_holds (fw_mux s) \<noteq> [] \<or> (\<exists>j < length (fw_tx s). contents (fw_tx s ! j) \<noteq> [])"
  shows "\<exists>s'. fwd_step ops xxh3 batch s s' \<and> work contents k s' < work contents k s \<and>
    length (fw_rws s') = length (fw_rws s) \<and> length (fw_tx s') = length (fw_tx s)"
proof (cases "fw_mux s")
  case (Return ids)
  show ?thesis
  proof (cases ids)
    case Nil
    let ?s = "s\<lparr>fw_mux := Collect 0 []\<rparr>"
    have "work contents k ?s < work contents k s" using Return Nil by (simp add: work_def behind_def)
    with fwd_step.MuxDone [OF Return [unfolded Nil]] show ?thesis by (intro exI [of _ ?s]) simp
  next
    case (Cons idx rest)
    have "work contents k (mux_free ops s idx rest) < work contents k s"
      using Return Cons by (simp add: work_def mux_free_def)
    with fwd_step.MuxFree [OF Return [unfolded Cons]] show ?thesis
      by (intro exI [of _ "mux_free ops s idx rest"]) (simp add: mux_free_def)
  qed
next
  case (Collect q ids)
  show ?thesis
  proof (cases "q < length (fw_tx s) \<and> length ids < batch")
    case True
    obtain s' where s': "mux_pop ops s q ids = Some s'" "fw_steer s' = fw_steer s" "fw_rx s' = fw_rx s"
      "fw_rws s' = fw_rws s"
      "if contents (fw_tx s ! q) = [] then fw_tx s' = fw_tx s \<and> fw_mux s' = Collect (Suc q) ids
       else \<exists>idx tx'. contents (fw_tx s ! q) = idx # contents tx' \<and> fw_tx s' = (fw_tx s)[q := tx'] \<and>
              fw_mux s' = Collect q (ids @ [idx])"
      using mux_pop_ok [OF inv Collect conjunct1 [OF True] conjunct2 [OF True]] by blast
    have "work contents k s' < work contents k s \<and> length (fw_tx s') = length (fw_tx s)"
    proof (cases "contents (fw_tx s ! q) = []")
      case empty: True
      have "length (fw_tx s) - Suc q < length (fw_tx s) - q"
        using conjunct1 [OF True] by linarith
      then have "mux_work contents k (fw_tx s) (Collect (Suc q) ids) < mux_work contents k (fw_tx s) (Collect q ids)"
        using behind_Suc [of contents "fw_tx s" q] empty unfolding mux_work.simps by simp
      with s' Collect empty show ?thesis by (simp add: work_def del: mux_work.simps)
    next
      case False
      with s'(5) obtain idx tx' where m: "contents (fw_tx s ! q) = idx # contents tx'"
        "fw_tx s' = (fw_tx s)[q := tx']" "fw_mux s' = Collect q (ids @ [idx])" by auto
      from queue_work_pop [OF conjunct1 [OF True] m(1), of "k + 2"] m(2,3) s'(2-4) Collect
      show ?thesis by (simp add: work_def behind_pop)
    qed
    with fwd_step.MuxPop [OF Collect conjunct1 [OF True] conjunct2 [OF True] s'(1)] s'(4) show ?thesis
      by (intro exI [of _ s']) simp
  next
    case False
    obtain s' where s': "mux_send s ids = Some s'" "fw_steer s' = fw_steer s" "fw_rx s' = fw_rx s"
      "fw_rws s' = fw_rws s" "fw_tx s' = fw_tx s"
      "fw_mux s' = (if ids = [] then Collect 0 [] else Return ids)"
      using mux_send_ok [OF inv Collect] by blast
    have "work contents k s' < work contents k s"
    proof (cases ids)
      case Nil
      with False batch have "length (fw_tx s) \<le> q" by simp
      moreover from this have "behind contents (fw_tx s) q"
        using busy Collect Nil by (auto simp: behind_def intro: less_le_trans)
      ultimately show ?thesis using s' Collect Nil by (simp add: work_def behind_def)
    next
      case (Cons idx rest)
      with s' Collect k show ?thesis by (simp add: work_def algebra_simps)
    qed
    with fwd_step.MuxSend [OF Collect _ s'(1)] False s' show ?thesis
      by (intro exI [of _ s']) (simp add: not_less disj_commute)
  qed
qed

lemma progress:
  assumes inv: "inv n batch s" and k: "k = length (fw_tx s) + 2" and batch: "0 < batch"
    and all: "length (fw_rws s) = length (fw_tx s)" and busy: "\<not> at_rest contents s"
  shows "\<exists>s'. fwd_step ops xxh3 batch s s' \<and> work contents k s' < work contents k s \<and>
    length (fw_rws s') = length (fw_rws s) \<and> length (fw_tx s') = length (fw_tx s)"
proof (cases "fw_steer s")
  case (Enqueue idx q ps)
  from step_push [OF inv this] show ?thesis .
next
  case (Distribute ps)
  show ?thesis
  proof (cases ps)
    case (Cons p ps')
    from step_alloc [OF inv Distribute [unfolded Cons]] show ?thesis .
  next
    case Nil
    show ?thesis
    proof (cases "\<exists>i < length (fw_rws s). tw_indices (fw_rws s ! i) \<noteq> [] \<or> contents (fw_rx s ! i) \<noteq> []")
      case True
      then obtain i where "i < length (fw_rws s)" "tw_indices (fw_rws s ! i) \<noteq> [] \<or> contents (fw_rx s ! i) \<noteq> []"
        by blast
      from step_rewriter [OF inv this(1) k this(2)] show ?thesis .
    next
      case False
      have "length (fw_rx s) = length (fw_rws s)" using inv all by (simp add: fwd_inv_def)
      with False busy Distribute Nil
      have "mux_holds (fw_mux s) \<noteq> [] \<or> (\<exists>j < length (fw_tx s). contents (fw_tx s ! j) \<noteq> [])"
        by (auto simp: at_rest_def list_all_length)
      from step_muxer [OF inv k batch this] show ?thesis .
    qed
  qed
qed

lemma can_rest:
  assumes "inv n batch s" and "0 < batch" and "length (fw_rws s) = length (fw_tx s)"
  shows "\<exists>s'. fwd_steps ops xxh3 batch s s' \<and> inv n batch s' \<and> at_rest contents s'"
  using assms
proof (induction "work contents (length (fw_tx s) + 2) s" arbitrary: s rule: less_induct)
  case less
  show ?case
  proof (cases "at_rest contents s")
    case True
    with less.prems(1) show ?thesis by blast
  next
    case False
    obtain s' where s': "fwd_step ops xxh3 batch s s'"
      "work contents (length (fw_tx s) + 2) s' < work contents (length (fw_tx s) + 2) s"
      "length (fw_rws s') = length (fw_rws s)" "length (fw_tx s') = length (fw_tx s)"
      using progress [OF less.prems(1) refl less.prems(2,3) False] by blast
    have "inv n batch s'" by (rule step_inv [OF s'(1) less.prems(1)])
    with less.hyps [of s'] s' less.prems obtain s'' where
      "fwd_steps ops xxh3 batch s' s''" "inv n batch s''" "at_rest contents s''" by auto
    with s'(1) show ?thesis by (meson converse_rtranclp_into_rtranclp)
  qed
qed

lemma rest_all_free:
  assumes "inv n batch s" and "at_rest contents s"
  shows "mset (contents (pp_free (fw_pool s))) = mset (frame_indices n)"
proof -
  have e: "concat (map f xs) = []" if "list_all (\<lambda>x. f x = []) xs" for f :: "'x \<Rightarrow> frame_index list" and xs
    using that by (induction xs) simp_all
  from assms show ?thesis by (auto simp: fwd_inv_def at_rest_def indices_of_def e)
qed

lemma step_lengths:
  "fwd_step ops xxh3 batch s s' \<Longrightarrow> inv n batch s \<Longrightarrow>
   length (fw_rws s') = length (fw_rws s) \<and> length (fw_tx s') = length (fw_tx s)"
  by (cases rule: fwd_step.cases, assumption)
    (auto simp: steer_alloc_def steer_push_def rw_pop_def rw_process_def rw_end_def mux_pop_def mux_send_def
      mux_free_def Let_def split: option.splits prod.splits bind_splits if_splits frame_verdict.splits)

end

subsection \<open>Properties of the engine\<close>

text \<open>A ring that carries its own capacity meets the contract of \<^verbatim>\<open>ArrayQueue\<close>.\<close>

definition sized_ring_ops :: "(nat \<times> 'a list, 'a) queue_ops" where
  "sized_ring_ops = \<lparr>
     q_push = (\<lambda>q x. if length (snd q) < fst q then Some (fst q, snd q @ [x]) else None),
     q_pop = (\<lambda>q. case snd q of [] \<Rightarrow> None | x # xs \<Rightarrow> Some (x, (fst q, xs))),
     q_len = (\<lambda>q. length (snd q))\<rparr>"

interpretation sized_pool: frame_pool sized_ring_ops snd fst
  by unfold_locales (auto simp: sized_ring_ops_def)

text \<open>Some thread panicked as it started, or its next operation would panic.\<close>

definition fwd_panics ::
  "('q, frame_index) queue_ops \<Rightarrow> (u8 list \<Rightarrow> u64) \<Rightarrow> nat \<Rightarrow> 'q forwarder \<Rightarrow> bool" where
  "fwd_panics ops xxh3 batch s \<longleftrightarrow> fw_panicked s \<or>
     (\<exists>p ps. fw_steer s = Distribute (p # ps) \<and> steer_alloc ops xxh3 s p ps = None) \<or>
     (\<exists>idx q ps. fw_steer s = Enqueue idx q ps \<and> steer_push ops s idx q ps = None) \<or>
     (\<exists>i < length (fw_rws s). rw_pop ops s i (fw_rws s ! i) = None \<or>
        (\<exists>idx rest sh now. tw_indices (fw_rws s ! i) = idx # rest \<and> shared_ok sh \<and>
           rw_process ops xxh3 sh now s i (fw_rws s ! i) idx rest = None)) \<or>
     (\<exists>q ids. fw_mux s = Collect q ids \<and>
        (q < length (fw_tx s) \<and> length ids < batch \<and> mux_pop ops s q ids = None \<or> mux_send s ids = None))"

context frame_pool
begin

lemma inv_no_panic:
  assumes inv: "inv n batch s"
  shows "fwd_panics ops xxh3 batch s \<longleftrightarrow> fw_panicked s"
proof -
  have "steer_alloc ops xxh3 s p ps \<noteq> None" if "fw_steer s = Distribute (p # ps)" for p ps
    using steer_alloc_ok [OF inv that, of xxh3] by auto
  moreover have "steer_push ops s idx q ps \<noteq> None" if "fw_steer s = Enqueue idx q ps" for idx q ps
    using steer_push_ok [OF inv that] by auto
  moreover have "rw_pop ops s i (fw_rws s ! i) \<noteq> None" if "i < length (fw_rws s)" for i
    using rw_pop_ok [OF inv that] by auto
  moreover have "rw_process ops xxh3 sh now s i (fw_rws s ! i) idx rest \<noteq> None"
    if "i < length (fw_rws s)" "shared_ok sh" "tw_indices (fw_rws s ! i) = idx # rest" for i sh now idx rest
    using rw_process_ok [OF inv that, of xxh3 now] by auto
  moreover have "mux_pop ops s q ids \<noteq> None"
    if "fw_mux s = Collect q ids" "q < length (fw_tx s)" "length ids < batch" for q ids
    using mux_pop_ok [OF inv that] by auto
  moreover have "mux_send s ids \<noteq> None" if "fw_mux s = Collect q ids" for q ids
    using mux_send_ok [OF inv that] by auto
  ultimately show ?thesis unfolding fwd_panics_def by blast
qed

lemma reachable_inv:
  assumes "\<And>k. contents (mk k) = [] \<and> cap (mk k) = k"
    and "pool_size (max num 1) (fc_batch_size config) \<le> 2 ^ 32"
    and "fwd_steps ops xxh3 (fc_batch_size config) (fwd_start ops mk config num now) s"
  shows "inv (pool_size (max num 1) (fc_batch_size config)) (fc_batch_size config) s"
  using steps_inv [OF assms(3)] start_inv [OF assms(1,2)] by blast

lemma owners:
  assumes "inv n batch s"
  shows "distinct (indices_of contents s)" and "set (indices_of contents s) = set (frame_indices n)"
proof -
  have "mset (indices_of contents s) = mset (frame_indices n)" "n \<le> 2 ^ 32"
    using assms by (auto simp: fwd_inv_def)
  then show "distinct (indices_of contents s)" "set (indices_of contents s) = set (frame_indices n)"
    using distinct_frame_indices by (metis mset_eq_imp_distinct_iff, metis set_mset_mset)
qed

lemma reachable_lengths:
  assumes "fwd_steps ops xxh3 batch s0 s" and "inv n batch s0"
  shows "length (fw_rws s) = length (fw_rws s0) \<and> length (fw_tx s) = length (fw_tx s0)"
  using assms
proof (induction rule: rtranclp_induct)
  case (step y z)
  with step_lengths [OF step(2) steps_inv [OF step(1) step.prems]] show ?case by simp
qed simp

end

text \<open>Once they run, no step of a thread changes which of them panicked at the start.\<close>

lemma step_panicked: "fwd_step ops xxh3 batch s s' \<Longrightarrow> fw_panicked s' = fw_panicked s"
  by (erule fwd_step.cases)
    (auto simp: steer_alloc_def steer_push_def rw_pop_def rw_process_def rw_end_def mux_pop_def mux_send_def
      mux_free_def Let_def split: bind_splits option.splits if_splits prod.splits frame_verdict.splits)

lemma steps_panicked: "fwd_steps ops xxh3 batch s s' \<Longrightarrow> fw_panicked s' = fw_panicked s"
  by (induction rule: rtranclp_induct) (simp_all add: step_panicked)

lemma start_panicked:
  "fw_panicked (fwd_start ops mk config num now) \<longleftrightarrow>
     \<not> (is_power_of_two (fc_connection_table_size config) \<and> is_power_of_two (fc_fragment_table_size config))"
  by (simp add: fwd_start_def Let_def thr_rewriter_new_def conn_table_new_def fragment_table_new_def)

text \<open>
  C25. In every state the threads can reach, whatever the interleaving, the packets received, the
  tables published and the clock readings, each frame of the arena is in exactly one place: on the
  free list, in one queue, or held by one thread. So no two threads touch the same frame and no frame
  is lost. A thread panics exactly when the size of the connection or of the fragment table is not a
  power of two, in which case every rewriter thread panics as it starts; otherwise no thread panicked
  and no thread's next operation panics.
\<close>

theorem frames_have_one_owner:
  assumes "array_queue ops contents cap" and "\<And>k. contents (mk k) = [] \<and> cap (mk k) = k"
    and "pool_size (max num 1) (fc_batch_size config) \<le> 2 ^ 32"
    and "fwd_steps ops xxh3 (fc_batch_size config) (fwd_start ops mk config num now) s"
  shows "distinct (indices_of contents s) \<and>
     set (indices_of contents s) = set (frame_indices (pool_size (max num 1) (fc_batch_size config))) \<and>
     (fwd_panics ops xxh3 (fc_batch_size config) s \<longleftrightarrow>
      \<not> (is_power_of_two (fc_connection_table_size config) \<and> is_power_of_two (fc_fragment_table_size config)))"
proof -
  have fp: "frame_pool ops contents cap" using assms(1) by (simp add: frame_pool_def)
  note inv = frame_pool.reachable_inv [OF fp assms(2-4)]
  have "fw_panicked s = fw_panicked (fwd_start ops mk config num now)" by (rule steps_panicked [OF assms(4)])
  then show ?thesis
    using frame_pool.owners [OF fp inv] frame_pool.inv_no_panic [OF fp inv]
    by (simp add: start_panicked [of ops mk config num now])
qed

definition sample_config :: forwarder_config where
  "sample_config = \<lparr>fc_src_ip = V4 (Ipv4 172 16 0 1), fc_connection_table_size = 4,
     fc_conn_ttls = conn_ttls_with_established (secs 60), fc_fragment_table_size = 4,
     fc_fragment_ttl = secs 10, fc_batch_size = 64,
     fc_mtu_config = \<lparr>network_mtu = 1500, effective_inner_mtu = 1476, tcp_mss_clamp = 1436\<rparr>,
     fc_icmp_rate_limit = 100, fc_cpu_affinity = None\<rparr>"

abbreviation sized_ring_new :: "nat \<Rightarrow> nat \<times> frame_index list" where
  "sized_ring_new k \<equiv> (k, [])"

lemma sample_received:
  "fwd_steps sized_ring_ops xxh3 (fc_batch_size sample_config)
     (fwd_start sized_ring_ops sized_ring_new sample_config 2 0)
     ((fwd_start sized_ring_ops sized_ring_new sample_config 2 0)
        \<lparr>fw_steer := Distribute [from_slice (sample_bytes 0x20 0)]\<rparr>)"
  by (rule r_into_rtranclp, rule fwd_step.Recv) (simp_all add: fwd_start_def Let_def sample_config_def)

lemma sample_pool_size: "pool_size (max 2 1) (fc_batch_size sample_config) \<le> 2 ^ 32"
  by (simp add: pool_size_def QUEUE_CAPACITY_def sample_config_def)

lemma not_power_of_two_100000: "\<not> is_power_of_two 100000"
proof
  assume "is_power_of_two 100000"
  then obtain b where b: "(100000 :: nat) = 2 ^ b" by (auto simp: is_power_of_two_def)
  show False
  proof (cases "b \<le> 16")
    case True
    then have "(2 :: nat) ^ b \<le> 2 ^ 16" by (intro power_increasing) simp_all
    with b show ?thesis by simp
  next
    case False
    then have "(2 :: nat) ^ 17 \<le> 2 ^ b" by (intro power_increasing) simp_all
    with b show ?thesis by simp
  qed
qed

lemma frames_have_one_owner_witness:
  "(\<exists>s. fw_steer s = Distribute [from_slice (sample_bytes 0x20 0)] \<and> distinct (indices_of snd s) \<and>
     \<not> fwd_panics sized_ring_ops (\<lambda>_. 0) 64 s) \<and>
   fwd_panics sized_ring_ops (\<lambda>_. 0) 64
     (fwd_start sized_ring_ops sized_ring_new (sample_config\<lparr>fc_connection_table_size := 100000\<rparr>) 2 0)"
proof (intro conjI)
  show "\<exists>s. fw_steer s = Distribute [from_slice (sample_bytes 0x20 0)] \<and> distinct (indices_of snd s) \<and>
     \<not> fwd_panics sized_ring_ops (\<lambda>_. 0) 64 s"
    using frames_have_one_owner [OF sized_pool.array_queue_axioms _ sample_pool_size sample_received [of "\<lambda>_. 0"]]
    by (intro exI [of _ "(fwd_start sized_ring_ops sized_ring_new sample_config 2 0)
        \<lparr>fw_steer := Distribute [from_slice (sample_bytes 0x20 0)]\<rparr>"]) (simp add: sample_config_def power_of_two_4)
  let ?c = "sample_config\<lparr>fc_connection_table_size := 100000\<rparr>"
  have "pool_size (max 2 1) (fc_batch_size ?c) \<le> 2 ^ 32" using sample_pool_size by simp
  from frames_have_one_owner [OF sized_pool.array_queue_axioms _ this, of sized_ring_new "\<lambda>_. 0" 0]
  show "fwd_panics sized_ring_ops (\<lambda>_. 0) 64 (fwd_start sized_ring_ops sized_ring_new ?c 2 0)"
    by (simp add: not_power_of_two_100000) (simp add: sample_config_def)
qed

text \<open>
  C26. The engine cannot get stuck: with an IPv4 source address, tables of a valid size and a
  positive batch size, the threads can always run on from a reachable state, without receiving
  anything more, until all frames are back on the free list.
\<close>

theorem frames_can_all_return:
  assumes "array_queue ops contents cap" and "\<And>k. contents (mk k) = [] \<and> cap (mk k) = k"
    and "pool_size (max num 1) (fc_batch_size config) \<le> 2 ^ 32" and "0 < fc_batch_size config"
    and "thr_rewriter_new (fc_src_ip config) (fc_connection_table_size config) (fc_conn_ttls config)
           (fc_fragment_table_size config) (fc_fragment_ttl config) now = Some (Some t)"
    and "fwd_steps ops xxh3 (fc_batch_size config) (fwd_start ops mk config num now) s"
  shows "\<exists>s'. fwd_steps ops xxh3 (fc_batch_size config) s s' \<and> fw_steer s' = Distribute [] \<and>
     mset (contents (pp_free (fw_pool s'))) =
       mset (frame_indices (pool_size (max num 1) (fc_batch_size config)))"
proof -
  have fp: "frame_pool ops contents cap" using assms(1) by (simp add: frame_pool_def)
  note inv = frame_pool.reachable_inv [OF fp assms(2,3,6)]
  have "length (fw_rws s) = length (fw_tx s)"
    using frame_pool.reachable_lengths [OF fp assms(6) frame_pool.start_inv [OF fp assms(2,3)]] assms(5)
    by (simp add: fwd_start_def Let_def)
  from frame_pool.can_rest [OF fp inv assms(4) this, of xxh3] obtain s' where
    s': "fwd_steps ops xxh3 (fc_batch_size config) s s'"
    "fwd_inv contents cap (pool_size (max num 1) (fc_batch_size config)) (fc_batch_size config) s'"
    "at_rest contents s'" by blast
  moreover have "fw_steer s' = Distribute []" using s'(3) by (cases "fw_steer s'") (auto simp: at_rest_def)
  ultimately show ?thesis using frame_pool.rest_all_free [OF fp s'(2,3)] by blast
qed

lemma sample_thread_new:
  "\<exists>t. thr_rewriter_new (fc_src_ip sample_config) (fc_connection_table_size sample_config)
     (fc_conn_ttls sample_config) (fc_fragment_table_size sample_config) (fc_fragment_ttl sample_config) 0 =
   Some (Some t)"
  by (simp add: sample_config_def thr_rewriter_new_def conn_table_new_def fragment_table_new_def power_of_two_4)

lemma frames_can_all_return_witness:
  "\<exists>s s'. fw_steer s = Distribute [from_slice (sample_bytes 0x20 0)] \<and>
     fwd_steps sized_ring_ops (\<lambda>_. 0) 64 s s' \<and> length (snd (pp_free (fw_pool s'))) = pool_size 2 64"
proof -
  let ?s = "(fwd_start sized_ring_ops sized_ring_new sample_config 2 0)
        \<lparr>fw_steer := Distribute [from_slice (sample_bytes 0x20 0)]\<rparr>"
  obtain t where "thr_rewriter_new (fc_src_ip sample_config) (fc_connection_table_size sample_config)
     (fc_conn_ttls sample_config) (fc_fragment_table_size sample_config) (fc_fragment_ttl sample_config) 0 =
     Some (Some t)" using sample_thread_new by blast
  from frames_can_all_return [OF sized_pool.array_queue_axioms _ sample_pool_size _ this sample_received [of "\<lambda>_. 0"]]
  obtain s' where s': "fwd_steps sized_ring_ops (\<lambda>_. 0) (fc_batch_size sample_config) ?s s'"
    "mset (snd (pp_free (fw_pool s'))) = mset (frame_indices (pool_size (max 2 1) (fc_batch_size sample_config)))"
    by (auto simp: sample_config_def)
  have "max 2 1 = (2 :: nat)" by simp
  with arg_cong [OF s'(2), of size] have "length (snd (pp_free (fw_pool s'))) = pool_size 2 64"
    by (simp only: size_mset length_frame_indices) (simp add: sample_config_def)
  moreover have "fwd_steps sized_ring_ops (\<lambda>_. 0) 64 ?s s'" using s'(1) by (simp add: sample_config_def)
  ultimately show ?thesis by (intro exI [of _ ?s] exI [of _ s']) simp
qed

end
