(* ===== verification/Engine.thy ===== *)
theory Engine
  imports Threading
begin

text \<open>
  The drivers that run a rewriter on a packet I/O backend (crate lb-forwarder): the single-threaded
  \<^verbatim>\<open>ForwarderEngine\<close> of lib.rs, the per-queue threads of threading.rs, and the thread bookkeeping
  and CPU placement of the multi-threaded engine. They are clients of the trait \<^verbatim>\<open>PacketIo\<close>: their
  lemmas are proved in the locale \<open>packet_io\<close> and apply to every backend that keeps its laws.
\<close>

subsection \<open>ForwarderEngine (lib.rs)\<close>

record 'io engine =
  en_io :: 'io
  en_rewriter :: rewriter
  en_batch_size :: nat

definition engine_new ::
  "'io \<Rightarrow> forwarder_config \<Rightarrow> (backend_pool_id \<rightharpoonup> lookup_table) \<Rightarrow> vip_matcher \<Rightarrow>
   (ip_addr \<rightharpoonup> health_status) \<Rightarrow> forwarder_metrics \<Rightarrow> instant \<Rightarrow> 'io engine panics" where
  "engine_new io c tables matcher health metrics now = do {
     rw \<leftarrow> rewriter_new (fc_src_ip c) (fc_connection_table_size c) (fc_conn_ttls c)
            (fc_fragment_table_size c) (fc_fragment_ttl c) tables matcher health metrics
            (fc_mtu_config c) (fc_icmp_rate_limit c) now;
     Some \<lparr>en_io = io, en_rewriter = rw, en_batch_size = fc_batch_size c\<rparr> }"

text \<open>A slice \<open>[..n]\<close> panics when it is out of range.\<close>

definition prefix_of :: "nat \<Rightarrow> 'a list \<Rightarrow> 'a list panics" where
  "prefix_of n xs = (if n \<le> length xs then Some (take n xs) else None)"

type_synonym 'io recv_op = "'io \<Rightarrow> packet_buf list \<Rightarrow> (io_error + nat) \<times> packet_buf list \<times> 'io"
type_synonym 'io send_op = "'io \<Rightarrow> packet_buf list \<Rightarrow> ((io_error + nat) \<times> 'io) panics"

definition process_and_send ::
  "'io send_op \<Rightarrow> (u8 list \<Rightarrow> u64) \<Rightarrow> instant \<Rightarrow> rewriter \<Rightarrow> 'io \<Rightarrow> packet_buf list \<Rightarrow> nat \<Rightarrow>
   (nat \<times> packet_buf list \<times> rewriter \<times> 'io) panics" where
  "process_and_send send xxh3 now rw io bufs n = do {
     slice \<leftarrow> prefix_of n bufs;
     (processed, slice, rw) \<leftarrow> process_batch xxh3 rw slice now;
     let bufs = slice @ drop n bufs;
     if 0 < processed
     then do {
       out \<leftarrow> prefix_of processed bufs;
       (_, io) \<leftarrow> send io out;
       Some (processed, bufs, rw, io) }
     else Some (processed, bufs, rw, io) }"

definition run_once ::
  "'io recv_op \<Rightarrow> 'io send_op \<Rightarrow> (u8 list \<Rightarrow> u64) \<Rightarrow> instant \<Rightarrow> 'io engine \<Rightarrow> (nat \<times> 'io engine) panics" where
  "run_once recv send xxh3 now e =
     (let rx_buf = replicate (en_batch_size e) packet_buf_new;
          (r, bufs, io) = recv (en_io e) rx_buf
      in case r of
           Inl _ \<Rightarrow> Some (0, e\<lparr>en_io := io\<rparr>)
         | Inr received \<Rightarrow>
             if received = 0 then Some (0, e\<lparr>en_io := io\<rparr>)
             else do {
               (processed, _, rw, io) \<leftarrow> process_and_send send xxh3 now (en_rewriter e) io bufs received;
               Some (processed, e\<lparr>en_io := io, en_rewriter := rw\<rparr>) })"

subsection \<open>A per-queue thread (threading.rs)\<close>

record 'io queue_thread =
  qt_io :: 'io
  qt_rewriter :: rewriter
  qt_buf :: "packet_buf list"
  qt_spin :: nat

definition queue_thread_new :: "'io \<Rightarrow> rewriter \<Rightarrow> nat \<Rightarrow> 'io queue_thread" where
  "queue_thread_new io rw batch_size =
     \<lparr>qt_io = io, qt_rewriter = rw, qt_buf = replicate batch_size packet_buf_new, qt_spin = 0\<rparr>"

text \<open>One turn of the loop; a receive error counts as nothing received.\<close>

definition per_queue_turn ::
  "'io recv_op \<Rightarrow> 'io send_op \<Rightarrow> (u8 list \<Rightarrow> u64) \<Rightarrow> instant \<Rightarrow> 'io queue_thread \<Rightarrow> 'io queue_thread panics" where
  "per_queue_turn recv send xxh3 now t =
     (let (r, bufs, io) = recv (qt_io t) (qt_buf t);
          n = (case r of Inl _ \<Rightarrow> 0 | Inr n \<Rightarrow> n)
      in if n = 0
         then Some (t\<lparr>qt_io := io, qt_buf := bufs,
                qt_spin := (if qt_spin t + 1 < SPIN_BEFORE_PARK then qt_spin t + 1 else 0)\<rparr>)
         else do {
           (_, bufs, rw, io) \<leftarrow> process_and_send send xxh3 now (qt_rewriter t) io bufs n;
           Some (t\<lparr>qt_io := io, qt_rewriter := rw, qt_buf := bufs, qt_spin := 0\<rparr>) })"

context packet_io
begin

lemma process_and_send_ok:
  assumes inv: "invar io" and wf: "rewriter_wf rw" and ok: "list_all packet_buf_ok bufs" and n: "n \<le> length bufs"
    and room: "\<And>io' outs. pending io' = pending io \<Longrightarrow> transmitted io' = transmitted io \<Longrightarrow> ready io' outs"
  shows "\<exists>outs r0 bufs' rw' io'. process_seq xxh3 now rw (take n bufs) = Some (outs, r0) \<and>
    process_and_send send_batch xxh3 now rw io bufs n = Some (length outs, bufs', rw', io') \<and>
    rewriter_wf rw' \<and> rw_conn rw' = rw_conn r0 \<and> rw_frag rw' = rw_frag r0 \<and>
    invar io' \<and> pending io' = pending io \<and> length bufs' = length bufs \<and>
    transmitted io' = transmitted io @ map valid_bytes (filter (\<lambda>p. 0 < pkt_len p) outs)"
proof -
  have tk: "list_all packet_buf_ok (take n bufs)" using ok by (auto simp: list_all_iff dest: in_set_takeD)
  obtain outs r0 ps' rw' where b: "process_seq xxh3 now rw (take n bufs) = Some (outs, r0)"
    "process_batch xxh3 rw (take n bufs) now = Some (length outs, ps', rw')" "length ps' = n"
    "take (length outs) ps' = outs" "list_all packet_buf_ok outs" "rewriter_wf rw'" "length outs \<le> n"
    "rw_conn rw' = rw_conn r0" "rw_frag rw' = rw_frag r0"
    using process_batch_seq [OF wf tk, of xxh3 now] n by auto
  have slice: "prefix_of (length outs) (ps' @ drop n bufs) = Some outs"
    using b(3,4,7) by (simp add: prefix_of_def)
  show ?thesis
  proof (cases "outs = []")
    case True
    with b inv n show ?thesis by (simp add: process_and_send_def prefix_of_def)
  next
    case False
    obtain k io' where "send_batch io outs = Some (Inr k, io')" "invar io'" "pending io' = pending io"
      "transmitted io' = transmitted io @ map valid_bytes (filter (\<lambda>p. 0 < pkt_len p) outs)"
      using send_Ok [OF inv b(5) room] by blast
    with b n False slice show ?thesis by (simp add: process_and_send_def prefix_of_def [of n])
  qed
qed

lemma run_once_ok:
  assumes inv: "invar (en_io e)" and wf: "rewriter_wf (en_rewriter e)"
    and room: "\<And>io outs. ready io outs"
    and recv: "recv_batch (en_io e) (replicate (en_batch_size e) packet_buf_new) = (Inr n, bufs, io)"
  shows "\<exists>ins outs r0 e'. map valid_bytes ins = map (take PACKET_BUF_SIZE) (take (en_batch_size e) (pending (en_io e))) \<and>
    process_seq xxh3 now (en_rewriter e) ins = Some (outs, r0) \<and>
    run_once recv_batch send_batch xxh3 now e = Some (length outs, e') \<and>
    rewriter_wf (en_rewriter e') \<and> rw_conn (en_rewriter e') = rw_conn r0 \<and> rw_frag (en_rewriter e') = rw_frag r0 \<and>
    invar (en_io e') \<and>
    pending (en_io e') = drop (en_batch_size e) (pending (en_io e)) \<and>
    transmitted (en_io e') = transmitted (en_io e) @ map valid_bytes (filter (\<lambda>p. 0 < pkt_len p) outs)"
proof -
  have bok: "list_all packet_buf_ok (replicate (en_batch_size e) packet_buf_new)" by (simp add: list_all_iff)
  have io: "invar io" "length bufs = en_batch_size e" "list_all packet_buf_ok bufs"
    "transmitted io = transmitted (en_io e)"
    using recv_bufs [OF inv bok recv] by simp_all
  have n: "n = min (en_batch_size e) (length (pending (en_io e)))"
    "map valid_bytes (take n bufs) = map (take PACKET_BUF_SIZE) (take n (pending (en_io e)))"
    "pending io = drop n (pending (en_io e))"
    using recv_Ok [OF inv bok recv] unfolding length_replicate by blast+
  have tk: "take n (pending (en_io e)) = take (en_batch_size e) (pending (en_io e))"
    "drop n (pending (en_io e)) = drop (en_batch_size e) (pending (en_io e))"
    using n(1) by (simp_all add: min_def)
  show ?thesis
  proof (cases "n = 0")
    case True
    with recv io n tk wf show ?thesis
      by (intro exI [of _ "[]"] exI [of _ "en_rewriter e"] exI [of _ "e\<lparr>en_io := io\<rparr>"])
        (simp add: run_once_def)
  next
    case False
    have "n \<le> length bufs" using n(1) io(2) by simp
    from process_and_send_ok [OF io(1) wf io(3) this room, of xxh3 now] obtain outs r0 bufs' rw' io' where
      "process_seq xxh3 now (en_rewriter e) (take n bufs) = Some (outs, r0)"
      "process_and_send send_batch xxh3 now (en_rewriter e) io bufs n = Some (length outs, bufs', rw', io')"
      "rewriter_wf rw'" "rw_conn rw' = rw_conn r0" "rw_frag rw' = rw_frag r0" "invar io'" "pending io' = pending io"
      "transmitted io' = transmitted io @ map valid_bytes (filter (\<lambda>p. 0 < pkt_len p) outs)" by blast
    with False recv io(4) n(2,3) tk show ?thesis
      by - (rule exI [of _ "take n bufs"], rule exI [of _ outs], rule exI [of _ r0],
          rule exI [of _ "e\<lparr>en_io := io', en_rewriter := rw'\<rparr>"], simp add: run_once_def)
  qed
qed

text \<open>A per-queue thread keeps its invariant in every turn, also when the receive fails.\<close>

definition thread_ok :: "'io queue_thread \<Rightarrow> bool" where
  "thread_ok t \<longleftrightarrow> invar (qt_io t) \<and> rewriter_wf (qt_rewriter t) \<and> list_all packet_buf_ok (qt_buf t) \<and>
     qt_spin t < SPIN_BEFORE_PARK"

lemma per_queue_turn_ok:
  assumes ok: "thread_ok t" and room: "\<And>io outs. ready io outs"
  shows "\<exists>t'. per_queue_turn recv_batch send_batch xxh3 now t = Some t' \<and>
    invar (qt_io t') \<and> rewriter_wf (qt_rewriter t') \<and> length (qt_buf t') = length (qt_buf t) \<and>
    qt_spin t' < SPIN_BEFORE_PARK"
proof -
  have t: "invar (qt_io t)" "rewriter_wf (qt_rewriter t)" "list_all packet_buf_ok (qt_buf t)"
    "qt_spin t < SPIN_BEFORE_PARK" using ok by (simp_all add: thread_ok_def)
  obtain r bufs io where recv: "recv_batch (qt_io t) (qt_buf t) = (r, bufs, io)" by (metis prod_cases3)
  note rb = recv_bufs [OF t(1,3) recv]
  define n where "n = (case r of Inl _ \<Rightarrow> 0 | Inr n \<Rightarrow> n)"
  show ?thesis
  proof (cases "n = 0")
    case True
    with recv rb t n_def show ?thesis by (auto simp: per_queue_turn_def SPIN_BEFORE_PARK_def)
  next
    case False
    then have r: "r = Inr n" by (cases r) (simp_all add: n_def)
    have le: "n \<le> length bufs" using recv_Ok [OF t(1,3) recv [unfolded r]] rb by simp
    from process_and_send_ok [OF _ t(2) _ le room, of io xxh3 now] rb obtain k bufs' rw' io' where
      "process_and_send send_batch xxh3 now (qt_rewriter t) io bufs n = Some (k, bufs', rw', io')"
      "rewriter_wf rw'" "invar io'" "length bufs' = length bufs" by blast
    with False recv rb n_def show ?thesis by (auto simp: per_queue_turn_def SPIN_BEFORE_PARK_def)
  qed
qed

end

text \<open>
  C27. One cycle of the engine on the in-memory backend: it takes the first packets of the receive
  queue, at most a batch and cut to the buffer size, runs the pipeline on them one after the other,
  and appends exactly the non-empty packets the pipeline emits to the transmit queue, in order. The
  connection and fragment tables are those of the packet-by-packet run, although the batch is
  processed and compacted in place.
\<close>

theorem run_once_transmits:
  assumes "rewriter_wf (en_rewriter e)"
  shows "\<exists>ins outs r0 e'.
    map valid_bytes ins = map (take PACKET_BUF_SIZE) (take (en_batch_size e) (mock_rx (en_io e))) \<and>
    process_seq xxh3 now (en_rewriter e) ins = Some (outs, r0) \<and>
    run_once mock_recv_batch mock_send_batch xxh3 now e = Some (length outs, e') \<and>
    rw_conn (en_rewriter e') = rw_conn r0 \<and> rw_frag (en_rewriter e') = rw_frag r0 \<and>
    mock_rx (en_io e') = drop (en_batch_size e) (mock_rx (en_io e)) \<and>
    mock_tx (en_io e') = mock_tx (en_io e) @ map valid_bytes (filter (\<lambda>p. 0 < pkt_len p) outs)"
proof -
  obtain n bufs io where
    "mock_recv_batch (en_io e) (replicate (en_batch_size e) packet_buf_new) = (Inr n, bufs, io)"
    by (cases "mock_recv_loop (replicate (en_batch_size e) packet_buf_new) (mock_rx (en_io e))")
      (simp add: mock_recv_batch_def)
  from mock.run_once_ok [OF TrueI assms TrueI this, of xxh3 now] show ?thesis by blast
qed

lemma run_once_transmits_witness:
  "\<exists>r e'. sample_start = Some r \<and>
    run_once mock_recv_batch mock_send_batch (\<lambda>_. 0) 7
      \<lparr>en_io = \<lparr>mock_rx = [sample_bytes 0x20 0, []], mock_tx = []\<rparr>, en_rewriter = r, en_batch_size = 1\<rparr> =
      Some e' \<and> mock_rx (en_io (snd e')) = [[]]"
proof -
  obtain r where r: "sample_start = Some r" "rewriter_wf r" using sample_started by blast
  from run_once_transmits [of "\<lparr>en_io = \<lparr>mock_rx = [sample_bytes 0x20 0, []], mock_tx = []\<rparr>,
      en_rewriter = r, en_batch_size = 1\<rparr>" "\<lambda>_. 0" 7] r
  show ?thesis by auto
qed

subsection \<open>Threads and CPUs (threading.rs)\<close>

text \<open>The handles of the spawned threads, each with whether it has finished.\<close>

record thread_group =
  tg_finished :: "bool list"
  tg_shutdown :: bool

definition tg_start :: "nat \<Rightarrow> thread_group" where
  "tg_start num_rewriters = \<lparr>tg_finished = replicate (max num_rewriters 1 + 2) False, tg_shutdown = False\<rparr>"

definition tg_is_running :: "thread_group \<Rightarrow> bool" where
  "tg_is_running g \<longleftrightarrow> tg_finished g \<noteq> [] \<and> list_all (\<lambda>finished. \<not> finished) (tg_finished g)"

definition tg_stop :: "thread_group \<Rightarrow> thread_group" where
  "tg_stop g = g\<lparr>tg_shutdown := True, tg_finished := []\<rparr>"

record resolved_affinity =
  ra_steering :: "nat option"
  ra_rewriters :: "nat option list"
  ra_muxer :: "nat option"

text \<open>\<open>cores\<close> are the ids the operating system exposes.\<close>

definition resolve_one :: "nat list \<Rightarrow> nat \<Rightarrow> nat option" where
  "resolve_one cores cpu = List.find (\<lambda>c. c = cpu) cores"

fun pick_first :: "nat list \<Rightarrow> nat list \<Rightarrow> nat option" where
  "pick_first cores [] = None"
| "pick_first cores (cpu # rest) = (case resolve_one cores cpu of Some c \<Rightarrow> Some c | None \<Rightarrow> pick_first cores rest)"

definition resolve_cpu_affinity :: "nat list \<Rightarrow> cpu_affinity \<Rightarrow> nat \<Rightarrow> resolved_affinity" where
  "resolve_cpu_affinity cores req num_rewriters = \<lparr>
     ra_steering = pick_first cores (aff_steering req),
     ra_rewriters = map (\<lambda>i. if aff_rewriters req = [] then None
        else resolve_one cores (aff_rewriters req ! (i mod length (aff_rewriters req)))) [0..<num_rewriters],
     ra_muxer = pick_first cores (aff_muxer req)\<rparr>"

text \<open>
  The per-queue engine: one thread for each I/O handle, each with a rewriter of its own that it
  creates when it starts (\<^const>\<open>None\<close> when that panics, which ends the thread).
\<close>

definition cpu_affinity_default :: cpu_affinity where
  "cpu_affinity_default = \<lparr>aff_steering = [], aff_rewriters = [], aff_muxer = []\<rparr>"

definition queue_thread_start ::
  "forwarder_config \<Rightarrow> (backend_pool_id \<rightharpoonup> lookup_table) \<Rightarrow> vip_matcher \<Rightarrow> (ip_addr \<rightharpoonup> health_status) \<Rightarrow>
   forwarder_metrics \<Rightarrow> instant \<Rightarrow> 'io \<Rightarrow> 'io queue_thread panics" where
  "queue_thread_start c tables matcher health metrics now io = do {
     rw \<leftarrow> rewriter_new (fc_src_ip c) (fc_connection_table_size c) (fc_conn_ttls c)
            (fc_fragment_table_size c) (fc_fragment_ttl c) tables matcher health metrics
            (fc_mtu_config c) (fc_icmp_rate_limit c) now;
     Some (queue_thread_new io rw (fc_batch_size c)) }"

definition start_per_queue ::
  "nat list \<Rightarrow> 'io list \<Rightarrow> forwarder_config \<Rightarrow> (backend_pool_id \<rightharpoonup> lookup_table) \<Rightarrow> vip_matcher \<Rightarrow>
   (ip_addr \<rightharpoonup> health_status) \<Rightarrow> forwarder_metrics \<Rightarrow> instant \<Rightarrow>
   (('io queue_thread option \<times> nat option) list \<times> thread_group) panics" where
  "start_per_queue cores ios c tables matcher health metrics now =
     (if ios = [] then None
      else let num_rewriters = length ios;
               affinity = (case fc_cpu_affinity c of Some a \<Rightarrow> a | None \<Rightarrow> cpu_affinity_default);
               resolved = resolve_cpu_affinity cores affinity num_rewriters
           in Some (zip (map (queue_thread_start c tables matcher health metrics now) ios) (ra_rewriters resolved),
                    \<lparr>tg_finished = replicate num_rewriters False, tg_shutdown = False\<rparr>))"

lemma resolve_one_spec: "resolve_one cores cpu = (if cpu \<in> set cores then Some cpu else None)"
  by (induction cores) (auto simp: resolve_one_def)

lemma pick_first_spec: "pick_first cores req = List.find (\<lambda>cpu. cpu \<in> set cores) req"
  by (induction req) (simp_all add: resolve_one_spec)

text \<open>No thread is pinned to a CPU that does not exist, and every rewriter gets an entry.\<close>

lemma resolve_cpu_affinity_exists:
  "length (ra_rewriters (resolve_cpu_affinity cores req n)) = n \<and>
   set_option (ra_steering (resolve_cpu_affinity cores req n)) \<subseteq> set cores \<and>
   set_option (ra_muxer (resolve_cpu_affinity cores req n)) \<subseteq> set cores \<and>
   (\<Union>cpu \<in> set (ra_rewriters (resolve_cpu_affinity cores req n)). set_option cpu) \<subseteq> set cores"
  by (auto simp: resolve_cpu_affinity_def pick_first_spec resolve_one_spec find_Some_iff split: if_splits)

subsection \<open>Steering and fragments\<close>

text \<open>
  Steering reads ports from every packet, also from a fragment that has none: the first bytes of
  its payload are taken for ports. So a later fragment need not reach the rewriter, and with it
  the fragment table, of its first fragment.
\<close>

definition later_fragment_bytes :: "u8 list" where
  "later_fragment_bytes = [0x45, 0, 0, 28, 0, 7, 0, 1, 64, 17, 0, 0, 10, 0, 0, 100, 188, 184, 100, 10,
     0, 1, 0, 2, 0, 0, 0, 0]"

definition later_meta :: packet_meta where
  "later_meta = \<lparr>src_ip = V4 (Ipv4 10 0 0 100), dst_ip = V4 (Ipv4 188 184 100 10), src_port = 1,
     dst_port = 2, proto = Udp, meta_flags = None\<rparr>"

lemma later_fragment_parse:
  "from_ipv4_bytes later_fragment_bytes = Some (Some later_meta)"
  "is_non_first_fragment later_fragment_bytes = Some True"
  "fragment_id_from_ipv4_bytes later_fragment_bytes =
     Some (Some \<lparr>frag_src = V4 (Ipv4 10 0 0 100), frag_dst = V4 (Ipv4 188 184 100 10), frag_ip_id = 7\<rparr>)"
  by code_simp+

lemma later_fragment_steered_apart:
  "\<exists>first_meta meta. from_ip_bytes (sample_bytes 0x20 0) = Some (Some first_meta) \<and>
     from_ip_bytes later_fragment_bytes = Some (Some meta) \<and>
     is_non_first_fragment later_fragment_bytes = Some True \<and>
     fragment_id_from_ipv4_bytes later_fragment_bytes = fragment_id_from_ipv4_bytes (sample_bytes 0x20 0) \<and>
     (\<exists>xxh3. assign_queue xxh3 first_meta 2 = Some 0 \<and> assign_queue xxh3 meta 2 = Some 1)"
proof -
  have v4: "from_ip_bytes bs = from_ipv4_bytes bs" if "bs = 0x45 # rest" for bs rest
    using that by (simp add: from_ip_bytes_def drop_bit_eq_div)
  have "from_ip_bytes (sample_bytes 0x20 0) = Some (Some sample_meta)"
    using v4 [OF sample_bytes_def] sample_parse(4) by simp
  moreover have "from_ip_bytes later_fragment_bytes = Some (Some later_meta)"
    using v4 [OF later_fragment_bytes_def] later_fragment_parse(1) by simp
  moreover have "flow_key sample_meta \<noteq> flow_key later_meta"
    by (simp add: sample_meta_def later_meta_def flow_key_def addr_field_def to_be16_def hi_byte_def)
  then have "assign_queue (\<lambda>k. if k = flow_key sample_meta then 0 else 1) sample_meta 2 = Some 0 \<and>
      assign_queue (\<lambda>k. if k = flow_key sample_meta then 0 else 1) later_meta 2 = Some 1"
    by (simp add: assign_queue_def flow_hash_def)
  ultimately show ?thesis
    unfolding later_fragment_parse(3) sample_parse(5) using later_fragment_parse(2) by blast
qed

end
