(* ===== verification/Tracer.thy ===== *)
theory Tracer
  imports Rewriter
begin

text \<open>
  The read-only tracer (crates lb-tracer, trace.rs, and lb-forwarder, tracer.rs) with the text of
  its trail and of its report. A string is its UTF-8 bytes. The theorem relates the tracer's
  answer to what the rewriter does with a packet of the flow.
\<close>

record trace_request =
  tq_src_ip :: ip_addr
  tq_src_port :: u16
  tq_dst_ip :: ip_addr
  tq_dst_port :: u16
  tq_protocol :: protocol

text \<open>The arrow and the dash of the texts.\<close>

definition arrow :: string where "arrow = [CHR 0xE2, CHR 0x86, CHR 0x92]"
definition dash :: string where "dash = [CHR 0xE2, CHR 0x80, CHR 0x94]"

fun debug_protocol :: "protocol \<Rightarrow> string" where
  "debug_protocol Tcp = ''Tcp''"
| "debug_protocol Udp = ''Udp''"

text \<open>\<^verbatim>\<open>{:016x}\<close>\<close>

definition hex16 :: "u64 \<Rightarrow> string" where
  "hex16 w = (let h = hex (unat w) in replicate (16 - length h) CHR ''0'' @ h)"

definition quoted :: "string \<Rightarrow> string" where
  "quoted s = [CHR 0x60] @ s @ [CHR 0x60]"

definition parsed_step :: "trace_request \<Rightarrow> string" where
  "parsed_step req = ''parsed 5-tuple: '' @ show_ip (tq_src_ip req) @ '':'' @ dec (unat (tq_src_port req)) @ '' '' @
     arrow @ '' '' @ show_ip (tq_dst_ip req) @ '':'' @ dec (unat (tq_dst_port req)) @ '' ('' @
     debug_protocol (tq_protocol req) @ '')''"

definition no_vip_step :: string where
  "no_vip_step = ''no VIP match '' @ dash @ '' packet would be dropped''"

definition matched_step :: "backend_pool_id \<Rightarrow> string" where
  "matched_step pool = ''VIP matched '' @ arrow @ '' pool '' @ quoted pool"

definition no_table_step :: "backend_pool_id \<Rightarrow> string" where
  "no_table_step pool = ''pool '' @ quoted pool @ '' has no lookup table (config-reload race?) '' @ dash @
     '' packet would be dropped''"

definition lookup_step :: "ip_addr \<Rightarrow> u64 \<Rightarrow> string" where
  "lookup_step ip hash = ''Maglev lookup '' @ arrow @ '' '' @ show_ip ip @ '' (flow_hash=0x'' @ hex16 hash @ '')''"

definition health_step :: "bool \<Rightarrow> string" where
  "health_step healthy = ''health status: '' @
     (if healthy then ''healthy (or unknown '' @ dash @ '' treated as healthy)''
      else ''UNHEALTHY '' @ dash @ '' rewriter would fall back to another Maglev slot at packet time'')"

record trace_result =
  tr_node_id :: string
  tr_pool_id :: "backend_pool_id option"
  tr_flow_hash :: u64
  tr_selected_backend :: "ip_addr option"
  tr_backend_healthy :: bool
  tr_steps :: "string list"

record trace_inputs =
  ti_node_id :: string
  ti_matcher :: vip_matcher
  ti_tables :: "backend_pool_id \<rightharpoonup> lookup_table"
  ti_health :: "ip_addr \<rightharpoonup> health_status"

definition trace_packet :: "(u8 list \<Rightarrow> u64) \<Rightarrow> trace_request \<Rightarrow> trace_inputs \<Rightarrow> trace_result panics" where
  "trace_packet xxh3 req inputs =
     (let meta = \<lparr>src_ip = tq_src_ip req, dst_ip = tq_dst_ip req, src_port = tq_src_port req,
                  dst_port = tq_dst_port req, proto = tq_protocol req, meta_flags = None\<rparr>;
          hash = flow_hash xxh3 meta;
          steps = [parsed_step req] in
      case match_packet (ti_matcher inputs) (dst_ip meta) (proto meta) (dst_port meta) of
        None \<Rightarrow> Some \<lparr>tr_node_id = ti_node_id inputs, tr_pool_id = None, tr_flow_hash = hash,
                       tr_selected_backend = None, tr_backend_healthy = False,
                       tr_steps = steps @ [no_vip_step]\<rparr>
      | Some pool \<Rightarrow>
          let steps = steps @ [matched_step pool] in
          case ti_tables inputs pool of
            None \<Rightarrow> Some \<lparr>tr_node_id = ti_node_id inputs, tr_pool_id = Some pool, tr_flow_hash = hash,
                           tr_selected_backend = None, tr_backend_healthy = False,
                           tr_steps = steps @ [no_table_step pool]\<rparr>
          | Some table \<Rightarrow> do {
              backend \<leftarrow> table_lookup table hash;
              let steps = steps @ [lookup_step (be_ip backend) hash];
              let healthy = (case ti_health inputs (be_ip backend) of None \<Rightarrow> True | Some s \<Rightarrow> s \<noteq> Unhealthy);
              Some \<lparr>tr_node_id = ti_node_id inputs, tr_pool_id = Some pool, tr_flow_hash = hash,
                    tr_selected_backend = Some (be_ip backend), tr_backend_healthy = healthy,
                    tr_steps = steps @ [health_step healthy]\<rparr> })"

text \<open>\<^verbatim>\<open>impl Display for TraceResult\<close>\<close>

definition line :: "string \<Rightarrow> string" where "line s = s @ [CHR 0x0A]"

definition show_trace :: "trace_result \<Rightarrow> string" where
  "show_trace r =
     line (''node:    '' @ tr_node_id r) @ line (''hash:    0x'' @ hex16 (tr_flow_hash r)) @
     (case tr_pool_id r of
        Some pool \<Rightarrow> line (''pool:    '' @ pool)
      | None \<Rightarrow> line ''pool:    (no VIP match)'') @
     (case tr_selected_backend r of
        Some ip \<Rightarrow> line (''backend: '' @ show_ip ip @ '' ('' @
          (if tr_backend_healthy r then ''healthy'' else ''unhealthy'') @ '')'')
      | None \<Rightarrow> line ''backend: (none)'') @
     line ''steps:'' @ concat (map (\<lambda>step. line (''  - '' @ step)) (tr_steps r))"

definition request_of :: "packet_meta \<Rightarrow> trace_request" where
  "request_of m = \<lparr>tq_src_ip = src_ip m, tq_src_port = src_port m, tq_dst_ip = dst_ip m,
     tq_dst_port = dst_port m, tq_protocol = proto m\<rparr>"

definition inputs_of :: "string \<Rightarrow> rewriter \<Rightarrow> trace_inputs" where
  "inputs_of node r = \<lparr>ti_node_id = node, ti_matcher = rw_matcher r, ti_tables = rw_tables r,
     ti_health = rw_health r\<rparr>"

lemma trace_main_path:
  assumes "main_path xxh3 r p meta table" and "table_lookup table (flow_hash xxh3 meta) = Some be"
  obtains t where "trace_packet xxh3 (request_of meta) (inputs_of node r) = Some t"
    and "tr_selected_backend t = Some (be_ip be)" and "tr_flow_hash t = flow_hash xxh3 meta"
    and "tr_backend_healthy t = cached_backend_usable r (be_ip be)"
proof -
  have h: "flow_hash xxh3 \<lparr>src_ip = src_ip meta, dst_ip = dst_ip meta, src_port = src_port meta,
      dst_port = dst_port meta, proto = proto meta, meta_flags = None\<rparr> = flow_hash xxh3 meta"
    by (simp add: flow_hash_def flow_key_def)
  show ?thesis
    using assms that
    by (auto simp: trace_packet_def request_of_def inputs_of_def main_path_def h Let_def
        cached_backend_usable_def)
qed

text \<open>
  C16. The tracer tells the truth about a new flow: if the rewriter has no usable entry for the
  flow, a packet of it that is forwarded goes to the backend the tracer names, under the flow hash
  the tracer shows.
\<close>

theorem tracer_agrees:
  assumes "rewriter_wf r" and "packet_buf_ok p" and "main_path xxh3 r p meta table"
    and "conn_get (rw_conn r) (flow_hash xxh3 meta) now = Some None"
    and "process_one xxh3 r p now = Some (Forwarded q, r')"
  shows "\<exists>t s b pr inner. trace_packet xxh3 (request_of meta) (inputs_of node r) = Some t \<and>
     tr_flow_hash t = flow_hash xxh3 meta \<and> tr_selected_backend t = Some (V4 b) \<and>
     decapsulate (valid_bytes q) = Some (s, b, pr, inner)"
proof -
  obtain out b1 ra where A: "packet_buf_ok out" "rw_keeps r ra"
    "process_one xxh3 r p now = finish_packet ra out (dst_ip meta) b1 now"
    "\<exists>be. table_lookup table (flow_hash xxh3 meta) = Some be \<and> be_ip be = b1"
    using process_main_path [OF assms(1-3), of now] assms(4) by (elim exE conjE) auto
  then obtain be where be: "table_lookup table (flow_hash xxh3 meta) = Some be" "be_ip be = b1" by blast
  obtain s d where "b1 = V4 d" "decapsulate (valid_bytes q) = Some (s, d, inner_proto (valid_bytes out), valid_bytes out)"
    using finish_packet_ok [OF rw_keeps_wf [OF A(2)] A(1), of "dst_ip meta" b1 now] A(3) assms(5) by auto
  then show ?thesis
    using trace_main_path [OF assms(3) be(1), of node] be(2) by metis
qed

lemma tracer_agrees_witness:
  "\<exists>r t. sample_start = Some r \<and>
     trace_packet (\<lambda>_. 0) (request_of sample_meta) (inputs_of ''lb-node-01'' r) = Some t \<and>
     tr_selected_backend t \<noteq> None"
proof -
  obtain r q r1 where r: "sample_start = Some r" "rewriter_wf r"
    "main_path (\<lambda>_. 0) r (from_slice (sample_bytes 0x20 0)) sample_meta sample_table"
    "process_one (\<lambda>_. 0) r (from_slice (sample_bytes 0x20 0)) 7 = Some (Forwarded q, r1)"
    using sample_forwarded by blast
  moreover have "conn_get (rw_conn r) (flow_hash (\<lambda>_. 0) sample_meta) 7 = Some None"
    using sample_started r(1) by (metis option.inject)
  ultimately show ?thesis
    using tracer_agrees [OF r(2) from_slice_ok r(3) _ r(4), of "''lb-node-01''"] by fastforce
qed

end
