(* ===== verification/AfXdp.thy ===== *)
theory AfXdp
  imports PacketIo "HOL-Library.Multiset"
begin

text \<open>
  The AF_XDP backend (crate lb-io, af_xdp.rs, Linux with the feature enabled). The UMEM is a
  list of bytes cut into frames; the four rings are shared with the kernel: it takes addresses
  from FILL, posts received packets on RX, takes descriptors from TX and gives the addresses of
  sent frames back on COMPLETION. The frames with low numbers serve RX, the others TX.

  What is not the repository's code:
  \<^item> the system calls of the setup (xdpilone, bpf, the allocator) are outcomes, a record of what
    each of them returns;
  \<^item> how many of \<open>n\<close> offered entries a ring writer of xdpilone accepts is the parameter \<open>accept\<close>,
    with \<open>ring_writer\<close> as its documented contract: all of them when there is room, and never more
    than there is room for;
  \<^item> what the kernel does to the rings is \<open>kernel_deliver\<close> and \<open>kernel_transmit\<close>, the documented
    behaviour of AF_XDP sockets, and the wake-up flag may change at any time.

  \<open>af_xdp_ok\<close> is the invariant of frame ownership: under every interleaving with the kernel, a frame
  of the RX half is on exactly one of FILL and RX and a TX frame on at most one of the free list,
  TX and COMPLETION, so that the unsafe copies never touch a frame of someone else and no frame
  index is out of range. The backend is the third interpretation of \<open>packet_io\<close>.
\<close>

definition DEFAULT_FRAME_SIZE :: u32 where "DEFAULT_FRAME_SIZE = 2048"
definition DEFAULT_NUM_FRAMES :: u32 where "DEFAULT_NUM_FRAMES = 4096"
definition DEFAULT_RING_SIZE :: u32 where "DEFAULT_RING_SIZE = 2048"

record af_xdp_config =
  xc_iface :: string
  xc_queue_id :: u32
  xc_num_frames :: u32
  xc_frame_size :: u32
  xc_ring_size :: u32
  xc_xskmap_pin :: "string option"

definition af_xdp_config_default :: af_xdp_config where
  "af_xdp_config_default =
     \<lparr>xc_iface = ''eth0'', xc_queue_id = 0, xc_num_frames = DEFAULT_NUM_FRAMES,
      xc_frame_size = DEFAULT_FRAME_SIZE, xc_ring_size = DEFAULT_RING_SIZE,
      xc_xskmap_pin = Some ''/sys/fs/bpf/lb/xsks_map''\<rparr>"

record xdp_desc =
  xd_addr :: nat
  xd_len :: nat

record af_xdp =
  ax_rx :: "xdp_desc list"
  ax_fill :: "nat list"
  ax_tx :: "xdp_desc list"
  ax_comp :: "nat list"
  ax_mem :: "u8 list"
  ax_num_frames :: nat
  ax_ring_size :: nat
  ax_free :: "nat list"
  ax_free_cap :: nat
  ax_frame_size :: nat
  ax_needs_wakeup :: bool
  ax_wakes :: nat

subsection \<open>Setup (AfXdpIo::new)\<close>

definition is_power_of_two :: "u32 \<Rightarrow> bool" where
  "is_power_of_two n \<longleftrightarrow> n \<noteq> 0 \<and> n AND (n - 1) = 0"

text \<open>One constructor for each early return, with the error of the call that failed.\<close>

datatype xdp_error =
    FrameSizeTooSmall u32
  | NumFramesNotPowerOfTwo
  | NumFramesTooSmall
  | UmemAlloc string
  | UmemNew string
  | IfaceHasNul
  | IfInfoFromName string
  | SocketWithShared string
  | FqCq string
  | RxTx string
  | MapRx string
  | MapTx string
  | UmemBind string
  | XskmapRegistration string

record xdp_setup =
  xs_alloc :: "string + u8 list"
  xs_umem :: "string option"
  xs_ifinfo :: "string option"
  xs_socket :: "string option"
  xs_fq_cq :: "string option"
  xs_rx_tx :: "string option"
  xs_map_rx :: "string option"
  xs_map_tx :: "string option"
  xs_bind :: "string option"
  xs_fd :: u32
  xs_obj_get :: "string \<Rightarrow> string + u32"
  xs_map_update :: "u32 \<Rightarrow> u32 \<Rightarrow> u32 \<Rightarrow> string option"

definition check_config :: "af_xdp_config \<Rightarrow> xdp_error option" where
  "check_config c =
     (if xc_frame_size c < word_of_nat PACKET_BUF_SIZE then Some (FrameSizeTooSmall (xc_frame_size c))
      else if \<not> is_power_of_two (xc_num_frames c) then Some NumFramesNotPowerOfTwo
      else if xc_num_frames c < 2 * xc_ring_size c then Some NumFramesTooSmall
      else None)"

definition has_nul :: "string \<Rightarrow> bool" where
  "has_nul s \<longleftrightarrow> CHR 0x00 \<in> set s"

definition register_xsk :: "xdp_setup \<Rightarrow> string \<Rightarrow> u32 \<Rightarrow> u32 \<Rightarrow> string option" where
  "register_xsk s pin_path queue_id xsk_fd =
     (if has_nul pin_path then Some ''pin path has NUL''
      else case xs_obj_get s pin_path of
             Inl e \<Rightarrow> Some e
           | Inr map_fd \<Rightarrow> xs_map_update s map_fd queue_id xsk_fd)"

definition register_in_xskmap :: "af_xdp_config \<Rightarrow> xdp_setup \<Rightarrow> string option" where
  "register_in_xskmap c s =
     (case xc_xskmap_pin c of
        None \<Rightarrow> None
      | Some pin_path \<Rightarrow> register_xsk s pin_path (xc_queue_id c) (xs_fd s))"

fun first_error :: "xdp_error option list \<Rightarrow> xdp_error option" where
  "first_error [] = None"
| "first_error (None # es) = first_error es"
| "first_error (Some e # es) = Some e"

text \<open>The calls between the allocation and the filling of the FILL ring, in their order.\<close>

definition socket_error :: "af_xdp_config \<Rightarrow> xdp_setup \<Rightarrow> xdp_error option" where
  "socket_error c s =
     first_error
       [map_option UmemNew (xs_umem s),
        if has_nul (xc_iface c) then Some IfaceHasNul else None,
        map_option IfInfoFromName (xs_ifinfo s),
        map_option SocketWithShared (xs_socket s),
        map_option FqCq (xs_fq_cq s),
        map_option RxTx (xs_rx_tx s),
        map_option MapRx (xs_map_rx s),
        map_option MapTx (xs_map_tx s),
        map_option UmemBind (xs_bind s)]"

text \<open>
  \<^verbatim>\<open>with_capacity\<close> gives at least what is asked for; the model takes exactly that. The number of
  TX frames is a difference of 32-bit numbers.
\<close>

definition af_xdp_init :: "(nat \<Rightarrow> nat \<Rightarrow> nat) \<Rightarrow> af_xdp_config \<Rightarrow> u8 list \<Rightarrow> af_xdp" where
  "af_xdp_init accept c mem =
     (let num_rx_frames = unat (xc_ring_size c);
          frame_size = unat (xc_frame_size c);
          addrs = map (\<lambda>i. i * frame_size) [0..<num_rx_frames]
      in \<lparr>ax_rx = [], ax_fill = take (accept num_rx_frames num_rx_frames) addrs, ax_tx = [], ax_comp = [],
          ax_mem = mem, ax_num_frames = unat (xc_num_frames c), ax_ring_size = num_rx_frames,
          ax_free = [num_rx_frames..<unat (xc_num_frames c)],
          ax_free_cap = unat (xc_num_frames c - xc_ring_size c),
          ax_frame_size = frame_size, ax_needs_wakeup = True, ax_wakes = 0\<rparr>)"

definition af_xdp_new ::
  "(nat \<Rightarrow> nat \<Rightarrow> nat) \<Rightarrow> af_xdp_config \<Rightarrow> xdp_setup \<Rightarrow> xdp_error + af_xdp" where
  "af_xdp_new accept c s =
     (case check_config c of
        Some e \<Rightarrow> Inl e
      | None \<Rightarrow>
     (case xs_alloc s of
        Inl e \<Rightarrow> Inl (UmemAlloc e)
      | Inr mem \<Rightarrow>
     (case socket_error c s of
        Some e \<Rightarrow> Inl e
      | None \<Rightarrow>
     (case register_in_xskmap c s of
        Some e \<Rightarrow> Inl (XskmapRegistration e)
      | None \<Rightarrow> Inr (af_xdp_init accept c mem)))))"

subsection \<open>Frames and the UMEM\<close>

definition addr_to_frame_idx :: "af_xdp \<Rightarrow> nat \<Rightarrow> nat" where
  "addr_to_frame_idx x addr = addr div ax_frame_size x"

definition frame_idx_to_addr :: "af_xdp \<Rightarrow> nat \<Rightarrow> nat" where
  "frame_idx_to_addr x idx = idx * ax_frame_size x"

text \<open>\<^verbatim>\<open>umem.frame(BufIdx(idx))\<close>: where the frame starts, if there is one.\<close>

definition umem_frame :: "af_xdp \<Rightarrow> nat \<Rightarrow> nat panics" where
  "umem_frame x idx = (if idx < ax_num_frames x then Some (idx * ax_frame_size x) else None)"

definition umem_read :: "af_xdp \<Rightarrow> nat \<Rightarrow> nat \<Rightarrow> u8 list \<Rightarrow> u8 list panics" where
  "umem_read x addr len dst = do {
     let idx = addr_to_frame_idx x addr;
     let frame_offset = addr - frame_idx_to_addr x idx;
     frame_start \<leftarrow> umem_frame x idx;
     let src = frame_start + frame_offset;
     let copy_len = min len (length dst);
     Some (take copy_len (drop src (ax_mem x)) @ drop copy_len dst)
   }"

definition umem_write_for_tx :: "af_xdp \<Rightarrow> nat \<Rightarrow> u8 list \<Rightarrow> (xdp_desc \<times> af_xdp) panics" where
  "umem_write_for_tx x idx data = do {
     dst \<leftarrow> umem_frame x idx;
     let copy_len = min (length data) (ax_frame_size x);
     let mem = take dst (ax_mem x) @ take copy_len data @ drop (dst + copy_len) (ax_mem x);
     Some (\<lparr>xd_addr = frame_idx_to_addr x idx, xd_len = copy_len\<rparr>, x\<lparr>ax_mem := mem\<rparr>)
   }"

definition drain_completions :: "af_xdp \<Rightarrow> af_xdp" where
  "drain_completions x =
     (let mx = ax_free_cap x - length (ax_free x)
      in if mx = 0 then x
         else x\<lparr>ax_free := ax_free x @ map (\<lambda>addr. addr div ax_frame_size x) (take mx (ax_comp x)),
                ax_comp := drop mx (ax_comp x)\<rparr>)"

subsection \<open>Receiving\<close>

fun copy_out :: "af_xdp \<Rightarrow> xdp_desc list \<Rightarrow> packet_buf list \<Rightarrow> packet_buf list panics" where
  "copy_out x (d # ds) (p # ps) = do {
     data \<leftarrow> umem_read x (xd_addr d) (xd_len d) (pkt_data p);
     ps \<leftarrow> copy_out x ds ps;
     Some (p\<lparr>pkt_len := min (xd_len d) PACKET_BUF_SIZE, pkt_data := data\<rparr> # ps)
   }"
| "copy_out x _ ps = Some ps"

definition recycle :: "(nat \<Rightarrow> nat \<Rightarrow> nat) \<Rightarrow> xdp_desc list \<Rightarrow> af_xdp \<Rightarrow> af_xdp" where
  "recycle accept consumed x =
     (let aligned = map (\<lambda>d. xd_addr d div ax_frame_size x * ax_frame_size x) consumed
      in x\<lparr>ax_fill := ax_fill x @
                take (accept (ax_ring_size x - length (ax_fill x)) (length aligned)) aligned\<rparr>)"

definition xdp_recv_batch ::
  "(nat \<Rightarrow> nat \<Rightarrow> nat) \<Rightarrow> af_xdp \<Rightarrow> packet_buf list \<Rightarrow> ((io_error + nat) \<times> packet_buf list \<times> af_xdp) panics" where
  "xdp_recv_batch accept x bufs =
     (if bufs = [] then Some (Inr 0, bufs, x)
      else
        let consumed = take (length bufs) (ax_rx x);
            x = x\<lparr>ax_rx := drop (length bufs) (ax_rx x)\<rparr>
        in do {
          bufs \<leftarrow> copy_out x consumed bufs;
          Some (Inr (length consumed), bufs, if consumed = [] then x else recycle accept consumed x)
        })"

subsection \<open>Sending\<close>

text \<open>One descriptor per packet while there are free frames.\<close>

fun build_descs :: "af_xdp \<Rightarrow> packet_buf list \<Rightarrow> (xdp_desc list \<times> af_xdp) panics" where
  "build_descs x [] = Some ([], x)"
| "build_descs x (p # ps) =
     (case ax_free x of
        [] \<Rightarrow> Some ([], x)
      | idx # free \<Rightarrow> do {
          bytes \<leftarrow> as_slice p;
          (d, x) \<leftarrow> umem_write_for_tx (x\<lparr>ax_free := free\<rparr>) idx bytes;
          (ds, x) \<leftarrow> build_descs x ps;
          Some (d # ds, x)
        })"

definition xdp_send_batch ::
  "(nat \<Rightarrow> nat \<Rightarrow> nat) \<Rightarrow> af_xdp \<Rightarrow> packet_buf list \<Rightarrow> ((io_error + nat) \<times> af_xdp) panics" where
  "xdp_send_batch accept x bufs =
     (if bufs = [] then Some (Inr 0, x)
      else
        let x = drain_completions x;
            mx = min (length bufs) (length (ax_free x))
        in if mx = 0 then Some (Inr 0, x)
           else do {
             (descs, x) \<leftarrow> build_descs x (take mx bufs);
             let sent = accept (ax_ring_size x - length (ax_tx x)) (length descs);
             let x = x\<lparr>ax_tx := ax_tx x @ take sent descs\<rparr>;
             let x = (if ax_needs_wakeup x then x\<lparr>ax_wakes := ax_wakes x + 1\<rparr> else x);
             Some (Inr sent, x)
           })"

subsection \<open>The kernel's side\<close>

text \<open>A packet of at most a frame is written behind some headroom of the next FILL frame.\<close>

definition kernel_deliver :: "u8 list \<Rightarrow> nat \<Rightarrow> af_xdp \<Rightarrow> af_xdp option" where
  "kernel_deliver packet headroom x =
     (case ax_fill x of
        [] \<Rightarrow> None
      | a # fill \<Rightarrow>
          if headroom + length packet \<le> ax_frame_size x \<and> headroom < ax_frame_size x \<and> length (ax_rx x) < ax_ring_size x
          then Some (x\<lparr>ax_fill := fill,
             ax_mem := take (a + headroom) (ax_mem x) @ packet @ drop (a + headroom + length packet) (ax_mem x),
             ax_rx := ax_rx x @ [\<lparr>xd_addr = a + headroom, xd_len = length packet\<rparr>]\<rparr>)
          else None)"

text \<open>The bytes of a TX descriptor go out and its address comes back.\<close>

definition desc_bytes :: "u8 list \<Rightarrow> xdp_desc \<Rightarrow> u8 list" where
  "desc_bytes mem d = take (xd_len d) (drop (xd_addr d) mem)"

definition kernel_transmit :: "af_xdp \<Rightarrow> (u8 list \<times> af_xdp) option" where
  "kernel_transmit x =
     (case ax_tx x of
        [] \<Rightarrow> None
      | d # tx \<Rightarrow>
          if length (ax_comp x) < ax_ring_size x
          then Some (desc_bytes (ax_mem x) d, x\<lparr>ax_tx := tx, ax_comp := ax_comp x @ [xd_addr d]\<rparr>)
          else None)"

subsection \<open>Who owns a frame\<close>

locale ring_writer =
  fixes accept :: "nat \<Rightarrow> nat \<Rightarrow> nat"
  assumes accept_le: "accept room n \<le> n"
    and accept_room: "accept room n \<le> room"
    and accept_all: "n \<le> room \<Longrightarrow> accept room n = n"

definition rx_frames :: "af_xdp \<Rightarrow> nat list" where
  "rx_frames x = map (addr_to_frame_idx x) (map xd_addr (ax_rx x) @ ax_fill x)"

definition tx_frames :: "af_xdp \<Rightarrow> nat list" where
  "tx_frames x = ax_free x @ map (addr_to_frame_idx x) (map xd_addr (ax_tx x) @ ax_comp x)"

definition in_frame :: "af_xdp \<Rightarrow> xdp_desc \<Rightarrow> bool" where
  "in_frame x d \<longleftrightarrow> xd_addr d mod ax_frame_size x + xd_len d \<le> ax_frame_size x"

definition af_xdp_ok :: "af_xdp \<Rightarrow> bool" where
  "af_xdp_ok x \<longleftrightarrow>
     PACKET_BUF_SIZE \<le> ax_frame_size x \<and>
     length (ax_mem x) = ax_num_frames x * ax_frame_size x \<and>
     ax_ring_size x \<le> ax_num_frames x \<and>
     ax_num_frames x - ax_ring_size x \<le> ax_free_cap x \<and>
     mset (rx_frames x) = mset [0..<ax_ring_size x] \<and>
     mset (tx_frames x) \<subseteq># mset [ax_ring_size x..<ax_num_frames x] \<and>
     (\<forall>a \<in> set (ax_fill x). a mod ax_frame_size x = 0) \<and>
     (\<forall>d \<in> set (ax_rx x). in_frame x d) \<and>
     (\<forall>d \<in> set (ax_tx x). in_frame x d)"

lemma addr_to_frame_idx_eq: "addr_to_frame_idx x = (\<lambda>a. a div ax_frame_size x)"
  by (simp add: fun_eq_iff addr_to_frame_idx_def)

lemmas frames_defs = rx_frames_def tx_frames_def in_frame_def addr_to_frame_idx_eq frame_idx_to_addr_def

lemma PACKET_BUF_SIZE_pos [simp]: "0 < PACKET_BUF_SIZE"
  by (simp add: PACKET_BUF_SIZE_def)

lemma ok_frame_size: "af_xdp_ok x \<Longrightarrow> 0 < ax_frame_size x"
  by (auto simp: af_xdp_ok_def PACKET_BUF_SIZE_def)

lemma ok_rx_set: "af_xdp_ok x \<Longrightarrow> set (rx_frames x) = {..<ax_ring_size x}"
  unfolding af_xdp_ok_def by (metis atLeast_upt set_mset_mset)

lemma ok_tx_set:
  assumes "af_xdp_ok x"
  shows "set (tx_frames x) \<subseteq> {ax_ring_size x..<ax_num_frames x}"
proof -
  from assms have "set_mset (mset (tx_frames x)) \<subseteq> set_mset (mset [ax_ring_size x..<ax_num_frames x])"
    by (simp only: af_xdp_ok_def set_mset_mono)
  then show ?thesis by simp
qed

lemma ok_rx_length: "af_xdp_ok x \<Longrightarrow> length (ax_rx x) + length (ax_fill x) = ax_ring_size x"
proof -
  assume "af_xdp_ok x"
  then have "size (mset (rx_frames x)) = size (mset [0..<ax_ring_size x])" by (simp add: af_xdp_ok_def)
  then show ?thesis by (simp add: rx_frames_def)
qed

lemma ok_tx_length:
  assumes "af_xdp_ok x"
  shows "length (ax_free x) + length (ax_tx x) + length (ax_comp x) \<le> ax_num_frames x - ax_ring_size x"
proof -
  from assms have "size (mset (tx_frames x)) \<le> size (mset [ax_ring_size x..<ax_num_frames x])"
    by (simp only: af_xdp_ok_def size_mset_mono)
  then show ?thesis by (simp add: tx_frames_def)
qed

lemma ok_rx_distinct: "af_xdp_ok x \<Longrightarrow> distinct (rx_frames x)"
  unfolding af_xdp_ok_def by (metis distinct_upt mset_eq_imp_distinct_iff)

lemma ok_tx_distinct:
  assumes "af_xdp_ok x"
  shows "distinct (tx_frames x)"
proof -
  from assms obtain rest where "mset [ax_ring_size x..<ax_num_frames x] = mset (tx_frames x) + rest"
    by (auto simp: af_xdp_ok_def mset_subset_eq_exists_conv)
  moreover obtain ys where "rest = mset ys" by (metis ex_mset)
  ultimately have "mset [ax_ring_size x..<ax_num_frames x] = mset (tx_frames x @ ys)" by simp
  then have "distinct (tx_frames x @ ys)" by (metis distinct_upt mset_eq_imp_distinct_iff)
  then show ?thesis by simp
qed

lemma ok_rx_desc:
  assumes "af_xdp_ok x" "d \<in> set (ax_rx x)"
  shows "in_frame x d" "xd_addr d div ax_frame_size x < ax_ring_size x"
    "xd_addr d div ax_frame_size x < ax_num_frames x"
proof -
  show "in_frame x d" using assms by (simp add: af_xdp_ok_def)
  have "xd_addr d div ax_frame_size x \<in> set (rx_frames x)"
    using assms(2) by (simp add: rx_frames_def addr_to_frame_idx_def)
  with assms(1) show *: "xd_addr d div ax_frame_size x < ax_ring_size x" by (simp add: ok_rx_set)
  with assms(1) show "xd_addr d div ax_frame_size x < ax_num_frames x" by (simp add: af_xdp_ok_def)
qed

lemma ok_tx_desc:
  assumes "af_xdp_ok x" "d \<in> set (ax_tx x)"
  shows "in_frame x d" "ax_ring_size x \<le> xd_addr d div ax_frame_size x"
    "xd_addr d div ax_frame_size x < ax_num_frames x"
proof -
  show "in_frame x d" using assms by (simp add: af_xdp_ok_def)
  have "xd_addr d div ax_frame_size x \<in> set (tx_frames x)"
    using assms(2) by (simp add: tx_frames_def addr_to_frame_idx_def)
  with ok_tx_set [OF assms(1)]
  show "ax_ring_size x \<le> xd_addr d div ax_frame_size x" "xd_addr d div ax_frame_size x < ax_num_frames x"
    by auto
qed

lemma ok_free:
  assumes "af_xdp_ok x" "i \<in> set (ax_free x)"
  shows "ax_ring_size x \<le> i \<and> i < ax_num_frames x"
  using ok_tx_set [OF assms(1)] assms(2) by (auto simp: tx_frames_def)

subsection \<open>Pieces of the UMEM\<close>

lemma desc_bytes_other:
  assumes "at + length bytes \<le> length mem"
    and "xd_addr d + xd_len d \<le> at \<or> at + length bytes \<le> xd_addr d"
  shows "desc_bytes (take at mem @ bytes @ drop (at + length bytes) mem) d = desc_bytes mem d"
  using assms by (auto simp: desc_bytes_def take_drop)

lemma desc_bytes_written:
  "at \<le> length mem \<Longrightarrow>
   desc_bytes (take at mem @ bytes @ rest) \<lparr>xd_addr = at, xd_len = length bytes\<rparr> = bytes"
  by (simp add: desc_bytes_def)

lemma in_frame_bounds:
  assumes "in_frame x d" "0 < ax_frame_size x"
  shows "xd_addr d div ax_frame_size x * ax_frame_size x \<le> xd_addr d"
    "xd_addr d + xd_len d \<le> Suc (xd_addr d div ax_frame_size x) * ax_frame_size x"
proof -
  have eq: "xd_addr d div ax_frame_size x * ax_frame_size x + xd_addr d mod ax_frame_size x = xd_addr d"
    by simp
  from eq show "xd_addr d div ax_frame_size x * ax_frame_size x \<le> xd_addr d" by linarith
  from eq assms(1) show "xd_addr d + xd_len d \<le> Suc (xd_addr d div ax_frame_size x) * ax_frame_size x"
    unfolding in_frame_def mult_Suc by linarith
qed

lemma in_frame_mem:
  assumes "in_frame x d" "0 < ax_frame_size x" "xd_addr d div ax_frame_size x < ax_num_frames x"
    and "length (ax_mem x) = ax_num_frames x * ax_frame_size x"
  shows "xd_addr d + xd_len d \<le> length (ax_mem x)"
proof -
  have "Suc (xd_addr d div ax_frame_size x) * ax_frame_size x \<le> ax_num_frames x * ax_frame_size x"
    using assms(3) by (intro mult_right_mono) simp_all
  with in_frame_bounds(2) [OF assms(1,2)] assms(4) show ?thesis by linarith
qed

text \<open>Writing into frame \<open>idx\<close> leaves what a descriptor of another frame describes.\<close>

lemma other_frame_kept:
  assumes d: "in_frame x d" and fs: "0 < ax_frame_size x" and other: "xd_addr d div ax_frame_size x \<noteq> idx"
    and start: "idx * ax_frame_size x \<le> at" and stop: "at + length bytes \<le> Suc idx * ax_frame_size x"
    and mem: "Suc idx * ax_frame_size x \<le> length mem"
  shows "desc_bytes (take at mem @ bytes @ drop (at + length bytes) mem) d = desc_bytes mem d"
proof (rule desc_bytes_other)
  show "at + length bytes \<le> length mem" using stop mem by linarith
  show "xd_addr d + xd_len d \<le> at \<or> at + length bytes \<le> xd_addr d"
  proof (cases "xd_addr d div ax_frame_size x < idx")
    case True
    then have "Suc (xd_addr d div ax_frame_size x) * ax_frame_size x \<le> idx * ax_frame_size x"
      by (intro mult_right_mono) simp_all
    with in_frame_bounds(2) [OF d fs] start show ?thesis by linarith
  next
    case False
    with other have "Suc idx * ax_frame_size x \<le> xd_addr d div ax_frame_size x * ax_frame_size x"
      by (intro mult_right_mono) simp_all
    with in_frame_bounds(1) [OF d fs] stop show ?thesis by linarith
  qed
qed

subsection \<open>Receiving, by its specification\<close>

lemma umem_read_ok:
  assumes "in_frame x d" "0 < ax_frame_size x" "xd_addr d div ax_frame_size x < ax_num_frames x"
  shows "umem_read x (xd_addr d) (xd_len d) dst =
     Some (take (min (xd_len d) (length dst)) (drop (xd_addr d) (ax_mem x)) @ drop (min (xd_len d) (length dst)) dst)"
  using assms in_frame_bounds(1) [OF assms(1,2)]
  by (simp add: umem_read_def umem_frame_def frames_defs Let_def)

lemma copy_out_ok:
  assumes "\<forall>d \<in> set ds. in_frame x d \<and> xd_addr d div ax_frame_size x < ax_num_frames x"
    and "0 < ax_frame_size x" "length (ax_mem x) = ax_num_frames x * ax_frame_size x"
    and "list_all packet_buf_ok ps" "length ds \<le> length ps"
  shows "\<exists>ps'. copy_out x ds ps = Some ps' \<and> length ps' = length ps \<and> list_all packet_buf_ok ps' \<and>
     map valid_bytes (take (length ds) ps') = map (take PACKET_BUF_SIZE \<circ> desc_bytes (ax_mem x)) ds"
  using assms
proof (induction x ds ps rule: copy_out.induct)
  case (1 x d ds p ps)
  then have "umem_read x (xd_addr d) (xd_len d) (pkt_data p) \<noteq> None"
    using umem_read_ok [of x d] by simp
  with 1 obtain ps' where ps': "copy_out x ds ps = Some ps'" "length ps' = length ps" "list_all packet_buf_ok ps'"
    "map valid_bytes (take (length ds) ps') = map (take PACKET_BUF_SIZE \<circ> desc_bytes (ax_mem x)) ds"
    by fastforce
  have d: "in_frame x d" "xd_addr d div ax_frame_size x < ax_num_frames x" using 1 by simp_all
  have len: "length (pkt_data p) = PACKET_BUF_SIZE" using 1 by (simp add: packet_buf_ok_def)
  let ?n = "min (xd_len d) PACKET_BUF_SIZE"
  have inside: "xd_addr d + xd_len d \<le> length (ax_mem x)"
    using in_frame_mem [OF d(1)] d(2) 1 by simp
  have "packet_buf_ok (p\<lparr>pkt_len := ?n, pkt_data := take ?n (drop (xd_addr d) (ax_mem x)) @ drop ?n (pkt_data p)\<rparr>)"
    using len inside by (auto simp: packet_buf_ok_def)
  moreover have "valid_bytes (p\<lparr>pkt_len := ?n, pkt_data := take ?n (drop (xd_addr d) (ax_mem x)) @ drop ?n (pkt_data p)\<rparr>) =
      take PACKET_BUF_SIZE (desc_bytes (ax_mem x) d)"
    using inside by (simp add: desc_bytes_def valid_bytes_def min.commute)
  ultimately show ?case
    using ps' umem_read_ok [OF d(1) _ d(2)] 1(3) by (simp add: len)
qed auto

definition xdp_pending :: "af_xdp \<Rightarrow> u8 list list" where
  "xdp_pending x = map (desc_bytes (ax_mem x)) (ax_rx x)"

definition xdp_outgoing :: "af_xdp \<Rightarrow> u8 list list" where
  "xdp_outgoing x = map (desc_bytes (ax_mem x)) (ax_tx x)"

lemma map_desc_bytes_take [simp]: "drop n (map f xs) = map f (drop n xs)" "take n (map f xs) = map f (take n xs)"
  by (simp_all add: drop_map take_map)

context ring_writer
begin

lemma recycle_ok:
  assumes ok: "af_xdp_ok x" and n: "ds = take n (ax_rx x)"
  shows "recycle accept ds (x\<lparr>ax_rx := drop n (ax_rx x)\<rparr>) =
     x\<lparr>ax_rx := drop n (ax_rx x),
       ax_fill := ax_fill x @ map (\<lambda>d. xd_addr d div ax_frame_size x * ax_frame_size x) ds\<rparr>"
proof -
  have "length ds \<le> ax_ring_size x - length (ax_fill x)" using ok_rx_length [OF ok] n by simp
  then show ?thesis by (simp add: recycle_def Let_def accept_all)
qed

lemma recv_ok:
  assumes ok: "af_xdp_ok x" and bufs: "list_all packet_buf_ok bufs"
  defines "n \<equiv> min (length bufs) (length (ax_rx x))"
  shows "\<exists>bufs' x'. xdp_recv_batch accept x bufs = Some (Inr n, bufs', x') \<and> af_xdp_ok x' \<and>
     length bufs' = length bufs \<and> list_all packet_buf_ok bufs' \<and>
     map valid_bytes (take n bufs') = map (take PACKET_BUF_SIZE) (take n (xdp_pending x)) \<and>
     xdp_pending x' = drop n (xdp_pending x) \<and> xdp_outgoing x' = xdp_outgoing x \<and>
     tx_frames x' = tx_frames x \<and> ax_num_frames x' = ax_num_frames x \<and> ax_ring_size x' = ax_ring_size x"
proof (cases "bufs = []")
  case True
  with ok n_def show ?thesis by (auto simp: xdp_recv_batch_def)
next
  case False
  let ?ds = "take (length bufs) (ax_rx x)"
  let ?x = "x\<lparr>ax_rx := drop (length bufs) (ax_rx x),
       ax_fill := ax_fill x @ map (\<lambda>d. xd_addr d div ax_frame_size x * ax_frame_size x) ?ds\<rparr>"
  have len: "length ?ds = n" by (simp add: n_def min.commute)
  have fs: "0 < ax_frame_size x" and mem: "length (ax_mem x) = ax_num_frames x * ax_frame_size x"
    using ok ok_frame_size by (auto simp: af_xdp_ok_def)
  have "\<forall>d \<in> set ?ds. in_frame (x\<lparr>ax_rx := drop (length bufs) (ax_rx x)\<rparr>) d \<and>
      xd_addr d div ax_frame_size x < ax_num_frames x"
    using ok_rx_desc [OF ok] by (auto simp: in_frame_def dest!: in_set_takeD)
  then obtain bufs' where c: "copy_out (x\<lparr>ax_rx := drop (length bufs) (ax_rx x)\<rparr>) ?ds bufs = Some bufs'"
    "length bufs' = length bufs" "list_all packet_buf_ok bufs'"
    "map valid_bytes (take n bufs') = map (take PACKET_BUF_SIZE \<circ> desc_bytes (ax_mem x)) ?ds"
    using copy_out_ok [of ?ds "x\<lparr>ax_rx := drop (length bufs) (ax_rx x)\<rparr>" bufs] fs mem bufs len by auto
  have run: "xdp_recv_batch accept x bufs = Some (Inr n, bufs', ?x)"
  proof (cases "?ds = []")
    case True
    then have "n = 0" using len by (metis list.size(3))
    with False True c(1) show ?thesis by (simp add: xdp_recv_batch_def Let_def)
  next
    case nonempty: False
    show ?thesis using False nonempty c(1) len recycle_ok [OF ok refl, of "length bufs"]
      by (simp add: xdp_recv_batch_def Let_def)
  qed
  have split: "mset (map (\<lambda>d. xd_addr d div ax_frame_size x) (drop (length bufs) (ax_rx x))) +
      mset (map (\<lambda>d. xd_addr d div ax_frame_size x) ?ds) =
      mset (map (\<lambda>d. xd_addr d div ax_frame_size x) (ax_rx x))"
    by (metis add.commute append_take_drop_id map_append mset_append)
  have "mset (rx_frames ?x) = mset (rx_frames x)"
    using split fs by (simp add: frames_defs comp_def ac_simps)
  moreover have "tx_frames ?x = tx_frames x" by (simp add: frames_defs)
  ultimately have "af_xdp_ok ?x"
    using ok by (auto simp: af_xdp_ok_def in_frame_def dest!: in_set_dropD)
  moreover have "take n (ax_rx x) = ?ds" "drop n (ax_rx x) = drop (length bufs) (ax_rx x)"
    by (simp_all add: n_def min_def)
  ultimately show ?thesis
    using run c(2-4) \<open>tx_frames ?x = tx_frames x\<close>
    by (intro exI [of _ bufs'] exI [of _ ?x]) (simp add: xdp_pending_def xdp_outgoing_def)
qed

end

subsection \<open>Sending, by its specification\<close>

text \<open>
  \<open>build_descs\<close> takes the first free frames, one per packet; what any other descriptor describes
  is left alone.
\<close>

definition no_frame_of :: "af_xdp \<Rightarrow> nat list \<Rightarrow> xdp_desc \<Rightarrow> bool" where
  "no_frame_of x free d \<longleftrightarrow> in_frame x d \<and> xd_addr d div ax_frame_size x \<notin> set free"

lemma umem_write_ok:
  assumes "idx < ax_num_frames x" "length data \<le> ax_frame_size x"
  shows "umem_write_for_tx x idx data =
     Some (\<lparr>xd_addr = idx * ax_frame_size x, xd_len = length data\<rparr>,
           x\<lparr>ax_mem := take (idx * ax_frame_size x) (ax_mem x) @ data @
                       drop (idx * ax_frame_size x + length data) (ax_mem x)\<rparr>)"
  using assms by (simp add: umem_write_for_tx_def umem_frame_def frame_idx_to_addr_def Let_def)

lemma build_descs_ok:
  assumes "list_all packet_buf_ok ps" "PACKET_BUF_SIZE \<le> ax_frame_size x"
    and "length (ax_mem x) = ax_num_frames x * ax_frame_size x"
    and "\<forall>i \<in> set (ax_free x). i < ax_num_frames x" "distinct (ax_free x)"
    and "length ps \<le> length (ax_free x)"
  shows "\<exists>ds mem. build_descs x ps = Some (ds, x\<lparr>ax_free := drop (length ps) (ax_free x), ax_mem := mem\<rparr>) \<and>
     length mem = length (ax_mem x) \<and>
     map xd_addr ds = map (\<lambda>i. i * ax_frame_size x) (take (length ps) (ax_free x)) \<and>
     (\<forall>d \<in> set ds. in_frame x d) \<and> map (desc_bytes mem) ds = map valid_bytes ps \<and>
     (\<forall>d. no_frame_of x (take (length ps) (ax_free x)) d \<longrightarrow> desc_bytes mem d = desc_bytes (ax_mem x) d)"
  using assms
proof (induction ps arbitrary: x)
  case Nil
  then show ?case by (intro exI [of _ "[]"] exI [of _ "ax_mem x"]) simp
next
  case (Cons p ps)
  from Cons.prems(6) obtain idx free where free: "ax_free x = idx # free" by (cases "ax_free x") auto
  let ?fs = "ax_frame_size x" and ?b = "valid_bytes p"
  let ?mem = "take (idx * ?fs) (ax_mem x) @ ?b @ drop (idx * ?fs + length ?b) (ax_mem x)"
  let ?x = "x\<lparr>ax_free := free, ax_mem := ?mem\<rparr>"
  have p: "packet_buf_ok p" "length ?b \<le> ?fs"
    using Cons.prems(1,2) length_valid_bytes [of p] by (auto simp: packet_buf_ok_def)
  have fs: "0 < ?fs" using Cons.prems(2) PACKET_BUF_SIZE_pos by linarith
  have idx: "idx < ax_num_frames x" using Cons.prems(4) free by simp
  then have room: "Suc idx * ?fs \<le> length (ax_mem x)"
    unfolding Cons.prems(3) by (intro mult_right_mono) simp_all
  have stop: "idx * ?fs + length ?b \<le> Suc idx * ?fs" using p(2) by simp
  have mem_len: "length ?mem = length (ax_mem x)" using room stop by simp
  have "\<exists>ds mem. build_descs ?x ps = Some (ds, ?x\<lparr>ax_free := drop (length ps) (ax_free ?x), ax_mem := mem\<rparr>) \<and>
     length mem = length (ax_mem ?x) \<and>
     map xd_addr ds = map (\<lambda>i. i * ax_frame_size ?x) (take (length ps) (ax_free ?x)) \<and>
     (\<forall>d \<in> set ds. in_frame ?x d) \<and> map (desc_bytes mem) ds = map valid_bytes ps \<and>
     (\<forall>d. no_frame_of ?x (take (length ps) (ax_free ?x)) d \<longrightarrow> desc_bytes mem d = desc_bytes (ax_mem ?x) d)"
    using Cons.prems free mem_len by (intro Cons.IH) simp_all
  then obtain ds mem where ih:
    "build_descs ?x ps = Some (ds, x\<lparr>ax_free := drop (length ps) free, ax_mem := mem\<rparr>)"
    "length mem = length (ax_mem x)" "map xd_addr ds = map (\<lambda>i. i * ?fs) (take (length ps) free)"
    "\<forall>d \<in> set ds. in_frame x d" "map (desc_bytes mem) ds = map valid_bytes ps"
    and ih_kept: "\<And>d. no_frame_of x (take (length ps) free) d \<Longrightarrow> desc_bytes mem d = desc_bytes ?mem d"
    using mem_len by (auto simp: in_frame_def no_frame_of_def)
  let ?d = "\<lparr>xd_addr = idx * ?fs, xd_len = length ?b\<rparr>"
  have run: "build_descs x (p # ps) =
      Some (?d # ds, x\<lparr>ax_free := drop (length (p # ps)) (ax_free x), ax_mem := mem\<rparr>)"
    using free p idx ih(1) umem_write_ok [of idx "x\<lparr>ax_free := free\<rparr>" ?b] by simp
  have d_in: "in_frame x ?d" using p(2) by (simp add: in_frame_def)
  have "idx \<notin> set free" using Cons.prems(5) free by simp
  then have d_out: "no_frame_of x (take (length ps) free) ?d"
    using d_in fs by (auto simp: no_frame_of_def dest: in_set_takeD)
  have d_bytes: "desc_bytes mem ?d = ?b"
    unfolding ih_kept [OF d_out] using room by (intro desc_bytes_written) simp
  have kept: "desc_bytes mem d = desc_bytes (ax_mem x) d"
    if "no_frame_of x (take (length (p # ps)) (ax_free x)) d" for d
  proof -
    from that have "no_frame_of x (take (length ps) free) d" and d: "in_frame x d"
      and other: "xd_addr d div ?fs \<noteq> idx"
      by (auto simp: no_frame_of_def free)
    then show ?thesis
      using ih_kept other_frame_kept [OF d fs other le_refl stop room] by metis
  qed
  show ?case
    using run ih(2-5) d_in d_bytes kept free
    by (intro exI [of _ "?d # ds"] exI [of _ mem]) simp
qed

lemma drain_ok:
  assumes "af_xdp_ok x"
  defines "y \<equiv> drain_completions x"
  shows "ax_comp y = []" "ax_free y = ax_free x @ map (addr_to_frame_idx x) (ax_comp x)"
    "\<exists>comp free. y = x\<lparr>ax_comp := comp, ax_free := free\<rparr>"
    "mset (tx_frames y) = mset (tx_frames x)" "af_xdp_ok y"
proof -
  have room: "length (ax_comp x) \<le> ax_free_cap x - length (ax_free x)"
    using ok_tx_length [OF assms(1)] assms(1) [unfolded af_xdp_ok_def] by (elim conjE) linarith
  show "ax_comp y = []" "ax_free y = ax_free x @ map (addr_to_frame_idx x) (ax_comp x)"
    using room by (auto simp: y_def drain_completions_def Let_def addr_to_frame_idx_eq)
  moreover show "\<exists>comp free. y = x\<lparr>ax_comp := comp, ax_free := free\<rparr>"
  proof (cases "ax_free_cap x - length (ax_free x) = 0")
    case True
    then have "y = x\<lparr>ax_comp := ax_comp x, ax_free := ax_free x\<rparr>" by (simp add: y_def drain_completions_def Let_def)
    then show ?thesis by blast
  next
    case False
    then show ?thesis unfolding y_def drain_completions_def Let_def
      by (intro exI [of _ "drop (ax_free_cap x - length (ax_free x)) (ax_comp x)"]
            exI [of _ "ax_free x @ map (\<lambda>addr. addr div ax_frame_size x)
                         (take (ax_free_cap x - length (ax_free x)) (ax_comp x))"]) simp
  qed
  then obtain comp free where y: "y = x\<lparr>ax_comp := comp, ax_free := free\<rparr>" by blast
  ultimately show tx: "mset (tx_frames y) = mset (tx_frames x)"
    by (simp add: tx_frames_def addr_to_frame_idx_eq ac_simps)
  have "rx_frames y = rx_frames x" by (simp add: y rx_frames_def addr_to_frame_idx_eq)
  then show "af_xdp_ok y"
    using assms(1) tx by (auto simp: af_xdp_ok_def y in_frame_def)
qed

text \<open>
  A send takes what the TX ring accepts, in order. The frames of the packets it does not accept
  belong to nobody afterwards; with exactly two rings of frames that does not happen.
\<close>

definition lost_frames :: "af_xdp \<Rightarrow> nat" where
  "lost_frames x = ax_num_frames x - ax_ring_size x - length (tx_frames x)"

context ring_writer
begin

lemma mset_take_subset: "mset (take k xs) \<subseteq># mset xs"
  by (metis append_take_drop_id mset_append mset_subset_eq_add_left)

lemma busy_not_free:
  assumes "af_xdp_ok y" and "d \<in> set (ax_rx y) \<union> set (ax_tx y)"
  shows "no_frame_of y (take m (ax_free y)) d"
  using assms(2)
proof
  assume "d \<in> set (ax_rx y)"
  then show ?thesis using ok_rx_desc [OF assms(1), of d] ok_free [OF assms(1)]
    by (fastforce simp: no_frame_of_def dest: in_set_takeD)
next
  assume "d \<in> set (ax_tx y)"
  then show ?thesis using ok_tx_desc(1) [OF assms(1), of d] ok_tx_distinct [OF assms(1)]
    by (auto simp: no_frame_of_def tx_frames_def addr_to_frame_idx_eq dest: in_set_takeD)
qed

lemma build_from_free:
  assumes ok: "af_xdp_ok y" and bufs: "list_all packet_buf_ok bufs" and m: "length bufs \<le> length (ax_free y)"
  shows "\<exists>ds mem. build_descs y bufs = Some (ds, y\<lparr>ax_free := drop (length bufs) (ax_free y), ax_mem := mem\<rparr>) \<and>
     length mem = length (ax_mem y) \<and>
     map (addr_to_frame_idx y) (map xd_addr ds) = take (length bufs) (ax_free y) \<and>
     (\<forall>d \<in> set ds. in_frame y d) \<and> map (desc_bytes mem) ds = map valid_bytes bufs \<and>
     (\<forall>d \<in> set (ax_rx y) \<union> set (ax_tx y). desc_bytes mem d = desc_bytes (ax_mem y) d)"
proof -
  have "\<exists>ds mem. build_descs y bufs = Some (ds, y\<lparr>ax_free := drop (length bufs) (ax_free y), ax_mem := mem\<rparr>) \<and>
     length mem = length (ax_mem y) \<and>
     map xd_addr ds = map (\<lambda>i. i * ax_frame_size y) (take (length bufs) (ax_free y)) \<and>
     (\<forall>d \<in> set ds. in_frame y d) \<and> map (desc_bytes mem) ds = map valid_bytes bufs \<and>
     (\<forall>d. no_frame_of y (take (length bufs) (ax_free y)) d \<longrightarrow> desc_bytes mem d = desc_bytes (ax_mem y) d)"
  proof (rule build_descs_ok [OF bufs])
    show "PACKET_BUF_SIZE \<le> ax_frame_size y" "length (ax_mem y) = ax_num_frames y * ax_frame_size y"
      using ok by (simp_all add: af_xdp_ok_def)
    show "\<forall>i \<in> set (ax_free y). i < ax_num_frames y" using ok_free [OF ok] by blast
    show "distinct (ax_free y)" using ok_tx_distinct [OF ok] by (simp add: tx_frames_def)
  qed (rule m)
  then obtain ds mem where b:
    "build_descs y bufs = Some (ds, y\<lparr>ax_free := drop (length bufs) (ax_free y), ax_mem := mem\<rparr>)"
    "length mem = length (ax_mem y)"
    "map xd_addr ds = map (\<lambda>i. i * ax_frame_size y) (take (length bufs) (ax_free y))"
    "\<forall>d \<in> set ds. in_frame y d" "map (desc_bytes mem) ds = map valid_bytes bufs"
    "\<forall>d. no_frame_of y (take (length bufs) (ax_free y)) d \<longrightarrow> desc_bytes mem d = desc_bytes (ax_mem y) d"
    by blast
  have "map (addr_to_frame_idx y) (map xd_addr ds) = take (length bufs) (ax_free y)"
    unfolding b(3) using ok_frame_size [OF ok] by (simp add: addr_to_frame_idx_eq comp_def)
  with b busy_not_free [OF ok] show ?thesis by blast
qed

lemma send_frames:
  assumes comp: "ax_comp y = []" and tx: "ax_tx z = ax_tx y @ take n ds" "ax_comp z = []"
    and idx: "map (addr_to_frame_idx y) (map xd_addr ds) = take m (ax_free y)"
    and fs: "ax_frame_size z = ax_frame_size y" and free: "ax_free z = drop m (ax_free y)"
    and nm: "n \<le> m" "m \<le> length (ax_free y)"
  shows "mset (tx_frames z) \<subseteq># mset (tx_frames y)"
    and "length (tx_frames y) = length (tx_frames z) + (m - n)"
proof -
  have "map (addr_to_frame_idx y) (map xd_addr (take n ds)) = take n (take m (ax_free y))"
    using idx by (metis take_map)
  then have sent: "map (addr_to_frame_idx y) (map xd_addr (take n ds)) = take n (ax_free y)"
    using nm(1) by (simp add: min_def)
  have z: "tx_frames z = drop m (ax_free y) @ map (addr_to_frame_idx y) (map xd_addr (ax_tx y)) @ take n (ax_free y)"
    using sent by (simp add: tx fs free tx_frames_def addr_to_frame_idx_eq)
  have y: "tx_frames y = ax_free y @ map (addr_to_frame_idx y) (map xd_addr (ax_tx y))"
    using comp by (simp add: tx_frames_def)
  have "mset (take n (ax_free y)) \<subseteq># mset (take m (ax_free y))"
    using nm(1) mset_take_subset [of n "take m (ax_free y)"] by (simp add: min_def)
  then have "mset (drop m (ax_free y)) + mset (take n (ax_free y)) \<subseteq>#
      mset (drop m (ax_free y)) + mset (take m (ax_free y))"
    by (rule subset_mset.add_left_mono)
  also have "\<dots> = mset (ax_free y)" by (metis add.commute append_take_drop_id mset_append)
  finally show "mset (tx_frames z) \<subseteq># mset (tx_frames y)" unfolding z y by (simp add: ac_simps)
  show "length (tx_frames y) = length (tx_frames z) + (m - n)" unfolding z y using nm by simp
qed

lemma send_ok:
  assumes ok: "af_xdp_ok x" and bufs: "list_all packet_buf_ok bufs"
  defines "free \<equiv> length (ax_free x) + length (ax_comp x)"
  defines "n \<equiv> if bufs = [] \<or> free = 0 then 0
                else accept (ax_ring_size x - length (ax_tx x)) (min (length bufs) free)"
  shows "\<exists>x'. xdp_send_batch accept x bufs = Some (Inr n, x') \<and> af_xdp_ok x' \<and>
     xdp_pending x' = xdp_pending x \<and>
     xdp_outgoing x' = xdp_outgoing x @ map valid_bytes (take n bufs) \<and>
     ax_num_frames x' = ax_num_frames x \<and> ax_ring_size x' = ax_ring_size x \<and>
     length (tx_frames x) = length (tx_frames x') +
       (if bufs = [] \<or> free = 0 then 0 else min (length bufs) free - n)"
proof (cases "bufs = [] \<or> free = 0")
  case True
  obtain comp fr where y: "drain_completions x = x\<lparr>ax_comp := comp, ax_free := fr\<rparr>"
    using drain_ok(3) [OF ok] by blast
  have "xdp_send_batch accept x bufs = Some (Inr 0, if bufs = [] then x else drain_completions x)"
    using True drain_ok(2) [OF ok] by (auto simp: xdp_send_batch_def Let_def free_def)
  moreover have "length (tx_frames (drain_completions x)) = length (tx_frames x)"
    using drain_ok(4) [OF ok] by (metis size_mset)
  ultimately show ?thesis
    using True ok drain_ok(5) [OF ok] y
    by (cases "bufs = []") (auto simp: n_def xdp_pending_def xdp_outgoing_def)
next
  case False
  let ?y = "drain_completions x"
  obtain comp fr where y: "?y = x\<lparr>ax_comp := comp, ax_free := fr\<rparr>"
    using drain_ok(3) [OF ok] by blast
  have y_ok: "af_xdp_ok ?y" by (rule drain_ok(5) [OF ok])
  have comp: "ax_comp ?y = []" and free: "length (ax_free ?y) = free"
    using drain_ok(1,2) [OF ok] by (simp_all add: free_def)
  define m where "m = min (length bufs) free"
  have m: "m \<noteq> 0" "m \<le> length (ax_free ?y)" "length (take m bufs) = m"
    using False by (auto simp: m_def free)
  have n: "n = accept (ax_ring_size x - length (ax_tx x)) m" "n \<le> m"
    using False accept_le [of "ax_ring_size x - length (ax_tx x)" m] unfolding n_def m_def by simp_all
  have part: "list_all packet_buf_ok (take m bufs)" using bufs by (auto simp: list_all_iff dest: in_set_takeD)
  obtain ds mem where b:
    "build_descs ?y (take m bufs) = Some (ds, ?y\<lparr>ax_free := drop m (ax_free ?y), ax_mem := mem\<rparr>)"
    "length mem = length (ax_mem ?y)" "map (addr_to_frame_idx ?y) (map xd_addr ds) = take m (ax_free ?y)"
    "\<forall>d \<in> set ds. in_frame ?y d" "map (desc_bytes mem) ds = map valid_bytes (take m bufs)"
    and kept: "\<And>d. d \<in> set (ax_rx ?y) \<union> set (ax_tx ?y) \<Longrightarrow> desc_bytes mem d = desc_bytes (ax_mem ?y) d"
    using build_from_free [OF y_ok part] m(2) unfolding m(3) by blast
  have ds: "length ds = m" using arg_cong [OF b(3), of length] m by simp
  let ?z = "?y\<lparr>ax_free := drop m (ax_free ?y), ax_mem := mem, ax_tx := ax_tx x @ take n ds\<rparr>"
  define z where "z = (if ax_needs_wakeup ?z then ?z\<lparr>ax_wakes := ax_wakes ?z + 1\<rparr> else ?z)"
  have run: "xdp_send_batch accept x bufs = Some (Inr n, z)"
    using False free m b(1) n(1) by (simp add: xdp_send_batch_def Let_def m_def [symmetric] ds y z_def)
  have zf: "ax_rx z = ax_rx x" "ax_fill z = ax_fill x" "ax_tx z = ax_tx x @ take n ds" "ax_mem z = mem"
    "ax_num_frames z = ax_num_frames x" "ax_ring_size z = ax_ring_size x" "ax_free_cap z = ax_free_cap x"
    "ax_frame_size z = ax_frame_size x" "ax_free z = drop m (ax_free ?y)" "ax_comp z = comp"
    by (simp_all add: z_def y)
  have fr: "mset (tx_frames z) \<subseteq># mset (tx_frames ?y)"
    "length (tx_frames ?y) = length (tx_frames z) + (m - n)"
    using send_frames [of ?y z n ds m] comp n(2) m(2) b(3) by (simp_all only: zf) (simp_all add: y)
  have "mset (tx_frames z) \<subseteq># mset [ax_ring_size z..<ax_num_frames z]"
    using subset_mset.order_trans [OF fr(1)] y_ok by (simp add: af_xdp_ok_def zf) (simp add: y)
  moreover have "rx_frames z = rx_frames x" by (simp add: zf rx_frames_def addr_to_frame_idx_eq)
  ultimately have "af_xdp_ok z"
    using ok b(2,4) by (auto simp: af_xdp_ok_def zf y in_frame_def dest!: in_set_takeD)
  moreover have "xdp_pending z = xdp_pending x" using kept by (simp add: xdp_pending_def zf y)
  moreover have "map (desc_bytes mem) (take n ds) = map valid_bytes (take n bufs)"
    using arg_cong [OF b(5), of "take n"] n(2) by (simp add: take_map min_def)
  then have "xdp_outgoing z = xdp_outgoing x @ map valid_bytes (take n bufs)"
    using kept by (simp add: xdp_outgoing_def zf y)
  moreover have "length (tx_frames ?y) = length (tx_frames x)"
    using drain_ok(4) [OF ok] by (metis size_mset)
  ultimately show ?thesis using run False fr(2) by (intro exI [of _ z]) (simp add: zf m_def [symmetric])
qed

end

subsection \<open>The kernel's steps keep the invariant\<close>

lemma deliver_ok:
  assumes ok: "af_xdp_ok x" and d: "kernel_deliver packet headroom x = Some y"
  shows "af_xdp_ok y" "xdp_pending y = xdp_pending x @ [packet]" "xdp_outgoing y = xdp_outgoing x"
    "tx_frames y = tx_frames x" "ax_num_frames y = ax_num_frames x" "ax_ring_size y = ax_ring_size x"
proof -
  let ?fs = "ax_frame_size x"
  from d obtain a fill where fill: "ax_fill x = a # fill" by (auto simp: kernel_deliver_def split: list.splits)
  let ?d = "\<lparr>xd_addr = a + headroom, xd_len = length packet\<rparr>"
  let ?mem = "take (a + headroom) (ax_mem x) @ packet @ drop (a + headroom + length packet) (ax_mem x)"
  from d fill have room: "headroom + length packet \<le> ?fs" "headroom < ?fs"
    and y: "y = x\<lparr>ax_fill := fill, ax_mem := ?mem, ax_rx := ax_rx x @ [?d]\<rparr>"
    by (auto simp: kernel_deliver_def split: if_splits)
  have a: "a div ?fs * ?fs = a" using ok fill by (auto simp: af_xdp_ok_def)
  have frame: "(a + headroom) div ?fs = a div ?fs" "(a + headroom) mod ?fs = headroom"
    using room(2) a by (metis add.commute add.right_neutral div_less div_mult_self1 ok ok_frame_size not_gr_zero,
        metis add.commute mod_less mod_mult_self1)
  have "a div ?fs \<in> set (rx_frames x)" using fill by (simp add: rx_frames_def addr_to_frame_idx_eq)
  then have idx: "a div ?fs < ax_ring_size x" using ok by (simp add: ok_rx_set)
  then have "Suc (a div ?fs) * ?fs \<le> ax_num_frames x * ?fs"
    using ok by (intro mult_right_mono) (auto simp: af_xdp_ok_def)
  then have mem: "Suc (a div ?fs) * ?fs \<le> length (ax_mem x)" using ok by (simp add: af_xdp_ok_def)
  have stop: "a + headroom + length packet \<le> Suc (a div ?fs) * ?fs" using room(1) a by simp
  have start: "a div ?fs * ?fs \<le> a + headroom" using a by simp
  have kept: "desc_bytes ?mem e = desc_bytes (ax_mem x) e" if "in_frame x e" "xd_addr e div ?fs \<noteq> a div ?fs" for e
    by (rule other_frame_kept [OF that(1) ok_frame_size [OF ok] that(2) start stop mem])
  have rx: "desc_bytes ?mem e = desc_bytes (ax_mem x) e" if "e \<in> set (ax_rx x)" for e
    using kept [of e] ok_rx_desc(1) [OF ok that] ok_rx_distinct [OF ok] that fill
    by (force simp: rx_frames_def addr_to_frame_idx_eq)
  have tx: "desc_bytes ?mem e = desc_bytes (ax_mem x) e" if "e \<in> set (ax_tx x)" for e
    using kept [of e] ok_tx_desc [OF ok that] idx by simp
  have new: "desc_bytes ?mem ?d = packet" using mem stop by (intro desc_bytes_written) linarith
  show tx_y: "tx_frames y = tx_frames x" by (simp add: y tx_frames_def addr_to_frame_idx_eq)
  have "length ?mem = length (ax_mem x)" using mem stop by simp
  moreover have "mset (rx_frames y) = mset (rx_frames x)"
    using frame(1) by (simp add: y fill rx_frames_def addr_to_frame_idx_eq)
  ultimately show "af_xdp_ok y"
    using ok tx_y room(1) frame(2) by (auto simp: af_xdp_ok_def y fill in_frame_def)
  show "xdp_pending y = xdp_pending x @ [packet]" using rx new by (simp add: xdp_pending_def y)
  show "xdp_outgoing y = xdp_outgoing x" using tx by (simp add: xdp_outgoing_def y)
  show "ax_num_frames y = ax_num_frames x" "ax_ring_size y = ax_ring_size x" by (simp_all add: y)
qed

lemma transmit_ok:
  assumes ok: "af_xdp_ok x" and d: "kernel_transmit x = Some (packet, y)"
  shows "af_xdp_ok y" "xdp_pending y = xdp_pending x" "xdp_outgoing x = packet # xdp_outgoing y"
    "length (tx_frames y) = length (tx_frames x)"
    "ax_num_frames y = ax_num_frames x" "ax_ring_size y = ax_ring_size x"
proof -
  from d obtain e tx where tx: "ax_tx x = e # tx" by (auto simp: kernel_transmit_def split: list.splits)
  with d have y: "y = x\<lparr>ax_tx := tx, ax_comp := ax_comp x @ [xd_addr e]\<rparr>"
    and packet: "packet = desc_bytes (ax_mem x) e"
    by (auto simp: kernel_transmit_def split: if_splits)
  have "mset (tx_frames y) = mset (tx_frames x)" by (simp add: y tx tx_frames_def addr_to_frame_idx_eq)
  moreover have "rx_frames y = rx_frames x" by (simp add: y rx_frames_def addr_to_frame_idx_eq)
  ultimately show "af_xdp_ok y" using ok by (auto simp: af_xdp_ok_def y tx in_frame_def)
  from \<open>mset (tx_frames y) = mset (tx_frames x)\<close> show "length (tx_frames y) = length (tx_frames x)"
    by (metis size_mset)
  show "xdp_pending y = xdp_pending x" "xdp_outgoing x = packet # xdp_outgoing y"
    "ax_num_frames y = ax_num_frames x" "ax_ring_size y = ax_ring_size x"
    by (simp_all add: xdp_pending_def xdp_outgoing_def y tx packet)
qed

subsection \<open>The socket and the kernel together\<close>

inductive xdp_step :: "(nat \<Rightarrow> nat \<Rightarrow> nat) \<Rightarrow> af_xdp \<Rightarrow> af_xdp \<Rightarrow> bool" for accept where
  receive: "list_all packet_buf_ok bufs \<Longrightarrow> xdp_recv_batch accept x bufs = Some (r, bufs', y) \<Longrightarrow>
     xdp_step accept x y"
| send: "list_all packet_buf_ok bufs \<Longrightarrow> xdp_send_batch accept x bufs = Some (s, y) \<Longrightarrow> xdp_step accept x y"
| deliver: "kernel_deliver packet headroom x = Some y \<Longrightarrow> xdp_step accept x y"
| transmit: "kernel_transmit x = Some (packet, y) \<Longrightarrow> xdp_step accept x y"
| wakeup: "xdp_step accept x (x\<lparr>ax_needs_wakeup := flag\<rparr>)"

lemma wakeup_ok [simp]:
  "af_xdp_ok (x\<lparr>ax_needs_wakeup := flag\<rparr>) = af_xdp_ok x"
  "tx_frames (x\<lparr>ax_needs_wakeup := flag\<rparr>) = tx_frames x"
  by (simp_all add: af_xdp_ok_def frames_defs)

context ring_writer
begin

lemma step_ok:
  assumes "xdp_step accept x y" "af_xdp_ok x"
  shows "af_xdp_ok y \<and> ax_num_frames y = ax_num_frames x \<and> ax_ring_size y = ax_ring_size x \<and>
     (ax_num_frames x = 2 * ax_ring_size x \<longrightarrow> length (tx_frames y) = length (tx_frames x))"
  using assms(1)
proof (cases rule: xdp_step.cases)
  case (receive bufs r bufs')
  with recv_ok [OF assms(2) receive(1)] show ?thesis by auto
next
  case (send bufs s)
  let ?free = "length (ax_free x) + length (ax_comp x)"
  have all: "accept (ax_ring_size x - length (ax_tx x)) (min (length bufs) ?free) = min (length bufs) ?free"
    if "ax_num_frames x = 2 * ax_ring_size x"
    using ok_tx_length [OF assms(2)] that by (intro accept_all) linarith
  from send_ok [OF assms(2) send(1)] send(2) all show ?thesis by (auto split: if_splits)
next
  case (deliver packet headroom)
  with deliver_ok [OF assms(2)] show ?thesis by simp
next
  case (transmit packet)
  with transmit_ok [OF assms(2)] show ?thesis by simp
next
  case (wakeup flag)
  with assms(2) show ?thesis by simp
qed

lemma steps_ok:
  assumes "(xdp_step accept)\<^sup>*\<^sup>* x y" "af_xdp_ok x"
  shows "af_xdp_ok y \<and> ax_num_frames y = ax_num_frames x \<and> ax_ring_size y = ax_ring_size x \<and>
     (ax_num_frames x = 2 * ax_ring_size x \<longrightarrow> length (tx_frames y) = length (tx_frames x))"
  using assms
proof (induction rule: rtranclp_induct)
  case (step y z)
  then show ?case using step_ok [of y z] by auto
qed simp

lemma init_ok:
  assumes c: "check_config c = None" and small: "2 * unat (xc_ring_size c) < 2 ^ 32"
    and mem: "length mem = unat (xc_num_frames c) * unat (xc_frame_size c)"
  shows "af_xdp_ok (af_xdp_init accept c mem)"
    "tx_frames (af_xdp_init accept c mem) = [unat (xc_ring_size c)..<unat (xc_num_frames c)]"
proof -
  let ?n = "unat (xc_num_frames c)" and ?r = "unat (xc_ring_size c)" and ?fs = "unat (xc_frame_size c)"
  from c have frame: "\<not> xc_frame_size c < word_of_nat PACKET_BUF_SIZE"
    and num: "\<not> xc_num_frames c < 2 * xc_ring_size c"
    by (auto simp: check_config_def split: if_splits)
  have fs: "PACKET_BUF_SIZE \<le> ?fs"
    using frame by (simp add: PACKET_BUF_SIZE_def word_less_nat_alt)
  then have pos: "0 < ?fs" using PACKET_BUF_SIZE_pos by linarith
  have r: "2 * ?r \<le> ?n"
    using num small by (simp add: word_less_nat_alt unat_word_ariths)
  then have cap: "unat (xc_num_frames c - xc_ring_size c) = ?n - ?r"
    by (intro unat_sub) (simp add: word_le_nat_alt)
  have map_id: "map (\<lambda>i. i * ?fs div ?fs) [0..<k] = [0..<k]" for k using pos by (simp add: map_idI)
  show tx: "tx_frames (af_xdp_init accept c mem) = [?r..<?n]"
    by (simp add: af_xdp_init_def tx_frames_def Let_def)
  have "rx_frames (af_xdp_init accept c mem) = [0..<?r]"
    using map_id by (simp add: af_xdp_init_def rx_frames_def addr_to_frame_idx_eq accept_all comp_def Let_def)
  then show "af_xdp_ok (af_xdp_init accept c mem)"
    using fs r mem cap tx
    by (auto simp: af_xdp_ok_def) (auto simp: af_xdp_init_def Let_def accept_all)
qed

end

subsection \<open>The backend meets the contract of PacketIo\<close>

text \<open>A panic of the receive, which the invariant excludes, is shown to the client as an error.\<close>

definition xdp_recv ::
  "(nat \<Rightarrow> nat \<Rightarrow> nat) \<Rightarrow> af_xdp \<Rightarrow> packet_buf list \<Rightarrow> (io_error + nat) \<times> packet_buf list \<times> af_xdp" where
  "xdp_recv accept x bufs =
     (case xdp_recv_batch accept x bufs of Some r \<Rightarrow> r | None \<Rightarrow> (Inl ''panic'', bufs, x))"

definition xdp_ready :: "af_xdp \<Rightarrow> packet_buf list \<Rightarrow> bool" where
  "xdp_ready x bufs \<longleftrightarrow>
     list_all (\<lambda>p. 0 < pkt_len p) bufs \<and> length bufs \<le> length (ax_free x) + length (ax_comp x) \<and>
     length bufs \<le> ax_ring_size x - length (ax_tx x)"

sublocale ring_writer \<subseteq> xdp: packet_io "xdp_recv accept" "xdp_send_batch accept"
  xdp_pending xdp_outgoing xdp_ready af_xdp_ok
proof
  fix x x' :: af_xdp and bufs bufs' and r :: "io_error + nat"
  assume "af_xdp_ok x" "list_all packet_buf_ok bufs" "xdp_recv accept x bufs = (r, bufs', x')"
  with recv_ok [of x bufs]
  show "af_xdp_ok x' \<and> length bufs' = length bufs \<and> list_all packet_buf_ok bufs' \<and>
      xdp_outgoing x' = xdp_outgoing x"
    by (auto simp: xdp_recv_def)
next
  fix x x' :: af_xdp and bufs bufs' n
  assume "af_xdp_ok x" "list_all packet_buf_ok bufs" "xdp_recv accept x bufs = (Inr n, bufs', x')"
  with recv_ok [of x bufs]
  show "n = min (length bufs) (length (xdp_pending x)) \<and>
      map valid_bytes (take n bufs') = map (take PACKET_BUF_SIZE) (take n (xdp_pending x)) \<and>
      xdp_pending x' = drop n (xdp_pending x)"
    by (auto simp: xdp_recv_def) (auto simp: xdp_pending_def)
next
  fix x :: af_xdp and bufs
  assume "af_xdp_ok x" "list_all packet_buf_ok bufs" and ready: "xdp_ready x bufs"
  moreover have "filter (\<lambda>p. 0 < pkt_len p) bufs = bufs"
    using ready by (auto simp: xdp_ready_def list_all_iff filter_id_conv)
  ultimately show "\<exists>n x'. xdp_send_batch accept x bufs = Some (Inr n, x') \<and> af_xdp_ok x' \<and>
      xdp_pending x' = xdp_pending x \<and>
      xdp_outgoing x' = xdp_outgoing x @ map valid_bytes (filter (\<lambda>p. 0 < pkt_len p) bufs)"
    using send_ok [of x bufs] by (auto simp: xdp_ready_def accept_all split: if_splits)
qed

text \<open>Two ring writers that meet the contract: one takes what fits, the other all or nothing.\<close>

interpretation partial_writer: ring_writer min
  by unfold_locales auto

interpretation whole_writer: ring_writer "\<lambda>room n. if n \<le> room then n else 0"
  by unfold_locales auto

subsection \<open>Properties\<close>

lemma new_init: "af_xdp_new accept c s = Inr x \<Longrightarrow>
    \<exists>mem. check_config c = None \<and> xs_alloc s = Inr mem \<and> x = af_xdp_init accept c mem"
  by (auto simp: af_xdp_new_def split: option.splits sum.splits)

context ring_writer
begin

lemma new_ok:
  assumes "af_xdp_new accept c s = Inr x" "2 * unat (xc_ring_size c) < 2 ^ 32"
    and "\<And>mem. xs_alloc s = Inr mem \<Longrightarrow> length mem = unat (xc_num_frames c) * unat (xc_frame_size c)"
  shows "af_xdp_ok x \<and> tx_frames x = [unat (xc_ring_size c)..<unat (xc_num_frames c)] \<and>
     ax_num_frames x = unat (xc_num_frames c) \<and> ax_ring_size x = unat (xc_ring_size c)"
proof -
  from new_init [OF assms(1)] obtain mem where "check_config c = None" "xs_alloc s = Inr mem"
    and x: "x = af_xdp_init accept c mem" by blast
  with assms(2,3) init_ok [of c mem] show ?thesis by (simp add: af_xdp_init_def Let_def)
qed

end

text \<open>
  C22. A frame of the UMEM has at most one owner. From a socket that \<^verbatim>\<open>new\<close> accepted, under
  every interleaving of receives and sends with the kernel's deliveries, transmissions and changes of
  the wake-up flag: every RX frame is on exactly one of FILL and RX; a TX frame is on at most one of
  the free list, TX and COMPLETION; with two rings of frames (the default configuration) no TX frame
  is ever lost; and neither receiving nor sending panics.
\<close>

theorem xdp_frames_have_one_owner:
  assumes "ring_writer accept" "af_xdp_new accept c s = Inr x"
    and "2 * unat (xc_ring_size c) < 2 ^ 32"
    and "\<And>mem. xs_alloc s = Inr mem \<Longrightarrow> length mem = unat (xc_num_frames c) * unat (xc_frame_size c)"
    and "(xdp_step accept)\<^sup>*\<^sup>* x y" "list_all packet_buf_ok bufs"
  defines "r \<equiv> unat (xc_ring_size c)" and "n \<equiv> unat (xc_num_frames c)"
  shows "distinct (rx_frames y) \<and> set (rx_frames y) = {..<r} \<and>
     distinct (tx_frames y) \<and> set (tx_frames y) \<subseteq> {r..<n} \<and>
     (n = 2 * r \<longrightarrow> set (tx_frames y) = {r..<n}) \<and>
     xdp_recv_batch accept y bufs \<noteq> None \<and> xdp_send_batch accept y bufs \<noteq> None"
proof -
  note new = ring_writer.new_ok [OF assms(1-4)]
  then have "af_xdp_ok x" by blast
  from ring_writer.steps_ok [OF assms(1,5) this] new
  have y: "af_xdp_ok y" "ax_num_frames y = n" "ax_ring_size y = r"
    and all: "n = 2 * r \<longrightarrow> length (tx_frames y) = n - r"
    by (auto simp: r_def n_def)
  have sub: "set (tx_frames y) \<subseteq> {r..<n}" using ok_tx_set [OF y(1)] y by simp
  have "set (tx_frames y) = {r..<n}" if "n = 2 * r"
    using that all sub ok_tx_distinct [OF y(1)] by (intro card_subset_eq) (auto simp: distinct_card)
  then show ?thesis
    using y sub ok_rx_distinct ok_rx_set ok_tx_distinct
      ring_writer.recv_ok [OF assms(1) y(1) assms(6)] ring_writer.send_ok [OF assms(1) y(1) assms(6)]
    by auto
qed

text \<open>A socket with one RX and one TX frame; a packet is delivered, received, and sent back.\<close>

definition ex_config :: af_xdp_config where
  "ex_config = af_xdp_config_default\<lparr>xc_num_frames := 2, xc_ring_size := 1\<rparr>"

definition ex_setup :: xdp_setup where
  "ex_setup = \<lparr>xs_alloc = Inr (replicate 4096 0), xs_umem = None, xs_ifinfo = None, xs_socket = None,
     xs_fq_cq = None, xs_rx_tx = None, xs_map_rx = None, xs_map_tx = None, xs_bind = None, xs_fd = 7,
     xs_obj_get = (\<lambda>_. Inr 5), xs_map_update = (\<lambda>_ _ _. None)\<rparr>"

lemma ex_check: "check_config ex_config = None"
  by (simp add: check_config_def ex_config_def af_xdp_config_default_def DEFAULT_FRAME_SIZE_def
      PACKET_BUF_SIZE_def is_power_of_two_def)

lemma ex_new: "af_xdp_new accept ex_config ex_setup = Inr (af_xdp_init accept ex_config (replicate 4096 0))"
proof -
  have "socket_error ex_config ex_setup = None"
    by (simp add: socket_error_def ex_setup_def ex_config_def af_xdp_config_default_def has_nul_def)
  moreover have "register_in_xskmap ex_config ex_setup = None"
    by (simp add: register_in_xskmap_def register_xsk_def ex_setup_def ex_config_def
        af_xdp_config_default_def has_nul_def)
  moreover have "xs_alloc ex_setup = Inr (replicate 4096 0)" by (simp add: ex_setup_def)
  ultimately show ?thesis by (simp add: af_xdp_new_def ex_check)
qed

lemma ex_mem: "xs_alloc ex_setup = Inr mem \<Longrightarrow>
    length mem = unat (xc_num_frames ex_config) * unat (xc_frame_size ex_config)"
  by (auto simp: ex_setup_def ex_config_def af_xdp_config_default_def DEFAULT_FRAME_SIZE_def)

definition ex_socket :: af_xdp where
  "ex_socket = af_xdp_init min ex_config (replicate 4096 0)"

lemma ex_ring: "unat (xc_ring_size ex_config) = 1" "unat (xc_num_frames ex_config) = 2"
  by (simp_all add: ex_config_def)

lemma ex_deliver: "\<exists>y. kernel_deliver [1, 2, 3] 0 ex_socket = Some y"
  by (simp add: kernel_deliver_def ex_socket_def af_xdp_init_def ex_config_def Let_def
      af_xdp_config_default_def DEFAULT_FRAME_SIZE_def)

theorem xdp_frames_have_one_owner_witness:
  "\<exists>y. (xdp_step min)\<^sup>*\<^sup>* ex_socket y \<and> xdp_pending y = [[1, 2, 3]] \<and>
     rx_frames y = [0] \<and> set (tx_frames y) = {1} \<and> xdp_send_batch min y [from_slice [4, 5]] \<noteq> None"
proof -
  obtain y where y: "kernel_deliver [1, 2, 3] 0 ex_socket = Some y" using ex_deliver by blast
  then have run: "(xdp_step min)\<^sup>*\<^sup>* ex_socket y" by (blast intro: xdp_step.deliver)
  have new: "af_xdp_new min ex_config ex_setup = Inr ex_socket" by (simp add: ex_new ex_socket_def)
  have "distinct (rx_frames y) \<and> set (rx_frames y) = {..<1} \<and>
     distinct (tx_frames y) \<and> set (tx_frames y) \<subseteq> {1..<2} \<and>
     (2 = 2 * (1 :: nat) \<longrightarrow> set (tx_frames y) = {1..<2}) \<and>
     xdp_recv_batch min y [from_slice [4, 5]] \<noteq> None \<and> xdp_send_batch min y [from_slice [4, 5]] \<noteq> None"
    using xdp_frames_have_one_owner [OF partial_writer.ring_writer_axioms new _ ex_mem run,
        of "[from_slice [4, 5]]"] unfolding ex_ring by simp
  moreover have "xdp_pending y = [[1, 2, 3]] \<and> rx_frames y = [0]"
    using y by (auto simp: kernel_deliver_def ex_socket_def af_xdp_init_def ex_config_def Let_def
        af_xdp_config_default_def DEFAULT_FRAME_SIZE_def xdp_pending_def desc_bytes_def rx_frames_def
        addr_to_frame_idx_eq)
  moreover have "{1..<2} = {1 :: nat}" by auto
  ultimately show ?thesis using run by auto
qed

text \<open>
  With more than two rings of frames a send takes a frame for each packet, also for those the TX ring
  then refuses; nothing gives these frames back.
\<close>

lemma xdp_send_loses_frames:
  assumes w: "ring_writer accept" and new: "af_xdp_new accept c s = Inr x"
    and small: "2 * unat (xc_ring_size c) < 2 ^ 32"
    and mem: "\<And>mem. xs_alloc s = Inr mem \<Longrightarrow>
        length mem = unat (xc_num_frames c) * unat (xc_frame_size c)"
    and bufs: "list_all packet_buf_ok bufs" "bufs \<noteq> []"
  defines "r \<equiv> unat (xc_ring_size c)" and "n \<equiv> unat (xc_num_frames c)"
  shows "\<exists>k y. xdp_send_batch accept x bufs = Some (Inr k, y) \<and>
     min (length bufs) (n - r) - r \<le> lost_frames y"
proof -
  from ring_writer.new_ok [OF w new small mem] have x: "af_xdp_ok x" "tx_frames x = [r..<n]"
    "ax_num_frames x = n" "ax_ring_size x = r" by (simp_all add: r_def n_def)
  from new_init [OF new] have e: "ax_tx x = []" "ax_comp x = []" by (auto simp: af_xdp_init_def Let_def)
  then have free: "length (ax_free x) = n - r"
    using arg_cong [OF x(2), of length] by (simp add: tx_frames_def)
  show ?thesis
    using ring_writer.send_ok [OF w x(1) bufs(1)] x e free bufs(2)
      ring_writer.accept_room [OF w, of r "min (length bufs) (n - r)"]
    by (fastforce simp: lost_frames_def split: if_splits)
qed

text \<open>
  C23. A socket refines two FIFO queues: the packets received and not yet read, and those accepted
  and not yet on the wire. Reading takes the first packets, cut to the buffer size; sending appends
  a prefix of the batch, the length of which it returns; a delivery appends a packet and a
  transmission takes the first one, each with its bytes intact although all four work on one memory.
\<close>

theorem xdp_refines_queues:
  assumes "ring_writer accept" "af_xdp_ok x" "list_all packet_buf_ok bufs"
  shows "(\<exists>n bufs' y. xdp_recv_batch accept x bufs = Some (Inr n, bufs', y) \<and>
        n = min (length bufs) (length (xdp_pending x)) \<and>
        map valid_bytes (take n bufs') = map (take PACKET_BUF_SIZE) (take n (xdp_pending x)) \<and>
        xdp_pending y = drop n (xdp_pending x) \<and> xdp_outgoing y = xdp_outgoing x) \<and>
     (\<exists>n y. xdp_send_batch accept x bufs = Some (Inr n, y) \<and> n \<le> length bufs \<and>
        xdp_pending y = xdp_pending x \<and>
        xdp_outgoing y = xdp_outgoing x @ map valid_bytes (take n bufs)) \<and>
     (kernel_deliver packet headroom x = Some y \<longrightarrow>
        xdp_pending y = xdp_pending x @ [packet] \<and> xdp_outgoing y = xdp_outgoing x) \<and>
     (kernel_transmit x = Some (sent, z) \<longrightarrow>
        xdp_pending z = xdp_pending x \<and> xdp_outgoing x = sent # xdp_outgoing z)"
proof (intro conjI impI)
  show "\<exists>n bufs' y. xdp_recv_batch accept x bufs = Some (Inr n, bufs', y) \<and>
        n = min (length bufs) (length (xdp_pending x)) \<and>
        map valid_bytes (take n bufs') = map (take PACKET_BUF_SIZE) (take n (xdp_pending x)) \<and>
        xdp_pending y = drop n (xdp_pending x) \<and> xdp_outgoing y = xdp_outgoing x"
    using ring_writer.recv_ok [OF assms] by (fastforce simp: xdp_pending_def)
  let ?free = "length (ax_free x) + length (ax_comp x)"
  let ?n = "if bufs = [] \<or> ?free = 0 then 0
            else accept (ax_ring_size x - length (ax_tx x)) (min (length bufs) ?free)"
  have n: "?n \<le> length bufs"
    using ring_writer.accept_le [OF assms(1)] by (auto intro: order_trans [OF _ min.cobounded1])
  from ring_writer.send_ok [OF assms] obtain y where "xdp_send_batch accept x bufs = Some (Inr ?n, y)"
    "xdp_pending y = xdp_pending x" "xdp_outgoing y = xdp_outgoing x @ map valid_bytes (take ?n bufs)" by blast
  with n
  show "\<exists>n y. xdp_send_batch accept x bufs = Some (Inr n, y) \<and> n \<le> length bufs \<and>
        xdp_pending y = xdp_pending x \<and> xdp_outgoing y = xdp_outgoing x @ map valid_bytes (take n bufs)"
    by blast
next
  assume d: "kernel_deliver packet headroom x = Some y"
  show "xdp_pending y = xdp_pending x @ [packet]" by (rule deliver_ok(2) [OF assms(2) d])
  show "xdp_outgoing y = xdp_outgoing x" by (rule deliver_ok(3) [OF assms(2) d])
next
  assume t: "kernel_transmit x = Some (sent, z)"
  show "xdp_pending z = xdp_pending x" by (rule transmit_ok(2) [OF assms(2) t])
  show "xdp_outgoing x = sent # xdp_outgoing z" by (rule transmit_ok(3) [OF assms(2) t])
qed

theorem xdp_refines_queues_witness:
  "\<exists>n y. xdp_send_batch min ex_socket [from_slice [4, 5]] = Some (Inr n, y) \<and>
     xdp_outgoing y = take n [[4, 5]]"
proof -
  have new: "af_xdp_new min ex_config ex_setup = Inr ex_socket" by (simp add: ex_new ex_socket_def)
  have "af_xdp_ok ex_socket"
    using partial_writer.new_ok [OF new _ ex_mem] by (simp add: ex_ring)
  from xdp_refines_queues [OF partial_writer.ring_writer_axioms this, of "[from_slice [4, 5]]",
      THEN conjunct2, THEN conjunct1]
  obtain n y where "xdp_send_batch min ex_socket [from_slice [4, 5]] = Some (Inr n, y)"
    and "xdp_outgoing y = xdp_outgoing ex_socket @ map valid_bytes (take n [from_slice [4, 5]])" by auto
  moreover have "xdp_outgoing ex_socket = []"
    by (simp add: xdp_outgoing_def ex_socket_def af_xdp_init_def Let_def)
  moreover have "map valid_bytes (take n [from_slice [4, 5]]) = take n [[4, 5]]"
    by (cases n) (simp_all add: PACKET_BUF_SIZE_def)
  ultimately show ?thesis by auto
qed

end
