(* ===== verification/Node.thy ===== *)
theory Node
  imports Controller Engine Tracer AfXdp
begin

text \<open>
  The node binary (crate lb-node): the start of the process up to the moment it serves (main.rs),
  the handlers of the operations server (ops_server.rs) and the pump that turns BGP events into
  metrics and re-announcements.

  What the process reads from the outside is the record \<open>boot_io\<close>: the contents of the two
  configuration files, the parsers of serde, the permission bits, the outcomes of the watcher's
  and the sockets' system calls. Logging, argument parsing (clap), HTTP (axum) and the tokio
  runtime are not modelled; neither is the Prometheus text.
\<close>

definition DEFAULT_TABLE_SIZE :: nat where "DEFAULT_TABLE_SIZE = 65537"

lemma is_prime_bound:
  assumes "1 < m" "int m < (k + 1) * (k + 1)" "0 \<le> k" "list_all (\<lambda>d. int m mod d \<noteq> 0) [2..k]"
  shows "is_prime m"
  unfolding is_prime_def
proof (intro conjI allI impI notI)
  fix d assume d: "d < m" "1 < d" "m mod d = 0"
  then obtain e where e: "m = d * e" by auto
  have e1: "1 < e"
  proof (rule ccontr)
    assume "\<not> 1 < e"
    then have "e = 0 \<or> e = 1" by auto
    with d e show False by auto
  qed
  have no: "k < int f" if "1 < f" "f dvd m" for f
  proof (rule ccontr)
    assume "\<not> k < int f"
    with that(1) have "int f \<in> set [2..k]" by simp
    with assms(4) have "int m mod int f \<noteq> 0" by (simp add: list_all_iff)
    moreover from that(2) have "int f dvd int m" by simp
    ultimately show False by simp
  qed
  have "k + 1 \<le> int d" "k + 1 \<le> int e" using no [of d] no [of e] d e e1 by auto
  then have "(k + 1) * (k + 1) \<le> int d * int e" using assms(3) by (intro mult_mono) simp_all
  with assms(2) e show False by simp
qed (rule assms(1))

lemma DEFAULT_TABLE_SIZE_ok: "is_prime DEFAULT_TABLE_SIZE" "DEFAULT_TABLE_SIZE < 2 ^ 32"
  unfolding DEFAULT_TABLE_SIZE_def by (rule is_prime_bound [of _ 256]) simp_all

subsection \<open>The initial tables (build_vip_matcher, apply_lb_config)\<close>

definition vip_entries :: "vip \<Rightarrow> (ip_addr \<times> protocol \<times> u16 \<times> backend_pool_id) list" where
  "vip_entries v =
     map (\<lambda>svc. (vip_address v, svc_protocol svc, svc_port svc, svc_backend_pool svc)) (vip_services v)"

definition build_vip_matcher :: "lb_config \<Rightarrow> vip_matcher" where
  "build_vip_matcher config = matcher_from_entries (concat (map vip_entries (lc_vips config)))"

fun boot_tables ::
    "(u8 list \<Rightarrow> u64 \<Rightarrow> u64) \<Rightarrow> backend_pool list \<Rightarrow> lookup_tables \<Rightarrow> lookup_tables panics" where
  "boot_tables xxh3 [] new_map = Some new_map"
| "boot_tables xxh3 (pool # pools) new_map =
     (if pool_backends pool = [] then boot_tables xxh3 pools new_map
      else do {
        t \<leftarrow> build_table xxh3 (pool_backends pool) DEFAULT_TABLE_SIZE;
        boot_tables xxh3 pools
          (case t of Inr table \<Rightarrow> new_map(pool_id pool \<mapsto> table) | Inl _ \<Rightarrow> new_map)
      })"

definition apply_lb_config ::
    "(u8 list \<Rightarrow> u64 \<Rightarrow> u64) \<Rightarrow> lb_config \<Rightarrow> (lookup_tables \<times> vip_matcher) panics" where
  "apply_lb_config xxh3 config = do {
     new_map \<leftarrow> boot_tables xxh3 (lc_pools config) Map.empty;
     Some (new_map, build_vip_matcher config)
   }"

subsection \<open>Permissions of the node configuration\<close>

text \<open>Whether the start goes on; \<open>stat\<close> is the mode of the file or the error of the call.\<close>

definition check_node_config_perms :: "string + u32 \<Rightarrow> node_config \<Rightarrow> bool" where
  "check_node_config_perms stat config =
     (if \<not> list_ex (\<lambda>p. bp_md5_password p \<noteq> None) (bgp_peers (nc_bgp config)) then True
      else case stat of
        Inl _ \<Rightarrow> False
      | Inr st_mode \<Rightarrow> (let mode = st_mode AND 0x1FF in mode AND 0x3F = 0))"

text \<open>The nine permission bits of a file: those of the owner, of the group and of others.\<close>

definition perm_bits :: "u32 \<Rightarrow> bool list" where
  "perm_bits mode = map (bit mode) [8, 7, 6, 5, 4, 3, 2, 1, 0]"

lemma low_six_bits:
  "(\<forall>i < 6. \<not> P i) \<longleftrightarrow> drop 3 (map P [8, 7, 6, 5, 4, 3, 2, 1, 0 :: nat]) = replicate 6 False"
proof -
  have "replicate 6 False = [False, False, False, False, False, False]" by (simp add: numeral_eq_Suc)
  moreover have "{..<6 :: nat} = {0, 1, 2, 3, 4, 5}"
    by (simp add: lessThan_nat_numeral lessThan_Suc insert_commute)
  then have "(\<forall>i < 6. \<not> P i) \<longleftrightarrow> (\<forall>i \<in> {0, 1, 2, 3, 4, 5}. \<not> P i)" by (metis lessThan_iff)
  ultimately show ?thesis by auto
qed

lemma group_other_bits:
  "((mode :: u32) AND 0x1FF) AND 0x3F = 0 \<longleftrightarrow> drop 3 (perm_bits mode) = replicate 6 False"
proof -
  have m: "(0x1FF :: u32) AND 0x3F = mask 6" by (simp add: mask_eq_decr_exp)
  have "(mode AND 0x1FF) AND 0x3F = take_bit 6 mode"
    unfolding and.assoc m by (simp add: take_bit_eq_mask)
  moreover have "take_bit 6 mode = 0 \<longleftrightarrow> (\<forall>i < 6. \<not> bit mode i)"
    by (auto simp: bit_eq_iff bit_take_bit_iff)
  ultimately show ?thesis unfolding perm_bits_def by (simp only: low_six_bits)
qed

lemma perms_checked:
  "check_node_config_perms stat config \<longleftrightarrow>
     (\<forall>p \<in> set (bgp_peers (nc_bgp config)). bp_md5_password p = None) \<or>
     (\<exists>mode. stat = Inr mode \<and> drop 3 (perm_bits mode) = replicate 6 False)"
  unfolding check_node_config_perms_def Let_def group_other_bits list_ex_iff
  by (cases stat) auto

subsection \<open>The configuration of the forwarder\<close>

definition affinity_of :: "cpu_affinity_config \<Rightarrow> cpu_affinity" where
  "affinity_of c =
     \<lparr>aff_steering = ca_steering c, aff_rewriters = ca_rewriters c, aff_muxer = ca_muxer c\<rparr>"

definition forwarder_config_of :: "node_config \<Rightarrow> mtu_config \<Rightarrow> forwarder_config" where
  "forwarder_config_of config mtu =
     \<lparr>fc_src_ip = ns_loopback_ip (nc_node config),
      fc_connection_table_size = fs_connection_table_size (nc_forwarder config),
      fc_conn_ttls = resolved_conn_ttls (nc_forwarder config),
      fc_fragment_table_size = fs_fragment_table_size (nc_forwarder config),
      fc_fragment_ttl = fs_fragment_ttl (nc_forwarder config),
      fc_batch_size = fs_batch_size (nc_forwarder config),
      fc_mtu_config = mtu,
      fc_icmp_rate_limit = fs_icmp_rate_limit (nc_forwarder config),
      fc_cpu_affinity = map_option affinity_of (ns_cpu_affinity (nc_node config))\<rparr>"

subsection \<open>The metrics of the BGP sessions (controller_metrics.rs)\<close>

text \<open>A family maps labels to its members, which are created when they are first used.\<close>

record bgp_metrics =
  bm_peer_state :: "string \<rightharpoonup> int"
  bm_peer_connects :: "string \<rightharpoonup> u64"
  bm_peer_disconnects :: "string \<rightharpoonup> u64"
  bm_announce_failures :: "string \<rightharpoonup> u64"
  bm_withdraw_failures :: "string \<rightharpoonup> u64"
  bm_vips_announced :: int
  bm_peer_notifications :: "string \<times> u8 \<times> u8 \<rightharpoonup> u64"

record controller_metrics =
  cm_bgp_state :: int
  cm_config_last_reload_timestamp :: int
  cm_config_reload_errors :: u64
  cm_bgp :: bgp_metrics

definition bgp_metrics_new :: bgp_metrics where
  "bgp_metrics_new = \<lparr>bm_peer_state = Map.empty, bm_peer_connects = Map.empty,
     bm_peer_disconnects = Map.empty, bm_announce_failures = Map.empty,
     bm_withdraw_failures = Map.empty, bm_vips_announced = 0, bm_peer_notifications = Map.empty\<rparr>"

definition controller_metrics_new :: controller_metrics where
  "controller_metrics_new = \<lparr>cm_bgp_state = 0, cm_config_last_reload_timestamp = 0,
     cm_config_reload_errors = 0, cm_bgp = bgp_metrics_new\<rparr>"

definition member :: "('k \<rightharpoonup> 'n :: zero) \<Rightarrow> 'k \<Rightarrow> 'n" where
  "member family k = (case family k of Some n \<Rightarrow> n | None \<Rightarrow> 0)"

definition inc :: "'k \<Rightarrow> ('k \<rightharpoonup> u64) \<Rightarrow> ('k \<rightharpoonup> u64)" where
  "inc k family = family(k \<mapsto> member family k + 1)"

fun pump_metrics :: "bgp_event \<Rightarrow> bgp_metrics \<Rightarrow> bgp_metrics" where
  "pump_metrics (PeerConnected peer_ip) m =
     (let labels = show_ip peer_ip
      in m\<lparr>bm_peer_state := (bm_peer_state m)(labels \<mapsto> 1),
           bm_peer_connects := inc labels (bm_peer_connects m)\<rparr>)"
| "pump_metrics (PeerDisconnected peer_ip reason) m =
     (let labels = show_ip peer_ip
      in m\<lparr>bm_peer_state := (bm_peer_state m)(labels \<mapsto> 0),
           bm_peer_disconnects := inc labels (bm_peer_disconnects m)\<rparr>)"
| "pump_metrics (AnnounceFailed peer_ip) m =
     m\<lparr>bm_announce_failures := inc (show_ip peer_ip) (bm_announce_failures m)\<rparr>"
| "pump_metrics (WithdrawFailed peer_ip) m =
     m\<lparr>bm_withdraw_failures := inc (show_ip peer_ip) (bm_withdraw_failures m)\<rparr>"
| "pump_metrics (PeerNotification peer_ip error_code error_subcode) m =
     m\<lparr>bm_peer_notifications := inc (show_ip peer_ip, error_code, error_subcode) (bm_peer_notifications m)\<rparr>"

text \<open>One turn of the event pump.\<close>

definition is_connect :: "bgp_event \<Rightarrow> bool" where
  "is_connect ev = (case ev of PeerConnected _ \<Rightarrow> True | _ \<Rightarrow> False)"

definition pump_event ::
    "'b announcer_ops \<Rightarrow> bgp_event \<Rightarrow> bgp_metrics \<Rightarrow> 'b controller \<Rightarrow> bgp_metrics \<times> 'b controller" where
  "pump_event ops ev m c = (pump_metrics ev m, if is_connect ev then reannounce_all ops c else c)"

subsection \<open>The start of the process (main)\<close>

text \<open>
  \<open>bi_config_file\<close> is the outcome of reading the node configuration, \<open>bi_lb_file\<close> that of reading
  the VIP and pool file, \<open>bi_mode\<close> the permission bits of the former.
\<close>

record boot_io =
  bi_config_file :: "string + string"
  bi_parse_toml :: "string \<Rightarrow> string + node_config"
  bi_mode :: "string + u32"
  bi_lb_exists :: bool
  bi_lb_file :: "string + string"
  bi_from_json :: "string \<Rightarrow> string + lb_config"
  bi_order :: "lb_config \<Rightarrow> string list"
  bi_watch_init :: "string option"
  bi_watch_add :: "string option"
  bi_saved :: "string \<Rightarrow> lb_config \<Rightarrow> cache_error + string"
  bi_xdp :: "nat \<Rightarrow> xdp_setup"

datatype drain = Serving | Withdrawn | Closing | Stopping | Exited nat

text \<open>
  The running process. \<open>nd_ctl\<close> holds the controller behind its mutex, with the shared lookup
  tables and the speaker; \<open>nd_events\<close> and \<open>nd_inbox\<close> are the two channels; \<open>nd_reloading\<close> is the
  configuration whose matcher the reload task has stored and which it has not yet handed to the
  controller; \<open>nd_drain\<close> is how far the signal handler has come.
\<close>

record node =
  nd_config :: node_config
  nd_fwd_config :: forwarder_config
  nd_threads :: thread_group
  nd_matcher :: vip_matcher
  nd_ctl :: "bgp_speaker controller"
  nd_metrics :: bgp_metrics
  nd_events :: "bgp_event list"
  nd_inbox :: "lb_config list"
  nd_reloading :: "lb_config option"
  nd_watching :: bool
  nd_ready :: bool
  nd_shutdown :: bool
  nd_drain :: drain

datatype boot_result = Stopped nat | Started node

text \<open>\<^verbatim>\<open>--check-config\<close>: the exit code.\<close>

definition check_config_mode :: "boot_io \<Rightarrow> nat" where
  "check_config_mode io =
     (if bi_lb_exists io
      then (case load_from_file (bi_from_json io) (bi_lb_file io) of Inr _ \<Rightarrow> 0 | Inl _ \<Rightarrow> 1)
      else 0)"

definition initial_lb_config :: "boot_io \<Rightarrow> lb_config option" where
  "initial_lb_config io =
     (if bi_lb_exists io
      then (case watcher_new (bi_from_json io) (bi_order io) (bi_lb_file io) (bi_watch_init io) (bi_watch_add io) of
              Inr c \<Rightarrow> Some c
            | Inl _ \<Rightarrow> None)
      else None)"

definition boot_controller ::
    "(u8 list \<Rightarrow> u64 \<Rightarrow> u64) \<Rightarrow> boot_io \<Rightarrow> node_config \<Rightarrow>
     (vip_matcher \<times> bgp_speaker controller) panics" where
  "boot_controller xxh3 io config = do {
     (tables, matcher) \<leftarrow> (case initial_lb_config io of
                             None \<Rightarrow> Some (Map.empty, vip_matcher_new)
                           | Some lb \<Rightarrow> apply_lb_config xxh3 lb);
     sp \<leftarrow> spawn (snd (take_event_rx (speaker_new (nc_bgp config))));
     let ctl = with_bgp sp (with_cache_path (cp_local_cache (nc_control_plane config))
                 (controller_new tables Map.empty DEFAULT_TABLE_SIZE));
     ctl \<leftarrow> (case initial_lb_config io of
               None \<Rightarrow> Some ctl
             | Some lb \<Rightarrow> map_option fst (apply_config xxh3 speaker_ops (bi_saved io) lb ctl));
     Some (matcher, ctl)
   }"

definition xdp_config_of :: "node_config \<Rightarrow> nat \<Rightarrow> af_xdp_config" where
  "xdp_config_of config queue_id =
     af_xdp_config_default\<lparr>xc_iface := ns_data_iface (nc_node config), xc_queue_id := word_of_nat queue_id\<rparr>"

text \<open>One socket per queue until one fails.\<close>

fun open_sockets ::
    "(nat \<Rightarrow> nat \<Rightarrow> nat) \<Rightarrow> (nat \<Rightarrow> xdp_setup) \<Rightarrow> node_config \<Rightarrow> nat list \<Rightarrow> xdp_error + af_xdp list" where
  "open_sockets accept setup config [] = Inr []"
| "open_sockets accept setup config (queue_id # ids) =
     (case af_xdp_new accept (xdp_config_of config queue_id) (setup queue_id) of
        Inl e \<Rightarrow> Inl e
      | Inr x \<Rightarrow> (case open_sockets accept setup config ids of Inl e \<Rightarrow> Inl e | Inr xs \<Rightarrow> Inr (x # xs)))"

text \<open>The threads of the forwarder, or the exit code when a socket cannot be opened.\<close>

definition start_forwarder ::
    "(nat \<Rightarrow> nat \<Rightarrow> nat) \<Rightarrow> boot_io \<Rightarrow> node_config \<Rightarrow> forwarder_config \<Rightarrow> vip_matcher \<Rightarrow>
     bgp_speaker controller \<Rightarrow> instant \<Rightarrow> nat list \<Rightarrow> (nat + thread_group) panics" where
  "start_forwarder accept io config fc matcher ctl now cores =
     (let num_rewriters = ns_num_threads (nc_node config) in
      case ns_io_backend (nc_node config) of
        Mock \<Rightarrow> Some (Inr (tg_start num_rewriters))
      | AfXdp \<Rightarrow>
          (case open_sockets accept (bi_xdp io) config [0..<num_rewriters] of
             Inl _ \<Rightarrow> Some (Inl 1)
           | Inr ios \<Rightarrow>
               map_option (\<lambda>(_, threads). Inr threads)
                 (start_per_queue cores ios fc (ct_lookup_tables ctl) matcher (ct_health_status ctl)
                    forwarder_metrics_new now)))"

definition boot ::
    "(u8 list \<Rightarrow> u64 \<Rightarrow> u64) \<Rightarrow> (nat \<Rightarrow> nat \<Rightarrow> nat) \<Rightarrow> boot_io \<Rightarrow> instant \<Rightarrow> nat list \<Rightarrow> bool \<Rightarrow>
     boot_result panics" where
  "boot xxh3 accept io now cores checking =
     (case bi_config_file io of Inl _ \<Rightarrow> Some (Stopped 1) | Inr config_str \<Rightarrow>
     (case bi_parse_toml io config_str of Inl _ \<Rightarrow> Some (Stopped 1) | Inr config \<Rightarrow>
      if checking then Some (Stopped (check_config_mode io))
      else if \<not> check_node_config_perms (bi_mode io) config then Some (Stopped 1)
      else do {
        (matcher, ctl) \<leftarrow> boot_controller xxh3 io config;
        (case mtu_config_new (fs_network_mtu (nc_forwarder config)) of
           Inl _ \<Rightarrow> Some (Stopped 1)
         | Inr mtu \<Rightarrow> do {
             let fc = forwarder_config_of config mtu;
             started \<leftarrow> start_forwarder accept io config fc matcher ctl now cores;
             (case started of
                Inl code \<Rightarrow> Some (Stopped code)
              | Inr threads \<Rightarrow> Some (Started
                  \<lparr>nd_config = config, nd_fwd_config = fc, nd_threads = threads, nd_matcher = matcher,
                   nd_ctl = ctl, nd_metrics = bgp_metrics_new, nd_events = [], nd_inbox = [],
                   nd_reloading = None, nd_watching = (initial_lb_config io \<noteq> None), nd_ready = True,
                   nd_shutdown = False, nd_drain = Serving\<rparr>))
           })
      }))"

subsection \<open>The operations server (ops_server.rs)\<close>

definition OK :: nat where "OK = 200"
definition SERVICE_UNAVAILABLE :: nat where "SERVICE_UNAVAILABLE = 503"

record ops_state =
  os_ready :: bool
  os_forwarder_running :: bool
  os_node_id :: string
  os_vip_matcher :: vip_matcher
  os_lookup_tables :: lookup_tables
  os_health_status :: "ip_addr \<rightharpoonup> health_status"

text \<open>The values the handlers would read at this moment.\<close>

definition ops_state_of :: "node \<Rightarrow> ops_state" where
  "ops_state_of n =
     \<lparr>os_ready = nd_ready n, os_forwarder_running = tg_is_running (nd_threads n),
      os_node_id = ns_id (nc_node (nd_config n)), os_vip_matcher = nd_matcher n,
      os_lookup_tables = ct_lookup_tables (nd_ctl n), os_health_status = ct_health_status (nd_ctl n)\<rparr>"

definition healthz :: "nat \<times> string" where
  "healthz = (OK, ''ok'' @ [CHR 0x0A])"

definition readyz :: "ops_state \<Rightarrow> nat \<times> string" where
  "readyz s =
     (if \<not> os_ready s then (SERVICE_UNAVAILABLE, ''config not applied'' @ [CHR 0x0A])
      else if \<not> os_forwarder_running s then (SERVICE_UNAVAILABLE, ''forwarder stopped'' @ [CHR 0x0A])
      else (OK, ''ok'' @ [CHR 0x0A]))"

definition trace_handler :: "(u8 list \<Rightarrow> u64) \<Rightarrow> ops_state \<Rightarrow> trace_request \<Rightarrow> (nat \<times> trace_result) panics" where
  "trace_handler xxh3 s req = do {
     let inputs = \<lparr>ti_node_id = os_node_id s, ti_matcher = os_vip_matcher s,
                   ti_tables = os_lookup_tables s, ti_health = os_health_status s\<rparr>;
     result \<leftarrow> trace_packet xxh3 req inputs;
     Some (OK, result)
   }"

subsection \<open>What a start gives\<close>

text \<open>The configurations the node can work with have distinct pool ids and pools of addressable size.\<close>

definition lb_config_ok :: "lb_config \<Rightarrow> bool" where
  "lb_config_ok lb \<longleftrightarrow> config_ok DEFAULT_TABLE_SIZE lb"

lemma boot_tables_returns:
  assumes "\<forall>p \<in> set ps. length (pool_backends p) < 2 ^ 63"
  shows "\<exists>T. boot_tables xxh3 ps m = Some T"
  using assms
proof (induction ps arbitrary: m)
  case (Cons p ps)
  obtain r where "build_table xxh3 (pool_backends p) DEFAULT_TABLE_SIZE = Some r"
    using build_table_returns [OF DEFAULT_TABLE_SIZE_ok, of "pool_backends p"] Cons.prems by auto
  with Cons show ?case by simp
qed simp

lemma apply_lb_config_returns:
  assumes "lb_config_ok lb"
  shows "\<exists>T. apply_lb_config xxh3 lb = Some (T, build_vip_matcher lb)"
  using boot_tables_returns [of "lc_pools lb" xxh3 Map.empty] assms
  by (auto simp: apply_lb_config_def lb_config_ok_def config_ok_def sized_config_def)

text \<open>The sessions as they are right after \<^verbatim>\<open>spawn\<close>, apart from queued commands.\<close>

definition tasks :: "bgp_speaker \<Rightarrow> (ip_addr \<times> peer_session_ctx \<times> bool \<times> phase \<times> bgp_event list) list" where
  "tasks sp = map (\<lambda>p. (ph_peer_ip p, ph_ctx p, ph_enabled p, ss_phase (ph_session p), ss_events (ph_session p)))
     (sp_peers sp)"

lemma tasks_announce [simp]: "tasks (speaker_announce vips sp) = tasks sp"
  by (simp add: tasks_def speaker_announce_def send_to_def send_cmd_def comp_def)

lemma tasks_withdraw [simp]: "tasks (speaker_withdraw vips sp) = tasks sp"
  by (simp add: tasks_def speaker_withdraw_def send_to_def send_cmd_def comp_def)

lemma tasks_shutdown [simp]: "tasks (speaker_shutdown sp) = tasks sp"
  by (simp add: tasks_def speaker_shutdown_def send_to_def send_cmd_def comp_def)

lemma sync_tasks:
  "ct_bgp c = Some sp \<Longrightarrow> \<exists>sp'. ct_bgp (sync_bgp_announcements speaker_ops c) = Some sp' \<and> tasks sp' = tasks sp"
  by (auto simp: sync_bgp_announcements_def speaker_ops_def announcer_of_def Let_def)

lemma ctl_step_tasks:
  assumes "ctl_step xxh3 speaker_ops saved p c = Some c'" and "ct_bgp c = Some sp"
  shows "\<exists>sp'. ct_bgp c' = Some sp' \<and> tasks sp' = tasks sp"
proof (cases p)
  case (ApplyConfig cfg)
  with assms(1) obtain d where "c' = sync_bgp_announcements speaker_ops d" "ct_bgp d = ct_bgp c"
    by (fastforce simp: ctl_step_def apply_config_def Let_def bind_eq_Some_conv)
  with sync_tasks assms(2) show ?thesis by auto
next
  case (HealthChange ip st now now')
  with assms(1) have "maybe_flush xxh3 now' (sync_bgp_announcements speaker_ops (mark_health ip st now c)) = Some c'"
    by (simp add: ctl_step_def on_health_change_eq)
  from maybe_flush_frame [OF this] sync_tasks [of "mark_health ip st now c" sp] assms(2) show ?thesis
    by (simp add: mark_health_fields)
next
  case (Tick now)
  with assms maybe_flush_frame [of xxh3 now c c'] show ?thesis by (simp add: ctl_step_def tick_def)
next
  case FlushPending
  with assms flush_frame [of xxh3 c c'] show ?thesis by (simp add: ctl_step_def flush_pending_def)
qed (use assms in \<open>auto simp: ctl_step_def reannounce_all_def withdraw_all_def speaker_ops_def
       announcer_of_def Let_def split: if_splits\<close>)

lemma spawn_tasks:
  assumes "spawn (speaker_new config) = Some sp"
  shows "\<forall>(ip, ctx, enabled, phase, events) \<in> set (tasks sp). events = [] \<and> phase = LoopTop \<and> ip = bp_peer_ip (px_peer ctx)"
    "map fst (tasks sp) = (case bgp_router_id config of V4 _ \<Rightarrow> map bp_peer_ip (bgp_peers config) | V6 _ \<Rightarrow> [])"
  using assms
  by (auto simp: spawn_def speaker_new_def tasks_def spawn_peer_def session_new_def comp_def split: ip_addr.splits)

definition fresh_controller :: "string \<Rightarrow> lookup_tables \<Rightarrow> bgp_speaker \<Rightarrow> bgp_speaker controller" where
  "fresh_controller path tables sp =
     with_bgp sp (with_cache_path path (controller_new tables Map.empty DEFAULT_TABLE_SIZE))"

lemma fresh_controller_inv:
  assumes "spawn (speaker_new config) = Some sp"
  shows "sys_inv (fresh_controller path tables sp)" "ctl_inv xxh3 (fresh_controller path tables sp)"
proof -
  have "node_start config tables Map.empty DEFAULT_TABLE_SIZE =
      Some (with_bgp sp (controller_new tables Map.empty DEFAULT_TABLE_SIZE))"
    using assms by (simp add: node_start_def)
  from node_start_inv [OF this] show "sys_inv (fresh_controller path tables sp)"
    by (simp add: sys_inv_def fresh_controller_def with_bgp_def with_cache_path_def controller_new_def
        desired_announced_vips_def)
  show "ctl_inv xxh3 (fresh_controller path tables sp)"
    by (simp add: ctl_inv_def fresh_controller_def with_bgp_def with_cache_path_def controller_new_def)
qed

text \<open>What every state of the running process has in common with the state after the start.\<close>

definition ctl_quiet :: "(u8 list \<Rightarrow> u64 \<Rightarrow> u64) \<Rightarrow> bgp_speaker controller \<Rightarrow> bool" where
  "ctl_quiet xxh3 c \<longleftrightarrow> ctl_inv xxh3 c \<and> ct_pending_pools c = {} \<and> ct_health_status c = Map.empty \<and>
     ct_table_size c = DEFAULT_TABLE_SIZE \<and> ct_bgp c \<noteq> None"

lemma apply_config_quiet:
  assumes "ctl_quiet xxh3 c" and "lb_config_ok lb"
  shows "\<exists>c' w. apply_config xxh3 speaker_ops saved lb c = Some (c', w) \<and> ctl_quiet xxh3 c' \<and> ct_config c' = Some lb"
proof -
  from assms have ok: "config_ok (ct_table_size c) lb" by (simp add: lb_config_ok_def ctl_quiet_def)
  obtain b where b: "ct_bgp c = Some b" using assms(1) by (auto simp: ctl_quiet_def)
  from apply_config_ok [OF ok, of xxh3 speaker_ops saved] obtain T w where T:
    "apply_config xxh3 speaker_ops saved lb c = Some (sync_bgp_announcements speaker_ops
      (c\<lparr>ct_pending_pools := {}, ct_pending_since := None, ct_lookup_tables := T,
         ct_backend_pool_index := build_backend_pool_index lb, ct_config := Some lb\<rparr>), w)"
    "ctl_inv xxh3 (c\<lparr>ct_pending_pools := {}, ct_pending_since := None, ct_lookup_tables := T,
         ct_backend_pool_index := build_backend_pool_index lb, ct_config := Some lb\<rparr>)" by blast
  with assms(1) b sync_tasks [of "c\<lparr>ct_pending_pools := {}, ct_pending_since := None, ct_lookup_tables := T,
         ct_backend_pool_index := build_backend_pool_index lb, ct_config := Some lb\<rparr>" b]
  show ?thesis by (auto simp: ctl_quiet_def)
qed

lemma boot_controller_ok:
  assumes "\<And>lb. initial_lb_config io = Some lb \<Longrightarrow> lb_config_ok lb"
  shows "\<exists>matcher ctl sp. boot_controller xxh3 io config = Some (matcher, ctl) \<and>
     matcher = (case initial_lb_config io of None \<Rightarrow> vip_matcher_new | Some lb \<Rightarrow> build_vip_matcher lb) \<and>
     ct_config ctl = initial_lb_config io \<and> ctl_quiet xxh3 ctl \<and> sys_inv ctl \<and>
     ct_bgp ctl = Some sp \<and>
     (\<forall>(ip, ctx, enabled, phase, events) \<in> set (tasks sp). events = [] \<and> phase = LoopTop \<and> ip = bp_peer_ip (px_peer ctx)) \<and>
     map fst (tasks sp) = (case bgp_router_id (nc_bgp config) of
        V4 _ \<Rightarrow> map bp_peer_ip (bgp_peers (nc_bgp config)) | V6 _ \<Rightarrow> [])"
proof -
  obtain sp where sp: "spawn (speaker_new (nc_bgp config)) = Some sp"
    by (cases "bgp_router_id (nc_bgp config)") (auto simp: spawn_def speaker_new_def)
  then have spawn: "spawn (snd (take_event_rx (speaker_new (nc_bgp config)))) = Some (sp\<lparr>sp_event_rx := False\<rparr>)"
    by (auto simp: spawn_def speaker_new_def take_event_rx_def split: ip_addr.splits)
  let ?sp = "sp\<lparr>sp_event_rx := False\<rparr>"
  let ?c = "fresh_controller (cp_local_cache (nc_control_plane config))"
  have fresh: "sys_inv (?c T ?sp)" "ctl_quiet xxh3 (?c T ?sp)" "ct_bgp (?c T ?sp) = Some ?sp" "ct_config (?c T ?sp) = None" for T
    using fresh_controller_inv(1) [OF sp, where path = "cp_local_cache (nc_control_plane config)" and tables = T]
      fresh_controller_inv(2) [OF sp, where path = "cp_local_cache (nc_control_plane config)" and tables = T and ?xxh3.0 = xxh3]
    by (auto simp: ctl_quiet_def fresh_controller_def with_bgp_def with_cache_path_def controller_new_def
        sys_inv_def ctl_inv_def peer_live_def peer_routes_def desired_announced_vips_def)
  have t: "tasks ?sp = tasks sp" by (simp add: tasks_def)
  show ?thesis
  proof (cases "initial_lb_config io")
    case None
    then have "boot_controller xxh3 io config = Some (vip_matcher_new, ?c Map.empty ?sp)"
      by (simp add: boot_controller_def spawn fresh_controller_def)
    with None fresh [of Map.empty] t spawn_tasks [OF sp] show ?thesis by fastforce
  next
    case (Some lb)
    from apply_lb_config_returns [OF assms [OF Some], of xxh3] obtain T where
      T: "apply_lb_config xxh3 lb = Some (T, build_vip_matcher lb)" by blast
    from apply_config_quiet [OF fresh(2) [of T] assms [OF Some], of "bi_saved io"] obtain c' w where
      c': "apply_config xxh3 speaker_ops (bi_saved io) lb (?c T ?sp) = Some (c', w)" "ctl_quiet xxh3 c'"
        "ct_config c' = Some lb" by blast
    then have step: "ctl_step xxh3 speaker_ops (bi_saved io) (ApplyConfig lb) (?c T ?sp) = Some c'"
      by (simp add: ctl_step_def)
    have "sys_inv c'"
      by (rule sys_step_inv [OF _ fresh(1)]) (rule sys_ctl [OF _ step, where env = "\<lambda>_. None"], simp)
    moreover from ctl_step_tasks [OF step fresh(3)] t obtain sp' where "ct_bgp c' = Some sp'" "tasks sp' = tasks sp"
      by auto
    moreover have "boot_controller xxh3 io config = Some (build_vip_matcher lb, c')"
      using c'(1) T Some by (simp add: boot_controller_def spawn fresh_controller_def)
    ultimately show ?thesis using Some c'(2,3) spawn_tasks [OF sp] by auto
  qed
qed

lemma open_sockets_length:
  "open_sockets accept setup config ids = Inr xs \<Longrightarrow> length xs = length ids"
  by (induction ids arbitrary: xs) (auto split: sum.splits)

lemma started_running [simp]: "tg_is_running (tg_start k)"
  by (simp add: tg_is_running_def tg_start_def list_all_iff)

text \<open>What the start of the forwarder comes to.\<close>

lemma start_forwarder_cases:
  fixes config
  defines "k \<equiv> ns_num_threads (nc_node config)"
  shows "start_forwarder accept io config fc matcher ctl now cores =
     (case ns_io_backend (nc_node config) of
        Mock \<Rightarrow> Some (Inr (tg_start k))
      | AfXdp \<Rightarrow> (case open_sockets accept (bi_xdp io) config [0..<k] of
           Inl _ \<Rightarrow> Some (Inl 1)
         | Inr _ \<Rightarrow> if k = 0 then None
                    else Some (Inr \<lparr>tg_finished = replicate k False, tg_shutdown = False\<rparr>)))"
  using open_sockets_length [of accept "bi_xdp io" config "[0..<k]"]
  by (auto simp: start_forwarder_def start_per_queue_def k_def Let_def split: io_backend.splits sum.splits)

definition exposed_secret :: "boot_io \<Rightarrow> node_config \<Rightarrow> bool" where
  "exposed_secret io config \<longleftrightarrow>
     (\<exists>p \<in> set (bgp_peers (nc_bgp config)). bp_md5_password p \<noteq> None) \<and>
     (\<forall>mode. bi_mode io = Inr mode \<longrightarrow> (\<exists>b \<in> set (drop 3 (perm_bits mode)). b))"

lemma all_False: "length xs = k \<Longrightarrow> xs = replicate k False \<longleftrightarrow> \<not> (\<exists>b \<in> set xs. b)"
  by (induction xs arbitrary: k) auto

lemma check_perms_exposed: "check_node_config_perms (bi_mode io) config \<longleftrightarrow> \<not> exposed_secret io config"
proof -
  have "drop 3 (perm_bits mode) = replicate 6 False \<longleftrightarrow> \<not> (\<exists>b \<in> set (drop 3 (perm_bits mode)). b)" for mode
    by (rule all_False) (simp add: perm_bits_def)
  then have "(\<exists>mode. bi_mode io = Inr mode \<and> drop 3 (perm_bits mode) = replicate 6 False) \<longleftrightarrow>
      \<not> (\<forall>mode. bi_mode io = Inr mode \<longrightarrow> (\<exists>b \<in> set (drop 3 (perm_bits mode)). b))" by blast
  then show ?thesis unfolding perms_checked exposed_secret_def by simp
qed

lemma boot_eq:
  assumes "bi_config_file io = Inr config_str" and "bi_parse_toml io config_str = Inr config"
  shows "boot xxh3 accept io now cores False =
      (if exposed_secret io config then Some (Stopped 1)
       else do {
         (matcher, ctl) \<leftarrow> boot_controller xxh3 io config;
         (case mtu_config_new (fs_network_mtu (nc_forwarder config)) of
            Inl _ \<Rightarrow> Some (Stopped 1)
          | Inr mtu \<Rightarrow> do {
              started \<leftarrow> start_forwarder accept io config (forwarder_config_of config mtu) matcher ctl now cores;
              (case started of
                 Inl code \<Rightarrow> Some (Stopped code)
               | Inr threads \<Rightarrow> Some (Started
                   \<lparr>nd_config = config, nd_fwd_config = forwarder_config_of config mtu, nd_threads = threads,
                    nd_matcher = matcher, nd_ctl = ctl, nd_metrics = bgp_metrics_new, nd_events = [],
                    nd_inbox = [], nd_reloading = None, nd_watching = (initial_lb_config io \<noteq> None),
                    nd_ready = True, nd_shutdown = False, nd_drain = Serving\<rparr>))
            })
       })"
  unfolding boot_def assms sum.case Let_def check_perms_exposed by simp

text \<open>
  C28. How a start ends. The process stops with code 1 exactly when a TCP-MD5 secret stands in a
  configuration file that the group or others have any permission on (or that cannot be
  examined), when the MTU is below 1280, or when an AF_XDP socket cannot be opened; it panics exactly
  when AF_XDP is configured without threads; otherwise it starts, answers readiness probes
  positively and holds the VIP configuration if that could be loaded and validated, and nothing
  if it could not.
\<close>

theorem node_starts:
  assumes "bi_config_file io = Inr config_str" and "bi_parse_toml io config_str = Inr config"
    and "\<And>lb. initial_lb_config io = Some lb \<Longrightarrow> lb_config_ok lb"
  shows "let refused = exposed_secret io config \<or> unat (fs_network_mtu (nc_forwarder config)) < 1280;
             k = ns_num_threads (nc_node config);
             no_socket = ns_io_backend (nc_node config) = AfXdp \<and>
               (\<exists>e. open_sockets accept (bi_xdp io) config [0..<k] = Inl e);
             no_queue = ns_io_backend (nc_node config) = AfXdp \<and> k = 0
         in case boot xxh3 accept io now cores False of
              None \<Rightarrow> \<not> refused \<and> no_queue
            | Some (Stopped code) \<Rightarrow> code = 1 \<and> (refused \<or> no_socket)
            | Some (Started n) \<Rightarrow> \<not> refused \<and> \<not> no_socket \<and> \<not> no_queue \<and>
                readyz (ops_state_of n) = (OK, ''ok'' @ [CHR 0x0A]) \<and>
                ct_config (nd_ctl n) = initial_lb_config io"
proof -
  from boot_controller_ok [where io = io and config = config and ?xxh3.0 = xxh3, OF assms(3)] obtain matcher ctl where
    c: "boot_controller xxh3 io config = Some (matcher, ctl)" "ct_config ctl = initial_lb_config io" by auto
  have mtu: "mtu_config_new m = Inl e \<Longrightarrow> unat m < 1280" "mtu_config_new m = Inr d \<Longrightarrow> 1280 \<le> unat m" for m e d
    using mtu_config_new_spec [of m] by simp_all
  let ?k = "ns_num_threads (nc_node config)" and ?mtu = "fs_network_mtu (nc_forwarder config)"
  note boot = boot_eq [OF assms(1,2), of xxh3 accept now cores]
  show ?thesis
  proof (cases "exposed_secret io config")
    case True
    then show ?thesis by (simp add: boot Let_def)
  next
    case False
    show ?thesis
    proof (cases "mtu_config_new ?mtu")
      case (Inl e)
      with False c mtu(1) [OF Inl] show ?thesis by (simp add: boot Let_def)
    next
      case (Inr m)
      have run: "readyz (ops_state_of n) = (OK, ''ok'' @ [CHR 0x0A])"
        if "nd_ready n" "tg_is_running (nd_threads n)" for n
        using that by (simp add: readyz_def ops_state_of_def)
      have queues: "tg_is_running \<lparr>tg_finished = replicate ?k False, tg_shutdown = False\<rparr>" if "?k \<noteq> 0"
        using that by (simp add: tg_is_running_def list_all_iff)
      from False c Inr mtu(2) [OF Inr] show ?thesis
        by (cases "ns_io_backend (nc_node config)"; cases "open_sockets accept (bi_xdp io) config [0..<?k]")
          (auto simp: boot start_forwarder_cases run queues Let_def)
    qed
  qed
qed

text \<open>A node with the mock backend, one peer and the sample VIP.\<close>

definition sample_node_config :: node_config where
  "sample_node_config =
     \<lparr>nc_node = \<lparr>ns_id = ''lb1'', ns_loopback_ip = V4 (Ipv4 10 0 0 1), ns_data_iface = ''eth0'',
        ns_num_threads = 2, ns_metrics_addr = default_metrics_addr, ns_io_backend = io_backend_default,
        ns_cpu_affinity = None\<rparr>,
      nc_bgp = sample_bgp_config,
      nc_control_plane = \<lparr>cp_config_file = ''/etc/lb/lb.json'', cp_local_cache = ''/var/lib/lb/cache.json''\<rparr>,
      nc_forwarder = \<lparr>fs_packet_pool_size = default_packet_pool_size,
        fs_connection_table_size = default_connection_table_size,
        fs_fragment_table_size = default_fragment_table_size, fs_fragment_ttl = default_fragment_ttl,
        fs_batch_size = default_batch_size, fs_batch_flush_interval = 0, fs_connection_ttl = secs 300,
        fs_connection_ttls = None, fs_network_mtu = default_network_mtu,
        fs_icmp_rate_limit = default_icmp_rate_limit\<rparr>,
      nc_health_check_defaults = \<lparr>hc_interval = secs 5, hc_timeout = secs 2,
        hc_healthy_threshold = default_healthy_threshold,
        hc_unhealthy_threshold = default_unhealthy_threshold\<rparr>\<rparr>"

definition sample_boot :: boot_io where
  "sample_boot =
     \<lparr>bi_config_file = Inr ''toml'', bi_parse_toml = (\<lambda>_. Inr sample_node_config), bi_mode = Inr 0x1A4,
      bi_lb_exists = True, bi_lb_file = Inr ''json'', bi_from_json = (\<lambda>_. Inr sample_lb_config),
      bi_order = (\<lambda>c. map pool_id (lc_pools c)), bi_watch_init = None, bi_watch_add = None,
      bi_saved = (\<lambda>p c. Inr []), bi_xdp = (\<lambda>_. ex_setup)\<rparr>"

lemma sample_loaded: "initial_lb_config sample_boot = Some sample_lb_config"
  by (simp add: initial_lb_config_def sample_boot_def watcher_new_def try_reload_def load_from_file_def
      validate_config_def validate_def dangling_errors_def pool_map_def sample_lb_config_def
      sample_vip_def sample_pool_def)

lemma sample_loaded_ok: "lb_config_ok sample_lb_config"
  using DEFAULT_TABLE_SIZE_ok
  by (simp add: lb_config_ok_def config_ok_def sized_config_def sample_lb_config_def sample_pool_def)

lemma sample_reads:
  "bi_config_file sample_boot = Inr ''toml''" "bi_parse_toml sample_boot ''toml'' = Inr sample_node_config"
  by (simp_all add: sample_boot_def)

lemma sample_accepted:
  "\<not> exposed_secret sample_boot sample_node_config"
  "\<not> unat (fs_network_mtu (nc_forwarder sample_node_config)) < 1280"
  "ns_io_backend (nc_node sample_node_config) = Mock"
  by (simp_all add: exposed_secret_def sample_node_config_def sample_bgp_config_def legacy_peer_def
      default_network_mtu_def io_backend_default_def)

lemma node_starts_witness:
  "\<exists>n. boot (\<lambda>name seed. seed + 5) min sample_boot 0 [] False = Some (Started n) \<and>
     fst (readyz (ops_state_of n)) = 200 \<and> ct_config (nd_ctl n) = Some sample_lb_config"
proof -
  have "lb_config_ok lb" if "initial_lb_config sample_boot = Some lb" for lb
    using that sample_loaded sample_loaded_ok by simp
  from node_starts [OF sample_reads this, where ?xxh3.0 = "\<lambda>name seed. seed + 5" and accept = min and now = 0 and cores = "[]"] sample_accepted
  show ?thesis
    by (cases "boot (\<lambda>name seed. seed + 5) min sample_boot 0 [] False")
      (auto simp: Let_def sample_loaded OK_def split: boot_result.splits)
qed

text \<open>The same start, as the runs below need it: what the node begins with.\<close>

lemma sample_node_started:
  obtains n where "boot (\<lambda>name seed. seed + 5) accept sample_boot now cores False = Some (Started n)"
    and "nd_config n = sample_node_config" and "nd_watching n" and "\<not> nd_shutdown n" and "nd_drain n = Serving"
    and "nd_matcher n = build_vip_matcher sample_lb_config" and "ct_config (nd_ctl n) = Some sample_lb_config"
    and "nd_reloading n = None" and "nd_inbox n = []" and "nd_events n = []" and "nd_metrics n = bgp_metrics_new"
    and "nd_threads n = tg_start 2"
    and "boot_controller (\<lambda>name seed. seed + 5) sample_boot sample_node_config = Some (nd_matcher n, nd_ctl n)"
proof -
  have "lb_config_ok lb" if "initial_lb_config sample_boot = Some lb" for lb
    using that sample_loaded sample_loaded_ok by simp
  from boot_controller_ok [where io = sample_boot and config = sample_node_config and ?xxh3.0 = "\<lambda>name seed. seed + 5", OF this]
  obtain ctl where c: "boot_controller (\<lambda>name seed. seed + 5) sample_boot sample_node_config =
      Some (build_vip_matcher sample_lb_config, ctl)" "ct_config ctl = Some sample_lb_config"
    by (auto simp: sample_loaded)
  obtain mtu where mtu: "mtu_config_new (fs_network_mtu (nc_forwarder sample_node_config)) = Inr mtu"
    using default_mtu_accepted by (auto simp: sample_node_config_def)
  have k: "ns_num_threads (nc_node sample_node_config) = 2" by (simp add: sample_node_config_def)
  define n where "n = \<lparr>nd_config = sample_node_config, nd_fwd_config = forwarder_config_of sample_node_config mtu,
      nd_threads = tg_start 2, nd_matcher = build_vip_matcher sample_lb_config, nd_ctl = ctl,
      nd_metrics = bgp_metrics_new, nd_events = [], nd_inbox = [], nd_reloading = None, nd_watching = True,
      nd_ready = True, nd_shutdown = False, nd_drain = Serving\<rparr>"
  have "boot (\<lambda>name seed. seed + 5) accept sample_boot now cores False = Some (Started n)"
    unfolding boot_eq [OF sample_reads] n_def
    by (simp add: sample_accepted c mtu start_forwarder_cases k sample_loaded)
  then show thesis by (rule that) (simp_all add: n_def c)
qed

end
