(* ===== verification/IpText.thy ===== *)
theory IpText
  imports NetTypes
begin

text \<open>
  The parser of \<^verbatim>\<open>IpAddr::from_str\<close> in \<^verbatim>\<open>std::net\<close>, which the command line tool reads addresses
  with, and its round trip with the printed form: every address that is printed is read back, so
  printed addresses identify addresses.

  A reader consumes a prefix of its input or fails without consuming anything.
\<close>

subsection \<open>The readers\<close>

definition to_digit :: "nat \<Rightarrow> char \<Rightarrow> nat option" where
  "to_digit radix c =
     (let n = of_char c :: nat;
          d = (if 48 \<le> n \<and> n \<le> 57 then n - 48
               else if 97 \<le> n \<and> n \<le> 122 then n - 87
               else if 65 \<le> n \<and> n \<le> 90 then n - 55 else radix)
      in if d < radix then Some d else None)"

fun read_digits :: "nat \<Rightarrow> nat \<Rightarrow> nat \<Rightarrow> nat \<Rightarrow> string \<Rightarrow> (nat \<times> nat \<times> string) option" where
  "read_digits radix max_digits result digit_count [] = Some (result, digit_count, [])"
| "read_digits radix max_digits result digit_count (c # cs) =
     (case to_digit radix c of
        None \<Rightarrow> Some (result, digit_count, c # cs)
      | Some d \<Rightarrow>
          if digit_count + 1 > max_digits then None
          else read_digits radix max_digits (result * radix + d) (digit_count + 1) cs)"

text \<open>\<open>bound\<close> is the number of values of the result type.\<close>

definition read_number :: "nat \<Rightarrow> nat \<Rightarrow> bool \<Rightarrow> nat \<Rightarrow> string \<Rightarrow> (nat \<times> string) option" where
  "read_number radix max_digits allow_zero_prefix bound s = do {
     (result, digit_count, rest) \<leftarrow> read_digits radix max_digits 0 0 s;
     if digit_count = 0 then None
     else if \<not> allow_zero_prefix \<and> hd s = CHR ''0'' \<and> 1 < digit_count then None
     else if result < bound then Some (result, rest) else None
   }"

definition read_given_char :: "char \<Rightarrow> string \<Rightarrow> string option" where
  "read_given_char c s = (case s of x # xs \<Rightarrow> if x = c then Some xs else None | [] \<Rightarrow> None)"

definition read_separator :: "char \<Rightarrow> nat \<Rightarrow> (string \<Rightarrow> ('a \<times> string) option) \<Rightarrow> string \<Rightarrow> ('a \<times> string) option" where
  "read_separator sep index inner s =
     (if 0 < index then do { rest \<leftarrow> read_given_char sep s; inner rest } else inner s)"

definition read_octet :: "nat \<Rightarrow> string \<Rightarrow> (nat \<times> string) option" where
  "read_octet index = read_separator CHR ''.'' index (read_number 10 3 False 256)"

definition read_ipv4_addr :: "string \<Rightarrow> (ipv4_addr \<times> string) option" where
  "read_ipv4_addr s = do {
     (a, s) \<leftarrow> read_octet 0 s;
     (b, s) \<leftarrow> read_octet 1 s;
     (c, s) \<leftarrow> read_octet 2 s;
     (d, s) \<leftarrow> read_octet 3 s;
     Some (Ipv4 (word_of_nat a) (word_of_nat b) (word_of_nat c) (word_of_nat d), s)
   }"

text \<open>The groups from index \<open>i\<close> on, at most \<open>k\<close> of them, and whether they end with an IPv4 address.\<close>

fun read_groups :: "nat \<Rightarrow> nat \<Rightarrow> string \<Rightarrow> u16 list \<times> bool \<times> string" where
  "read_groups 0 i s = ([], False, s)"
| "read_groups (Suc k) i s =
     (case (if 0 < k then read_separator CHR '':'' i read_ipv4_addr s else None) of
        Some (Ipv4 a b c d, rest) \<Rightarrow> ([from_be16 a b, from_be16 c d], True, rest)
      | None \<Rightarrow>
          (case read_separator CHR '':'' i (read_number 16 4 True 65536) s of
             None \<Rightarrow> ([], False, s)
           | Some (g, rest) \<Rightarrow>
               (case read_groups k (Suc i) rest of (gs, v4, rest') \<Rightarrow> (word_of_nat g # gs, v4, rest'))))"

fun ipv6_of :: "u16 list \<Rightarrow> ipv6_addr" where
  "ipv6_of [a, b, c, d, e, f, g, h] = Ipv6 a b c d e f g h"
| "ipv6_of _ = Ipv6 0 0 0 0 0 0 0 0"

definition read_ipv6_addr :: "string \<Rightarrow> (ipv6_addr \<times> string) option" where
  "read_ipv6_addr s =
     (case read_groups 8 0 s of (head, head_ipv4, rest) \<Rightarrow>
        if length head = 8 then Some (ipv6_of head, rest)
        else if head_ipv4 then None
        else do {
          rest \<leftarrow> read_given_char CHR '':'' rest;
          rest \<leftarrow> read_given_char CHR '':'' rest;
          (case read_groups (7 - length head) 0 rest of (tail, _, rest) \<Rightarrow>
             Some (ipv6_of (head @ replicate (8 - length head - length tail) 0 @ tail), rest))
        })"

definition parse_ip :: "string \<Rightarrow> ip_addr option" where
  "parse_ip s =
     (case (case read_ipv4_addr s of
              Some (a, rest) \<Rightarrow> Some (V4 a, rest)
            | None \<Rightarrow> map_option (\<lambda>(a, rest). (V6 a, rest)) (read_ipv6_addr s)) of
        Some (ip, []) \<Rightarrow> Some ip
      | _ \<Rightarrow> None)"

subsection \<open>Reading numbers\<close>

lemma read_digits_prefix:
  assumes "list_all (\<lambda>c. to_digit radix c \<noteq> None) ds" and "rest = [] \<or> to_digit radix (hd rest) = None"
    and "k + length ds \<le> n"
  shows "read_digits radix n r k (ds @ rest) =
    Some (foldl (\<lambda>v c. v * radix + the (to_digit radix c)) r ds, k + length ds, rest)"
  using assms(1,3)
proof (induction ds arbitrary: r k)
  case Nil
  then show ?case using assms(2) by (cases rest) auto
qed auto

lemma to_digit_10: "is_digit c \<Longrightarrow> to_digit 10 c = Some (of_char c - 48)"
  by (auto simp: to_digit_def is_digit_def Let_def)

lemma not_digit_10: "\<not> is_digit c \<Longrightarrow> to_digit 10 c = None"
  by (auto simp: to_digit_def is_digit_def Let_def)

lemma foldl_dec: "list_all is_digit ds \<Longrightarrow>
    foldl (\<lambda>v c. v * 10 + the (to_digit 10 c)) acc ds = dec_value acc ds"
  by (induction ds arbitrary: acc) (simp_all add: to_digit_10 mult.commute)

lemma length_dec: "n < 10 \<Longrightarrow> length (dec n) = 1" "n < 100 \<Longrightarrow> length (dec n) \<le> 2" "n < 1000 \<Longrightarrow> length (dec n) \<le> 3"
proof -
  show 1: "length (dec n) = 1" if "n < 10" for n using that by (simp add: dec.simps [of n])
  show 2: "length (dec n) \<le> 2" if "n < 100" for n
    using that 1 [of "n div 10"] by (cases "n < 10") (simp_all add: dec.simps [of n])
  show "length (dec n) \<le> 3" if "n < 1000"
    using that 2 [of "n div 10"] by (cases "n < 10") (simp_all add: dec.simps [of n])
qed

lemma dec_leading_zero: "hd (dec n) = CHR ''0'' \<Longrightarrow> n = 0"
proof (induction n rule: dec.induct)
  case (1 n)
  show ?case
  proof (cases "n < 10")
    case True
    with 1(2) have "digit n = CHR ''0''" by (simp add: dec.simps [of n])
    with True of_char_digit [of n] show ?thesis by simp
  next
    case False
    with 1(2) have "hd (dec (n div 10)) = CHR ''0''"
      by (subst (asm) dec.simps) (simp add: hd_append)
    with 1(1) False have "n div 10 = 0" by simp
    with False show ?thesis by simp
  qed
qed

lemma read_octet_dec:
  assumes "n < 256" and "rest = [] \<or> \<not> is_digit (hd rest)"
  shows "read_number 10 3 False 256 (dec n @ rest) = Some (n, rest)"
proof -
  have "read_digits 10 3 0 0 (dec n @ rest) = Some (n, length (dec n), rest)"
    using read_digits_prefix [of 10 "dec n" rest 0 3 0] dec_digits [of n] length_dec(3) [of n] assms
    by (auto simp: list_all_iff to_digit_10 not_digit_10 foldl_dec)
  moreover have "\<not> 1 < length (dec n)" if "hd (dec n) = CHR ''0''"
    using dec_leading_zero [OF that] length_dec(1) [of n] by simp
  ultimately show ?thesis using assms(1) by (auto simp: read_number_def)
qed

text \<open>Hexadecimal numbers.\<close>

lemma of_char_hex: "n < 16 \<Longrightarrow> (of_char (hex_digit n) :: nat) = (if n < 10 then 48 + n else 87 + n)"
  by (simp add: hex_digit_def)

lemma to_digit_hex: "n < 16 \<Longrightarrow> to_digit 16 (hex_digit n) = Some n"
  by (auto simp: to_digit_def of_char_hex Let_def)

lemma hex_digits: "list_all (\<lambda>c. to_digit 16 c \<noteq> None) (hex n)"
proof (induction n rule: hex.induct)
  case (1 n)
  then show ?case by (cases "n < 16") (simp_all add: hex.simps [of n] to_digit_hex)
qed

lemma foldl_hex: "foldl (\<lambda>v c. v * 16 + the (to_digit 16 c)) 0 (hex n) = n"
proof (induction n rule: hex.induct)
  case (1 n)
  then show ?case by (cases "n < 16") (simp_all add: hex.simps [of n] to_digit_hex)
qed

lemma length_hex_pos: "0 < length (hex n)"
  by (subst hex.simps) simp

lemma length_hex: "n < 65536 \<Longrightarrow> length (hex n) \<le> 4"
proof -
  have 1: "length (hex n) = 1" if "n < 16" for n using that by (simp add: hex.simps [of n])
  have 2: "length (hex n) \<le> 2" if "n < 256" for n
    using that 1 [of "n div 16"] by (cases "n < 16") (simp_all add: hex.simps [of n])
  have 3: "length (hex n) \<le> 3" if "n < 4096" for n
    using that 2 [of "n div 16"] by (cases "n < 16") (simp_all add: hex.simps [of n])
  show "n < 65536 \<Longrightarrow> length (hex n) \<le> 4"
    using 3 [of "n div 16"] by (cases "n < 16") (simp_all add: hex.simps [of n])
qed

lemma read_group_hex:
  assumes "rest = [] \<or> to_digit 16 (hd rest) = None"
  shows "read_number 16 4 True 65536 (hex (unat (g :: u16)) @ rest) = Some (unat g, rest)"
proof -
  have "read_digits 16 4 0 0 (hex (unat g) @ rest) = Some (unat g, length (hex (unat g)), rest)"
    using read_digits_prefix [of 16 "hex (unat g)" rest 0 4 0] hex_digits [of "unat g"] length_hex [of "unat g"] assms
    by (simp add: foldl_hex)
  then show ?thesis using length_hex_pos [of "unat g"] by (simp add: read_number_def)
qed

text \<open>The readers take a prefix, and an IPv4 address has a dot.\<close>

lemma read_digits_suffix: "read_digits radix n r k s = Some (v, m, rest) \<Longrightarrow> set rest \<subseteq> set s"
  by (induction radix n r k s rule: read_digits.induct) (auto split: option.splits if_splits)

lemma read_number_suffix: "read_number radix n z b s = Some (v, rest) \<Longrightarrow> set rest \<subseteq> set s"
  by (auto simp: read_number_def bind_eq_Some_conv split: if_splits dest!: read_digits_suffix)

lemma read_ipv4_no_dot:
  assumes "CHR ''.'' \<notin> set s"
  shows "read_ipv4_addr s = None"
proof (cases "read_octet 0 s")
  case (Some p)
  obtain a rest where p: "p = (a, rest)" by (cases p)
  with Some assms have "CHR ''.'' \<notin> set rest"
    by (auto simp: read_octet_def read_separator_def dest: read_number_suffix)
  then have "read_octet 1 rest = None"
    by (cases rest) (auto simp: read_octet_def read_separator_def read_given_char_def)
  with Some p show ?thesis by (simp add: read_ipv4_addr_def)
qed (simp add: read_ipv4_addr_def)

lemma read_ipv4_show:
  assumes "rest = [] \<or> \<not> is_digit (hd rest)"
  shows "read_ipv4_addr (show_ipv4 a @ rest) = Some (a, rest)"
proof (cases a)
  case (Ipv4 a1 a2 a3 a4)
  have d: "read_number 10 3 False 256 (dec (unat (b :: u8)) @ CHR ''.'' # r) = Some (unat b, CHR ''.'' # r)" for b r
    by (rule read_octet_dec) simp_all
  have e: "read_number 10 3 False 256 (dec (unat (b :: u8)) @ rest) = Some (unat b, rest)" for b
    by (rule read_octet_dec) (use assms in simp_all)
  show ?thesis
    by (simp add: Ipv4 read_ipv4_addr_def read_octet_def read_separator_def read_given_char_def d e)
qed

subsection \<open>Reading IPv6 addresses\<close>

fun groups_text :: "bool \<Rightarrow> u16 list \<Rightarrow> string" where
  "groups_text lead [] = []"
| "groups_text lead (g # gs) = (if lead then '':'' else []) @ hex (unat g) @ groups_text True gs"

lemma groups_text_join: "join_str '':'' (map (\<lambda>s. hex (unat s)) gs) = groups_text False gs"
proof (induction gs)
  case (Cons g gs)
  then show ?case by (cases gs) simp_all
qed simp

lemma colon_no_hex [simp]: "to_digit 16 CHR '':'' = None" "to_digit 16 CHR ''.'' = None"
  by (simp_all add: to_digit_def Let_def)

lemma hex_no_dot: "CHR ''.'' \<notin> set (hex n)" "CHR '':'' \<notin> set (hex n)"
  using hex_digits [of n] colon_no_hex by (auto simp: list_all_iff)

lemma groups_text_no_dot: "CHR ''.'' \<notin> set (groups_text lead gs)"
  by (induction gs arbitrary: lead) (simp_all add: hex_no_dot)

lemma no_number: "s = [] \<or> to_digit 16 (hd s) = None \<Longrightarrow> read_number 16 n z b s = None"
  by (cases s) (auto simp: read_number_def)

text \<open>What may follow the groups: nothing or a double colon.\<close>

definition after_groups :: "string \<Rightarrow> bool" where
  "after_groups rest \<longleftrightarrow> rest = [] \<or> (\<exists>r. rest = '':'' @ '':'' @ r)"

lemma after_groups_stop: "after_groups rest \<Longrightarrow> rest = [] \<or> to_digit 16 (hd rest) = None"
  by (auto simp: after_groups_def)

lemma no_group:
  assumes "after_groups rest"
  shows "read_separator CHR '':'' i (read_number 16 4 True 65536) rest = None"
  using assms by (auto simp: after_groups_def read_separator_def read_given_char_def no_number)

lemma no_ipv4: "CHR ''.'' \<notin> set s \<Longrightarrow> read_separator CHR '':'' i read_ipv4_addr s = None"
  by (cases s) (auto simp: read_separator_def read_given_char_def read_ipv4_no_dot)

lemma read_groups_text:
  assumes "length gs \<le> k" and "after_groups rest" and "CHR ''.'' \<notin> set rest"
  shows "read_groups k i (groups_text (0 < i) gs @ rest) = (gs, False, rest)"
  using assms(1)
proof (induction gs arbitrary: k i)
  case Nil
  show ?case using no_group [OF assms(2)] no_ipv4 [OF assms(3)] by (cases k) simp_all
next
  case (Cons g gs)
  then obtain k' where k: "k = Suc k'" by (cases k) auto
  let ?text = "groups_text (0 < i) (g # gs) @ rest"
  have next_stop: "groups_text True gs @ rest = [] \<or> to_digit 16 (hd (groups_text True gs @ rest)) = None"
    using after_groups_stop [OF assms(2)] by (cases gs) auto
  have "read_separator CHR '':'' i (read_number 16 4 True 65536) ?text =
      Some (unat g, groups_text True gs @ rest)"
    using read_group_hex [OF next_stop, of g] by (simp add: read_separator_def read_given_char_def)
  moreover have "read_separator CHR '':'' i read_ipv4_addr ?text = None"
    by (rule no_ipv4) (simp add: hex_no_dot groups_text_no_dot assms(3))
  moreover have "read_groups k' (Suc i) (groups_text True gs @ rest) = (gs, False, rest)"
    using Cons.IH [of k' "Suc i"] Cons.prems k by simp
  moreover have "gs = []" if "k' = 0" using Cons.prems k that by simp
  ultimately show ?case by (auto simp: k)
qed

lemma read_groups_first:
  assumes "length gs \<le> k" and "after_groups rest" and "CHR ''.'' \<notin> set rest"
  shows "read_groups k 0 (groups_text False gs @ rest) = (gs, False, rest)"
  using read_groups_text [OF assms, of 0] by simp

text \<open>The run of zeros that the printer leaves out lies within the address.\<close>

definition zero_run :: "u16 list \<Rightarrow> nat \<times> nat \<Rightarrow> bool" where
  "zero_run ss r \<longleftrightarrow> fst r + snd r \<le> length ss \<and> (\<forall>j < snd r. ss ! (fst r + j) = 0)"

lemma zero_runs_inv:
  assumes "zero_run ss longest" and "snd cur = 0 \<or> fst cur + snd cur = i" and "snd cur = 0 \<or> zero_run ss cur"
    and "drop i ss = rest" and "i \<le> length ss"
  shows "zero_run ss (zero_runs i rest longest cur)"
  using assms
proof (induction i rest longest cur rule: zero_runs.induct)
  case (2 i s rest longest cur)
  have i: "i < length ss" and s: "ss ! i = s" and rest: "drop (Suc i) ss = rest"
    using 2(6) by (auto simp: drop_Suc nth_via_drop tl_drop dest: arg_cong [where f = tl]) (metis drop_eq_Nil list.distinct(1) not_less)
  show ?case
  proof (cases "s = 0")
    case True
    define cur' where "cur' = (if snd cur = 0 then i else fst cur, snd cur + 1)"
    have pos: "fst cur' + snd cur' = Suc i" using 2(4) by (auto simp: cur'_def)
    have run: "zero_run ss cur'"
      using 2(4,5) True s i by (auto simp: zero_run_def cur'_def less_Suc_eq)
    have "zero_run ss (zero_runs (Suc i) rest (if snd longest < snd cur' then cur' else longest) cur')"
      by (rule 2(1) [OF True cur'_def])
        (use 2(3) run pos rest i in auto)
    moreover have "zero_runs i (s # rest) longest cur =
        zero_runs (Suc i) rest (if snd longest < snd cur' then cur' else longest) cur'"
      by (simp add: True cur'_def Let_def)
    ultimately show ?thesis by simp
  next
    case False
    with 2(2) [OF False] 2(3) rest i show ?thesis by simp
  qed
qed simp

lemma zero_runs_ok: "zero_run ss (zero_runs 0 ss (0, 0) (0, 0))"
  by (rule zero_runs_inv) (simp_all add: zero_run_def)

lemma zero_run_split:
  assumes "zero_run ss (start, len)"
  shows "ss = take start ss @ replicate len 0 @ drop (start + len) ss"
proof -
  have "take len (drop start ss) = replicate len 0"
    using assms by (auto simp: zero_run_def list_eq_iff_nth_eq)
  then show ?thesis by (metis append_take_drop_id drop_drop add.commute)
qed

lemma ipv6_of_segments [simp]: "ipv6_of (segments6 a) = a"
  by (cases a) simp

lemma length_segments6 [simp]: "length (segments6 a) = 8"
  by (cases a) simp

lemma read_ipv6_plain: "read_ipv6_addr (groups_text False (segments6 a)) = Some (a, [])"
  using read_groups_first [of "segments6 a" 8 "[]"] by (simp add: read_ipv6_addr_def after_groups_def)

lemma read_ipv6_compressed:
  assumes "zero_run (segments6 a) (start, len)" and "1 < len"
  shows "read_ipv6_addr (groups_text False (take start (segments6 a)) @ ''::'' @
     groups_text False (drop (start + len) (segments6 a))) = Some (a, [])"
proof -
  let ?ss = "segments6 a"
  let ?tail = "groups_text False (drop (start + len) ?ss)"
  have le: "start + len \<le> 8" using assms(1) by (simp add: zero_run_def)
  have "read_groups 8 0 (groups_text False (take start ?ss) @ ''::'' @ ?tail) = (take start ?ss, False, ''::'' @ ?tail)"
    by (rule read_groups_first) (use le in \<open>auto simp: after_groups_def groups_text_no_dot\<close>)
  moreover have "read_groups (7 - start) 0 (?tail @ []) = (drop (start + len) ?ss, False, [])"
    by (rule read_groups_first) (use le assms(2) in \<open>auto simp: after_groups_def\<close>)
  moreover have "take start ?ss @ replicate (8 - start - (8 - (start + len))) 0 @ drop (start + len) ?ss = ?ss"
    using zero_run_split [OF assms(1)] le by simp
  ultimately show ?thesis
    using le assms(2) by (simp add: read_ipv6_addr_def read_given_char_def min_def)
qed

text \<open>An IPv4-mapped address is printed with its IPv4 part.\<close>

lemma read_groups_numeral:
  "read_groups (numeral n) i s =
     (case (if 0 < pred_numeral n then read_separator CHR '':'' i read_ipv4_addr s else None) of
        Some (Ipv4 a b c d, rest) \<Rightarrow> ([from_be16 a b, from_be16 c d], True, rest)
      | None \<Rightarrow>
          (case read_separator CHR '':'' i (read_number 16 4 True 65536) s of
             None \<Rightarrow> ([], False, s)
           | Some (g, rest) \<Rightarrow>
               (case read_groups (pred_numeral n) (Suc i) rest of (gs, v4, rest') \<Rightarrow> (word_of_nat g # gs, v4, rest'))))"
  unfolding numeral_eq_Suc [of n] by (rule read_groups.simps)

lemma read_ipv6_mapped:
  "read_ipv6_addr (''::ffff:'' @ show_ipv4 (Ipv4 a b c d)) = Some (Ipv6 0 0 0 0 0 0xFFFF (from_be16 a b) (from_be16 c d), [])"
proof -
  let ?v = "show_ipv4 (Ipv4 a b c d)"
  have colon: "read_ipv4_addr (CHR '':'' # s) = None" "read_ipv4_addr (CHR ''f'' # s) = None" for s
    by (simp_all add: read_ipv4_addr_def read_octet_def read_separator_def read_number_def to_digit_def Let_def)
  have g8: "read_groups 8 0 (''::ffff:'' @ ?v) = ([], False, ''::ffff:'' @ ?v)"
    by (simp add: read_groups_numeral read_separator_def colon no_number del: show_ipv4_simp)
  have n: "read_number 16 4 True 65536 (''ffff:'' @ ?v) = Some (65535, '':'' @ ?v)"
  proof -
    have f: "char_of (102 :: nat) = CHR ''f''" using char_of_char [of "CHR ''f''", where 'a = nat] by simp
    have "hex (unat (0xFFFF :: u16)) = ''ffff''"
      by (simp add: hex.simps [of 65535] hex.simps [of 4095] hex.simps [of 255] hex.simps [of 15] hex_digit_def f)
    then show ?thesis using read_group_hex [of "'':'' @ ?v" "0xFFFF"] by (simp del: show_ipv4_simp)
  qed
  have v: "read_ipv4_addr ?v = Some (Ipv4 a b c d, [])"
    using read_ipv4_show [of "[]" "Ipv4 a b c d"] by simp
  have g6: "read_groups 6 (Suc 0) ('':'' @ ?v) = ([from_be16 a b, from_be16 c d], True, [])"
    unfolding read_groups_numeral using v by (simp add: read_separator_def read_given_char_def del: show_ipv4_simp)
  have "read_separator CHR '':'' 0 read_ipv4_addr (''ffff:'' @ ?v) = None"
    "read_separator CHR '':'' 0 (read_number 16 4 True 65536) (''ffff:'' @ ?v) = Some (65535, '':'' @ ?v)"
    using n by (simp_all add: read_separator_def colon del: show_ipv4_simp)
  then have g7: "read_groups 7 0 (''ffff:'' @ ?v) = ([0xFFFF, from_be16 a b, from_be16 c d], True, [])"
    by (subst read_groups_numeral) (simp add: g6 [unfolded append.simps] del: show_ipv4_simp)
  have five: "replicate 5 (0 :: u16) = [0, 0, 0, 0, 0]" by (simp add: numeral_eq_Suc)
  have "read_given_char CHR '':'' (''::ffff:'' @ ?v) = Some ('':ffff:'' @ ?v)"
    "read_given_char CHR '':'' ('':ffff:'' @ ?v) = Some (''ffff:'' @ ?v)"
    by (simp_all add: read_given_char_def del: show_ipv4_simp)
  with g8 g7 show ?thesis
    unfolding read_ipv6_addr_def by (simp add: five del: show_ipv4_simp)
qed

lemma segments6_mapped:
  assumes "take 5 (segments6 a) = replicate 5 0" and "segments6 a ! 5 = 0xFFFF"
  shows "a = Ipv6 0 0 0 0 0 0xFFFF (segments6 a ! 6) (segments6 a ! 7)"
  using assms by (cases a) (simp add: numeral_eq_Suc)

lemma read_ipv6_show: "read_ipv6_addr (show_ipv6 a) = Some (a, [])"
proof (cases "take 5 (segments6 a) = replicate 5 0 \<and> segments6 a ! 5 = 0xFFFF")
  case True
  then show ?thesis
    using segments6_mapped [of a] read_ipv6_mapped [of "hi_byte (segments6 a ! 6)" "lo_byte (segments6 a ! 6)"
        "hi_byte (segments6 a ! 7)" "lo_byte (segments6 a ! 7)"]
    by (simp add: show_ipv6_def Let_def del: show_ipv4_simp)
next
  case False
  obtain start len where z: "zero_runs 0 (segments6 a) (0, 0) (0, 0) = (start, len)" by (cases "zero_runs 0 (segments6 a) (0, 0) (0, 0)")
  have run: "zero_run (segments6 a) (start, len)" using zero_runs_ok [of "segments6 a"] by (simp add: z)
  from False z show ?thesis
    using read_ipv6_plain [of a] read_ipv6_compressed [OF run]
    by (auto simp: show_ipv6_def Let_def groups_text_join)
qed

lemma show_ipv6_not_ipv4: "read_ipv4_addr (show_ipv6 a) = None"
proof (cases "take 5 (segments6 a) = replicate 5 0 \<and> segments6 a ! 5 = 0xFFFF")
  case True
  have "read_ipv4_addr (CHR '':'' # s) = None" for s
    by (simp add: read_ipv4_addr_def read_octet_def read_separator_def read_number_def to_digit_def Let_def)
  with True show ?thesis by (simp add: show_ipv6_def Let_def)
next
  case False
  then show ?thesis
    by (auto simp: show_ipv6_def Let_def groups_text_join groups_text_no_dot intro!: read_ipv4_no_dot
        split: prod.splits)
qed

text \<open>Every printed address is read back, so printing is injective.\<close>

lemma parse_show_ip: "parse_ip (show_ip ip) = Some ip"
  using read_ipv4_show [of "[]"] by (cases ip) (simp_all add: parse_ip_def show_ipv6_not_ipv4 read_ipv6_show)

lemma show_ip_inject [simp]: "show_ip a = show_ip b \<longleftrightarrow> a = b"
  by (metis parse_show_ip option.inject)

end
