(* ===== verification/NodeRun.thy ===== *)
theory NodeRun
  imports Node IpText
begin

text \<open>
  The running node (crate lb-node, main.rs, after the start): the watcher thread, the reload task,
  the event pump, the BGP session tasks, the signal handler and the main loop, each a kind of step
  over the state \<open>node\<close>, in any order. The controller is behind a mutex, so each of its operations
  is one step; the reload task stores the new matcher before it takes the mutex, so a reload is two
  steps. The event pump and the reload task read unbounded channels in order.

  Nothing in the binary reports the health of a backend to the controller: there is no step for
  it, and the theorems below say what follows for the running program.
\<close>

definition alive :: "node \<Rightarrow> bool" where
  "alive n \<longleftrightarrow> (\<forall>code. nd_drain n \<noteq> Exited code)"

text \<open>The events a task has added to the channel in a step.\<close>

definition new_events :: "session \<Rightarrow> session \<Rightarrow> bgp_event list" where
  "new_events s s' = drop (length (ss_events s)) (ss_events s')"

text \<open>The two halves of a reload.\<close>

definition reload_swap :: "node \<Rightarrow> node option" where
  "reload_swap n =
     (case (nd_reloading n, nd_inbox n) of
        (None, lb # rest) \<Rightarrow> Some (n\<lparr>nd_inbox := rest, nd_matcher := build_vip_matcher lb, nd_reloading := Some lb\<rparr>)
      | _ \<Rightarrow> None)"

definition reload_apply ::
    "(u8 list \<Rightarrow> u64 \<Rightarrow> u64) \<Rightarrow> (string \<Rightarrow> lb_config \<Rightarrow> cache_error + string) \<Rightarrow> node \<Rightarrow> node option" where
  "reload_apply xxh3 saved n =
     (case nd_reloading n of
        None \<Rightarrow> None
      | Some lb \<Rightarrow>
          map_option (\<lambda>(ctl, _). n\<lparr>nd_ctl := ctl, nd_reloading := None\<rparr>)
            (apply_config xxh3 speaker_ops saved lb (nd_ctl n)))"

definition pump_step :: "node \<Rightarrow> node option" where
  "pump_step n =
     (case nd_events n of
        [] \<Rightarrow> None
      | evt # rest \<Rightarrow>
          (let (m, ctl) = pump_event speaker_ops evt (nd_metrics n) (nd_ctl n)
           in Some (n\<lparr>nd_events := rest, nd_metrics := m, nd_ctl := ctl\<rparr>)))"

text \<open>The stages of the signal handler; the last one is \<^verbatim>\<open>process::exit(0)\<close>.\<close>

definition all_tasks_gone :: "node \<Rightarrow> bool" where
  "all_tasks_gone n \<longleftrightarrow>
     (\<forall>sp. ct_bgp (nd_ctl n) = Some sp \<longrightarrow> (\<forall>p \<in> set (sp_peers sp). task_gone (ph_session p)))"

definition close_sessions :: "bgp_speaker controller \<Rightarrow> bgp_speaker controller" where
  "close_sessions c = c\<lparr>ct_bgp := map_option speaker_shutdown (ct_bgp c)\<rparr>"

definition signal_step :: "node \<Rightarrow> node option" where
  "signal_step n =
     (case nd_drain n of
        Serving \<Rightarrow> Some (n\<lparr>nd_shutdown := True, nd_ctl := withdraw_all speaker_ops (nd_ctl n), nd_drain := Withdrawn\<rparr>)
      | Withdrawn \<Rightarrow> Some (n\<lparr>nd_ctl := close_sessions (nd_ctl n), nd_drain := Closing\<rparr>)
      | Closing \<Rightarrow> if all_tasks_gone n then Some (n\<lparr>nd_threads := tg_stop (nd_threads n), nd_drain := Stopping\<rparr>) else None
      | Stopping \<Rightarrow> Some (n\<lparr>nd_drain := Exited 0\<rparr>)
      | Exited _ \<Rightarrow> None)"

text \<open>A turn of the main loop, once a second.\<close>

definition main_poll :: "node \<Rightarrow> node" where
  "main_poll n = (if \<not> tg_is_running (nd_threads n) then n\<lparr>nd_drain := Exited 1\<rparr> else n)"

inductive node_step ::
    "(string \<Rightarrow> string option) \<Rightarrow> (u8 list \<Rightarrow> u64 \<Rightarrow> u64) \<Rightarrow> boot_io \<Rightarrow> node \<Rightarrow> node \<Rightarrow> bool"
  for env :: "string \<Rightarrow> string option" and xxh3 :: "u8 list \<Rightarrow> u64 \<Rightarrow> u64" and io :: boot_io where
  watched: "nd_watching n \<Longrightarrow>
    wait_for_change (bi_from_json io) (bi_order io) (path_of (cp_config_file (nc_control_plane (nd_config n)))) turns = Some (Some lb) \<Longrightarrow>
    list_ex fst turns \<longrightarrow> nd_shutdown n \<Longrightarrow>
    node_step env xxh3 io n (n\<lparr>nd_inbox := nd_inbox n @ [lb]\<rparr>)"
| unwatched: "nd_watching n \<Longrightarrow>
    wait_for_change (bi_from_json io) (bi_order io) (path_of (cp_config_file (nc_control_plane (nd_config n)))) turns = Some None \<Longrightarrow>
    list_ex fst turns \<longrightarrow> nd_shutdown n \<Longrightarrow>
    node_step env xxh3 io n (n\<lparr>nd_watching := False\<rparr>)"
| swapped: "reload_swap n = Some n' \<Longrightarrow> node_step env xxh3 io n n'"
| applied: "reload_apply xxh3 (bi_saved io) n = Some n' \<Longrightarrow> node_step env xxh3 io n n'"
| pumped: "pump_step n = Some n' \<Longrightarrow> node_step env xxh3 io n n'"
| task: "ct_bgp (nd_ctl n) = Some sp \<Longrightarrow> i < length (sp_peers sp) \<Longrightarrow> ph_enabled (sp_peers sp ! i) \<Longrightarrow>
    session_step env (ph_ctx (sp_peers sp ! i)) now l (ph_session (sp_peers sp ! i)) = Some s' \<Longrightarrow>
    \<forall>cmd. l \<noteq> Send cmd \<Longrightarrow> l \<noteq> DropSender \<Longrightarrow>
    node_step env xxh3 io n
      (n\<lparr>nd_ctl := nd_ctl n\<lparr>ct_bgp := Some (update_peer i s' sp)\<rparr>,
         nd_events := nd_events n @ new_events (ph_session (sp_peers sp ! i)) s'\<rparr>)"
| disabled_task: "ct_bgp (nd_ctl n) = Some sp \<Longrightarrow> i < length (sp_peers sp) \<Longrightarrow> \<not> ph_enabled (sp_peers sp ! i) \<Longrightarrow>
    disabled_step (ph_session (sp_peers sp ! i)) = Some s' \<Longrightarrow>
    node_step env xxh3 io n (n\<lparr>nd_ctl := nd_ctl n\<lparr>ct_bgp := Some (update_peer i s' sp)\<rparr>\<rparr>)"
| signalled: "signal_step n = Some n' \<Longrightarrow> node_step env xxh3 io n n'"
| thread_ends: "i < length (tg_finished (nd_threads n)) \<Longrightarrow>
    node_step env xxh3 io n
      (n\<lparr>nd_threads := (nd_threads n)\<lparr>tg_finished := (tg_finished (nd_threads n))[i := True]\<rparr>\<rparr>)"
| polled: "node_step env xxh3 io n (main_poll n)"

text \<open>A run stops with the process.\<close>

inductive node_run ::
    "(string \<Rightarrow> string option) \<Rightarrow> (u8 list \<Rightarrow> u64 \<Rightarrow> u64) \<Rightarrow> boot_io \<Rightarrow> (node \<Rightarrow> bool) \<Rightarrow> node \<Rightarrow> node \<Rightarrow> bool"
  for env :: "string \<Rightarrow> string option" and xxh3 :: "u8 list \<Rightarrow> u64 \<Rightarrow> u64" and io :: boot_io
    and during :: "node \<Rightarrow> bool" where
  node_run_start: "during n \<Longrightarrow> node_run env xxh3 io during n n"
| node_run_step: "node_run env xxh3 io during n0 n \<Longrightarrow> alive n \<Longrightarrow> node_step env xxh3 io n n' \<Longrightarrow> during n' \<Longrightarrow>
    node_run env xxh3 io during n0 n'"

lemma node_run_invariant:
  assumes "node_run env xxh3 io during n0 n" and "P n0"
    and "\<And>n n'. node_step env xxh3 io n n' \<Longrightarrow> alive n \<Longrightarrow> during n \<Longrightarrow> during n' \<Longrightarrow> P n \<Longrightarrow> P n'"
  shows "P n \<and> during n"
  using assms(1,2)
proof (induction rule: node_run.induct)
  case (node_run_step n0 n n')
  then show ?case using assms(3) by blast
qed simp

subsection \<open>Matcher and tables\<close>

text \<open>
  Outside a reload the matcher is that of the controller's configuration, whose pools all have
  current tables; during one it is that of the configuration being applied.
\<close>

definition good_lb :: "lb_config \<Rightarrow> bool" where
  "good_lb lb \<longleftrightarrow> valid_config lb \<and> lb_config_ok lb"

definition matcher_inv :: "(u8 list \<Rightarrow> u64 \<Rightarrow> u64) \<Rightarrow> node \<Rightarrow> bool" where
  "matcher_inv xxh3 n \<longleftrightarrow> ctl_quiet xxh3 (nd_ctl n) \<and> list_all good_lb (nd_inbox n) \<and>
     (\<forall>lb. ct_config (nd_ctl n) = Some lb \<longrightarrow> good_lb lb) \<and>
     (case nd_reloading n of
        Some lb \<Rightarrow> good_lb lb \<and> nd_matcher n = build_vip_matcher lb
      | None \<Rightarrow> nd_matcher n = (case ct_config (nd_ctl n) of
                  None \<Rightarrow> vip_matcher_new | Some lb \<Rightarrow> build_vip_matcher lb))"

definition sane_files :: "boot_io \<Rightarrow> bool" where
  "sane_files io \<longleftrightarrow> (\<forall>c. set (bi_order io c) = dom (pool_map c)) \<and>
     (\<forall>json lb. bi_from_json io json = Inr lb \<longrightarrow> lb_config_ok lb)"

lemma quiet_cong:
  assumes "ctl_quiet xxh3 c" and "ct_bgp c' \<noteq> None"
    and "ct_lookup_tables c' = ct_lookup_tables c" "ct_health_status c' = ct_health_status c"
    "ct_config c' = ct_config c" "ct_backend_pool_index c' = ct_backend_pool_index c"
    "ct_pending_pools c' = ct_pending_pools c" "ct_pending_since c' = ct_pending_since c"
    "ct_table_size c' = ct_table_size c"
  shows "ctl_quiet xxh3 c'"
  using assms
  by (cases "ct_config c") (auto simp: ctl_quiet_def ctl_inv_def table_current_def)

lemma quiet_bgp: "ctl_quiet xxh3 c \<Longrightarrow> ctl_quiet xxh3 (c\<lparr>ct_bgp := Some sp\<rparr>)"
  by (rule quiet_cong, assumption) simp_all

lemma quiet_reannounce: "ctl_quiet xxh3 c \<Longrightarrow> ctl_quiet xxh3 (reannounce_all speaker_ops c)"
  by (rule quiet_cong, assumption) (auto simp: reannounce_all_def ctl_quiet_def Let_def split: option.splits)

lemma quiet_withdraw: "ctl_quiet xxh3 c \<Longrightarrow> ctl_quiet xxh3 (withdraw_all speaker_ops c)"
  by (rule quiet_cong, assumption) (auto simp: withdraw_all_def ctl_quiet_def Let_def split: option.splits)

lemma quiet_close: "ctl_quiet xxh3 c \<Longrightarrow> ctl_quiet xxh3 (close_sessions c)"
  by (rule quiet_cong, assumption) (auto simp: close_sessions_def ctl_quiet_def)

lemma handed_on_good:
  assumes "sane_files io"
    and "wait_for_change (bi_from_json io) (bi_order io) path turns = Some (Some lb)"
  shows "good_lb lb"
  using assms(2)
proof (induction turns)
  case (Cons turn turns)
  obtain shutdown p where turn: "turn = (shutdown, p)" by (cases turn)
  show ?case
  proof (cases p)
    case (GotEvent ev contents)
    show ?thesis
    proof (cases "try_reload (bi_from_json io) (bi_order io) contents")
      case (Inr lb')
      have "set (bi_order io lb') = dom (pool_map lb')" using assms(1) by (simp add: sane_files_def)
      from try_reload_valid [OF this Inr] assms(1) have "good_lb lb'"
        by (auto simp: good_lb_def sane_files_def)
      with Cons turn GotEvent Inr show ?thesis by (auto split: if_splits)
    qed (use Cons turn GotEvent in \<open>auto split: if_splits\<close>)
  qed (use Cons turn in \<open>auto split: if_splits\<close>)
qed simp

lemma initial_good:
  assumes "sane_files io" and "initial_lb_config io = Some lb"
  shows "good_lb lb"
proof -
  from assms(2) have "try_reload (bi_from_json io) (bi_order io) (bi_lb_file io) = Inr lb"
    by (auto simp: initial_lb_config_def watcher_new_def split: if_splits sum.splits option.splits)
  moreover have "set (bi_order io lb) = dom (pool_map lb)" using assms(1) by (simp add: sane_files_def)
  ultimately obtain json where "valid_config lb" "bi_from_json io json = Inr lb"
    using try_reload_valid [of "bi_order io" lb "bi_from_json io" "bi_lb_file io"] by blast
  with assms(1) show ?thesis by (auto simp: good_lb_def sane_files_def)
qed

lemma pump_cases:
  assumes "pump_step n = Some n'"
  obtains evt rest where "nd_events n = evt # rest"
    and "n' = n\<lparr>nd_events := rest, nd_metrics := pump_metrics evt (nd_metrics n),
               nd_ctl := (if is_connect evt then reannounce_all speaker_ops (nd_ctl n) else nd_ctl n)\<rparr>"
  using assms by (auto simp: pump_step_def pump_event_def split: list.splits)

lemma swap_cases:
  assumes "reload_swap n = Some n'"
  obtains lb rest where "nd_reloading n = None" "nd_inbox n = lb # rest"
    and "n' = n\<lparr>nd_inbox := rest, nd_matcher := build_vip_matcher lb, nd_reloading := Some lb\<rparr>"
  using assms by (auto simp: reload_swap_def split: option.splits list.splits)

lemma apply_cases:
  assumes "reload_apply xxh3 saved n = Some n'"
  obtains lb ctl w where "nd_reloading n = Some lb"
    and "apply_config xxh3 speaker_ops saved lb (nd_ctl n) = Some (ctl, w)"
    and "n' = n\<lparr>nd_ctl := ctl, nd_reloading := None\<rparr>"
  using assms by (auto simp: reload_apply_def split: option.splits)

lemma signal_cases:
  assumes "signal_step n = Some n'"
  obtains (withdraw) "nd_drain n = Serving"
      "n' = n\<lparr>nd_shutdown := True, nd_ctl := withdraw_all speaker_ops (nd_ctl n), nd_drain := Withdrawn\<rparr>"
    | (close) "nd_drain n = Withdrawn" "n' = n\<lparr>nd_ctl := close_sessions (nd_ctl n), nd_drain := Closing\<rparr>"
    | (stop) "nd_drain n = Closing" "all_tasks_gone n"
        "n' = n\<lparr>nd_threads := tg_stop (nd_threads n), nd_drain := Stopping\<rparr>"
    | (exit) "nd_drain n = Stopping" "n' = n\<lparr>nd_drain := Exited 0\<rparr>"
  using assms by (auto simp: signal_step_def split: drain.splits if_splits)

lemma matcher_inv_cong:
  assumes "matcher_inv xxh3 n" and "ctl_quiet xxh3 (nd_ctl n')"
    and "ct_config (nd_ctl n') = ct_config (nd_ctl n)" "nd_matcher n' = nd_matcher n"
    "nd_inbox n' = nd_inbox n" "nd_reloading n' = nd_reloading n"
  shows "matcher_inv xxh3 n'"
  using assms by (cases "nd_reloading n") (simp_all add: matcher_inv_def)

lemma matcher_inv_quiet: "matcher_inv xxh3 n \<Longrightarrow> ctl_quiet xxh3 (nd_ctl n)"
  by (simp add: matcher_inv_def)

lemma node_step_matcher:
  assumes "sane_files io" and "node_step env xxh3 io n n'" and inv: "matcher_inv xxh3 n"
  shows "matcher_inv xxh3 n'"
  using assms(2)
proof (cases rule: node_step.cases)
  case (watched turns lb)
  with inv handed_on_good [OF assms(1)] show ?thesis
    by (auto simp: matcher_inv_def split: option.splits)
next
  case swapped
  with inv show ?thesis by (auto elim!: swap_cases simp: matcher_inv_def)
next
  case applied
  then obtain lb ctl w where a: "nd_reloading n = Some lb"
    "apply_config xxh3 speaker_ops (bi_saved io) lb (nd_ctl n) = Some (ctl, w)"
    "n' = n\<lparr>nd_ctl := ctl, nd_reloading := None\<rparr>" by (rule apply_cases)
  from inv a(1) have lb: "good_lb lb" "nd_matcher n = build_vip_matcher lb" "ctl_quiet xxh3 (nd_ctl n)"
    by (simp_all add: matcher_inv_def)
  from apply_config_quiet [OF lb(3), of lb "bi_saved io"] lb(1) a(2)
  have "ctl_quiet xxh3 ctl" "ct_config ctl = Some lb" by (auto simp: good_lb_def)
  with inv a lb show ?thesis by (simp add: matcher_inv_def)
next
  case pumped
  then show ?thesis
  proof (rule pump_cases)
    fix evt rest
    assume n': "n' = n\<lparr>nd_events := rest, nd_metrics := pump_metrics evt (nd_metrics n),
               nd_ctl := (if is_connect evt then reannounce_all speaker_ops (nd_ctl n) else nd_ctl n)\<rparr>"
    have "ct_config (reannounce_all speaker_ops c) = ct_config c" for c
      by (simp add: reannounce_all_def Let_def split: option.splits)
    with n' quiet_reannounce [OF matcher_inv_quiet [OF inv]] matcher_inv_quiet [OF inv] show ?thesis
      by (intro matcher_inv_cong [OF inv]) simp_all
  qed
next
  case (task sp i now l s')
  with quiet_bgp [OF matcher_inv_quiet [OF inv]] show ?thesis by (intro matcher_inv_cong [OF inv]) simp_all
next
  case (disabled_task sp i s')
  with quiet_bgp [OF matcher_inv_quiet [OF inv]] show ?thesis by (intro matcher_inv_cong [OF inv]) simp_all
next
  case signalled
  have "ct_config (withdraw_all speaker_ops c) = ct_config c" "ct_config (close_sessions c) = ct_config c" for c
    by (simp_all add: withdraw_all_def close_sessions_def Let_def split: option.splits)
  with quiet_withdraw [OF matcher_inv_quiet [OF inv]] quiet_close [OF matcher_inv_quiet [OF inv]]
    matcher_inv_quiet [OF inv] show ?thesis
    by (rule_tac signal_cases [OF signalled]; intro matcher_inv_cong [OF inv]; simp)
qed (rule matcher_inv_cong [OF inv]; use inv in \<open>simp add: matcher_inv_quiet main_poll_def\<close>)+

text \<open>What a start gives, for the invariants of the run.\<close>

lemma boot_Started:
  assumes "boot xxh3 accept io now cores checking = Some (Started n)"
  obtains matcher ctl where "boot_controller xxh3 io (nd_config n) = Some (matcher, ctl)"
    "nd_matcher n = matcher" "nd_ctl n = ctl" "nd_events n = []" "nd_inbox n = []"
    "nd_reloading n = None" "nd_metrics n = bgp_metrics_new" "nd_drain n = Serving"
proof -
  from assms obtain str config where io: "bi_config_file io = Inr str" "bi_parse_toml io str = Inr config"
    "\<not> checking" "check_node_config_perms (bi_mode io) config"
    unfolding boot_def by (auto split: sum.split_asm if_split_asm)
  note boot = assms [unfolded boot_def io(1,2) sum.case Let_def]
  with io(3,4) obtain matcher ctl where ctl: "boot_controller xxh3 io config = Some (matcher, ctl)"
    by (auto simp: bind_eq_Some_conv)
  obtain mtu where mtu: "mtu_config_new (fs_network_mtu (nc_forwarder config)) = Inr mtu"
    using boot io(3,4) ctl by (cases "mtu_config_new (fs_network_mtu (nc_forwarder config))") simp_all
  obtain started where started: "start_forwarder accept io config (forwarder_config_of config mtu) matcher ctl now cores = Some started"
    using boot io(3,4) ctl mtu by (auto simp: bind_eq_Some_conv)
  with boot io(3,4) ctl mtu obtain threads where "started = Inr threads" by (cases started) simp_all
  with boot io(3,4) ctl mtu started that show thesis by fastforce
qed

lemma boot_started:
  assumes "boot xxh3 accept io now cores checking = Some (Started n)"
    and "\<And>lb. initial_lb_config io = Some lb \<Longrightarrow> lb_config_ok lb"
  shows "\<exists>sp. ct_bgp (nd_ctl n) = Some sp \<and> ctl_quiet xxh3 (nd_ctl n) \<and> sys_inv (nd_ctl n) \<and>
     ct_config (nd_ctl n) = initial_lb_config io \<and>
     nd_matcher n = (case initial_lb_config io of None \<Rightarrow> vip_matcher_new | Some lb \<Rightarrow> build_vip_matcher lb) \<and>
     nd_events n = [] \<and> nd_inbox n = [] \<and> nd_reloading n = None \<and> nd_metrics n = bgp_metrics_new \<and>
     nd_drain n = Serving \<and>
     (\<forall>(ip, ctx, enabled, phase, events) \<in> set (tasks sp). events = [] \<and> phase = LoopTop \<and> ip = bp_peer_ip (px_peer ctx)) \<and>
     map fst (tasks sp) = (case bgp_router_id (nc_bgp (nd_config n)) of
        V4 _ \<Rightarrow> map bp_peer_ip (bgp_peers (nc_bgp (nd_config n))) | V6 _ \<Rightarrow> [])"
proof -
  from assms(1) obtain matcher ctl where c: "boot_controller xxh3 io (nd_config n) = Some (matcher, ctl)"
    and n: "nd_matcher n = matcher" "nd_ctl n = ctl" "nd_events n = []" "nd_inbox n = []"
      "nd_reloading n = None" "nd_metrics n = bgp_metrics_new" "nd_drain n = Serving"
    by (rule boot_Started)
  from boot_controller_ok [where io = io and config = "nd_config n" and ?xxh3.0 = xxh3, OF assms(2)] c n
  show ?thesis by auto
qed

lemma boot_matcher_inv:
  assumes "boot xxh3 accept io now cores checking = Some (Started n)" and "sane_files io"
  shows "matcher_inv xxh3 n"
proof -
  have lb: "lb_config_ok lb" if "initial_lb_config io = Some lb" for lb
    using initial_good [OF assms(2) that] by (simp add: good_lb_def)
  from boot_started [OF assms(1) lb] initial_good [OF assms(2)] show ?thesis
    by (auto simp: matcher_inv_def split: option.splits)
qed

text \<open>What the tables and the matcher of a configuration give for a packet.\<close>

lemma matched_entry:
  "match_packet (matcher_from_entries es) dst pr port = Some pool \<Longrightarrow> (dst, pr, port, pool) \<in> set es"
proof (induction es rule: rev_induct)
  case Nil
  then show ?case by (simp add: match_packet_def matcher_from_entries_def vip_matcher_new_def)
next
  case (snoc e es)
  then show ?case by (cases e) (auto simp: match_packet_snoc split: if_splits)
qed

lemma built_matcher:
  assumes "match_packet (build_vip_matcher lb) dst pr port = Some pool"
  shows "\<exists>v \<in> set (lc_vips lb). \<exists>svc \<in> set (vip_services v). vip_address v = dst \<and>
     svc_protocol svc = pr \<and> svc_port svc = port \<and> svc_backend_pool svc = pool"
  using matched_entry [OF assms [unfolded build_vip_matcher_def]] by (auto simp: vip_entries_def)

lemma quiet_tables:
  assumes "ctl_quiet xxh3 c" and "ct_config c = Some lb" and "p \<in> set (lc_pools lb)"
    and "\<exists>b \<in> set (table_backends Map.empty p). 0 < be_weight b"
  shows "\<exists>t b. ct_lookup_tables c (pool_id p) = Some t \<and> table_lookup t h = Some b \<and>
     b \<in> set (table_backends Map.empty p) \<and> 0 < be_weight b"
proof -
  let ?bs = "table_backends Map.empty p"
  from assms(1-3) have current: "table_current xxh3 c p" and size: "ct_table_size c = DEFAULT_TABLE_SIZE"
    and health: "ct_health_status c = Map.empty" and pool: "length (pool_backends p) < 2 ^ 63"
    by (auto simp: ctl_quiet_def ctl_inv_def config_ok_def sized_config_def)
  have len: "length ?bs < 2 ^ 63" using table_backends_length [of Map.empty p] pool by simp
  have ne: "filter (\<lambda>b. 0 < be_weight b) ?bs \<noteq> []" using assms(4) by (auto simp: filter_empty_conv)
  have "length (filter (\<lambda>b. 0 < be_weight b) ?bs) < USIZE_MAX"
    using len length_filter_le le_less_trans USIZE_bound by blast
  then obtain t where t: "build_table xxh3 ?bs DEFAULT_TABLE_SIZE = Some (Inr t)"
    using build_table_ok [OF DEFAULT_TABLE_SIZE_ok ne] by blast
  then have "ct_lookup_tables c (pool_id p) = Some t"
    using current by (simp add: table_current_def pool_table_def health size)
  moreover obtain b where "table_lookup t h = Some b" "b \<in> set (lt_backends t)"
    using table_lookup_ok [OF build_table_table_ok [OF DEFAULT_TABLE_SIZE_ok len t]] by blast
  moreover have "lt_backends t = filter (\<lambda>b. 0 < be_weight b) ?bs"
    using build_table_cases(4) [OF DEFAULT_TABLE_SIZE_ok len t] .
  ultimately show ?thesis by auto
qed

text \<open>
  What a packet finds: outside a reload the shared matcher, the configuration in force and the
  shared tables agree, and the table of a pool sends every flow hash to an eligible backend.
\<close>

lemma node_packets_find_backend:
  assumes "boot xxh3 accept io now cores checking = Some (Started n0)" and "sane_files io"
    and "node_run env xxh3 io (\<lambda>_. True) n0 n" and "nd_reloading n = None"
    and "match_packet (nd_matcher n) dst pr port = Some pool"
  shows "\<exists>lb. ct_config (nd_ctl n) = Some lb \<and>
     (\<exists>v \<in> set (lc_vips lb). \<exists>svc \<in> set (vip_services v). vip_address v = dst \<and>
        svc_protocol svc = pr \<and> svc_port svc = port \<and> svc_backend_pool svc = pool) \<and>
     (\<exists>p \<in> set (lc_pools lb). pool_id p = pool \<and>
        ((\<exists>b \<in> set (table_backends Map.empty p). 0 < be_weight b) \<longrightarrow>
         (\<exists>t b. ct_lookup_tables (nd_ctl n) pool = Some t \<and> table_lookup t h = Some b \<and>
            b \<in> set (table_backends Map.empty p) \<and> 0 < be_weight b)))"
proof -
  have inv: "matcher_inv xxh3 n"
    using node_run_invariant [where P = "matcher_inv xxh3", OF assms(3) boot_matcher_inv [OF assms(1,2)]]
      node_step_matcher [OF assms(2)] by blast
  then obtain lb where lb: "ct_config (nd_ctl n) = Some lb" "nd_matcher n = build_vip_matcher lb" "good_lb lb"
    using assms(4,5)
    by (cases "ct_config (nd_ctl n)") (auto simp: matcher_inv_def match_packet_def vip_matcher_new_def)
  from built_matcher [of lb dst pr port pool] assms(5) lb(2) obtain v svc where svc: "v \<in> set (lc_vips lb)"
    "svc \<in> set (vip_services v)" "vip_address v = dst" "svc_protocol svc = pr" "svc_port svc = port"
    "svc_backend_pool svc = pool" by auto
  with lb(3) obtain p where p: "p \<in> set (lc_pools lb)" "pool_id p = pool"
    unfolding good_lb_def valid_config_def by blast
  with quiet_tables [OF matcher_inv_quiet [OF inv] lb(1) p(1), of h] p(2) lb(1) svc p(1) show ?thesis by blast
qed

subsection \<open>The peers\<close>

text \<open>Steps of a task only add events, and a session that comes up adds a connection event.\<close>

lemma run_drive_events: "\<exists>es. ss_events (run_drive ctx now hold ev d s) = ss_events s @ es"
  by (auto simp: run_drive_def enter_backoff_def Let_def split: option.splits prod.splits)

lemma session_step_events:
  assumes "session_step env ctx now l s = Some s'"
  shows "ss_events s' = ss_events s @ new_events s s'"
proof -
  have "\<exists>es. ss_events s' = ss_events s @ es"
  proof (cases l)
    case (ConnectDone io)
    with assms have "s' = run_connected env ctx now io s"
      by (auto simp: session_step_def split: phase.splits sum.splits if_splits)
    then show ?thesis
      by (auto simp: run_connected_def enter_backoff_def Let_def split: prod.splits sum.splits option.splits)
  next
    case (DriveCommand out)
    with assms obtain hold d cmd s1 where "recv s = Some (cmd, s1)"
      "s' = run_drive ctx now hold (GotCommand cmd out) d s1"
      by (auto simp: session_step_def split: phase.splits option.splits)
    with run_drive_events [of ctx now hold "GotCommand cmd out" d s1] show ?thesis
      by (auto simp: recv_def split: list.splits if_splits)
  qed (use assms in \<open>auto simp: session_step_def send_cmd_def run_top_def leave_backoff_def recv_def
      run_backoff_command_def run_drive_events split: phase.splits option.splits list.splits if_splits\<close>)
  then show ?thesis by (auto simp: new_events_def)
qed

lemma session_comes_up:
  assumes "session_step env ctx now l s = Some s'" and "ss_phase s' = InDrive hold' d'"
    and "\<nexists>hold d. ss_phase s = InDrive hold d"
  shows "PeerConnected (bp_peer_ip (px_peer ctx)) \<in> set (new_events s s')"
proof (cases l)
  case (ConnectDone io)
  with assms(1) have "s' = run_connected env ctx now io s"
    by (auto simp: session_step_def split: phase.splits sum.splits if_splits)
  with assms(2) show ?thesis
    by (auto simp: run_connected_def enter_backoff_def new_events_def Let_def
        split: prod.splits sum.splits option.splits)
qed (use assms in \<open>auto simp: session_step_def send_cmd_def run_top_def leave_backoff_def recv_def
      run_backoff_command_def split: phase.splits option.splits list.splits if_splits\<close>)

text \<open>The address peer \<open>i\<close>'s task puts into its events.\<close>

definition task_ip :: "bgp_speaker \<Rightarrow> nat \<Rightarrow> ip_addr" where
  "task_ip sp i = bp_peer_ip (px_peer (ph_ctx (sp_peers sp ! i)))"

text \<open>Operations of the controller leave the tasks where they are.\<close>

lemma nth_tasks:
  "i < length (sp_peers sp) \<Longrightarrow> tasks sp ! i =
     (ph_peer_ip (sp_peers sp ! i), ph_ctx (sp_peers sp ! i), ph_enabled (sp_peers sp ! i),
      ss_phase (ph_session (sp_peers sp ! i)), ss_events (ph_session (sp_peers sp ! i)))"
  by (simp add: tasks_def)

lemma length_tasks: "length (tasks sp) = length (sp_peers sp)"
  by (simp add: tasks_def)

lemma tasks_nth:
  assumes "tasks sp' = tasks sp"
  shows "length (sp_peers sp') = length (sp_peers sp)"
    and "i < length (sp_peers sp) \<Longrightarrow> ph_ctx (sp_peers sp' ! i) = ph_ctx (sp_peers sp ! i)"
    and "i < length (sp_peers sp) \<Longrightarrow> ph_enabled (sp_peers sp' ! i) = ph_enabled (sp_peers sp ! i)"
    and "i < length (sp_peers sp) \<Longrightarrow> ss_phase (ph_session (sp_peers sp' ! i)) = ss_phase (ph_session (sp_peers sp ! i))"
    and "i < length (sp_peers sp) \<Longrightarrow> ss_events (ph_session (sp_peers sp' ! i)) = ss_events (ph_session (sp_peers sp ! i))"
  using length_tasks [of sp'] length_tasks [of sp] nth_tasks [of i sp'] nth_tasks [of i sp]
  unfolding assms by simp_all

lemma tasks_up:
  assumes "tasks sp' = tasks sp" and "ct_bgp c = Some sp" and "ct_bgp c' = Some sp'"
  shows "peer_up i c' = peer_up i c"
  using tasks_nth(1) [OF assms(1)] tasks_nth(3,4) [OF assms(1), of i] assms(2,3)
  by (cases "i < length (sp_peers sp)") (simp_all add: peer_up_def)

lemma tasks_ip: "tasks sp' = tasks sp \<Longrightarrow> i < length (sp_peers sp) \<Longrightarrow> task_ip sp' i = task_ip sp i"
  by (simp add: task_ip_def tasks_nth(2) [of sp' sp])

lemma update_peer_ip: "j < length (sp_peers sp) \<Longrightarrow> task_ip (update_peer j s sp) i = task_ip sp i"
  by (cases "i = j") (simp_all add: task_ip_def update_peer_def)

text \<open>
  A peer whose session is up has the announced routes or its connection event is still to be
  handled.
\<close>

definition pending :: "node \<Rightarrow> nat \<Rightarrow> bool" where
  "pending n i \<longleftrightarrow> (\<exists>sp. ct_bgp (nd_ctl n) = Some sp \<and> PeerConnected (task_ip sp i) \<in> set (nd_events n))"

definition sync_inv :: "node \<Rightarrow> bool" where
  "sync_inv n \<longleftrightarrow> sys_inv (nd_ctl n) \<and>
     (\<forall>i. peer_up i (nd_ctl n) \<longrightarrow> peer_synced i (nd_ctl n) \<or> pending n i)"

lemma sync_inv_same:
  assumes "sync_inv n" and "nd_ctl n' = nd_ctl n" and "nd_events n' = nd_events n"
  shows "sync_inv n'"
  using assms by (simp add: sync_inv_def pending_def)

lemma sync_inv_ctl:
  assumes "sync_inv n" and "ctl_step xxh3 speaker_ops saved p (nd_ctl n) = Some (nd_ctl n')"
    and "p \<noteq> WithdrawAll" and "nd_events n' = nd_events n"
  shows "sync_inv n'"
proof -
  from assms(1) obtain sp where inv: "sys_inv (nd_ctl n)" "ct_bgp (nd_ctl n) = Some sp"
    by (auto simp: sync_inv_def sys_inv_def)
  have step: "sys_step (\<lambda>_. None) xxh3 saved (nd_ctl n) (nd_ctl n')" using assms(2,3) by (rule sys_ctl [rotated])
  from ctl_step_tasks [OF assms(2) inv(2)] obtain sp' where sp': "ct_bgp (nd_ctl n') = Some sp'" "tasks sp' = tasks sp"
    by blast
  show ?thesis unfolding sync_inv_def
  proof (intro conjI allI impI)
    show "sys_inv (nd_ctl n')" by (rule sys_step_inv [OF step inv(1)])
    fix i assume up: "peer_up i (nd_ctl n')"
    then have "peer_up i (nd_ctl n)" using tasks_up [OF sp'(2) inv(2) sp'(1)] by simp
    moreover from this inv(2) have "i < length (sp_peers sp)" by (auto simp: peer_up_def)
    ultimately show "peer_synced i (nd_ctl n') \<or> pending n' i"
      using assms(1,4) sys_step_synced [OF step inv(1) _ _ up] sp' inv(2) tasks_ip [OF sp'(2)]
      by (auto simp: sync_inv_def pending_def)
  qed
qed

lemma reannounce_step: "ctl_step xxh3 speaker_ops saved ReannounceAll c = Some (reannounce_all speaker_ops c)"
  by (simp add: ctl_step_def)

lemma task_sync:
  assumes inv: "sync_inv n" and sp: "ct_bgp (nd_ctl n) = Some sp" and i: "i < length (sp_peers sp)"
    and en: "ph_enabled (sp_peers sp ! i)"
    and ss: "session_step env (ph_ctx (sp_peers sp ! i)) now l (ph_session (sp_peers sp ! i)) = Some s'"
    and l: "\<forall>cmd. l \<noteq> Send cmd"
    and n': "n' = n\<lparr>nd_ctl := nd_ctl n\<lparr>ct_bgp := Some (update_peer i s' sp)\<rparr>,
         nd_events := nd_events n @ new_events (ph_session (sp_peers sp ! i)) s'\<rparr>"
  shows "sync_inv n'"
proof -
  let ?s = "ph_session (sp_peers sp ! i)"
  have step: "sys_step env xxh3 (bi_saved io) (nd_ctl n) (nd_ctl n')"
    unfolding n' using sys_task [OF sp i en ss] l by simp
  have sp': "ct_bgp (nd_ctl n') = Some (update_peer i s' sp)" using n' by simp
  show ?thesis unfolding sync_inv_def
  proof (intro conjI allI impI)
    show "sys_inv (nd_ctl n')" using sys_step_inv [OF step] inv by (simp add: sync_inv_def)
    fix j assume up: "peer_up j (nd_ctl n')"
    have ev: "pending n' j" if "pending n j \<or> PeerConnected (task_ip sp j) \<in> set (new_events ?s s')"
      using that sp sp' update_peer_ip [OF i] by (auto simp: pending_def n')
    show "peer_synced j (nd_ctl n') \<or> pending n' j"
    proof (cases "peer_up j (nd_ctl n)")
      case True
      with inv sys_step_synced [OF step _ _ True up] ev show ?thesis by (auto simp: sync_inv_def)
    next
      case False
      with up sp sp' have [simp]: "j = i"
        by (cases "j = i") (auto simp: peer_up_def update_peer_def)
      from up sp' i obtain hold d where "ss_phase s' = InDrive hold d"
        by (auto simp: peer_up_def update_peer_def)
      from session_comes_up [OF ss this] False sp i en ev show ?thesis
        by (auto simp: peer_up_def task_ip_def)
    qed
  qed
qed

lemma disabled_sync:
  assumes inv: "sync_inv n" and sp: "ct_bgp (nd_ctl n) = Some sp" and i: "i < length (sp_peers sp)"
    and dis: "\<not> ph_enabled (sp_peers sp ! i)"
    and n': "n' = n\<lparr>nd_ctl := nd_ctl n\<lparr>ct_bgp := Some (update_peer i s' sp)\<rparr>\<rparr>"
  shows "sync_inv n'"
proof -
  have live: "peer_live (update_peer i s' sp) j = peer_live sp j"
    "peer_live sp j \<Longrightarrow> peer_routes (update_peer i s' sp) j = peer_routes sp j" for j
    using dis update_peer_other [of j i s' sp] update_peer_same [OF i, of s']
    by (cases "j = i"; simp add: peer_live_def)+
  have up: "peer_up j (nd_ctl n') = peer_up j (nd_ctl n)" for j
    using sp i dis by (cases "j = i") (auto simp: peer_up_def update_peer_def n')
  have "desired_announced_vips (nd_ctl n') = desired_announced_vips (nd_ctl n)"
    by (rule desired_cong) (simp_all add: n')
  moreover have "\<forall>j. peer_live sp j \<longrightarrow> peer_routes sp j \<subseteq> ct_vips_announced (nd_ctl n)"
    using inv sp by (auto simp: sync_inv_def sys_inv_def)
  ultimately have "sys_inv (nd_ctl n')"
    using inv live by (simp add: sync_inv_def sys_inv_def n')
  moreover have "peer_synced j (nd_ctl n) \<Longrightarrow> peer_synced j (nd_ctl n')" for j
    using live sp by (auto simp: peer_synced_def n')
  moreover have "pending n' j = pending n j" for j
    using sp update_peer_ip [OF i] by (simp add: pending_def n')
  ultimately show ?thesis using inv up by (auto simp: sync_inv_def)
qed

lemma node_step_sync:
  assumes "node_step env xxh3 io n n'" and inv: "sync_inv n" and "nd_drain n = Serving" and "nd_drain n' = Serving"
  shows "sync_inv n'"
  using assms(1)
proof (cases rule: node_step.cases)
  case swapped
  then show ?thesis by (rule swap_cases) (auto intro: sync_inv_same [OF inv])
next
  case applied
  then obtain lb ctl w where a: "nd_reloading n = Some lb"
    "apply_config xxh3 speaker_ops (bi_saved io) lb (nd_ctl n) = Some (ctl, w)"
    "n' = n\<lparr>nd_ctl := ctl, nd_reloading := None\<rparr>" by (rule apply_cases)
  then have "ctl_step xxh3 speaker_ops (bi_saved io) (ApplyConfig lb) (nd_ctl n) = Some (nd_ctl n')"
    by (simp add: ctl_step_def)
  then show ?thesis by (rule sync_inv_ctl [OF inv]) (simp_all add: a(3))
next
  case pumped
  then show ?thesis
  proof (rule pump_cases)
    fix evt rest
    assume ev: "nd_events n = evt # rest"
      and n': "n' = n\<lparr>nd_events := rest, nd_metrics := pump_metrics evt (nd_metrics n),
               nd_ctl := (if is_connect evt then reannounce_all speaker_ops (nd_ctl n) else nd_ctl n)\<rparr>"
    show ?thesis
    proof (cases "is_connect evt")
      case True
      then have c': "nd_ctl n' = reannounce_all speaker_ops (nd_ctl n)" using n' by simp
      have "sys_inv (nd_ctl n')"
        unfolding c' using inv sys_step_inv [OF sys_ctl [OF _ reannounce_step]] by (simp add: sync_inv_def)
      with reannounce_syncs inv c' show ?thesis by (auto simp: sync_inv_def)
    next
      case False
      with n' ev inv show ?thesis by (auto simp: sync_inv_def pending_def is_connect_def)
    qed
  qed
next
  case (task sp i now l s')
  show ?thesis by (rule task_sync [OF inv task(2-6,1)])
next
  case (disabled_task sp i s')
  show ?thesis by (rule disabled_sync [OF inv disabled_task(2-4,1)])
next
  case signalled
  then show ?thesis using assms(3,4) by (auto elim!: signal_cases)
qed (rule sync_inv_same [OF inv]; simp add: main_poll_def)+

text \<open>Without health reports every pool of a valid configuration counts as healthy.\<close>

lemma pool_healthy_empty:
  assumes "\<forall>p \<in> set ps. pool_backends p \<noteq> []"
  shows "pool_healthy Map.empty ps pid = (if \<exists>p \<in> set ps. pool_id p = pid then Some True else None)"
  using assms
proof (induction ps rule: rev_induct)
  case (snoc p ps)
  then have "any_healthy Map.empty p" by (cases "pool_backends p") (simp_all add: any_healthy_def)
  with snoc show ?case by (auto simp: pool_healthy_def)
qed (simp add: pool_healthy_def)

lemma good_pools:
  assumes "good_lb lb" and "p \<in> set (lc_pools lb)"
  shows "pool_backends p \<noteq> []"
proof -
  from assms(1) have "distinct (map pool_id (lc_pools lb))" by (simp add: good_lb_def lb_config_ok_def config_ok_def)
  with assms(2) have "pool_map lb (pool_id p) = Some p"
    by (auto simp: pool_map_def rev_map [symmetric] comp_def intro!: map_of_is_SomeI)
  with assms(1) show ?thesis by (auto simp: good_lb_def valid_config_def)
qed

definition served_vips :: "lb_config option \<Rightarrow> ipv4_addr set" where
  "served_vips config = (case config of None \<Rightarrow> {}
     | Some lb \<Rightarrow> {a. \<exists>v \<in> set (lc_vips lb). vip_address v = V4 a \<and> vip_services v \<noteq> []})"

lemma desired_quiet:
  assumes "ctl_quiet xxh3 c" and "\<And>lb. ct_config c = Some lb \<Longrightarrow> good_lb lb"
  shows "desired_announced_vips c = served_vips (ct_config c)"
proof (cases "ct_config c")
  case (Some lb)
  from assms(2) [OF Some] have lb: "good_lb lb" .
  then have pools: "\<forall>v \<in> set (lc_vips lb). \<forall>svc \<in> set (vip_services v). \<exists>p \<in> set (lc_pools lb). pool_id p = svc_backend_pool svc"
    by (simp add: good_lb_def valid_config_def)
  have "vip_serviceable (pool_healthy Map.empty (lc_pools lb)) v \<longleftrightarrow> vip_services v \<noteq> []"
    if "v \<in> set (lc_vips lb)" for v
  proof -
    have h: "pool_healthy Map.empty (lc_pools lb) pid =
        (if \<exists>p \<in> set (lc_pools lb). pool_id p = pid then Some True else None)" for pid
      by (rule pool_healthy_empty) (use good_pools [OF lb] in blast)
    from pools that have "\<forall>svc \<in> set (vip_services v). pool_healthy Map.empty (lc_pools lb) (svc_backend_pool svc) = Some True"
      unfolding h by simp
    then show ?thesis unfolding vip_serviceable_iff by (cases "vip_services v") auto
  qed
  with Some assms(1) show ?thesis
    by (auto simp: desired_announced_vips_def desired_vips_spec served_vips_def ctl_quiet_def)
qed (simp add: desired_announced_vips_def served_vips_def)

lemma boot_sync_inv:
  assumes "boot xxh3 accept io now cores checking = Some (Started n)" and "sane_files io"
  shows "sync_inv n"
proof -
  have lb: "lb_config_ok lb" if "initial_lb_config io = Some lb" for lb
    using initial_good [OF assms(2) that] by (simp add: good_lb_def)
  from boot_started [OF assms(1) lb] obtain sp where sp: "ct_bgp (nd_ctl n) = Some sp" "sys_inv (nd_ctl n)"
    "\<forall>(ip, ctx, enabled, phase, events) \<in> set (tasks sp). events = [] \<and> phase = LoopTop \<and> ip = bp_peer_ip (px_peer ctx)"
    by blast
  have "ss_phase (ph_session (sp_peers sp ! i)) = LoopTop" if "i < length (sp_peers sp)" for i
    using sp(3) nth_mem [of i "tasks sp"] nth_tasks [OF that] that by (auto simp: length_tasks)
  with sp(1,2) show ?thesis by (auto simp: sync_inv_def peer_up_def)
qed

text \<open>
  C4. While the node serves, whatever the files, the network and the interleaving of the session
  tasks, the event pump and the reloads: a peer whose session is up and whose connection event
  has been handled has been promised exactly the IPv4 VIPs of the configuration in force that
  have a service, and when its queue is empty, these are the routes it has learnt.
\<close>

theorem node_peers_in_sync:
  assumes "boot xxh3 accept io now cores checking = Some (Started n0)" and "sane_files io"
    and "node_run env xxh3 io (\<lambda>n. nd_drain n = Serving) n0 n"
    and "peer_up i (nd_ctl n)" and "\<not> pending n i"
  shows "\<exists>sp. ct_bgp (nd_ctl n) = Some sp \<and> peer_routes sp i = served_vips (ct_config (nd_ctl n)) \<and>
     (ss_queue (ph_session (sp_peers sp ! i)) = [] \<longrightarrow>
        rib (ss_wire (ph_session (sp_peers sp ! i))) = served_vips (ct_config (nd_ctl n)))"
proof -
  have inv: "matcher_inv xxh3 n" "sync_inv n"
    using node_run_invariant [where P = "\<lambda>n. matcher_inv xxh3 n \<and> sync_inv n", OF assms(3)]
      boot_matcher_inv [OF assms(1,2)] boot_sync_inv [OF assms(1,2)]
      node_step_matcher [OF assms(2)] node_step_sync by blast+
  have "desired_announced_vips (nd_ctl n) = served_vips (ct_config (nd_ctl n))"
    by (rule desired_quiet [OF matcher_inv_quiet [OF inv(1)]]) (use inv(1) in \<open>simp add: matcher_inv_def\<close>)
  moreover from inv(2) assms(4,5) have "peer_synced i (nd_ctl n)"
    "ct_vips_announced (nd_ctl n) = desired_announced_vips (nd_ctl n)"
    by (auto simp: sync_inv_def sys_inv_def)
  ultimately obtain sp hold d where "ct_bgp (nd_ctl n) = Some sp"
    "peer_routes sp i = served_vips (ct_config (nd_ctl n))"
    "ss_phase (ph_session (sp_peers sp ! i)) = InDrive hold d"
    using assms(4) by (auto simp: peer_synced_def peer_up_def)
  with promised_drive show ?thesis by (auto simp: peer_routes_def)
qed

subsection \<open>Draining\<close>

definition drained :: "node \<Rightarrow> bool" where
  "drained n \<longleftrightarrow> nd_drain n \<noteq> Serving \<and> ct_vips_announced (nd_ctl n) = {} \<and>
     (\<exists>sp. ct_bgp (nd_ctl n) = Some sp \<and> (\<forall>i. peer_live sp i \<longrightarrow> peer_routes sp i = {}))"

lemma drained_same:
  "drained n \<Longrightarrow> nd_ctl n' = nd_ctl n \<Longrightarrow> nd_drain n' \<noteq> Serving \<Longrightarrow> drained n'"
  by (simp add: drained_def)

lemma close_keeps:
  assumes "ct_bgp c = Some sp" and "\<forall>i. peer_live sp i \<longrightarrow> peer_routes sp i = {}"
  shows "\<exists>sp'. ct_bgp (close_sessions c) = Some sp' \<and> (\<forall>i. peer_live sp' i \<longrightarrow> peer_routes sp' i = {})"
proof (intro exI [of _ "speaker_shutdown sp"] conjI allI impI)
  show "ct_bgp (close_sessions c) = Some (speaker_shutdown sp)" using assms(1) by (simp add: close_sessions_def)
  fix i assume live: "peer_live (speaker_shutdown sp) i"
  then have i: "i < length (sp_peers sp)" "peer_live sp i"
    by (auto simp: peer_live_def speaker_shutdown_def send_to_def send_cmd_live)
  moreover have "promised (send_cmd Shutdown s) = {}" if "promised s = {}" "\<not> task_gone s" for s
    using that by (simp add: send_cmd_promised)
  ultimately show "peer_routes (speaker_shutdown sp) i = {}"
    using assms(2) by (simp add: peer_routes_def speaker_shutdown_def send_to_def peer_live_def)
qed

lemma node_step_drained:
  assumes "node_step env xxh3 io n n'" and inv: "drained n" and "nd_reloading n = None"
  shows "drained n'"
  using assms(1)
proof (cases rule: node_step.cases)
  case swapped
  then show ?thesis by (rule swap_cases) (use inv in \<open>simp add: drained_def\<close>)
next
  case applied
  then show ?thesis by (rule apply_cases) (use assms(3) in simp)
next
  case pumped
  have "reannounce_all speaker_ops c = c" if "ct_vips_announced c = {}" for c
    using that by (simp add: reannounce_all_def split: option.splits)
  with pumped inv show ?thesis by (rule_tac pump_cases [OF pumped]) (simp add: drained_def)
next
  case (task sp i now l s')
  have "peer_routes (update_peer i s' sp) j = {}" if live: "peer_live (update_peer i s' sp) j" for j
  proof (cases "j = i")
    case True
    with live task(3) have ok: "\<not> task_gone s'" using update_peer_same [of i sp s'] by simp
    then have "\<not> task_gone (ph_session (sp_peers sp ! i))" using gone_stays task(5) by blast
    with task(2-4) inv have "promised (ph_session (sp_peers sp ! i)) = {}"
      by (auto simp: drained_def peer_live_def peer_routes_def)
    moreover have "\<forall>cmd. l \<noteq> Send cmd" using task(6) by simp
    ultimately have "promised s' = {}" using promised_shrinks [OF task(5) _ ok] by auto
    with True update_peer_same [OF task(3)] show ?thesis by simp
  next
    case False
    with live inv task(2) update_peer_other [OF False, of s' sp] show ?thesis by (auto simp: drained_def)
  qed
  with inv show ?thesis by (simp add: drained_def task(1))
next
  case (disabled_task sp i s')
  have "peer_routes (update_peer i s' sp) j = {}" if "peer_live (update_peer i s' sp) j" for j
    using that inv disabled_task(2-4) update_peer_other [of j i s' sp] update_peer_same [OF disabled_task(3), of s']
    by (cases "j = i") (auto simp: drained_def)
  with inv show ?thesis by (simp add: drained_def disabled_task(1))
next
  case signalled
  then show ?thesis
  proof (rule signal_cases)
    assume "n' = n\<lparr>nd_ctl := close_sessions (nd_ctl n), nd_drain := Closing\<rparr>"
    with inv close_keeps show ?thesis by (auto simp: drained_def close_sessions_def)
  qed (use inv in \<open>auto simp: drained_def\<close>)
qed (use inv in \<open>simp_all add: drained_def main_poll_def\<close>)

lemma withdraw_drains:
  assumes "sys_inv c"
  shows "ct_vips_announced (withdraw_all speaker_ops c) = {}"
    and "\<exists>sp. ct_bgp (withdraw_all speaker_ops c) = Some sp \<and> (\<forall>i. peer_live sp i \<longrightarrow> peer_routes sp i = {})"
proof -
  show empty: "ct_vips_announced (withdraw_all speaker_ops c) = {}"
    by (simp add: withdraw_all_def Let_def split: option.splits)
  from assms obtain sp where sp: "ct_bgp c = Some sp"
    "\<forall>i. peer_live sp i \<longrightarrow> peer_routes sp i \<subseteq> ct_vips_announced c" by (auto simp: sys_inv_def)
  have step: "ctl_step undefined (announcer_of speaker_announce speaker_withdraw) undefined WithdrawAll c =
      Some (withdraw_all speaker_ops c)"
    by (simp add: ctl_step_def speaker_ops_def)
  from speaker.step_routes [OF step sp(1) sys_inv_finite [OF assms]] sp(2) empty
  show "\<exists>sp. ct_bgp (withdraw_all speaker_ops c) = Some sp \<and> (\<forall>i. peer_live sp i \<longrightarrow> peer_routes sp i = {})"
    by fastforce
qed

text \<open>
  C5. After the signal: from the moment the handler has withdrawn the VIPs and for as long as no
  reload is under way, nothing is announced and no peer is or will be told of a route, whatever
  peers reconnect in the meantime; this holds until the process ends.
\<close>

theorem drained_node_announces_nothing:
  assumes "boot xxh3 accept io now cores checking = Some (Started n0)" and "sane_files io"
    and "node_run env xxh3 io (\<lambda>n. nd_drain n = Serving) n0 n1" and "signal_step n1 = Some n2"
    and "node_run env xxh3 io (\<lambda>n. nd_reloading n = None) n2 n"
  shows "ct_vips_announced (nd_ctl n) = {} \<and>
    (\<exists>sp. ct_bgp (nd_ctl n) = Some sp \<and> (\<forall>i. peer_live sp i \<longrightarrow> peer_routes sp i = {}) \<and>
       (\<forall>i. peer_up i (nd_ctl n) \<and> ss_queue (ph_session (sp_peers sp ! i)) = [] \<longrightarrow>
          rib (ss_wire (ph_session (sp_peers sp ! i))) = {}))"
proof -
  have serving: "sync_inv n1 \<and> nd_drain n1 = Serving"
    using node_run_invariant [where P = sync_inv, OF assms(3) boot_sync_inv [OF assms(1,2)]] node_step_sync by blast
  with assms(4) have "drained n2"
    using withdraw_drains by (auto elim!: signal_cases simp: drained_def sync_inv_def)
  then have "drained n"
    using node_run_invariant [where P = drained, OF assms(5)] node_step_drained by blast
  then obtain sp where sp: "ct_vips_announced (nd_ctl n) = {}" "ct_bgp (nd_ctl n) = Some sp"
    "\<forall>i. peer_live sp i \<longrightarrow> peer_routes sp i = {}" by (auto simp: drained_def)
  moreover have "rib (ss_wire (ph_session (sp_peers sp ! i))) = {}"
    if "peer_up i (nd_ctl n)" "ss_queue (ph_session (sp_peers sp ! i)) = []" for i
  proof -
    from that(1) sp(2) obtain hold d where "ss_phase (ph_session (sp_peers sp ! i)) = InDrive hold d"
      by (auto simp: peer_up_def)
    from promised_drive [OF this] sp(3) peer_up_live [OF that(1) sp(2)] that(2) show ?thesis
      by (auto simp: peer_routes_def)
  qed
  ultimately show ?thesis by blast
qed

lemma applied_announces:
  assumes "apply_config xxh3 ops saved lb c = Some (c', w)" and "ct_bgp c = Some b"
  shows "ct_vips_announced c' = desired_announced_vips c'"
proof -
  have "ct_vips_announced (sync_bgp_announcements ops d) = desired_announced_vips (sync_bgp_announcements ops d)"
    if "ct_bgp d = Some b" for d
    using that desired_cong [of d "sync_bgp_announcements ops d"] by (simp add: sync_bgp_announcements_def Let_def)
  with assms show ?thesis by (auto simp: apply_config_def Let_def bind_eq_Some_conv)
qed

text \<open>
  A reload that the watcher had handed on before it saw the flag announces everything again, to
  the peers that are still up.
\<close>

lemma reload_undoes_drain:
  assumes "matcher_inv xxh3 n" and "drained n" and "nd_reloading n = Some lb"
    and "reload_apply xxh3 saved n = Some n'"
  shows "ct_vips_announced (nd_ctl n') = served_vips (Some lb)"
    and "\<exists>sp sp'. ct_bgp (nd_ctl n) = Some sp \<and> ct_bgp (nd_ctl n') = Some sp' \<and>
      (\<forall>i. peer_live sp i \<longrightarrow> peer_live sp' i \<and> peer_routes sp' i = served_vips (Some lb))"
proof -
  from assms(4) obtain lb' ctl w where a: "nd_reloading n = Some lb'"
    "apply_config xxh3 speaker_ops saved lb' (nd_ctl n) = Some (ctl, w)"
    "n' = n\<lparr>nd_ctl := ctl, nd_reloading := None\<rparr>" by (rule apply_cases)
  with assms(3) have [simp]: "lb' = lb" by simp
  have good: "good_lb lb" using assms(1,3) by (simp add: matcher_inv_def)
  from apply_config_quiet [OF matcher_inv_quiet [OF assms(1)], of lb saved] good a(2)
  have ctl: "ctl_quiet xxh3 ctl" "ct_config ctl = Some lb" by (auto simp: good_lb_def)
  obtain sp where sp: "ct_bgp (nd_ctl n) = Some sp" "\<forall>i. peer_live sp i \<longrightarrow> peer_routes sp i = {}"
    "ct_vips_announced (nd_ctl n) = {}" using assms(2) by (auto simp: drained_def)
  have step: "ctl_step xxh3 speaker_ops saved (ApplyConfig lb) (nd_ctl n) = Some ctl"
    using a(2) by (simp add: ctl_step_def)
  have "desired_announced_vips ctl = served_vips (Some lb)"
    using desired_quiet [OF ctl(1)] ctl(2) good by simp
  moreover have "ct_vips_announced ctl = desired_announced_vips ctl"
    by (rule applied_announces [OF a(2) [simplified] sp(1)])
  ultimately have announced: "ct_vips_announced ctl = served_vips (Some lb)" by simp
  from speaker.step_routes [OF step [unfolded speaker_ops_def] sp(1)] sp(2,3) announced
  show "ct_vips_announced (nd_ctl n') = served_vips (Some lb)"
    "\<exists>sp sp'. ct_bgp (nd_ctl n) = Some sp \<and> ct_bgp (nd_ctl n') = Some sp' \<and>
      (\<forall>i. peer_live sp i \<longrightarrow> peer_live sp' i \<and> peer_routes sp' i = served_vips (Some lb))"
    by (auto simp: a(3) sp(1))
qed

text \<open>
  The handler takes the thread handles to join them, so the main loop, if its turn comes before
  the handler exits with code 0, takes the forwarder for stopped and exits with code 1.
\<close>

lemma graceful_exit_race:
  assumes "nd_drain n = Closing" and "all_tasks_gone n"
  shows "\<exists>n'. signal_step n = Some n' \<and> nd_drain (main_poll n') = Exited 1 \<and>
    map_option nd_drain (signal_step n') = Some (Exited 0)"
  using assms by (simp add: signal_step_def main_poll_def tg_is_running_def tg_stop_def)

subsection \<open>The metrics\<close>

fun event_peer :: "bgp_event \<Rightarrow> ip_addr" where
  "event_peer (PeerConnected ip) = ip"
| "event_peer (PeerDisconnected ip reason) = ip"
| "event_peer (AnnounceFailed ip) = ip"
| "event_peer (WithdrawFailed ip) = ip"
| "event_peer (PeerNotification ip code subcode) = ip"

text \<open>
  The members of the families with label \<open>l\<close> together with the events still in the channel give
  whether the session is up, and the counters differ by the gauge.
\<close>

definition tracked :: "bgp_metrics \<Rightarrow> bgp_event list \<Rightarrow> string \<Rightarrow> bool \<Rightarrow> bool" where
  "tracked m es l up \<longleftrightarrow>
     (let g = member (bm_peer_state m) l in (g = 0 \<or> g = 1) \<and>
        event_log (g = 1) (filter (\<lambda>e. show_ip (event_peer e) = l) es) = Some up \<and>
        member (bm_peer_connects m) l = member (bm_peer_disconnects m) l + of_bool (g = 1))"

lemma member_upd: "member (f(k \<mapsto> v)) l = (if l = k then v else member f l)"
  by (simp add: member_def)

lemma tracked_pump:
  assumes "tracked m (e # es) l up"
  shows "tracked (pump_metrics e m) es l up"
proof (cases "show_ip (event_peer e) = l")
  case True
  with assms show ?thesis
    by (cases e) (auto simp: tracked_def inc_def member_upd Let_def split: if_splits)
next
  case False
  with assms show ?thesis
    by (cases e) (auto simp: tracked_def inc_def member_upd Let_def)
qed

lemma tracked_other:
  "\<forall>e \<in> set new. show_ip (event_peer e) \<noteq> l \<Longrightarrow> tracked m (es @ new) l up = tracked m es l up"
  by (simp add: tracked_def filter_empty_conv)

lemma tracked_more:
  "tracked m es l up \<Longrightarrow> \<forall>e \<in> set new. show_ip (event_peer e) = l \<Longrightarrow> event_log up new = Some up' \<Longrightarrow>
   tracked m (es @ new) l up'"
  by (simp add: tracked_def Let_def event_log_append cong: filter_cong)

text \<open>A step of a task extends its log as the log asks, under its own address.\<close>

lemma drive_step_peer:
  assumes "drive_step ctx hold now ev d = Some (d', events, rest)"
  shows "\<forall>e \<in> set events. event_peer e = bp_peer_ip (px_peer ctx)"
  using assms
  by (auto simp: drive_step_def drive_command_def drive_tick_def drive_read_def drive_hold_def Let_def
      bind_eq_Some_conv split: drive_event.splits option.splits session_cmd.splits sum.splits
      list.splits prod.splits)

definition log_step :: "peer_session_ctx \<Rightarrow> session \<Rightarrow> session \<Rightarrow> bool" where
  "log_step ctx s s' \<longleftrightarrow>
     event_log (session_up (ss_phase s)) (new_events s s') = Some (session_up (ss_phase s')) \<and>
     (\<forall>e \<in> set (new_events s s'). event_peer e = bp_peer_ip (px_peer ctx))"

lemma log_step_same:
  "ss_events s' = ss_events s \<Longrightarrow> session_up (ss_phase s') = session_up (ss_phase s) \<Longrightarrow> log_step ctx s s'"
  by (simp add: log_step_def new_events_def)

lemma run_drive_log:
  assumes "ss_phase s = InDrive hold d" and "ss_events s1 = ss_events s"
  shows "log_step ctx s (run_drive ctx now hold ev d s1)"
proof (cases "drive_step ctx hold now ev d")
  case (Some r)
  obtain d' events written ended where r: "r = (d', events, written, ended)" by (cases r)
  with Some assms drive_step_events [of ctx hold now ev d] drive_step_peer [of ctx hold now ev d] show ?thesis
    by (cases ended) (auto simp: run_drive_def log_step_def new_events_def enter_backoff_def
        event_log_append Let_def)
qed (use assms in \<open>simp add: run_drive_def log_step_def new_events_def\<close>)

lemma session_step_log:
  assumes "session_step env ctx now l s = Some s'"
  shows "log_step ctx s s'"
proof (cases l)
  case (ConnectDone io)
  with assms have "ss_phase s = InConnect" "s' = run_connected env ctx now io s"
    by (auto simp: session_step_def split: phase.splits sum.splits if_splits)
  then show ?thesis
    by (auto simp: run_connected_def enter_backoff_def log_step_def new_events_def Let_def
        split: prod.splits sum.splits option.splits)
next
  case (DriveCommand out)
  with assms obtain hold d cmd s1 where "ss_phase s = InDrive hold d" "recv s = Some (cmd, s1)"
    "s' = run_drive ctx now hold (GotCommand cmd out) d s1"
    by (auto simp: session_step_def split: phase.splits option.splits)
  moreover from this have "ss_events s1 = ss_events s" by (auto simp: recv_def split: list.splits if_splits)
  ultimately show ?thesis by (simp add: run_drive_log)
next
  case Top
  with assms show ?thesis
    by (intro log_step_same) (auto simp: session_step_def run_top_def split: phase.splits option.splits)
next
  case BackoffOver
  with assms show ?thesis
    by (intro log_step_same) (auto simp: session_step_def leave_backoff_def split: phase.splits if_splits)
next
  case BackoffCommand
  with assms show ?thesis
    by (intro log_step_same) (auto simp: session_step_def recv_def run_backoff_command_def leave_backoff_def
        split: phase.splits list.splits if_splits)
next
  case (Send cmd)
  with assms show ?thesis
    by (intro log_step_same) (auto simp: session_step_def send_cmd_def split: if_splits)
next
  case DropSender
  with assms show ?thesis by (intro log_step_same) (auto simp: session_step_def)
qed (use assms in \<open>auto simp: session_step_def run_drive_log split: phase.splits if_splits\<close>)

definition peer_labels :: "bgp_speaker \<Rightarrow> string list" where
  "peer_labels sp = map (\<lambda>p. show_ip (bp_peer_ip (px_peer (ph_ctx p)))) (sp_peers sp)"

definition peer_tracked :: "bgp_metrics \<Rightarrow> bgp_event list \<Rightarrow> peer_handle \<Rightarrow> bool" where
  "peer_tracked m es p \<longleftrightarrow>
     tracked m es (show_ip (bp_peer_ip (px_peer (ph_ctx p)))) (session_up (ss_phase (ph_session p))) \<and>
     (\<not> ph_enabled p \<longrightarrow> \<not> session_up (ss_phase (ph_session p)))"

definition metrics_inv :: "node \<Rightarrow> bool" where
  "metrics_inv n \<longleftrightarrow> (\<exists>sp. ct_bgp (nd_ctl n) = Some sp \<and> distinct (peer_labels sp) \<and>
     (\<forall>i < length (sp_peers sp). peer_tracked (nd_metrics n) (nd_events n) (sp_peers sp ! i)))"

lemma metrics_inv_same:
  assumes "metrics_inv n" and "nd_ctl n' = nd_ctl n" "nd_events n' = nd_events n" "nd_metrics n' = nd_metrics n"
  shows "metrics_inv n'"
  using assms by (simp add: metrics_inv_def)

lemma labels_tasks: "peer_labels sp = map (\<lambda>t. show_ip (bp_peer_ip (px_peer (fst (snd t))))) (tasks sp)"
  by (simp add: peer_labels_def tasks_def)

lemma metrics_inv_tasks:
  assumes "metrics_inv n" and "ct_bgp (nd_ctl n) = Some sp" and "ct_bgp (nd_ctl n') = Some sp'"
    and tasks: "tasks sp' = tasks sp"
    and "\<And>l up. tracked (nd_metrics n) (nd_events n) l up \<Longrightarrow> tracked (nd_metrics n') (nd_events n') l up"
  shows "metrics_inv n'"
proof -
  have "peer_tracked (nd_metrics n') (nd_events n') (sp_peers sp' ! i)" if "i < length (sp_peers sp')" for i
    using assms(1,2,5) that tasks_nth(1) [OF tasks] tasks_nth(2-4) [OF tasks, of i]
    by (auto simp: metrics_inv_def peer_tracked_def)
  moreover have "distinct (peer_labels sp')"
    using assms(1,2) by (simp add: metrics_inv_def labels_tasks tasks)
  ultimately show ?thesis using assms(3) by (simp add: metrics_inv_def)
qed

lemma metrics_inv_ctl:
  assumes "metrics_inv n" and "ctl_step xxh3 speaker_ops saved p (nd_ctl n) = Some (nd_ctl n')"
    and "\<And>l up. tracked (nd_metrics n) (nd_events n) l up \<Longrightarrow> tracked (nd_metrics n') (nd_events n') l up"
  shows "metrics_inv n'"
proof -
  from assms(1) obtain sp where sp: "ct_bgp (nd_ctl n) = Some sp" by (auto simp: metrics_inv_def)
  from ctl_step_tasks [OF assms(2) sp] obtain sp' where "ct_bgp (nd_ctl n') = Some sp'" "tasks sp' = tasks sp" by blast
  with metrics_inv_tasks [OF assms(1) sp _ _ assms(3)] show ?thesis by blast
qed

text \<open>A task's step, with the events it adds, keeps every peer's metrics in step.\<close>

lemma metrics_inv_task:
  assumes inv: "metrics_inv n" and sp: "ct_bgp (nd_ctl n) = Some sp" and i: "i < length (sp_peers sp)"
    and log: "log_step (ph_ctx (sp_peers sp ! i)) (ph_session (sp_peers sp ! i)) s'"
    and up: "\<not> ph_enabled (sp_peers sp ! i) \<longrightarrow> \<not> session_up (ss_phase s')"
    and n': "ct_bgp (nd_ctl n') = Some (update_peer i s' sp)" "nd_metrics n' = nd_metrics n"
      "nd_events n' = nd_events n @ new_events (ph_session (sp_peers sp ! i)) s'"
  shows "metrics_inv n'"
proof -
  let ?new = "new_events (ph_session (sp_peers sp ! i)) s'" and ?sp = "update_peer i s' sp"
  from inv sp have old: "distinct (peer_labels sp)"
    "\<And>j. j < length (sp_peers sp) \<Longrightarrow> peer_tracked (nd_metrics n) (nd_events n) (sp_peers sp ! j)"
    by (auto simp: metrics_inv_def)
  have labels: "peer_labels ?sp = peer_labels sp"
    using i by (auto simp: peer_labels_def update_peer_def list_eq_iff_nth_eq nth_list_update)
  have new: "\<forall>e \<in> set ?new. show_ip (event_peer e) = peer_labels sp ! i"
    using log i by (simp add: log_step_def peer_labels_def)
  have "peer_tracked (nd_metrics n') (nd_events n') (sp_peers ?sp ! j)" if j: "j < length (sp_peers ?sp)" for j
  proof (cases "j = i")
    case True
    with old(2) [OF i] log i new up n' show ?thesis
      by (auto simp: peer_tracked_def update_peer_def log_step_def peer_labels_def intro: tracked_more)
  next
    case False
    have len: "j < length (sp_peers sp)" using j by (simp add: update_peer_def)
    with False old(1) i have "peer_labels sp ! j \<noteq> peer_labels sp ! i"
      by (simp add: nth_eq_iff_index_eq peer_labels_def del: nth_map)
    with new have "\<forall>e \<in> set ?new. show_ip (event_peer e) \<noteq> peer_labels sp ! j" by metis
    with old(2) [OF len] n' len False show ?thesis
      by (auto simp: peer_tracked_def update_peer_def peer_labels_def tracked_other)
  qed
  with n' labels old(1) show ?thesis by (simp add: metrics_inv_def)
qed

lemma close_tasks:
  "ct_bgp c = Some sp \<Longrightarrow> ct_bgp (close_sessions c) = Some (speaker_shutdown sp) \<and> tasks (speaker_shutdown sp) = tasks sp"
  by (simp add: close_sessions_def)

lemma node_step_metrics:
  assumes "node_step env xxh3 io n n'" and inv: "metrics_inv n"
  shows "metrics_inv n'"
  using assms(1)
proof (cases rule: node_step.cases)
  case swapped
  then show ?thesis by (rule swap_cases) (auto intro: metrics_inv_same [OF inv])
next
  case applied
  then obtain lb ctl w where a: "nd_reloading n = Some lb"
    "apply_config xxh3 speaker_ops (bi_saved io) lb (nd_ctl n) = Some (ctl, w)"
    "n' = n\<lparr>nd_ctl := ctl, nd_reloading := None\<rparr>" by (rule apply_cases)
  then have "ctl_step xxh3 speaker_ops (bi_saved io) (ApplyConfig lb) (nd_ctl n) = Some (nd_ctl n')"
    by (simp add: ctl_step_def)
  then show ?thesis by (rule metrics_inv_ctl [OF inv]) (simp add: a(3))
next
  case pumped
  then obtain evt rest where ev: "nd_events n = evt # rest"
    "n' = n\<lparr>nd_events := rest, nd_metrics := pump_metrics evt (nd_metrics n),
            nd_ctl := (if is_connect evt then reannounce_all speaker_ops (nd_ctl n) else nd_ctl n)\<rparr>"
    by (rule pump_cases)
  have t: "tracked (nd_metrics n) (nd_events n) l up \<Longrightarrow> tracked (nd_metrics n') (nd_events n') l up" for l up
    using tracked_pump [of "nd_metrics n" evt rest l up] ev by simp
  obtain sp where sp: "ct_bgp (nd_ctl n) = Some sp" using inv by (auto simp: metrics_inv_def)
  show ?thesis
  proof (cases "is_connect evt")
    case True
    then have "ctl_step xxh3 speaker_ops (bi_saved io) ReannounceAll (nd_ctl n) = Some (nd_ctl n')"
      by (simp add: ev(2) reannounce_step)
    then show ?thesis by (rule metrics_inv_ctl [OF inv _ t])
  next
    case False
    then show ?thesis using metrics_inv_tasks [OF inv sp _ refl t] sp by (simp add: ev(2))
  qed
next
  case (task sp i now l s')
  show ?thesis
    by (rule metrics_inv_task [OF inv task(2,3) session_step_log [OF task(5)]]) (simp_all add: task(1,4))
next
  case (disabled_task sp i s')
  let ?s = "ph_session (sp_peers sp ! i)"
  have down: "\<not> session_up (ss_phase ?s)"
    using inv disabled_task(2-4) by (auto simp: metrics_inv_def peer_tracked_def)
  have s': "ss_events s' = ss_events ?s" "\<not> session_up (ss_phase s')"
    using disabled_task(5) down by (auto simp: disabled_step_def recv_def split: list.splits if_splits)
  then have "log_step (ph_ctx (sp_peers sp ! i)) ?s s'" using down by (intro log_step_same) simp_all
  then show ?thesis
    by (rule metrics_inv_task [OF inv disabled_task(2,3)])
      (use s' in \<open>simp_all add: disabled_task(1) new_events_def\<close>)
next
  case signalled
  obtain sp where sp: "ct_bgp (nd_ctl n) = Some sp" using inv by (auto simp: metrics_inv_def)
  from signalled show ?thesis
  proof (rule signal_cases)
    assume "n' = n\<lparr>nd_shutdown := True, nd_ctl := withdraw_all speaker_ops (nd_ctl n), nd_drain := Withdrawn\<rparr>"
    then show ?thesis
      by (intro metrics_inv_ctl [OF inv, where p = WithdrawAll and ?xxh3.0 = xxh3 and saved = "bi_saved io"])
        (simp_all add: ctl_step_def)
  next
    assume "n' = n\<lparr>nd_ctl := close_sessions (nd_ctl n), nd_drain := Closing\<rparr>"
    then show ?thesis using metrics_inv_tasks [OF inv sp, of n' "speaker_shutdown sp"] close_tasks [OF sp] by simp
  qed (rule metrics_inv_same [OF inv]; simp)+
qed (rule metrics_inv_same [OF inv]; simp add: main_poll_def)+

lemma distinct_map_show: "distinct (map show_ip ips) = distinct ips"
  by (simp add: distinct_map inj_on_def)

lemma boot_metrics_inv:
  assumes "boot xxh3 accept io now cores checking = Some (Started n)" and "sane_files io"
    and "distinct (map bp_peer_ip (bgp_peers (nc_bgp (nd_config n))))"
  shows "metrics_inv n"
proof -
  have lb: "lb_config_ok lb" if "initial_lb_config io = Some lb" for lb
    using initial_good [OF assms(2) that] by (simp add: good_lb_def)
  from boot_started [OF assms(1) lb] obtain sp where sp: "ct_bgp (nd_ctl n) = Some sp"
    "nd_events n = []" "nd_metrics n = bgp_metrics_new"
    "\<forall>(ip, ctx, enabled, phase, events) \<in> set (tasks sp). events = [] \<and> phase = LoopTop \<and> ip = bp_peer_ip (px_peer ctx)"
    "map fst (tasks sp) = (case bgp_router_id (nc_bgp (nd_config n)) of
        V4 _ \<Rightarrow> map bp_peer_ip (bgp_peers (nc_bgp (nd_config n))) | V6 _ \<Rightarrow> [])"
    by blast
  have "peer_labels sp = map show_ip (map fst (tasks sp))"
    using sp(4) by (auto simp: labels_tasks)
  moreover have "distinct \<dots>"
    using assms(3) by (simp add: sp(5) distinct_map_show split: ip_addr.splits)
  ultimately have "distinct (peer_labels sp)" by simp
  moreover have "peer_tracked (nd_metrics n) (nd_events n) (sp_peers sp ! i)" if "i < length (sp_peers sp)" for i
    using sp(2-4) nth_mem [of i "tasks sp"] nth_tasks [OF that] that
    by (auto simp: length_tasks peer_tracked_def tracked_def bgp_metrics_new_def member_def)
  ultimately show ?thesis using sp(1) by (auto simp: metrics_inv_def)
qed

text \<open>
  C29. With distinct peer addresses, whatever happens to the node: once the event pump has
  handled a peer's events, the gauge of the peer is 1 exactly while its task is in a session,
  and 0 otherwise, and the counters of connections and disconnections differ by that value. (A
  task that has panicked in a session stays in it.)
\<close>

theorem metrics_track_sessions:
  assumes "boot xxh3 accept io now cores checking = Some (Started n0)" and "sane_files io"
    and "distinct (map bp_peer_ip (bgp_peers (nc_bgp (nd_config n0))))"
    and "node_run env xxh3 io (\<lambda>_. True) n0 n"
    and "ct_bgp (nd_ctl n) = Some sp" and "i < length (sp_peers sp)"
    and "\<forall>e \<in> set (nd_events n). event_peer e \<noteq> task_ip sp i"
  shows "let l = show_ip (task_ip sp i);
             in_session = session_up (ss_phase (ph_session (sp_peers sp ! i)));
             m = nd_metrics n
         in member (bm_peer_state m) l = of_bool in_session \<and>
            member (bm_peer_connects m) l = member (bm_peer_disconnects m) l + of_bool in_session"
proof -
  have "metrics_inv n"
    using node_run_invariant [where P = metrics_inv, OF assms(4) boot_metrics_inv [OF assms(1-3)]]
      node_step_metrics by blast
  with assms(5,6) have "tracked (nd_metrics n) (nd_events n) (show_ip (task_ip sp i))
      (session_up (ss_phase (ph_session (sp_peers sp ! i))))"
    by (auto simp: metrics_inv_def peer_tracked_def task_ip_def)
  moreover have "filter (\<lambda>e. show_ip (event_peer e) = show_ip (task_ip sp i)) (nd_events n) = []"
    using assms(7) by (simp add: filter_empty_conv)
  ultimately show ?thesis by (auto simp: tracked_def Let_def)
qed

subsection \<open>A concrete run\<close>

text \<open>The sample node starts; its peer connects, and the event pump handles the connection.\<close>

lemma node_run_weaken:
  assumes "node_run env xxh3 io during n0 n" and "\<And>n. during n \<Longrightarrow> during' n"
  shows "node_run env xxh3 io during' n0 n"
  using assms(1)
  by (induction rule: node_run.induct) (auto intro: assms(2) node_run.intros)

lemma sample_files: "sane_files sample_boot"
proof -
  have "set (map pool_id (lc_pools c)) = dom (pool_map c)" for c
    by (simp add: set_eq_iff dom_pool_map image_iff eq_commute)
  then show ?thesis using sample_loaded_ok by (simp add: sane_files_def sample_boot_def)
qed

lemma sample_served: "served_vips (Some sample_lb_config) = {Ipv4 10 9 0 1}"
  by (auto simp: served_vips_def sample_lb_config_def sample_vip_def)

abbreviation (input) sample_boot_speaker :: bgp_speaker where
  "sample_boot_speaker \<equiv> (sample_speaker session_new)\<lparr>sp_event_rx := False\<rparr>"

lemma sample_boot_spawn:
  "spawn (snd (take_event_rx (speaker_new (nc_bgp sample_node_config)))) = Some sample_boot_speaker"
  by (simp add: spawn_def take_event_rx_def speaker_new_def spawn_peer_def sample_node_config_def
      sample_bgp_config_def sample_speaker_def sample_peer_def sample_ctx_def legacy_peer_def session_new_def)

lemma sample_boot_bgp:
  assumes "boot_controller (\<lambda>name seed. seed + 5) sample_boot sample_node_config = Some (matcher, ctl)"
  shows "ct_bgp ctl = Some (speaker_announce [Ipv4 10 9 0 1] sample_boot_speaker)"
proof -
  let ?x = "\<lambda>name seed. seed + 5" and ?path = "cp_local_cache (nc_control_plane sample_node_config)"
  from apply_lb_config_returns [OF sample_loaded_ok, of ?x] obtain T where
    T: "apply_lb_config ?x sample_lb_config = Some (T, build_vip_matcher sample_lb_config)" by blast
  define c where "c = with_bgp sample_boot_speaker (with_cache_path ?path (controller_new T Map.empty DEFAULT_TABLE_SIZE))"
  have c: "ct_bgp c = Some sample_boot_speaker" "ct_health_status c = Map.empty" "ct_vips_announced c = {}"
    "ct_table_size c = DEFAULT_TABLE_SIZE"
    by (simp_all add: c_def with_bgp_def with_cache_path_def controller_new_def)
  have "config_ok (ct_table_size c) sample_lb_config" using sample_loaded_ok by (simp add: c lb_config_ok_def)
  from apply_config_ok [OF this, of ?x speaker_ops "bi_saved sample_boot"] obtain T' w where
    a: "apply_config ?x speaker_ops (bi_saved sample_boot) sample_lb_config c = Some (sync_bgp_announcements speaker_ops
      (c\<lparr>ct_pending_pools := {}, ct_pending_since := None, ct_lookup_tables := T',
         ct_backend_pool_index := build_backend_pool_index sample_lb_config, ct_config := Some sample_lb_config\<rparr>), w)"
    by blast
  let ?d = "c\<lparr>ct_pending_pools := {}, ct_pending_since := None, ct_lookup_tables := T',
         ct_backend_pool_index := build_backend_pool_index sample_lb_config, ct_config := Some sample_lb_config\<rparr>"
  have "desired_announced_vips ?d = {Ipv4 10 9 0 1}"
    by (simp add: desired_announced_vips_def c sample_lb_config_def sample_vip_def sample_pool_def
        pool_healthy_def any_healthy_def vip_serviceable_def)
  then have "ct_bgp (sync_bgp_announcements speaker_ops ?d) = Some (speaker_announce [Ipv4 10 9 0 1] sample_boot_speaker)"
    by (simp add: sync_bgp_announcements_def c speaker_ops_def announcer_of_def Let_def)
  moreover have "ctl = sync_bgp_announcements speaker_ops ?d"
    using assms a T by (simp add: boot_controller_def sample_boot_spawn sample_loaded c_def)
  ultimately show ?thesis by simp
qed

lemma sample_task_step:
  assumes "ct_bgp (nd_ctl n) = Some (sample_boot_speaker\<lparr>sp_peers := [sample_peer s]\<rparr>)"
    and "session_step (\<lambda>_. None) sample_ctx now l s = Some s'" and "\<forall>cmd. l \<noteq> Send cmd" and "l \<noteq> DropSender"
  shows "node_step (\<lambda>_. None) xxh3 io n
    (n\<lparr>nd_ctl := nd_ctl n\<lparr>ct_bgp := Some (sample_boot_speaker\<lparr>sp_peers := [sample_peer s']\<rparr>)\<rparr>,
       nd_events := nd_events n @ new_events s s'\<rparr>)"
proof -
  have "update_peer 0 s' (sample_boot_speaker\<lparr>sp_peers := [sample_peer s]\<rparr>) =
      sample_boot_speaker\<lparr>sp_peers := [sample_peer s']\<rparr>"
    by (simp add: update_peer_def sample_peer_def)
  then show ?thesis
    using node_step.task [OF assms(1), of 0 "\<lambda>_. None" now l s' xxh3 io] assms(2-4)
    by (simp add: sample_peer_def)
qed

lemma sample_serving_run:
  obtains n0 n1 sp where "boot (\<lambda>name seed. seed + 5) min sample_boot 0 [] False = Some (Started n0)"
    and "node_run (\<lambda>_. None) (\<lambda>name seed. seed + 5) sample_boot (\<lambda>n. nd_drain n = Serving) n0 n1"
    and "nd_config n0 = sample_node_config" and "nd_events n1 = []" and "nd_drain n1 = Serving"
    and "nd_reloading n1 = None" and "peer_up 0 (nd_ctl n1)"
    and "ct_config (nd_ctl n1) = Some sample_lb_config"
    and "nd_matcher n1 = build_vip_matcher sample_lb_config"
    and "ct_bgp (nd_ctl n1) = Some sp" and "length (sp_peers sp) = 1"
    and "task_ip sp 0 = V4 (Ipv4 10 0 0 2)" and "session_up (ss_phase (ph_session (sp_peers sp ! 0)))"
proof -
  obtain n0 where n0: "boot (\<lambda>name seed. seed + 5) min sample_boot 0 [] False = Some (Started n0)"
    "nd_config n0 = sample_node_config" "nd_drain n0 = Serving" "nd_events n0 = []" "nd_reloading n0 = None"
    "nd_matcher n0 = build_vip_matcher sample_lb_config" "ct_config (nd_ctl n0) = Some sample_lb_config"
    "boot_controller (\<lambda>name seed. seed + 5) sample_boot sample_node_config = Some (nd_matcher n0, nd_ctl n0)"
    using sample_node_started [of min 0 "[]"] by metis
  let ?run = "node_run (\<lambda>_. None) (\<lambda>name seed. seed + 5) sample_boot (\<lambda>n. nd_drain n = Serving)"
  let ?speaker = "\<lambda>s. sample_boot_speaker\<lparr>sp_peers := [sample_peer s]\<rparr>"
  let ?s = "session_new\<lparr>ss_queue := [Announce [Ipv4 10 9 0 1]]\<rparr>"
  have b: "ct_bgp (nd_ctl n0) = Some (?speaker ?s)"
    by (simp add: sample_boot_bgp [OF n0(8)] speaker_announce_def sample_speaker_def sample_peer_def
        send_to_def send_cmd_def task_gone_def session_new_def)
  have top: "session_step (\<lambda>_. None) sample_ctx 0 Top ?s = Some (run_top session_new)"
    by (simp add: session_step_def session_new_def run_top_def)
  define n1 where "n1 = n0\<lparr>nd_ctl := nd_ctl n0\<lparr>ct_bgp := Some (?speaker (run_top session_new))\<rparr>,
      nd_events := []\<rparr>"
  have "new_events ?s (run_top session_new) = []" by (simp add: new_events_def session_new_def run_top_def)
  then have step1: "node_step (\<lambda>_. None) (\<lambda>name seed. seed + 5) sample_boot n0 n1"
    using sample_task_step [OF b top, where ?xxh3.0 = "\<lambda>name seed. seed + 5" and io = sample_boot] n0(4) by (simp add: n1_def)
  define n2 where "n2 = n1\<lparr>nd_ctl := nd_ctl n1\<lparr>ct_bgp := Some (?speaker (sample_up 9))\<rparr>,
      nd_events := [PeerConnected (V4 (Ipv4 10 0 0 2))]\<rparr>"
  obtain ws where "connect (\<lambda>_. None) (sample_io 9) sample_ctx (our_hold sample_ctx) = (Inr (min 90 9), ws)"
    using sample_connect [of 9] by (metis fst_conv surj_pair)
  then have "new_events (run_top session_new) (sample_up 9) = [PeerConnected (V4 (Ipv4 10 0 0 2))]"
    by (simp add: sample_up_def run_connected_def new_events_def run_top_def session_new_def Let_def
        sample_ctx_def legacy_peer_def split: option.splits)
  then have step2: "node_step (\<lambda>_. None) (\<lambda>name seed. seed + 5) sample_boot n1 n2"
    using sample_task_step [OF _ sample_step [of 9], where n = n1 and ?xxh3.0 = "\<lambda>name seed. seed + 5" and io = sample_boot] n0(4)
    by (simp add: n1_def n2_def)
  define n3 where "n3 = n2\<lparr>nd_events := [], nd_metrics := pump_metrics (PeerConnected (V4 (Ipv4 10 0 0 2))) (nd_metrics n2),
      nd_ctl := reannounce_all speaker_ops (nd_ctl n2)\<rparr>"
  have "pump_step n2 = Some n3" by (simp add: pump_step_def n2_def n3_def pump_event_def is_connect_def)
  then have step3: "node_step (\<lambda>_. None) (\<lambda>name seed. seed + 5) sample_boot n2 n3" by (rule node_step.pumped)
  have drain: "nd_drain n1 = Serving" "nd_drain n2 = Serving" "nd_drain n3 = Serving"
    by (simp_all add: n1_def n2_def n3_def n0(3))
  have "?run n0 n3"
    by (rule node_run_step [OF node_run_step [OF node_run_step [OF node_run_start]]])
      (use step1 step2 step3 drain n0(3) in \<open>simp_all add: alive_def\<close>)
  have bgp2: "ct_bgp (nd_ctl n2) = Some (?speaker (sample_up 9))" by (simp add: n2_def)
  obtain sp where sp: "ct_bgp (nd_ctl n3) = Some sp" "tasks sp = tasks (?speaker (sample_up 9))"
    using ctl_step_tasks [OF reannounce_step bgp2] by (auto simp: n3_def)
  obtain hold d where up: "ss_phase (sample_up 9) = InDrive hold d" using sample_up_phase [of 9] by auto
  have one: "length (sp_peers sp) = 1" using tasks_nth(1) [OF sp(2)] by simp
  have phase: "ss_phase (ph_session (sp_peers sp ! 0)) = InDrive hold d" "ph_enabled (sp_peers sp ! 0)"
    "task_ip sp 0 = V4 (Ipv4 10 0 0 2)"
    using tasks_nth(2-4) [OF sp(2), of 0] up by (simp_all add: sample_peer_def task_ip_def sample_ctx_def legacy_peer_def)
  have "ct_config (nd_ctl n3) = Some sample_lb_config"
    using n0(7) by (simp add: n3_def n2_def n1_def reannounce_all_def Let_def split: option.splits)
  then show thesis
    by (rule_tac that [OF n0(1) \<open>?run n0 n3\<close> n0(2)])
      (use sp(1) one phase n0 in \<open>auto simp: peer_up_def n3_def n2_def n1_def\<close>)
qed

lemma node_peers_in_sync_witness:
  "\<exists>sp. peer_routes sp 0 = {Ipv4 10 9 0 1}"
proof -
  obtain n0 n sp where r: "boot (\<lambda>name seed. seed + 5) min sample_boot 0 [] False = Some (Started n0)"
    "node_run (\<lambda>_. None) (\<lambda>name seed. seed + 5) sample_boot (\<lambda>n. nd_drain n = Serving) n0 n"
    "nd_events n = []" "peer_up 0 (nd_ctl n)" "ct_config (nd_ctl n) = Some sample_lb_config"
    "ct_bgp (nd_ctl n) = Some (sp :: bgp_speaker)"
    by (rule sample_serving_run)
  have "\<not> pending n 0" by (simp add: pending_def r(3))
  from node_peers_in_sync [OF r(1) sample_files r(2,4) this] show ?thesis by (auto simp: r(5) sample_served)
qed

lemma drained_node_announces_nothing_witness:
  "\<exists>(n :: node) sp. ct_config (nd_ctl n) = Some sample_lb_config \<and> ct_bgp (nd_ctl n) = Some sp \<and>
     length (sp_peers sp) = 1 \<and> ct_vips_announced (nd_ctl n) = {}"
proof -
  obtain n0 n sp where r: "boot (\<lambda>name seed. seed + 5) min sample_boot 0 [] False = Some (Started n0)"
    "node_run (\<lambda>_. None) (\<lambda>name seed. seed + 5) sample_boot (\<lambda>n. nd_drain n = Serving) n0 n"
    "nd_drain n = Serving" "nd_reloading n = None" "ct_config (nd_ctl n) = Some sample_lb_config"
    "ct_bgp (nd_ctl n) = Some sp" "length (sp_peers sp) = 1"
    by (rule sample_serving_run)
  define n' where "n' = n\<lparr>nd_shutdown := True, nd_ctl := withdraw_all speaker_ops (nd_ctl n), nd_drain := Withdrawn\<rparr>"
  have step: "signal_step n = Some n'" by (simp add: signal_step_def r(3) n'_def)
  have "node_run (\<lambda>_. None) (\<lambda>name seed. seed + 5) sample_boot (\<lambda>n. nd_reloading n = None) n' n'"
    by (rule node_run_start) (simp add: n'_def r(4))
  from drained_node_announces_nothing [OF r(1) sample_files r(2) step this]
  have "ct_vips_announced (nd_ctl n') = {}" by blast
  moreover have "ctl_step undefined speaker_ops undefined WithdrawAll (nd_ctl n) = Some (nd_ctl n')"
    by (simp add: ctl_step_def n'_def)
  from ctl_step_tasks [OF this r(6)] obtain sp' where sp': "ct_bgp (nd_ctl n') = Some sp'" "tasks sp' = tasks sp"
    by blast
  moreover have "length (sp_peers sp') = 1" using tasks_nth(1) [OF sp'(2)] r(7) by simp
  moreover have "ct_config (nd_ctl n') = Some sample_lb_config"
    using r(5) by (simp add: n'_def withdraw_all_def Let_def split: option.splits)
  ultimately show ?thesis by blast
qed

lemma metrics_track_sessions_witness:
  "\<exists>m :: bgp_metrics. member (bm_peer_state m) (show_ip (V4 (Ipv4 10 0 0 2))) = 1 \<and>
       member (bm_peer_connects m) (show_ip (V4 (Ipv4 10 0 0 2))) =
       member (bm_peer_disconnects m) (show_ip (V4 (Ipv4 10 0 0 2))) + 1"
proof -
  obtain n0 n sp where r: "boot (\<lambda>name seed. seed + 5) min sample_boot 0 [] False = Some (Started n0)"
    "node_run (\<lambda>_. None) (\<lambda>name seed. seed + 5) sample_boot (\<lambda>n. nd_drain n = Serving) n0 n"
    "nd_config n0 = sample_node_config" "nd_events n = []"
    "ct_bgp (nd_ctl n) = Some sp" "length (sp_peers sp) = 1"
    "task_ip sp 0 = V4 (Ipv4 10 0 0 2)" "session_up (ss_phase (ph_session (sp_peers sp ! 0)))"
    by (rule sample_serving_run)
  have labels: "distinct (map bp_peer_ip (bgp_peers (nc_bgp (nd_config n0))))"
    by (simp add: r(3) sample_node_config_def sample_bgp_config_def)
  have 0: "0 < length (sp_peers sp)" by (simp add: r(6))
  have none: "\<forall>e \<in> set (nd_events n). event_peer e \<noteq> task_ip sp 0" by (simp add: r(4))
  from metrics_track_sessions [OF r(1) sample_files labels node_run_weaken [OF r(2)] r(5) 0 none] r(7,8)
  have "member (bm_peer_state (nd_metrics n)) (show_ip (V4 (Ipv4 10 0 0 2))) = 1 \<and>
       member (bm_peer_connects (nd_metrics n)) (show_ip (V4 (Ipv4 10 0 0 2))) =
       member (bm_peer_disconnects (nd_metrics n)) (show_ip (V4 (Ipv4 10 0 0 2))) + 1" by (simp add: Let_def)
  then show ?thesis by blast
qed

end
