(* ===== verification/NodeTraffic.thy ===== *)
theory NodeTraffic
  imports NodeRun Engine
begin

text \<open>
  Packets in the running node: the control plane and the data plane together. A rewriter thread of
  the per-queue engine loads the matcher and the lookup tables that the node shares once for each
  batch; \<open>load_shared\<close> is that load on the thread's own state, with both values from one moment. The
  theorem says where the packets of the configured services go, for a load outside a reload. Between the two
  halves of a reload a packet can find a matcher without a table (\<open>reload_drops_packets\<close>). Packets here are
  IP packets; what an AF_XDP socket delivers starts with an Ethernet header (\<open>ethernet_frame_dropped\<close>).
\<close>

definition load_shared :: "node \<Rightarrow> rewriter \<Rightarrow> rewriter" where
  "load_shared n r = r\<lparr>rw_tables := ct_lookup_tables (nd_ctl n), rw_matcher := nd_matcher n,
     rw_health := ct_health_status (nd_ctl n)\<rparr>"

lemma load_shared_sel [simp]:
  "rw_conn (load_shared n r) = rw_conn r" "rw_frag (load_shared n r) = rw_frag r"
  "rw_src_ip (load_shared n r) = rw_src_ip r" "rw_mtu (load_shared n r) = rw_mtu r"
  "rw_tables (load_shared n r) = ct_lookup_tables (nd_ctl n)" "rw_matcher (load_shared n r) = nd_matcher n"
  "rw_health (load_shared n r) = ct_health_status (nd_ctl n)" "rw_icmp (load_shared n r) = rw_icmp r"
  by (simp_all add: load_shared_def)

subsection \<open>The shared tables are always usable\<close>

definition good_tables :: "node \<Rightarrow> bool" where
  "good_tables n \<longleftrightarrow> (\<forall>pool t. ct_lookup_tables (nd_ctl n) pool = Some t \<longrightarrow> table_ok t)"

lemma built_tables_ok:
  assumes "config_ok m lb" and "build_lookup_tables xxh3 lb health m = Some T" and "T pool = Some t"
  shows "table_ok t"
proof -
  from assms(1) have c: "sized_config m (lc_pools lb)" "distinct (map pool_id (lc_pools lb))"
    by (simp_all add: config_ok_def)
  from tables_for_pools [OF c, of xxh3 health] assms(2,3) obtain p where
    p: "p \<in> set (lc_pools lb)" "pool_table xxh3 health m p = Some t"
    by (auto simp: build_lookup_tables_def)
  then have "length (table_backends health p) < 2 ^ 63"
    using c(1) table_backends_length [of health p] by (auto simp: sized_config_def intro: le_less_trans)
  with p(2) c(1) show ?thesis
    by (auto simp: pool_table_def sized_config_def intro: build_table_table_ok split: option.splits sum.splits)
qed

lemma apply_config_tables:
  assumes "apply_config xxh3 ops saved lb c = Some (c', w)" and "config_ok (ct_table_size c) lb"
    and "ct_lookup_tables c' pool = Some t"
  shows "table_ok t"
proof -
  from assms(1) obtain T where "build_lookup_tables xxh3 lb (ct_health_status c) (ct_table_size c) = Some T"
    "ct_lookup_tables c' = T"
    by (auto simp: apply_config_def replace_tables_def Let_def bind_eq_Some_conv)
  with built_tables_ok [OF assms(2)] assms(3) show ?thesis by blast
qed

lemma tables_kept [simp]:
  "ct_lookup_tables (reannounce_all ops c) = ct_lookup_tables c"
  "ct_lookup_tables (withdraw_all ops c) = ct_lookup_tables c"
  "ct_lookup_tables (close_sessions c') = ct_lookup_tables c'"
  by (simp_all add: reannounce_all_def withdraw_all_def close_sessions_def Let_def split: option.splits)

lemma node_step_tables:
  assumes "node_step env xxh3 io n n'" and "matcher_inv xxh3 n" and "good_tables n"
  shows "good_tables n'"
  using assms(1)
proof (cases rule: node_step.cases)
  case applied
  then obtain lb ctl w where a: "nd_reloading n = Some lb"
    "apply_config xxh3 speaker_ops (bi_saved io) lb (nd_ctl n) = Some (ctl, w)"
    "n' = n\<lparr>nd_ctl := ctl, nd_reloading := None\<rparr>" by (rule apply_cases)
  from assms(2) a(1) have "config_ok (ct_table_size (nd_ctl n)) lb"
    by (simp add: matcher_inv_def good_lb_def lb_config_ok_def ctl_quiet_def)
  from apply_config_tables [OF a(2) this] a(3) show ?thesis by (simp add: good_tables_def)
next
  case swapped
  with assms(3) show ?thesis by (auto elim!: swap_cases simp: good_tables_def)
next
  case pumped
  then show ?thesis by (rule pump_cases) (use assms(3) in \<open>simp add: good_tables_def\<close>)
next
  case signalled
  then show ?thesis by (rule signal_cases) (use assms(3) in \<open>simp_all add: good_tables_def\<close>)
qed (use assms(3) in \<open>simp_all add: good_tables_def main_poll_def\<close>)

lemma boot_tables_ok:
  assumes "boot xxh3 accept io now cores checking = Some (Started n)" and "sane_files io"
  shows "good_tables n"
proof -
  from assms(1) obtain matcher ctl where c: "boot_controller xxh3 io (nd_config n) = Some (matcher, ctl)" "nd_ctl n = ctl"
    by (rule boot_Started)
  have "table_ok t" if "ct_lookup_tables ctl pool = Some t" for pool t
  proof (cases "initial_lb_config io")
    case None
    with c(1) that show ?thesis
      by (auto simp: boot_controller_def with_bgp_def with_cache_path_def controller_new_def bind_eq_Some_conv)
  next
    case (Some lb)
    then have "config_ok DEFAULT_TABLE_SIZE lb"
      using initial_good [OF assms(2)] by (simp add: good_lb_def lb_config_ok_def)
    moreover from Some c(1) obtain c0 w where "apply_config xxh3 speaker_ops (bi_saved io) lb c0 = Some (ctl, w)"
      "ct_table_size c0 = DEFAULT_TABLE_SIZE"
      by (auto simp: boot_controller_def with_bgp_def with_cache_path_def controller_new_def bind_eq_Some_conv)
    ultimately show ?thesis using that apply_config_tables by metis
  qed
  then show ?thesis by (simp add: good_tables_def c(2))
qed

lemma node_run_traffic:
  assumes "boot xxh3 accept io now cores checking = Some (Started n0)" and "sane_files io"
    and "node_run env xxh3 io during n0 n"
  shows "matcher_inv xxh3 n" and "good_tables n"
proof -
  have "(matcher_inv xxh3 n \<and> good_tables n) \<and> during n"
    by (rule node_run_invariant [OF assms(3)])
      (use boot_matcher_inv [OF assms(1,2)] boot_tables_ok [OF assms(1,2)] node_step_matcher [OF assms(2)]
        node_step_tables in blast)+
  then show "matcher_inv xxh3 n" and "good_tables n" by simp_all
qed

subsection \<open>One packet of a configured service\<close>

text \<open>
  C3. The running node forwards. From the start of the process on, whatever the files, peers,
  reloads and interleavings, and unless a reload is between its two halves: a packet (or first
  fragment) that the shared matcher accepts belongs to a VIP service of the configuration in force,
  whose pool exists; when that pool has an eligible backend with a positive weight, a thread
  in any state that finds the packet within the MTU sends it, clamped, in a GRE frame from the
  node's address to the backend that its connection table holds for the flow, and else to a
  eligible backend of the pool with a positive weight; only a backend with an IPv6 address makes it drop
  the packet. Nothing panics.
\<close>

theorem node_forwards_packet:
  assumes "boot xxh3 accept io now0 cores checking = Some (Started n0)" and "sane_files io"
    and "node_run env xxh3 io (\<lambda>_. True) n0 n" and "nd_reloading n = None"
    and "conn_table_wf (rw_conn r)" and "fragment_table_wf (rw_frag r)" and "rw_src_ip r = V4 s"
    and "packet_buf_ok p" and "pkt_len p + ENCAP_OVERHEAD \<le> PACKET_BUF_SIZE"
    and "is_non_first_fragment (valid_bytes p) = Some False"
    and "from_ipv4_bytes (valid_bytes p) = Some (Some meta)"
    and "should_generate_icmp (valid_bytes p) (network_mtu (rw_mtu r)) = Some False"
    and "match_packet (nd_matcher n) (dst_ip meta) (proto meta) (dst_port meta) = Some pool_name"
  shows "\<exists>lb v svc pl. ct_config (nd_ctl n) = Some lb \<and> v \<in> set (lc_vips lb) \<and> svc \<in> set (vip_services v) \<and>
     vip_address v = dst_ip meta \<and> svc_protocol svc = proto meta \<and> svc_port svc = dst_port meta \<and>
     svc_backend_pool svc = pool_name \<and> pl \<in> set (lc_pools lb) \<and> pool_id pl = pool_name \<and>
     ((\<exists>be \<in> set (table_backends Map.empty pl). 0 < be_weight be) \<longrightarrow>
      (\<exists>b res r'. process_one h64 (load_shared n r) p now = Some (res, r') \<and> rewriter_wf r' \<and>
         (case conn_get (rw_conn r) (flow_hash h64 meta) now of
            Some (Some ip) \<Rightarrow> b = ip
          | _ \<Rightarrow> \<exists>be \<in> set (table_backends Map.empty pl). 0 < be_weight be \<and> be_ip be = b) \<and>
         (case b of
            V6 _ \<Rightarrow> res = Dropped
          | V4 d \<Rightarrow> \<exists>q c inner. res = Forwarded q \<and>
              clamp_mss (valid_bytes p) (tcp_mss_clamp (rw_mtu r)) = Some (c, inner) \<and>
              decapsulate (valid_bytes q) = Some (s, d, inner_proto inner, inner))))"
proof -
  note inv = node_run_traffic [OF assms(1-3)]
  let ?r = "load_shared n r" and ?h = "flow_hash h64 meta"
  obtain lb v svc pl where c: "ct_config (nd_ctl n) = Some lb" "v \<in> set (lc_vips lb)" "svc \<in> set (vip_services v)"
    "vip_address v = dst_ip meta" "svc_protocol svc = proto meta" "svc_port svc = dst_port meta"
    "svc_backend_pool svc = pool_name" "pl \<in> set (lc_pools lb)" "pool_id pl = pool_name"
    and table: "(\<exists>be \<in> set (table_backends Map.empty pl). 0 < be_weight be) \<Longrightarrow>
      \<exists>t be. ct_lookup_tables (nd_ctl n) pool_name = Some t \<and> table_lookup t ?h = Some be \<and>
        be \<in> set (table_backends Map.empty pl) \<and> 0 < be_weight be"
    using node_packets_find_backend [OF assms(1-4,13), of ?h] by blast
  have wf: "rewriter_wf ?r" using inv(2) assms(5,6) by (simp add: rewriter_wf_def good_tables_def)
  have health: "rw_health ?r = Map.empty" using matcher_inv_quiet [OF inv(1)] by (simp add: ctl_quiet_def)
  have "\<exists>b res r'. process_one h64 ?r p now = Some (res, r') \<and> rewriter_wf r' \<and>
         (case conn_get (rw_conn r) ?h now of
            Some (Some ip) \<Rightarrow> b = ip
          | _ \<Rightarrow> \<exists>be \<in> set (table_backends Map.empty pl). 0 < be_weight be \<and> be_ip be = b) \<and>
         (case b of
            V6 _ \<Rightarrow> res = Dropped
          | V4 d \<Rightarrow> \<exists>q c inner. res = Forwarded q \<and>
              clamp_mss (valid_bytes p) (tcp_mss_clamp (rw_mtu r)) = Some (c, inner) \<and>
              decapsulate (valid_bytes q) = Some (s, d, inner_proto inner, inner))"
    if some: "\<exists>be \<in> set (table_backends Map.empty pl). 0 < be_weight be"
  proof -
    obtain t be where t: "ct_lookup_tables (nd_ctl n) pool_name = Some t" "table_lookup t ?h = Some be"
      "be \<in> set (table_backends Map.empty pl)" "0 < be_weight be" using table [OF some] by blast
    have main: "main_path h64 ?r p meta t" using assms(10,11,13) t(1) by (simp add: main_path_def)
    have src: "rw_src_ip ?r = V4 s"
      and small: "should_generate_icmp (valid_bytes p) (network_mtu (rw_mtu ?r)) = Some False"
      using assms(7,12) by simp_all
    obtain b res r' where f: "process_one h64 ?r p now = Some (res, r')" "rw_keeps ?r r'"
      "(\<exists>be. table_lookup t ?h = Some be \<and> be_ip be = b) \<or>
         conn_get (rw_conn ?r) ?h now = Some (Some b) \<and> cached_backend_usable ?r b"
      "\<forall>ip. conn_get (rw_conn ?r) ?h now = Some (Some ip) \<and> cached_backend_usable ?r ip \<longrightarrow> ip = b"
      "case b of
         V6 _ \<Rightarrow> res = Dropped
       | V4 d \<Rightarrow> \<exists>q c inner. res = Forwarded q \<and>
           clamp_mss (valid_bytes p) (tcp_mss_clamp (rw_mtu ?r)) = Some (c, inner) \<and>
           decapsulate (valid_bytes q) = Some (s, d, inner_proto inner, inner)"
      using main_path_forwards [OF wf assms(8) main src assms(9) small, of now] by (elim exE conjE)
    have "case conn_get (rw_conn r) ?h now of
        Some (Some ip) \<Rightarrow> b = ip | _ \<Rightarrow> \<exists>be \<in> set (table_backends Map.empty pl). 0 < be_weight be \<and> be_ip be = b"
      using f(3,4) t(2-4) health by (auto simp: cached_backend_usable_def split: option.splits)
    with f(1,5) [unfolded load_shared_sel] rw_keeps_wf [OF f(2)] show ?thesis by blast
  qed
  with c show ?thesis by blast
qed

subsection \<open>A concrete packet\<close>

text \<open>A TCP SYN from a client to port 80 of the VIP of the sample configuration.\<close>

definition syn_bytes :: "u8 list" where
  "syn_bytes = [0x45, 0, 0, 40, 0, 7, 0, 0, 64, 6, 0, 0, 10, 0, 0, 100, 10, 9, 0, 1,
     0x30, 0x39, 0, 80, 0, 0, 0, 1, 0, 0, 0, 0, 0x50, 0x02, 0, 0, 0, 0, 0, 0]"

definition syn_meta :: packet_meta where
  "syn_meta = \<lparr>src_ip = V4 (Ipv4 10 0 0 100), dst_ip = V4 (Ipv4 10 9 0 1), src_port = 12345,
     dst_port = 80, proto = Tcp, meta_flags = Some (TcpFlags 2)\<rparr>"

lemma syn_parse:
  "is_non_first_fragment syn_bytes = Some False"
  "from_ipv4_bytes syn_bytes = Some (Some syn_meta)"
  "should_generate_icmp syn_bytes 1500 = Some False"
  by (code_simp)+

lemma sample_matched:
  "match_packet (build_vip_matcher sample_lb_config) (V4 (Ipv4 10 9 0 1)) Tcp 80 = Some ''web''"
  by (simp add: build_vip_matcher_def sample_lb_config_def sample_vip_def vip_entries_def
      matcher_from_entries_def matcher_insert_def vip_matcher_new_def match_packet_def)

lemma sample_eligible: "table_backends Map.empty sample_pool = [backend_new (V4 (Ipv4 10 0 0 1)) 80]"
  by (simp add: table_backends_def active_backends_def usable_def sample_pool_def backend_new_def)

lemma node_forwards_packet_witness:
  "\<exists>(n :: node) r q r' inner. ct_config (nd_ctl n) = Some sample_lb_config \<and>
     process_one (\<lambda>_. 0) (load_shared n r) (from_slice syn_bytes) 7 = Some (Forwarded q, r') \<and>
     decapsulate (valid_bytes q) = Some (Ipv4 172 16 0 1, Ipv4 10 0 0 1, inner_proto inner, inner)"
proof -
  obtain n0 n sp where run: "boot (\<lambda>name seed. seed + 5) min sample_boot 0 [] False = Some (Started n0)"
    "node_run (\<lambda>_. None) (\<lambda>name seed. seed + 5) sample_boot (\<lambda>n. nd_drain n = Serving) n0 n"
    "nd_reloading n = None" "ct_config (nd_ctl n) = Some sample_lb_config"
    "nd_matcher n = build_vip_matcher sample_lb_config" "ct_bgp (nd_ctl n) = Some (sp :: bgp_speaker)"
    by (rule sample_serving_run)
  obtain r where r: "rewriter_wf r" "rw_src_ip r = V4 (Ipv4 172 16 0 1)"
    "\<forall>h now. conn_get (rw_conn r) h now = Some None"
    "rw_mtu r = \<lparr>network_mtu = 1500, effective_inner_mtu = 1476, tcp_mss_clamp = 1436\<rparr>"
    using sample_started by blast
  have wf: "conn_table_wf (rw_conn r)" "fragment_table_wf (rw_frag r)" using r(1) by (simp_all add: rewriter_wf_def)
  have len: "length syn_bytes = 40" by (simp add: syn_bytes_def)
  then have p: "valid_bytes (from_slice syn_bytes) = syn_bytes" "pkt_len (from_slice syn_bytes) = 40"
    by (simp_all add: from_slice_def PACKET_BUF_SIZE_def valid_bytes_def)
  have parse: "is_non_first_fragment (valid_bytes (from_slice syn_bytes)) = Some False"
    "from_ipv4_bytes (valid_bytes (from_slice syn_bytes)) = Some (Some syn_meta)"
    unfolding p(1) by (rule syn_parse)+
  have small: "should_generate_icmp (valid_bytes (from_slice syn_bytes)) (network_mtu (rw_mtu r)) = Some False"
    unfolding p(1) by (simp add: r(4) syn_parse)
  have fit: "pkt_len (from_slice syn_bytes) + ENCAP_OVERHEAD \<le> PACKET_BUF_SIZE"
    unfolding p(2) by (simp add: ENCAP_OVERHEAD_def GRE_HEADER_SIZE_def OUTER_IP_HEADER_SIZE_def PACKET_BUF_SIZE_def)
  have match: "match_packet (nd_matcher n) (dst_ip syn_meta) (proto syn_meta) (dst_port syn_meta) = Some ''web''"
    using sample_matched by (simp add: run(5) syn_meta_def)
  from node_forwards_packet [OF run(1) sample_files node_run_weaken [OF run(2)] run(3) wf r(2) from_slice_ok fit
      parse small match, where ?h64.0 = "\<lambda>_. 0" and now = 7] run(4) r(3)
  show ?thesis by (fastforce simp: sample_lb_config_def sample_eligible backend_new_def)
qed

text \<open>
  Between the halves of a reload the matcher is new and the tables are old: a packet for a service
  whose pool is new is dropped, also when the service itself is in both configurations.
\<close>

lemma reload_drops_packets:
  assumes "reload_swap n = Some n'" and "nd_inbox n = lb # rest" and "packet_buf_ok p"
    and "is_non_first_fragment (valid_bytes p) = Some False"
    and "from_ipv4_bytes (valid_bytes p) = Some (Some meta)"
    and "match_packet (build_vip_matcher lb) (dst_ip meta) (proto meta) (dst_port meta) = Some pool_name"
    and "ct_lookup_tables (nd_ctl n) pool_name = None"
  shows "nd_reloading n' = Some lb \<and> (\<exists>r'. process_one h64 (load_shared n' r) p now = Some (Dropped, r'))"
proof -
  obtain c out where "as_mut_slice p (\<lambda>d. clamp_mss d (tcp_mss_clamp (rw_mtu r))) = Some (c, out)" "packet_buf_ok out"
    using clamped_output [OF assms(3), of "tcp_mss_clamp (rw_mtu r)"] by blast
  with assms(2-7) show ?thesis
    by (rule_tac swap_cases [OF assms(1)]) (auto simp: process_one_def Let_def)
qed

text \<open>
  An AF_XDP socket delivers frames of the link layer, and no step between \<^verbatim>\<open>recv_batch\<close> and the parsers
  takes the Ethernet header off. The parsers then read the address of the receiving network card
  as the start of an IP header: unless its first digit happens to be 4, nothing is ever forwarded.
\<close>

lemma ethernet_frame_dropped:
  assumes "packet_buf_ok p" and "valid_bytes p = dst_mac @ src_mac @ ether_type @ packet"
    and "length dst_mac = 6" and "drop_bit 4 (hd dst_mac) \<noteq> 4"
  shows "process_one h64 r p now = Some (Dropped, r)"
proof -
  have first: "valid_bytes p \<noteq> []" "valid_bytes p ! 0 = hd dst_mac"
    using assms(2,3) by (cases dst_mac; simp)+
  then have parse: "from_ipv4_bytes (valid_bytes p) = Some None" "fragment_id_from_ipv4_bytes (valid_bytes p) = Some None"
    using assms(4) by (simp_all add: from_ipv4_bytes_def fragment_id_from_ipv4_bytes_def byte_at_def)
  obtain later where "is_non_first_fragment (valid_bytes p) = Some later"
    using is_non_first_fragment_no_panic by blast
  with parse assms(1) show ?thesis
    by (cases later) (simp_all add: process_one_def process_later_fragment_def)
qed

end
