(* ===== verification/NodeDrain.thy ===== *)
theory NodeDrain
  imports NodeRun
begin

text \<open>
  The end of the process (crate lb-node, main.rs: the signal handler; lb-bgp: the shutdown of the
  tasks): from every state that a running node can reach some continuation drains it and exits with
  code 0, and it never exits with 0 before every session task has ended and the threads were told to
  stop. The first half composes runs of the single tasks; the second half is an invariant of the
  stages of the handler. What can delay the drain without bound is a connection attempt, which
  ignores the queued shutdown (\<open>connect_ignores_shutdown\<close>).
\<close>

subsection \<open>One task ends\<close>

text \<open>The moves a task makes on its own, for enabled and for disabled peers.\<close>

definition task_move :: "(string \<Rightarrow> string option) \<Rightarrow> peer_session_ctx \<Rightarrow> session \<Rightarrow> session \<Rightarrow> bool" where
  "task_move env ctx s s' \<longleftrightarrow>
     (\<exists>now l. session_step env ctx now l s = Some s' \<and> (\<forall>cmd. l \<noteq> Send cmd) \<and> l \<noteq> DropSender)"

definition peer_move :: "(string \<Rightarrow> string option) \<Rightarrow> peer_handle \<Rightarrow> session \<Rightarrow> session \<Rightarrow> bool" where
  "peer_move env p s s' \<longleftrightarrow> (if ph_enabled p then task_move env (ph_ctx p) s s' else disabled_step s = Some s')"

definition told_to_end :: "session \<Rightarrow> bool" where
  "told_to_end s \<longleftrightarrow> task_gone s \<or> Shutdown \<in> set (ss_queue s)"

lemma attempt_ends:
  "ss_queue (run_connected env ctx now io s) = ss_queue s \<and> ss_phase (run_connected env ctx now io s) \<noteq> InConnect"
  by (auto simp: run_connected_def enter_backoff_def Let_def split: prod.splits sum.splits option.splits)

lemma told_task_move:
  assumes "task_move env ctx s s'" and "told_to_end s"
  shows "told_to_end s'"
proof -
  from assms(1) obtain now l where step: "session_step env ctx now l s = Some s'" by (auto simp: task_move_def)
  show ?thesis
  proof (cases "ss_phase s = InConnect \<and> (\<exists>io. l = ConnectDone io)")
    case True
    then have "ss_queue s' = ss_queue s"
      using step step_connect_done [of env ctx now _ s s'] attempt_ends by metis
    with assms(2) True show ?thesis by (auto simp: told_to_end_def task_gone_def)
  next
    case False
    show ?thesis
    proof (cases "ss_phase s = InConnect")
      case True
      with step assms(2) False show ?thesis
        by (cases l) (auto simp: session_step_def told_to_end_def send_cmd_def task_gone_def split: if_splits)
    next
      case False
      with assms(2) have "shutting_down s" by (auto simp: shutting_down_def told_to_end_def)
      from shutting_down_step [OF step this] show ?thesis by (auto simp: shutting_down_def told_to_end_def)
    qed
  qed
qed

lemma told_disabled_step:
  assumes "disabled_step s = Some s'" and "told_to_end s"
  shows "told_to_end s'"
  using assms by (auto simp: disabled_step_def recv_def told_to_end_def task_gone_def split: list.splits if_splits)


lemma task_moves_end:
  assumes "Shutdown \<in> set (ss_queue s)" and "ss_phase s \<noteq> InConnect"
  shows "\<exists>s'. (task_move env ctx)\<^sup>*\<^sup>* s s' \<and> task_gone s'"
  using assms
proof (induction "length (ss_queue s)" arbitrary: s rule: less_induct)
  case less
  from less.prems(1) obtain c rest where q: "ss_queue s = c # rest" by (cases "ss_queue s") auto
  have one: "\<exists>s'. (task_move env ctx)\<^sup>*\<^sup>* s s' \<and> task_gone s'" if "task_move env ctx s s1" "task_gone s1" for s1
    using that by blast
  show ?case
  proof (cases "ss_phase s")
    case LoopTop
    then have "task_move env ctx s (run_top s)"
      unfolding task_move_def by (intro exI [of _ 0] exI [of _ Top]) (simp add: session_step_def)
    with one run_top_shutdown [OF less.prems(1)] show ?thesis by (simp add: task_gone_def)
  next
    case (InDrive hold d)
    define s1 where "s1 = run_drive ctx 0 hold (GotCommand (Some c) (\<lambda>_. None)) d (s\<lparr>ss_queue := rest\<rparr>)"
    have m: "task_move env ctx s s1" unfolding task_move_def
      by (intro exI [of _ 0] exI [of _ "DriveCommand (\<lambda>_. None)"])
        (simp add: session_step_def InDrive recv_def q s1_def)
    show ?thesis
    proof (cases "c = Shutdown")
      case True
      then have "task_gone s1"
        using run_drive_command_phase [of ctx 0 hold "\<lambda>_. None" d "s\<lparr>ss_queue := rest\<rparr>"]
        by (auto simp: s1_def task_gone_def)
      with one m show ?thesis by blast
    next
      case False
      then have "Shutdown \<in> set (ss_queue s1)" "ss_phase s1 \<noteq> InConnect" "length (ss_queue s1) < length (ss_queue s)"
        using less.prems(1) q run_drive_phase [of ctx 0 hold "GotCommand (Some c) (\<lambda>_. None)" d "s\<lparr>ss_queue := rest\<rparr>"]
        by (auto simp: s1_def)
      from less.hyps [OF this(3,1,2)] m show ?thesis by (meson converse_rtranclp_into_rtranclp)
    qed
  next
    case (InBackoff dl)
    define s1 where "s1 = run_backoff_command (Some c) (s\<lparr>ss_queue := rest\<rparr>)"
    have m: "task_move env ctx s s1" unfolding task_move_def
      by (intro exI [of _ 0] exI [of _ BackoffCommand]) (simp add: session_step_def InBackoff recv_def q s1_def)
    show ?thesis
    proof (cases "c = Shutdown")
      case True
      with one m show ?thesis by (simp add: s1_def run_backoff_command_def task_gone_def)
    next
      case False
      then have "Shutdown \<in> set (ss_queue s1)" "ss_phase s1 \<noteq> InConnect" "length (ss_queue s1) < length (ss_queue s)"
        using less.prems(1) q by (auto simp: s1_def run_backoff_command_def leave_backoff_def)
      from less.hyps [OF this(3,1,2)] m show ?thesis by (meson converse_rtranclp_into_rtranclp)
    qed
  qed (use less.prems(2) in \<open>auto simp: task_gone_def\<close>)
qed

text \<open>An attempt can fail at any moment; then the shutdown is next.\<close>

definition refused :: connect_io where
  "refused = \<lparr>ci_socket = None, ci_setsockopt = (\<lambda>_. None), ci_connect = Refused [], ci_write_open = None,
     ci_read = Inl [], ci_write_keepalive = None\<rparr>"

lemma task_can_end:
  assumes "told_to_end s"
  shows "\<exists>s'. (task_move env ctx)\<^sup>*\<^sup>* s s' \<and> task_gone s'"
proof (cases "ss_phase s = InConnect \<and> \<not> task_gone s")
  case True
  define s1 where "s1 = run_connected env ctx 0 refused s"
  have m: "task_move env ctx s s1" unfolding task_move_def
    by (intro exI [of _ 0] exI [of _ "ConnectDone refused"]) (simp add: session_step_def True s1_def refused_def)
  have "ss_phase s1 \<noteq> InConnect" "ss_queue s1 = ss_queue s"
    by (simp_all add: s1_def attempt_ends)
  with task_moves_end [of s1 env ctx] assms True m show ?thesis
    by (auto simp: told_to_end_def intro: converse_rtranclp_into_rtranclp)
next
  case False
  with assms task_moves_end [of s env ctx] show ?thesis by (auto simp: told_to_end_def)
qed

lemma disabled_can_end:
  assumes "told_to_end s"
  shows "\<exists>s'. (\<lambda>s s'. disabled_step s = Some s')\<^sup>*\<^sup>* s s' \<and> task_gone s'"
proof (cases "task_gone s")
  case False
  with assms have "Shutdown \<in> set (ss_queue s)" by (simp add: told_to_end_def)
  then show ?thesis
  proof (induction "ss_queue s" arbitrary: s)
    case (Cons c rest)
    define s1 where "s1 = (if c = Shutdown then s\<lparr>ss_queue := rest, ss_phase := Finished\<rparr> else s\<lparr>ss_queue := rest\<rparr>)"
    have m: "disabled_step s = Some s1"
      using Cons.hyps(2) [symmetric] by (simp add: disabled_step_def recv_def s1_def)
    show ?case
    proof (cases "c = Shutdown")
      case True
      with m show ?thesis by (auto simp: s1_def task_gone_def)
    next
      case False
      with Cons.hyps(1) [of s1] Cons.hyps(2) [symmetric] Cons.prems m show ?thesis
        by (auto simp: s1_def intro: converse_rtranclp_into_rtranclp)
    qed
  qed simp
qed blast

lemma peer_can_end:
  assumes "told_to_end s"
  shows "\<exists>s'. (peer_move env p)\<^sup>*\<^sup>* s s' \<and> task_gone s'"
proof (cases "ph_enabled p")
  case True
  then have "peer_move env p = task_move env (ph_ctx p)" by (simp add: peer_move_def fun_eq_iff)
  then show ?thesis using task_can_end [OF assms] by simp
next
  case False
  then have "peer_move env p = (\<lambda>s s'. disabled_step s = Some s')" by (simp add: peer_move_def fun_eq_iff)
  then show ?thesis using disabled_can_end [OF assms] by simp
qed

subsection \<open>The tasks of the node\<close>

lemma node_run_trans:
  assumes "node_run env xxh3 io (\<lambda>_. True) n1 n2" and "node_run env xxh3 io (\<lambda>_. True) n0 n1"
  shows "node_run env xxh3 io (\<lambda>_. True) n0 n2"
  using assms by (induction rule: node_run.induct) (auto intro: node_run.intros)

lemma node_run_one:
  assumes "alive n" and "node_step env xxh3 io n n'"
  shows "node_run env xxh3 io (\<lambda>_. True) n n'"
  using node_run_step [OF node_run_start assms] by simp

definition all_told :: "node \<Rightarrow> bool" where
  "all_told n \<longleftrightarrow>
     (\<exists>sp. ct_bgp (nd_ctl n) = Some sp \<and> (\<forall>p \<in> set (sp_peers sp). told_to_end (ph_session p)))"

text \<open>A move of a task is a step of the node that changes nothing but its session and the event channel.\<close>

lemma peer_move_step:
  assumes "ct_bgp (nd_ctl n) = Some sp" and "i < length (sp_peers sp)"
    and "peer_move env (sp_peers sp ! i) (ph_session (sp_peers sp ! i)) s'"
  shows "\<exists>n'. node_step env xxh3 io n n' \<and> ct_bgp (nd_ctl n') = Some (update_peer i s' sp) \<and>
     nd_drain n' = nd_drain n \<and> ct_vips_announced (nd_ctl n') = ct_vips_announced (nd_ctl n)"
proof (cases "ph_enabled (sp_peers sp ! i)")
  case True
  with assms(3) obtain now l where
    "session_step env (ph_ctx (sp_peers sp ! i)) now l (ph_session (sp_peers sp ! i)) = Some s'"
    "\<forall>cmd. l \<noteq> Send cmd" "l \<noteq> DropSender"
    by (auto simp: peer_move_def task_move_def)
  from node_step.task [OF assms(1,2) True this] show ?thesis by (intro exI conjI) (assumption, simp_all)
next
  case False
  with assms(3) have "disabled_step (ph_session (sp_peers sp ! i)) = Some s'" by (simp add: peer_move_def)
  from node_step.disabled_task [OF assms(1,2) False this] show ?thesis by (intro exI conjI) (assumption, simp_all)
qed

lemma update_peer_twice: "update_peer i s2 (update_peer i s1 sp) = update_peer i s2 sp"
  by (cases "i < length (sp_peers sp)") (simp_all add: update_peer_def list_update_beyond)

lemma peer_moves_run:
  assumes "(peer_move env (sp_peers sp ! i))\<^sup>*\<^sup>* (ph_session (sp_peers sp ! i)) s'"
    and "ct_bgp (nd_ctl n) = Some sp" and i: "i < length (sp_peers sp)" and "alive n"
  shows "\<exists>n'. node_run env xxh3 io (\<lambda>_. True) n n' \<and> ct_bgp (nd_ctl n') = Some (update_peer i s' sp) \<and>
     nd_drain n' = nd_drain n \<and> ct_vips_announced (nd_ctl n') = ct_vips_announced (nd_ctl n)"
  using assms(1)
proof (induction rule: rtranclp_induct)
  case base
  have "update_peer i (ph_session (sp_peers sp ! i)) sp = sp" by (simp add: update_peer_def)
  with assms(2) show ?case by (auto intro: node_run_start)
next
  case (step s1 s2)
  then obtain n1 where n1: "node_run env xxh3 io (\<lambda>_. True) n n1" "ct_bgp (nd_ctl n1) = Some (update_peer i s1 sp)"
    "nd_drain n1 = nd_drain n" "ct_vips_announced (nd_ctl n1) = ct_vips_announced (nd_ctl n)" by blast
  have "peer_move env (sp_peers (update_peer i s1 sp) ! i) (ph_session (sp_peers (update_peer i s1 sp) ! i)) s2"
    using step.hyps(2) i by (simp add: update_peer_def peer_move_def)
  from peer_move_step [OF n1(2) _ this, where ?xxh3.0 = xxh3 and io = io] i obtain n2 where
    "node_step env xxh3 io n1 n2" "ct_bgp (nd_ctl n2) = Some (update_peer i s2 sp)" "nd_drain n2 = nd_drain n1"
    "ct_vips_announced (nd_ctl n2) = ct_vips_announced (nd_ctl n1)"
    by (auto simp: update_peer_def)
  moreover have "alive n1" using assms(4) n1(3) by (simp add: alive_def)
  ultimately show ?case using n1(1,3,4) by (metis node_run_step)
qed

lemma tasks_can_end:
  assumes "ct_bgp (nd_ctl n) = Some sp" and "\<forall>p \<in> set (sp_peers sp). told_to_end (ph_session p)"
    and "alive n" and "k \<le> length (sp_peers sp)"
  shows "\<exists>n' sp'. node_run env xxh3 io (\<lambda>_. True) n n' \<and> ct_bgp (nd_ctl n') = Some sp' \<and>
     nd_drain n' = nd_drain n \<and> ct_vips_announced (nd_ctl n') = ct_vips_announced (nd_ctl n) \<and>
     length (sp_peers sp') = length (sp_peers sp) \<and>
     (\<forall>j < length (sp_peers sp). told_to_end (ph_session (sp_peers sp' ! j))) \<and>
     (\<forall>j < k. task_gone (ph_session (sp_peers sp' ! j)))"
  using assms(4)
proof (induction k)
  case 0
  with assms(1,2) show ?case by (intro exI [of _ n] exI [of _ sp]) (simp add: node_run_start)
next
  case (Suc k)
  then obtain n1 sp1 where n1: "node_run env xxh3 io (\<lambda>_. True) n n1" "ct_bgp (nd_ctl n1) = Some sp1"
    "nd_drain n1 = nd_drain n" "ct_vips_announced (nd_ctl n1) = ct_vips_announced (nd_ctl n)"
    "length (sp_peers sp1) = length (sp_peers sp)"
    "\<forall>j < length (sp_peers sp). told_to_end (ph_session (sp_peers sp1 ! j))"
    "\<forall>j < k. task_gone (ph_session (sp_peers sp1 ! j))" by auto
  have k: "k < length (sp_peers sp1)" using Suc.prems n1(5) by simp
  obtain s' where s': "(peer_move env (sp_peers sp1 ! k))\<^sup>*\<^sup>* (ph_session (sp_peers sp1 ! k)) s'" "task_gone s'"
    using peer_can_end n1(5,6) k by metis
  have "alive n1" using assms(3) n1(3) by (simp add: alive_def)
  from peer_moves_run [OF s'(1) n1(2) k this] obtain n2 where
    "node_run env xxh3 io (\<lambda>_. True) n1 n2" "ct_bgp (nd_ctl n2) = Some (update_peer k s' sp1)"
    "nd_drain n2 = nd_drain n1" "ct_vips_announced (nd_ctl n2) = ct_vips_announced (nd_ctl n1)" by blast
  moreover have "told_to_end s'" using s'(2) by (simp add: told_to_end_def)
  ultimately show ?case using n1 s'(2) k
    by (intro exI [of _ n2] exI [of _ "update_peer k s' sp1"])
      (auto simp: update_peer_def nth_list_update less_Suc_eq intro: node_run_trans)
qed

subsection \<open>The stages of the handler\<close>

text \<open>What holds in each stage: this is an invariant of the running node.\<close>

definition stage_inv :: "node \<Rightarrow> bool" where
  "stage_inv n \<longleftrightarrow> ct_bgp (nd_ctl n) \<noteq> None \<and>
     (nd_drain n \<in> {Withdrawn, Closing, Stopping, Exited 0} \<longrightarrow> nd_shutdown n) \<and>
     (nd_drain n = Closing \<longrightarrow> all_told n) \<and>
     (nd_drain n \<in> {Stopping, Exited 0} \<longrightarrow> all_tasks_gone n \<and> tg_shutdown (nd_threads n))"

lemma gone_move:
  assumes "peer_move env p s s'" and "task_gone s"
  shows "task_gone s'"
proof (cases "ph_enabled p")
  case True
  with assms gone_stays show ?thesis by (auto simp: peer_move_def task_move_def)
next
  case False
  with assms show ?thesis
    by (auto simp: peer_move_def disabled_step_def recv_def task_gone_def split: list.splits if_splits)
qed

lemma told_move:
  assumes "peer_move env p s s'" and "told_to_end s"
  shows "told_to_end s'"
  using assms told_task_move told_disabled_step by (auto simp: peer_move_def split: if_splits)

lemma stage_move:
  assumes inv: "stage_inv n" and sp: "ct_bgp (nd_ctl n) = Some sp" and i: "i < length (sp_peers sp)"
    and m: "peer_move env (sp_peers sp ! i) (ph_session (sp_peers sp ! i)) s'"
    and n': "ct_bgp (nd_ctl n') = Some (update_peer i s' sp)" "nd_drain n' = nd_drain n"
      "nd_shutdown n' = nd_shutdown n" "nd_threads n' = nd_threads n"
  shows "stage_inv n'"
proof -
  have peers: "p = (sp_peers sp ! i)\<lparr>ph_session := s'\<rparr> \<or> p \<in> set (sp_peers sp)"
    if "p \<in> set (sp_peers (update_peer i s' sp))" for p
    using that set_update_subset_insert [of "sp_peers sp" i] by (auto simp: update_peer_def)
  have old: "sp_peers sp ! i \<in> set (sp_peers sp)" using i by simp
  have "all_told n \<Longrightarrow> all_told n'"
    using peers old told_move [OF m] sp n'(1) by (fastforce simp: all_told_def)
  moreover have "all_tasks_gone n \<Longrightarrow> all_tasks_gone n'"
    using peers old gone_move [OF m] sp n'(1) by (fastforce simp: all_tasks_gone_def)
  ultimately show ?thesis using inv n' by (simp add: stage_inv_def)
qed

text \<open>What the controller sends neither revives a task nor takes a queued shutdown back.\<close>

definition keeps_ended :: "bgp_speaker \<Rightarrow> bgp_speaker \<Rightarrow> bool" where
  "keeps_ended sp sp' \<longleftrightarrow>
     ((\<forall>p \<in> set (sp_peers sp). told_to_end (ph_session p)) \<longrightarrow> (\<forall>p \<in> set (sp_peers sp'). told_to_end (ph_session p))) \<and>
     ((\<forall>p \<in> set (sp_peers sp). task_gone (ph_session p)) \<longrightarrow> (\<forall>p \<in> set (sp_peers sp'). task_gone (ph_session p)))"

lemma told_send [simp]: "told_to_end s \<Longrightarrow> told_to_end (send_cmd cmd s)"
  by (auto simp: told_to_end_def send_cmd_def task_gone_def)

lemma keeps_ended_trans: "keeps_ended sp1 sp2 \<Longrightarrow> keeps_ended sp2 sp3 \<Longrightarrow> keeps_ended sp1 sp3"
  unfolding keeps_ended_def by (elim conjE) (intro conjI impI; blast)

lemma keeps_ended_map:
  assumes "\<And>p. \<exists>cmd. ph_session (f p) \<in> {ph_session p, send_cmd cmd (ph_session p)}"
  shows "keeps_ended sp (sp\<lparr>sp_peers := map f (sp_peers sp)\<rparr>)"
proof -
  have "(told_to_end (ph_session p) \<longrightarrow> told_to_end (ph_session (f p))) \<and>
      (task_gone (ph_session p) \<longrightarrow> task_gone (ph_session (f p)))" for p
  proof -
    obtain cmd where "ph_session (f p) = ph_session p \<or> ph_session (f p) = send_cmd cmd (ph_session p)"
      using assms [of p] by blast
    then show ?thesis by (elim disjE) (simp_all add: send_cmd_live)
  qed
  then show ?thesis by (simp add: keeps_ended_def)
qed

lemma keeps_ended_ops:
  shows "keeps_ended sp sp" and "keeps_ended sp (speaker_announce vips sp)"
    and "keeps_ended sp (speaker_withdraw vips sp)"
proof -
  show same: "keeps_ended sp sp" by (simp add: keeps_ended_def)
  have "keeps_ended sp (sp\<lparr>sp_peers := map (\<lambda>p. if ph_enabled p then send_to cmd p else p) (sp_peers sp)\<rparr>)" for cmd
    by (rule keeps_ended_map, rule exI [of _ cmd]) (simp add: send_to_def)
  with same show "keeps_ended sp (speaker_announce vips sp)" "keeps_ended sp (speaker_withdraw vips sp)"
    by (simp_all add: speaker_announce_def speaker_withdraw_def)
qed

lemma controller_keeps_ended:
  assumes "ct_bgp c = Some sp"
  shows "\<exists>sp'. ct_bgp (reannounce_all speaker_ops c) = Some sp' \<and> keeps_ended sp sp'"
    and "\<exists>sp'. ct_bgp (withdraw_all speaker_ops c) = Some sp' \<and> keeps_ended sp sp'"
    and "\<exists>sp'. ct_bgp (sync_bgp_announcements speaker_ops c) = Some sp' \<and> keeps_ended sp sp'"
  using assms keeps_ended_trans [OF keeps_ended_ops(2) keeps_ended_ops(3)]
  by (simp_all add: reannounce_all_def withdraw_all_def sync_bgp_announcements_def speaker_ops_def announcer_of_def
      keeps_ended_ops Let_def)

lemma stage_ctl:
  assumes inv: "stage_inv n" and sp: "ct_bgp (nd_ctl n) = Some sp" "ct_bgp (nd_ctl n') = Some sp'"
    and k: "keeps_ended sp sp'" and n': "nd_drain n' = nd_drain n" "nd_shutdown n' = nd_shutdown n"
      "nd_threads n' = nd_threads n"
  shows "stage_inv n'"
proof -
  have "all_told n \<Longrightarrow> all_told n'" using sp k by (simp add: all_told_def keeps_ended_def)
  moreover have "all_tasks_gone n \<Longrightarrow> all_tasks_gone n'" using sp k by (simp add: all_tasks_gone_def keeps_ended_def)
  ultimately show ?thesis using inv sp(2) n' by (simp add: stage_inv_def)
qed

lemma stage_same:
  assumes "stage_inv n" and "ct_bgp (nd_ctl n') = ct_bgp (nd_ctl n)"
    and "nd_drain n' = nd_drain n \<or> nd_drain n' = Exited 1"
    and "nd_shutdown n' = nd_shutdown n" and "tg_shutdown (nd_threads n') = tg_shutdown (nd_threads n)"
  shows "stage_inv n'"
proof -
  have "all_told n' = all_told n" "all_tasks_gone n' = all_tasks_gone n"
    using assms(2) by (simp_all add: all_told_def all_tasks_gone_def)
  with assms show ?thesis by (cases "nd_drain n' = Exited 1") (simp_all add: stage_inv_def)
qed

lemma close_tells: "ct_bgp c = Some sp \<Longrightarrow> \<exists>sp'. ct_bgp (close_sessions c) = Some sp' \<and>
    (\<forall>p \<in> set (sp_peers sp'). told_to_end (ph_session p))"
  by (auto simp: close_sessions_def speaker_shutdown_def send_to_def told_to_end_def send_cmd_def)

lemma signal_stage:
  assumes "signal_step n = Some n'" and inv: "stage_inv n"
  shows "stage_inv n'"
proof -
  obtain sp where sp: "ct_bgp (nd_ctl n) = Some sp" using inv by (auto simp: stage_inv_def)
  from assms(1) show ?thesis
  proof (rule signal_cases)
    assume "n' = n\<lparr>nd_shutdown := True, nd_ctl := withdraw_all speaker_ops (nd_ctl n), nd_drain := Withdrawn\<rparr>"
    moreover obtain sp' where "ct_bgp (withdraw_all speaker_ops (nd_ctl n)) = Some sp'"
      using controller_keeps_ended(2) [OF sp] by blast
    ultimately show ?thesis by (simp add: stage_inv_def)
  next
    assume "nd_drain n = Withdrawn" "n' = n\<lparr>nd_ctl := close_sessions (nd_ctl n), nd_drain := Closing\<rparr>"
    moreover from this(1) inv have "nd_shutdown n" by (simp add: stage_inv_def)
    ultimately show ?thesis using close_tells [OF sp] by (simp add: stage_inv_def all_told_def) blast
  next
    assume "nd_drain n = Closing" "all_tasks_gone n"
      and "n' = n\<lparr>nd_threads := tg_stop (nd_threads n), nd_drain := Stopping\<rparr>"
    with inv show ?thesis by (simp add: stage_inv_def all_tasks_gone_def tg_stop_def)
  next
    assume "nd_drain n = Stopping" "n' = n\<lparr>nd_drain := Exited 0\<rparr>"
    with inv show ?thesis by (simp add: stage_inv_def all_tasks_gone_def)
  qed
qed

lemma node_step_stage:
  assumes "node_step env xxh3 io n n'" and inv: "stage_inv n"
  shows "stage_inv n'"
  using assms(1)
proof (cases rule: node_step.cases)
  case swapped
  then show ?thesis by (rule swap_cases) (auto intro: stage_same [OF inv])
next
  case applied
  then obtain lb ctl w where a: "apply_config xxh3 speaker_ops (bi_saved io) lb (nd_ctl n) = Some (ctl, w)"
    "n' = n\<lparr>nd_ctl := ctl, nd_reloading := None\<rparr>" by (rule apply_cases)
  obtain sp where sp: "ct_bgp (nd_ctl n) = Some sp" using inv by (auto simp: stage_inv_def)
  from a(1) have "\<exists>T b. ctl = sync_bgp_announcements speaker_ops ((nd_ctl n)\<lparr>ct_pending_pools := {},
      ct_pending_since := None, ct_lookup_tables := T, ct_backend_pool_index := b, ct_config := Some lb\<rparr>)"
    by (auto simp: apply_config_def Let_def bind_eq_Some_conv)
  then obtain c where "ct_bgp c = ct_bgp (nd_ctl n)" "ctl = sync_bgp_announcements speaker_ops c"
    by (elim exE) (rule that, simp_all)
  with controller_keeps_ended(3) [of c sp] sp obtain sp' where "ct_bgp ctl = Some sp'" "keeps_ended sp sp'" by auto
  with a(2) show ?thesis by (intro stage_ctl [OF inv sp]) simp_all
next
  case pumped
  obtain sp where sp: "ct_bgp (nd_ctl n) = Some sp" using inv by (auto simp: stage_inv_def)
  from pumped obtain evt rest where n': "n' = n\<lparr>nd_events := rest, nd_metrics := pump_metrics evt (nd_metrics n),
      nd_ctl := (if is_connect evt then reannounce_all speaker_ops (nd_ctl n) else nd_ctl n)\<rparr>" by (rule pump_cases)
  obtain sp' where "ct_bgp (nd_ctl n') = Some sp'" "keeps_ended sp sp'"
    using n' sp controller_keeps_ended(1) [OF sp] keeps_ended_ops(1) by (cases "is_connect evt") auto
  with n' show ?thesis by (intro stage_ctl [OF inv sp]) simp_all
next
  case (task sp i now l s')
  then have "peer_move env (sp_peers sp ! i) (ph_session (sp_peers sp ! i)) s'"
    by (auto simp: peer_move_def task_move_def)
  with task(1) show ?thesis by (intro stage_move [OF inv task(2,3)]) simp_all
next
  case (disabled_task sp i s')
  then have "peer_move env (sp_peers sp ! i) (ph_session (sp_peers sp ! i)) s'" by (simp add: peer_move_def)
  with disabled_task(1) show ?thesis by (intro stage_move [OF inv disabled_task(2,3)]) simp_all
next
  case signalled
  then show ?thesis by (rule signal_stage [OF _ inv])
qed (rule stage_same [OF inv]; simp add: main_poll_def)+

subsection \<open>The process ends\<close>

lemma closing_exits:
  assumes "nd_drain n = Closing" and "stage_inv n"
  shows "\<exists>n'. node_run env xxh3 io (\<lambda>_. True) n n' \<and> nd_drain n' = Exited 0 \<and>
     ct_vips_announced (nd_ctl n') = ct_vips_announced (nd_ctl n)"
proof -
  from assms obtain sp where sp: "ct_bgp (nd_ctl n) = Some sp" "\<forall>p \<in> set (sp_peers sp). told_to_end (ph_session p)"
    by (auto simp: stage_inv_def all_told_def)
  have "alive n" using assms(1) by (simp add: alive_def)
  from tasks_can_end [OF sp this order_refl] obtain n1 sp1 where n1: "node_run env xxh3 io (\<lambda>_. True) n n1"
    "ct_bgp (nd_ctl n1) = Some sp1" "nd_drain n1 = nd_drain n" "length (sp_peers sp1) = length (sp_peers sp)"
    "\<forall>j < length (sp_peers sp). task_gone (ph_session (sp_peers sp1 ! j))"
    "ct_vips_announced (nd_ctl n1) = ct_vips_announced (nd_ctl n)"
    by blast
  then have gone: "all_tasks_gone n1" by (auto simp: all_tasks_gone_def in_set_conv_nth)
  have closing: "nd_drain n1 = Closing" using n1(3) assms(1) by simp
  define n2 where "n2 = n1\<lparr>nd_threads := tg_stop (nd_threads n1), nd_drain := Stopping\<rparr>"
  define n3 where "n3 = n2\<lparr>nd_drain := Exited 0\<rparr>"
  have "node_step env xxh3 io n1 n2" "node_step env xxh3 io n2 n3"
    using closing gone by (auto intro!: node_step.signalled simp: signal_step_def n2_def n3_def)
  then have "node_run env xxh3 io (\<lambda>_. True) n1 n3"
    using closing by (intro node_run_step [OF node_run_step [OF node_run_start]]) (simp_all add: alive_def n2_def)
  with n1(1,6) show ?thesis using node_run_trans by (intro exI [of _ n3]) (auto simp: n3_def n2_def)
qed

lemma signalled_run:
  assumes "signal_step m = Some m'" and "alive m" and "node_run env xxh3 io (\<lambda>_. True) m' n'"
  shows "node_run env xxh3 io (\<lambda>_. True) m n'"
  using node_run_trans [OF assms(3) node_run_one [OF assms(2) node_step.signalled [OF assms(1)]]] .

lemma withdrawn_exits:
  assumes "nd_drain m = Withdrawn" and "stage_inv m"
  shows "\<exists>n'. node_run env xxh3 io (\<lambda>_. True) m n' \<and> nd_drain n' = Exited 0 \<and>
     ct_vips_announced (nd_ctl n') = ct_vips_announced (nd_ctl m)"
proof -
  define m' where "m' = m\<lparr>nd_ctl := close_sessions (nd_ctl m), nd_drain := Closing\<rparr>"
  have m': "signal_step m = Some m'" "nd_drain m' = Closing" "alive m"
    "ct_vips_announced (nd_ctl m') = ct_vips_announced (nd_ctl m)"
    using assms(1) by (simp_all add: signal_step_def m'_def alive_def close_sessions_def split: option.splits)
  from closing_exits [OF m'(2) signal_stage [OF m'(1) assms(2)]] show ?thesis
    using signalled_run [OF m'(1,3)] m'(4) by fastforce
qed

text \<open>A node that still serves has served all along.\<close>

lemma serving_before: "node_step env xxh3 io n n' \<Longrightarrow> nd_drain n' = Serving \<Longrightarrow> nd_drain n = Serving"
  by (erule node_step.cases) (auto simp: main_poll_def elim!: swap_cases apply_cases pump_cases signal_cases split: if_splits)

lemma serving_run:
  assumes "node_run env xxh3 io (\<lambda>_. True) n0 n" and "nd_drain n = Serving"
  shows "node_run env xxh3 io (\<lambda>n. nd_drain n = Serving) n0 n"
  using assms
proof (induction rule: node_run.induct)
  case (node_run_step n0 n n')
  then show ?case using serving_before node_run.node_run_step by blast
qed (auto intro: node_run.intros)

text \<open>
  C6. The node can always drain. From whatever state a running node has reached, and whatever its
  sessions are doing, some continuation ends every session and exits with code 0 (a connection
  attempt has to fail or succeed first, nothing else is needed from outside). From a serving node it
  goes by way of the handler's first stage, after which no VIP is announced and every live session is
  left with no route once its queue is worked off, and no VIP is announced at the exit either. Code 0
  is never reached before the watcher and the threads have been told to stop and every session task
  has ended.
\<close>

theorem node_drains:
  assumes "boot xxh3 accept io now cores checking = Some (Started n0)" and "sane_files io"
    and "node_run env xxh3 io (\<lambda>_. True) n0 n"
  shows "(alive n \<longrightarrow> (\<exists>n1 n'. node_run env xxh3 io (\<lambda>_. True) n n1 \<and> node_run env xxh3 io (\<lambda>_. True) n1 n' \<and>
       nd_drain n' = Exited 0 \<and> ct_vips_announced (nd_ctl n') = ct_vips_announced (nd_ctl n1) \<and>
       (nd_drain n = Serving \<longrightarrow> nd_drain n1 = Withdrawn \<and> ct_vips_announced (nd_ctl n1) = {} \<and>
         (\<exists>sp. ct_bgp (nd_ctl n1) = Some sp \<and> (\<forall>i. peer_live sp i \<longrightarrow> peer_routes sp i = {}))))) \<and>
     (nd_drain n = Exited 0 \<longrightarrow> nd_shutdown n \<and> all_tasks_gone n \<and> tg_shutdown (nd_threads n))"
proof -
  have "nd_drain n0 = Serving" by (rule boot_Started [OF assms(1)])
  moreover have "ct_bgp (nd_ctl n0) \<noteq> None"
    using matcher_inv_quiet [OF boot_matcher_inv [OF assms(1,2)]] by (simp add: ctl_quiet_def)
  ultimately have "stage_inv n0" by (simp add: stage_inv_def)
  with node_run_invariant [where P = stage_inv, OF assms(3)] node_step_stage have inv: "stage_inv n" by blast
  have "\<exists>n1 n'. node_run env xxh3 io (\<lambda>_. True) n n1 \<and> node_run env xxh3 io (\<lambda>_. True) n1 n' \<and>
       nd_drain n' = Exited 0 \<and> ct_vips_announced (nd_ctl n') = ct_vips_announced (nd_ctl n1) \<and>
       (nd_drain n = Serving \<longrightarrow> nd_drain n1 = Withdrawn \<and> ct_vips_announced (nd_ctl n1) = {} \<and>
         (\<exists>sp. ct_bgp (nd_ctl n1) = Some sp \<and> (\<forall>i. peer_live sp i \<longrightarrow> peer_routes sp i = {})))" if alive: "alive n"
  proof (cases "nd_drain n")
    case Serving
    define n1 where "n1 = n\<lparr>nd_shutdown := True, nd_ctl := withdraw_all speaker_ops (nd_ctl n), nd_drain := Withdrawn\<rparr>"
    have n1: "signal_step n = Some n1" "nd_drain n1 = Withdrawn" using Serving by (simp_all add: signal_step_def n1_def)
    have "sync_inv n"
      using node_run_invariant [where P = sync_inv, OF serving_run [OF assms(3) Serving] boot_sync_inv [OF assms(1,2)]]
        node_step_sync by blast
    then have "sys_inv (nd_ctl n)" by (simp add: sync_inv_def)
    from withdraw_drains [OF this] have d: "ct_vips_announced (nd_ctl n1) = {}"
      "\<exists>sp. ct_bgp (nd_ctl n1) = Some sp \<and> (\<forall>i. peer_live sp i \<longrightarrow> peer_routes sp i = {})" by (simp_all add: n1_def)
    show ?thesis
      using withdrawn_exits [OF n1(2) signal_stage [OF n1(1) inv]] signalled_run [OF n1(1) alive node_run_start] n1(2) d
      by blast
  next
    case Withdrawn
    from withdrawn_exits [OF this inv] Withdrawn show ?thesis using node_run_start by fastforce
  next
    case Closing
    from closing_exits [OF this inv] Closing show ?thesis using node_run_start by fastforce
  next
    case Stopping
    then have s: "signal_step n = Some (n\<lparr>nd_drain := Exited 0\<rparr>)" by (simp add: signal_step_def)
    have "node_run env xxh3 io (\<lambda>_. True) n (n\<lparr>nd_drain := Exited 0\<rparr>)"
      by (rule signalled_run [OF s alive]) (simp add: node_run_start)
    with Stopping show ?thesis
      by (intro exI [of _ n] exI [of _ "n\<lparr>nd_drain := Exited 0\<rparr>"]) (simp_all add: node_run_start)
  next
    case (Exited code)
    with alive show ?thesis by (simp add: alive_def)
  qed
  with inv show ?thesis by (auto simp: stage_inv_def)
qed

lemma node_drains_witness:
  "\<exists>n n1 n' :: node. peer_up 0 (nd_ctl n) \<and> nd_drain n = Serving \<and>
     nd_drain n1 = Withdrawn \<and> ct_vips_announced (nd_ctl n1) = {} \<and> nd_drain n' = Exited 0 \<and>
     node_run (\<lambda>_. None) (\<lambda>name seed. seed + 5) sample_boot (\<lambda>_. True) n n1 \<and>
     node_run (\<lambda>_. None) (\<lambda>name seed. seed + 5) sample_boot (\<lambda>_. True) n1 n'"
proof -
  obtain n0 n sp where r: "boot (\<lambda>name seed. seed + 5) min sample_boot 0 [] False = Some (Started n0)"
    "node_run (\<lambda>_. None) (\<lambda>name seed. seed + 5) sample_boot (\<lambda>n. nd_drain n = Serving) n0 n"
    "nd_drain n = Serving" "peer_up 0 (nd_ctl n)" "ct_bgp (nd_ctl n) = Some (sp :: bgp_speaker)"
    by (rule sample_serving_run)
  have "alive n" using r(3) by (simp add: alive_def)
  with node_drains [OF r(1) sample_files node_run_weaken [OF r(2)]] r(3,4) show ?thesis by blast
qed

end
