(* ===== verification/XdpSyscalls.thy ===== *)
theory XdpSyscalls
  imports AfXdp
begin

text \<open>
  The system calls behind the setup of an AF_XDP socket (crate lb-io, af_xdp.rs: module
  \<^verbatim>\<open>xskmap\<close>, \<open>aligned_uninit_slice\<close>, and the stub of builds without AF_XDP), which \<^verbatim>\<open>AfXdp\<close> takes as
  outcomes. Here the arguments of bpf(2) are written out as the bytes that cross into the kernel.

  What is not the repository's code is a parameter: the system call \<open>bpf\<close> and \<open>close_fd\<close> on a kernel
  state of any type, the views of that state (what is pinned, which descriptors are open, what the
  maps hold), the allocator, the addresses of the locals, and the content of padding bytes that the
  compiler adds. \<open>bpf_documented\<close> is what bpf(2) documents of the two commands. The redirect
  program (deploy/xdp/redirect.bpf.c) reads the map that the registration writes.
\<close>

subsection \<open>Little-endian encoding\<close>

fun le_bytes :: "nat \<Rightarrow> nat \<Rightarrow> u8 list" where
  "le_bytes 0 x = []"
| "le_bytes (Suc n) x = word_of_nat (x mod 256) # le_bytes n (x div 256)"

fun from_le :: "u8 list \<Rightarrow> nat" where
  "from_le [] = 0"
| "from_le (b # bs) = unat b + 256 * from_le bs"

lemma length_le_bytes [simp, len_simps]: "length (le_bytes n x) = n"
  by (induction n arbitrary: x) simp_all

lemma from_le_bytes: "from_le (le_bytes n x) = x mod 256 ^ n"
proof (induction n arbitrary: x)
  case (Suc n)
  have "x mod (256 * 256 ^ n) = x mod 256 + 256 * (x div 256 mod 256 ^ n)"
    by (metis mod_mult2_eq add.commute)
  then show ?case by (simp add: Suc.IH unat_of_nat_u8)
qed simp

lemma le_bytes_zero [simp]: "le_bytes n 0 = replicate n 0"
  by (induction n) simp_all

lemma from_le_zeros [simp]: "from_le (replicate n 0) = 0"
  by (induction n) simp_all

lemma le_word [simp]:
  "word_of_nat (from_le (le_bytes 4 (unat (w :: u32)))) = w"
  "word_of_nat (from_le (le_bytes 8 (unat (a :: u64)))) = a"
proof -
  have "unat w < 256 ^ 4" "unat a < 256 ^ 8"
    using unsigned_less [of w, where 'a = nat] unsigned_less [of a, where 'a = nat] by simp_all
  then show "word_of_nat (from_le (le_bytes 4 (unat w))) = w" "word_of_nat (from_le (le_bytes 8 (unat a))) = a"
    by (simp_all add: from_le_bytes)
qed

subsection \<open>The attributes of bpf(2)\<close>

definition BPF_MAP_UPDATE_ELEM :: u32 where "BPF_MAP_UPDATE_ELEM = 2"
definition BPF_OBJ_GET :: u32 where "BPF_OBJ_GET = 7"

record bpf_attr_obj_get =
  og_pathname :: u64
  og_bpf_fd :: u32
  og_file_flags :: u32
  og_pad :: "u8 list"

record bpf_attr_map_update =
  mu_map_fd :: u32
  mu_pad0 :: u32
  mu_key :: u64
  mu_value :: u64
  mu_flags :: u64
  mu_pad1 :: "u8 list"

text \<open>
  \<^verbatim>\<open>repr(C)\<close> rounds the size of a struct up to its alignment, here 8. The fields of the first attribute
  end at 116, so its size is 120 and the last four bytes are padding of unspecified content.
\<close>

definition obj_get_bytes :: "u8 list \<Rightarrow> bpf_attr_obj_get \<Rightarrow> u8 list" where
  "obj_get_bytes padding a =
     le_bytes 8 (unat (og_pathname a)) @ le_bytes 4 (unat (og_bpf_fd a)) @
     le_bytes 4 (unat (og_file_flags a)) @ og_pad a @ padding"

definition map_update_bytes :: "bpf_attr_map_update \<Rightarrow> u8 list" where
  "map_update_bytes a =
     le_bytes 4 (unat (mu_map_fd a)) @ le_bytes 4 (unat (mu_pad0 a)) @ le_bytes 8 (unat (mu_key a)) @
     le_bytes 8 (unat (mu_value a)) @ le_bytes 8 (unat (mu_flags a)) @ mu_pad1 a"

text \<open>
  The objects of user memory that the kernel may read, by address; the size of the attribute is
  the length of its bytes. A call gives its return value, the error it leaves in errno, and the
  kernel afterwards.
\<close>

type_synonym user_memory = "u64 \<rightharpoonup> u8 list"
type_synonym 'k bpf_call = "u32 \<Rightarrow> u8 list \<Rightarrow> user_memory \<Rightarrow> 'k \<Rightarrow> int \<times> string \<times> 'k"

definition sys_bpf ::
  "'k bpf_call \<Rightarrow> u32 \<Rightarrow> u8 list \<Rightarrow> user_memory \<Rightarrow> 'k \<Rightarrow> (string + int) \<times> 'k" where
  "sys_bpf bpf cmd attr mem k =
     (case bpf cmd attr mem k of
        (ret, errno, k) \<Rightarrow> (if ret < 0 then Inl errno else Inr ret, k))"

definition c_string :: "string \<Rightarrow> u8 list" where
  "c_string s = map (\<lambda>c. word_of_nat (of_char c)) s @ [0]"

record stack_addrs =
  sa_path :: u64
  sa_key :: u64
  sa_value :: u64

definition register_xsk_calls ::
  "'k bpf_call \<Rightarrow> (u32 \<Rightarrow> 'k \<Rightarrow> 'k) \<Rightarrow> u8 list \<Rightarrow> stack_addrs \<Rightarrow> string \<Rightarrow> u32 \<Rightarrow> u32 \<Rightarrow> 'k \<Rightarrow> string option \<times> 'k" where
  "register_xsk_calls bpf close_fd padding ads pin_path queue_id xsk_fd k =
     (if has_nul pin_path then (Some ''pin path has NUL'', k)
      else
        let mem = [sa_path ads \<mapsto> c_string pin_path];
            attr_get = \<lparr>og_pathname = sa_path ads, og_bpf_fd = 0, og_file_flags = 0, og_pad = replicate 100 0\<rparr>
        in (case sys_bpf bpf BPF_OBJ_GET (obj_get_bytes padding attr_get) mem k of
              (Inl e, k) \<Rightarrow> (Some e, k)
            | (Inr ret, k) \<Rightarrow>
                let map_fd = word_of_int ret;
                    mem = mem(sa_key ads \<mapsto> le_bytes 4 (unat queue_id), sa_value ads \<mapsto> le_bytes 4 (unat xsk_fd));
                    attr_upd = \<lparr>mu_map_fd = map_fd, mu_pad0 = 0, mu_key = sa_key ads, mu_value = sa_value ads,
                                mu_flags = 0, mu_pad1 = replicate 88 0\<rparr>
                in (case sys_bpf bpf BPF_MAP_UPDATE_ELEM (map_update_bytes attr_upd) mem k of
                      (Inl e, k) \<Rightarrow> (Some e, close_fd map_fd k)
                    | (Inr _, k) \<Rightarrow> (None, close_fd map_fd k))))"

text \<open>The result is the one of the outcome model, for the outcomes these calls have.\<close>

definition call_outcomes ::
  "'k bpf_call \<Rightarrow> u8 list \<Rightarrow> stack_addrs \<Rightarrow> string \<Rightarrow> 'k \<Rightarrow> xdp_setup \<Rightarrow> xdp_setup" where
  "call_outcomes bpf padding ads pin k s =
     (let mem = [sa_path ads \<mapsto> c_string pin];
          (opened, k) = sys_bpf bpf BPF_OBJ_GET (obj_get_bytes padding
              \<lparr>og_pathname = sa_path ads, og_bpf_fd = 0, og_file_flags = 0, og_pad = replicate 100 0\<rparr>) mem k
      in s\<lparr>xs_obj_get := (\<lambda>path. map_sum id word_of_int opened),
           xs_map_update := (\<lambda>fd q x.
             (case fst (sys_bpf bpf BPF_MAP_UPDATE_ELEM (map_update_bytes
                 \<lparr>mu_map_fd = fd, mu_pad0 = 0, mu_key = sa_key ads, mu_value = sa_value ads,
                  mu_flags = 0, mu_pad1 = replicate 88 0\<rparr>)
                 (mem(sa_key ads \<mapsto> le_bytes 4 (unat q), sa_value ads \<mapsto> le_bytes 4 (unat x))) k)
              of Inl e \<Rightarrow> Some e | Inr _ \<Rightarrow> None))\<rparr>)"

lemma register_xsk_outcomes:
  "register_xsk (call_outcomes bpf padding ads pin k s) pin q fd =
   fst (register_xsk_calls bpf close_fd padding ads pin q fd k)"
  by (auto simp: register_xsk_def register_xsk_calls_def call_outcomes_def Let_def
      split: prod.splits sum.splits)

subsection \<open>What bpf(2) documents\<close>

text \<open>
  The views of the kernel: the objects pinned at paths, the descriptors of the process that refer
  to them, the entries of the maps, and what the process may do.
\<close>

record ('k, 'o) bpf_view =
  bv_pinned :: "'k \<Rightarrow> string \<rightharpoonup> 'o"
  bv_fds :: "'k \<Rightarrow> u32 \<rightharpoonup> 'o"
  bv_elems :: "'k \<Rightarrow> 'o \<Rightarrow> u32 \<rightharpoonup> u32"
  bv_may_open :: "'k \<Rightarrow> string \<Rightarrow> bool"
  bv_may_update :: "'k \<Rightarrow> 'o \<Rightarrow> u32 \<Rightarrow> u32 \<Rightarrow> bool"

text \<open>
  How the kernel reads the attributes, by the offsets of \<^verbatim>\<open>linux/bpf.h\<close>, for commands without flags:
  the path is a string that ends with a NUL, key and value have four bytes. The bytes behind the
  last field must be zero.
\<close>

definition zero_tail :: "nat \<Rightarrow> u8 list \<Rightarrow> bool" where
  "zero_tail n attr \<longleftrightarrow> list_all (\<lambda>b. b = 0) (drop n attr)"

definition le_field :: "nat \<Rightarrow> nat \<Rightarrow> u8 list \<Rightarrow> nat" where
  "le_field at n attr = from_le (take n (drop at attr))"

definition user_string :: "u8 list \<Rightarrow> string" where
  "user_string bs = map (\<lambda>b. char_of (unat b)) (takeWhile (\<lambda>b. b \<noteq> 0) bs)"

definition get_arg :: "u8 list \<Rightarrow> user_memory \<Rightarrow> string option" where
  "get_arg attr mem =
     (if 16 \<le> length attr \<and> le_field 8 8 attr = 0
      then map_option user_string (mem (word_of_nat (le_field 0 8 attr))) else None)"

definition update_arg :: "u8 list \<Rightarrow> user_memory \<Rightarrow> (u32 \<times> u32 \<times> u32) option" where
  "update_arg attr mem =
     (if 32 \<le> length attr \<and> le_field 24 8 attr = 0 then do {
        key \<leftarrow> mem (word_of_nat (le_field 8 8 attr));
        val \<leftarrow> mem (word_of_nat (le_field 16 8 attr));
        Some (word_of_nat (le_field 0 4 attr), word_of_nat (from_le key), word_of_nat (from_le val)) }
      else None)"

definition same_maps :: "('k, 'o) bpf_view \<Rightarrow> 'k \<Rightarrow> 'k \<Rightarrow> bool" where
  "same_maps v k k' \<longleftrightarrow> bv_pinned v k' = bv_pinned v k \<and> bv_elems v k' = bv_elems v k \<and>
     bv_may_update v k' = bv_may_update v k"

text \<open>
  A successful BPF_OBJ_GET gives a new descriptor of the object pinned at the path, a successful
  BPF_MAP_UPDATE_ELEM enters the value; each refuses an attribute with a non-zero tail, and on failure
  nothing changes. With clean attributes and the permission they succeed.
\<close>

definition get_documented :: "('k, 'o) bpf_view \<Rightarrow> 'k bpf_call \<Rightarrow> bool" where
  "get_documented v bpf \<longleftrightarrow> (\<forall>attr mem k path ret errno k'.
     get_arg attr mem = Some path \<longrightarrow> bpf BPF_OBJ_GET attr mem k = (ret, errno, k') \<longrightarrow>
     same_maps v k k' \<and>
     (if ret < 0 then bv_fds v k' = bv_fds v k
      else zero_tail 16 attr \<and> (\<exists>m. bv_pinned v k path = Some m \<and>
             bv_fds v k (word_of_int ret) = None \<and> bv_fds v k' = (bv_fds v k)(word_of_int ret \<mapsto> m))) \<and>
     (zero_tail 16 attr \<longrightarrow> bv_pinned v k path \<noteq> None \<longrightarrow> bv_may_open v k path \<longrightarrow> 0 \<le> ret))"

definition update_documented :: "('k, 'o) bpf_view \<Rightarrow> 'k bpf_call \<Rightarrow> bool" where
  "update_documented v bpf \<longleftrightarrow> (\<forall>attr mem k fd key val m ret errno k'.
     update_arg attr mem = Some (fd, key, val) \<longrightarrow> bv_fds v k fd = Some m \<longrightarrow>
     bpf BPF_MAP_UPDATE_ELEM attr mem k = (ret, errno, k') \<longrightarrow>
     bv_pinned v k' = bv_pinned v k \<and> bv_fds v k' = bv_fds v k \<and>
     bv_elems v k' = (if ret < 0 then bv_elems v k
        else (bv_elems v k)(m := (bv_elems v k m)(key \<mapsto> val))) \<and>
     (zero_tail 32 attr \<longrightarrow> bv_may_update v k m key val \<longrightarrow> 0 \<le> ret))"

definition close_documented :: "('k, 'o) bpf_view \<Rightarrow> (u32 \<Rightarrow> 'k \<Rightarrow> 'k) \<Rightarrow> bool" where
  "close_documented v close_fd \<longleftrightarrow> (\<forall>fd k. bv_pinned v (close_fd fd k) = bv_pinned v k \<and>
     bv_elems v (close_fd fd k) = bv_elems v k \<and> bv_fds v (close_fd fd k) = (bv_fds v k)(fd := None))"

definition bpf_documented :: "('k, 'o) bpf_view \<Rightarrow> 'k bpf_call \<Rightarrow> (u32 \<Rightarrow> 'k \<Rightarrow> 'k) \<Rightarrow> bool" where
  "bpf_documented v bpf close_fd \<longleftrightarrow>
     get_documented v bpf \<and> update_documented v bpf \<and> close_documented v close_fd"

subsection \<open>What the kernel reads of the attributes\<close>

lemma user_c_string: "\<not> has_nul s \<Longrightarrow> user_string (c_string s) = s"
proof (induction s)
  case (Cons c s)
  have "(of_char c :: nat) < 256" by simp
  moreover have "(of_char c :: nat) \<noteq> 0"
  proof
    assume "(of_char c :: nat) = 0"
    then have "c = char_of (0 :: nat)" by (metis char_of_char)
    then show False using Cons.prems by (simp add: has_nul_def char_of_def)
  qed
  ultimately have "(word_of_nat (of_char c) :: u8) \<noteq> 0" "unat (word_of_nat (of_char c) :: u8) = of_char c"
    by (auto simp: unat_of_nat_u8 word_unat_eq_iff)
  moreover have "user_string (c_string s) = s" using Cons by (simp add: has_nul_def)
  ultimately show ?case by (simp add: user_string_def c_string_def)
qed (simp add: user_string_def c_string_def)

lemma obj_get_args:
  assumes "attr = obj_get_bytes padding
      \<lparr>og_pathname = pa, og_bpf_fd = 0, og_file_flags = 0, og_pad = replicate 100 0\<rparr>"
  shows "mem pa = Some (c_string path) \<Longrightarrow> \<not> has_nul path \<Longrightarrow> get_arg attr mem = Some path"
    and "zero_tail 16 attr \<longleftrightarrow> set padding \<subseteq> {0}"
proof -
  have f: "le_field 0 8 attr = from_le (le_bytes 8 (unat pa))" "le_field 8 8 attr = 0" "16 \<le> length attr"
    by (simp_all add: assms le_field_def obj_get_bytes_def flip: replicate_add)
  then show "mem pa = Some (c_string path) \<Longrightarrow> \<not> has_nul path \<Longrightarrow> get_arg attr mem = Some path"
    by (simp add: get_arg_def user_c_string)
  show "zero_tail 16 attr \<longleftrightarrow> set padding \<subseteq> {0}"
    by (auto simp: assms zero_tail_def obj_get_bytes_def list_all_iff)
qed

lemma map_update_args:
  assumes "attr = map_update_bytes \<lparr>mu_map_fd = fd, mu_pad0 = 0, mu_key = ka, mu_value = va,
      mu_flags = 0, mu_pad1 = replicate 88 0\<rparr>"
  shows "mem ka = Some (le_bytes 4 (unat key)) \<Longrightarrow> mem va = Some (le_bytes 4 (unat val)) \<Longrightarrow>
      update_arg attr mem = Some (fd, key, val)"
    and "zero_tail 32 attr"
proof -
  have f: "le_field 0 4 attr = from_le (le_bytes 4 (unat fd))" "le_field 8 8 attr = from_le (le_bytes 8 (unat ka))"
    "le_field 16 8 attr = from_le (le_bytes 8 (unat va))" "le_field 24 8 attr = 0" "32 \<le> length attr"
    by (simp_all add: assms le_field_def map_update_bytes_def)
  then show "mem ka = Some (le_bytes 4 (unat key)) \<Longrightarrow> mem va = Some (le_bytes 4 (unat val)) \<Longrightarrow>
      update_arg attr mem = Some (fd, key, val)"
    by (simp add: update_arg_def)
  show "zero_tail 32 attr" by (simp add: assms zero_tail_def map_update_bytes_def list_all_iff)
qed

subsection \<open>The redirect program (deploy/xdp/redirect.bpf.c)\<close>

text \<open>
  \<^verbatim>\<open>bpf_redirect_map\<close> as documented: without an entry the result is the action in the two lowest
  bits of the flags, numbered as in \<^verbatim>\<open>enum xdp_action\<close>.
\<close>

datatype xdp_action = XdpAborted | XdpDrop | XdpPass | XdpTx | XdpRedirect u32

definition bpf_redirect_map :: "(u32 \<rightharpoonup> u32) \<Rightarrow> u32 \<Rightarrow> u64 \<Rightarrow> xdp_action" where
  "bpf_redirect_map m key flags =
     (case m key of
        Some sock \<Rightarrow> XdpRedirect sock
      | None \<Rightarrow> [XdpAborted, XdpDrop, XdpPass, XdpTx] ! unat (flags AND 3))"

definition lb_redirect :: "(u32 \<rightharpoonup> u32) \<Rightarrow> u32 \<Rightarrow> xdp_action" where
  "lb_redirect xsks_map rx_queue_index = bpf_redirect_map xsks_map rx_queue_index 0"

text \<open>
  A packet on a queue without a socket is aborted, that is dropped. It is not passed to the stack
  of the host.
\<close>

lemma lb_redirect_miss: "m q = None \<Longrightarrow> lb_redirect m q = XdpAborted"
  by (simp add: lb_redirect_def bpf_redirect_map_def)

subsection \<open>Registration\<close>

lemma get_step:
  assumes "get_documented v bpf" and "\<not> has_nul pin"
    and "sys_bpf bpf BPF_OBJ_GET (obj_get_bytes padding
        \<lparr>og_pathname = pa, og_bpf_fd = 0, og_file_flags = 0, og_pad = replicate 100 0\<rparr>)
        [pa \<mapsto> c_string pin] k = (res, k')"
  shows "same_maps v k k'"
    and "res = Inl e \<Longrightarrow> bv_fds v k' = bv_fds v k"
    and "res = Inr ret \<Longrightarrow> set padding \<subseteq> {0} \<and> (\<exists>m. bv_pinned v k pin = Some m \<and>
           bv_fds v k (word_of_int ret) = None \<and> bv_fds v k' = (bv_fds v k)(word_of_int ret \<mapsto> m))"
    and "set padding \<subseteq> {0} \<Longrightarrow> bv_pinned v k pin = Some m \<Longrightarrow> bv_may_open v k pin \<Longrightarrow> \<exists>ret. res = Inr ret"
proof -
  let ?attr = "obj_get_bytes padding \<lparr>og_pathname = pa, og_bpf_fd = 0, og_file_flags = 0, og_pad = replicate 100 0\<rparr>"
  let ?mem = "[pa \<mapsto> c_string pin]"
  obtain i errno k1 where call: "bpf BPF_OBJ_GET ?attr ?mem k = (i, errno, k1)" by (metis prod_cases3)
  have r: "k1 = k'" "res = (if i < 0 then Inl errno else Inr i)"
    using assms(3) by (simp_all add: sys_bpf_def call split: if_splits)
  have arg: "get_arg ?attr ?mem = Some pin" by (rule obj_get_args(1) [OF refl _ assms(2)]) simp
  note doc = assms(1) [unfolded get_documented_def, rule_format, OF arg call,
      unfolded obj_get_args(2) [OF refl] r(1)]
  show "same_maps v k k'"
    "res = Inl e \<Longrightarrow> bv_fds v k' = bv_fds v k"
    "res = Inr ret \<Longrightarrow> set padding \<subseteq> {0} \<and> (\<exists>m. bv_pinned v k pin = Some m \<and>
       bv_fds v k (word_of_int ret) = None \<and> bv_fds v k' = (bv_fds v k)(word_of_int ret \<mapsto> m))"
    "set padding \<subseteq> {0} \<Longrightarrow> bv_pinned v k pin = Some m \<Longrightarrow> bv_may_open v k pin \<Longrightarrow> \<exists>ret. res = Inr ret"
    using doc by (auto simp: r(2) split: if_splits)
qed

lemma update_step:
  assumes "update_documented v bpf" and "bv_fds v k fd = Some m"
    and "mem ka = Some (le_bytes 4 (unat key))" and "mem va = Some (le_bytes 4 (unat val))"
    and "sys_bpf bpf BPF_MAP_UPDATE_ELEM (map_update_bytes
        \<lparr>mu_map_fd = fd, mu_pad0 = 0, mu_key = ka, mu_value = va, mu_flags = 0, mu_pad1 = replicate 88 0\<rparr>)
        mem k = (res, k')"
  shows "bv_pinned v k' = bv_pinned v k" and "bv_fds v k' = bv_fds v k"
    and "res = Inl e \<Longrightarrow> bv_elems v k' = bv_elems v k"
    and "res = Inr ret \<Longrightarrow> bv_elems v k' = (bv_elems v k)(m := (bv_elems v k m)(key \<mapsto> val))"
    and "bv_may_update v k m key val \<Longrightarrow> \<exists>ret. res = Inr ret"
proof -
  let ?attr = "map_update_bytes
    \<lparr>mu_map_fd = fd, mu_pad0 = 0, mu_key = ka, mu_value = va, mu_flags = 0, mu_pad1 = replicate 88 0\<rparr>"
  obtain i errno k1 where call: "bpf BPF_MAP_UPDATE_ELEM ?attr mem k = (i, errno, k1)" by (metis prod_cases3)
  have r: "k1 = k'" "res = (if i < 0 then Inl errno else Inr i)"
    using assms(5) by (simp_all add: sys_bpf_def call split: if_splits)
  note doc = assms(1) [unfolded update_documented_def, rule_format,
      OF map_update_args(1) [OF refl assms(3,4)] assms(2) call, unfolded r(1)]
  show "bv_pinned v k' = bv_pinned v k" "bv_fds v k' = bv_fds v k"
    "res = Inl e \<Longrightarrow> bv_elems v k' = bv_elems v k"
    "res = Inr ret \<Longrightarrow> bv_elems v k' = (bv_elems v k)(m := (bv_elems v k m)(key \<mapsto> val))"
    "bv_may_update v k m key val \<Longrightarrow> \<exists>ret. res = Inr ret"
    using doc map_update_args(2) [OF refl] by (auto simp: r(2) split: if_splits)
qed

text \<open>
  C24. Registration of a socket in the pinned map, for any kernel that does what bpf(2) documents
  and whatever the padding bytes hold: the map descriptor is closed on every path, an error
  leaves every map as it was, and success has entered exactly the socket under its queue in the
  map pinned at the path, so that the redirect program sends the packets of the queue to it. With
  the permissions and the pin in place it succeeds if and only if the padding is zero.
\<close>

theorem xskmap_registration:
  assumes "bpf_documented v bpf close_fd" and "distinct [sa_path ads, sa_key ads, sa_value ads]"
    and "register_xsk_calls bpf close_fd padding ads pin queue_id xsk_fd k = (res, k')"
  shows "bv_pinned v k' = bv_pinned v k \<and> bv_fds v k' = bv_fds v k \<and>
     (case res of
        Some e \<Rightarrow> bv_elems v k' = bv_elems v k
      | None \<Rightarrow> \<exists>m. bv_pinned v k pin = Some m \<and>
          bv_elems v k' = (bv_elems v k)(m := (bv_elems v k m)(queue_id \<mapsto> xsk_fd)) \<and>
          lb_redirect (bv_elems v k' m) queue_id = XdpRedirect xsk_fd) \<and>
     (\<not> has_nul pin \<longrightarrow> bv_may_open v k pin \<longrightarrow>
      (\<forall>m. bv_pinned v k pin = Some m \<longrightarrow> bv_may_update v k m queue_id xsk_fd \<longrightarrow>
       (res = None \<longleftrightarrow> set padding \<subseteq> {0})))"
proof (cases "has_nul pin")
  case True
  then show ?thesis using assms(3) by (auto simp: register_xsk_calls_def)
next
  case nul: False
  have doc: "get_documented v bpf" "update_documented v bpf" "close_documented v close_fd"
    using assms(1) by (simp_all add: bpf_documented_def)
  obtain r1 k1 where get: "sys_bpf bpf BPF_OBJ_GET (obj_get_bytes padding
      \<lparr>og_pathname = sa_path ads, og_bpf_fd = 0, og_file_flags = 0, og_pad = replicate 100 0\<rparr>)
      [sa_path ads \<mapsto> c_string pin] k = (r1, k1)" by fastforce
  note g = get_step [OF doc(1) nul get]
  show ?thesis
  proof (cases r1)
    case (Inl e)
    then have "res = Some e" "k' = k1" using assms(3) by (simp_all add: register_xsk_calls_def nul get)
    with g(1,2,4) Inl show ?thesis by (auto simp: same_maps_def)
  next
    case (Inr ret)
    let ?fd = "word_of_int ret :: u32"
    let ?mem = "[sa_path ads \<mapsto> c_string pin, sa_key ads \<mapsto> le_bytes 4 (unat queue_id),
      sa_value ads \<mapsto> le_bytes 4 (unat xsk_fd)]"
    obtain m where m: "bv_pinned v k pin = Some m" "bv_fds v k ?fd = None"
      "bv_fds v k1 = (bv_fds v k)(?fd \<mapsto> m)" "set padding \<subseteq> {0}" using g(3) [OF Inr] by blast
    obtain r2 k2 where upd: "sys_bpf bpf BPF_MAP_UPDATE_ELEM (map_update_bytes
        \<lparr>mu_map_fd = ?fd, mu_pad0 = 0, mu_key = sa_key ads, mu_value = sa_value ads, mu_flags = 0,
         mu_pad1 = replicate 88 0\<rparr>) ?mem k1 = (r2, k2)" by fastforce
    note u = update_step [OF doc(2) _ _ _ upd, where m = m and key = queue_id and val = xsk_fd]
    have pre: "bv_fds v k1 ?fd = Some m" "?mem (sa_key ads) = Some (le_bytes 4 (unat queue_id))"
      "?mem (sa_value ads) = Some (le_bytes 4 (unat xsk_fd))" using m(3) assms(2) by simp_all
    have res: "k' = close_fd ?fd k2" "res = (case r2 of Inl e \<Rightarrow> Some e | Inr _ \<Rightarrow> None)"
      using assms(3) by (auto simp: register_xsk_calls_def Let_def nul get Inr upd split: sum.splits)
    have cl: "bv_pinned v k' = bv_pinned v k2" "bv_elems v k' = bv_elems v k2"
      "bv_fds v k' = (bv_fds v k2)(?fd := None)" using doc(3) by (simp_all add: close_documented_def res(1))
    have fds: "bv_fds v k' = bv_fds v k" using m(2,3) u(2) [OF pre] by (auto simp: cl(3) fun_eq_iff)
    have same: "bv_pinned v k1 = bv_pinned v k" "bv_elems v k1 = bv_elems v k"
      "bv_may_update v k1 = bv_may_update v k" using g(1) by (simp_all add: same_maps_def)
    show ?thesis
    proof (cases r2)
      case (Inl e)
      then show ?thesis using u(1,3,5) [OF pre] m(1) fds same res(2) cl by auto
    next
      case (Inr ret2)
      then show ?thesis using u(1,4) [OF pre] m(1,4) fds same res(2) cl
        by (auto simp: lb_redirect_def bpf_redirect_map_def)
    qed
  qed
qed

subsection \<open>A concrete kernel\<close>

text \<open>One descriptor, number 3, maps with the 64 entries of redirect.bpf.c, and no other limit.\<close>

record sample_kernel =
  sk_pins :: "string \<rightharpoonup> nat"
  sk_fds :: "u32 \<rightharpoonup> nat"
  sk_elems :: "nat \<Rightarrow> u32 \<rightharpoonup> u32"

definition sample_bpf :: "sample_kernel bpf_call" where
  "sample_bpf cmd attr mem k =
     (if cmd = BPF_OBJ_GET then
        (case get_arg attr mem of
           None \<Rightarrow> (- 1, ''EFAULT'', k)
         | Some path \<Rightarrow> (case sk_pins k path of
             None \<Rightarrow> (- 1, ''ENOENT'', k)
           | Some m \<Rightarrow> if zero_tail 16 attr \<and> sk_fds k 3 = None
               then (3, '''', k\<lparr>sk_fds := (sk_fds k)(3 \<mapsto> m)\<rparr>) else (- 1, ''EINVAL'', k)))
      else (case update_arg attr mem of
           None \<Rightarrow> (- 1, ''EFAULT'', k)
         | Some (fd, key, val) \<Rightarrow> (case sk_fds k fd of
             None \<Rightarrow> (- 1, ''EBADF'', k)
           | Some m \<Rightarrow> if zero_tail 32 attr \<and> key < 64
               then (0, '''', k\<lparr>sk_elems := (sk_elems k)(m := (sk_elems k m)(key \<mapsto> val))\<rparr>)
               else (- 1, ''E2BIG'', k))))"

definition sample_close :: "u32 \<Rightarrow> sample_kernel \<Rightarrow> sample_kernel" where
  "sample_close fd k = k\<lparr>sk_fds := (sk_fds k)(fd := None)\<rparr>"

definition sample_view :: "(sample_kernel, nat) bpf_view" where
  "sample_view = \<lparr>bv_pinned = sk_pins, bv_fds = sk_fds, bv_elems = sk_elems,
     bv_may_open = (\<lambda>k path. sk_fds k 3 = None), bv_may_update = (\<lambda>k m key val. key < 64)\<rparr>"

definition sample_host :: sample_kernel where
  "sample_host = \<lparr>sk_pins = [''/sys/fs/bpf/lb/xsks_map'' \<mapsto> 0], sk_fds = Map.empty, sk_elems = (\<lambda>_. Map.empty)\<rparr>"

lemma sample_documented: "bpf_documented sample_view sample_bpf sample_close"
  unfolding bpf_documented_def
proof (intro conjI)
  show "get_documented sample_view sample_bpf"
    by (auto simp: get_documented_def sample_bpf_def sample_view_def same_maps_def split: option.splits if_splits)
  show "update_documented sample_view sample_bpf"
    by (auto simp: update_documented_def sample_bpf_def sample_view_def BPF_OBJ_GET_def
        BPF_MAP_UPDATE_ELEM_def split: if_splits)
  show "close_documented sample_view sample_close"
    by (simp add: close_documented_def sample_close_def sample_view_def)
qed

lemma xskmap_registration_witness:
  "\<exists>k1 e k2. register_xsk_calls sample_bpf sample_close [0, 0, 0, 0] \<lparr>sa_path = 8, sa_key = 16, sa_value = 24\<rparr>
       ''/sys/fs/bpf/lb/xsks_map'' 2 9 sample_host = (None, k1) \<and> sk_fds k1 = Map.empty \<and>
     lb_redirect (sk_elems k1 0) 2 = XdpRedirect 9 \<and>
     register_xsk_calls sample_bpf sample_close [0, 0, 7, 0] \<lparr>sa_path = 8, sa_key = 16, sa_value = 24\<rparr>
       ''/sys/fs/bpf/lb/xsks_map'' 2 9 sample_host = (Some e, k2) \<and> sk_elems k2 0 = Map.empty"
proof -
  let ?ads = "\<lparr>sa_path = 8, sa_key = 16, sa_value = 24\<rparr>" and ?pin = "''/sys/fs/bpf/lb/xsks_map''"
  obtain r1 k1 where 1: "register_xsk_calls sample_bpf sample_close [0, 0, 0, 0] ?ads ?pin 2 9 sample_host = (r1, k1)"
    by fastforce
  obtain r2 k2 where 2: "register_xsk_calls sample_bpf sample_close [0, 0, 7, 0] ?ads ?pin 2 9 sample_host = (r2, k2)"
    by fastforce
  have ads: "distinct [sa_path ?ads, sa_key ?ads, sa_value ?ads]" by simp
  have pin: "\<not> has_nul ?pin" by (simp add: has_nul_def)
  note t1 = xskmap_registration [OF sample_documented ads 1] and t2 = xskmap_registration [OF sample_documented ads 2]
  have "r1 = None" "\<exists>e. r2 = Some e" using t1 t2 pin by (auto simp: sample_view_def sample_host_def)
  with t1 t2 1 2 show ?thesis by (auto simp: sample_view_def sample_host_def)
qed

subsection \<open>The memory of the UMEM (aligned_uninit_slice)\<close>

text \<open>
  A layout exists for a power of two as alignment if the size rounded up to it is below 2^63. A
  boxed slice of bytes gives its memory back with the alignment of its elements.
\<close>

record layout =
  ly_size :: nat
  ly_align :: nat

definition layout_from_size_align :: "nat \<Rightarrow> nat \<Rightarrow> layout option" where
  "layout_from_size_align sz align =
     (if (\<exists>b < 64. align = 2 ^ b) \<and> sz \<le> 2 ^ 63 - align then Some \<lparr>ly_size = sz, ly_align = align\<rparr> else None)"

definition aligned_uninit_slice :: "(layout \<Rightarrow> u8 list option) \<Rightarrow> nat \<Rightarrow> nat \<Rightarrow> string + u8 list" where
  "aligned_uninit_slice alloc sz align =
     (case layout_from_size_align sz align of
        None \<Rightarrow> Inl ''UMEM layout: invalid parameters to Layout::from_size_align''
      | Some layout \<Rightarrow> (case alloc layout of
            None \<Rightarrow> Inl ''UMEM allocation failed''
          | Some mem \<Rightarrow> Inr mem))"

definition umem_alloc :: "(layout \<Rightarrow> u8 list option) \<Rightarrow> af_xdp_config \<Rightarrow> string + u8 list" where
  "umem_alloc alloc c = aligned_uninit_slice alloc (unat (xc_num_frames c) * unat (xc_frame_size c)) 4096"

definition boxed_slice_layout :: "u8 list \<Rightarrow> layout" where
  "boxed_slice_layout mem = \<lparr>ly_size = length mem, ly_align = 1\<rparr>"

lemma power_of_two_u32_le:
  assumes "is_power_of_two n"
  shows "unat n \<le> 2 ^ 31"
proof (rule ccontr)
  assume "\<not> unat n \<le> 2 ^ 31"
  moreover have "unat n < 2 ^ 32" using unsigned_less [of n, where 'a = nat] by simp
  moreover have "unat (n - 1) = unat n - 1" using assms
    by (intro unat_minus_one) (simp add: is_power_of_two_def)
  ultimately have "unat n div 2 ^ 31 = 1" "unat (n - 1) div 2 ^ 31 = 1" by (simp_all add: div_nat_eqI)
  then have "bit (unat n) 31" "bit (unat (n - 1)) 31"
    by (simp_all add: bit_iff_odd [of "unat n"] bit_iff_odd [of "unat (n - 1)"])
  then have "bit n 31" "bit (n - 1) 31" by (simp_all add: bit_unsigned_iff)
  then have "bit (n AND (n - 1)) 31" by (simp add: bit_and_iff)
  with assms show False by (simp add: is_power_of_two_def)
qed

text \<open>
  For an accepted configuration the layout always exists, so the allocation is refused only when
  memory runs out, and what it gives is the size of all frames.
\<close>

lemma umem_alloc_checked:
  assumes "check_config c = None"
  shows "umem_alloc alloc c =
     (case alloc \<lparr>ly_size = unat (xc_num_frames c) * unat (xc_frame_size c), ly_align = 4096\<rparr> of
        None \<Rightarrow> Inl ''UMEM allocation failed'' | Some mem \<Rightarrow> Inr mem)"
proof -
  have "is_power_of_two (xc_num_frames c)" using assms by (simp add: check_config_def split: if_splits)
  then have "unat (xc_num_frames c) \<le> 2 ^ 31" by (rule power_of_two_u32_le)
  moreover have "unat (xc_frame_size c) \<le> 2 ^ 32 - 1"
    using unsigned_less [of "xc_frame_size c", where 'a = nat] by simp
  ultimately have "unat (xc_num_frames c) * unat (xc_frame_size c) \<le> 2 ^ 31 * (2 ^ 32 - 1)" by (rule mult_le_mono)
  moreover have "\<exists>b < 64. (4096 :: nat) = 2 ^ b" by (rule exI [of _ 12]) simp
  ultimately show ?thesis by (simp add: umem_alloc_def aligned_uninit_slice_def layout_from_size_align_def)
qed

text \<open>
  The allocation that \<^verbatim>\<open>AfXdpIo\<close> keeps is a boxed slice of bytes. When it is dropped, the allocator is given
  a layout with alignment 1 and not the one of the allocation, which its contract requires.
\<close>

lemma umem_freed_with_other_layout:
  "layout_from_size_align sz 4096 = Some ly \<Longrightarrow> boxed_slice_layout mem \<noteq> ly"
  by (auto simp: layout_from_size_align_def boxed_slice_layout_def split: if_splits)

subsection \<open>Builds without AF_XDP (module stub)\<close>

definition stub_config_default :: af_xdp_config where
  "stub_config_default =
     \<lparr>xc_iface = ''eth0'', xc_queue_id = 0, xc_num_frames = 4096,
      xc_frame_size = word_of_nat PACKET_BUF_SIZE, xc_ring_size = 2048,
      xc_xskmap_pin = Some ''/sys/fs/bpf/lb/xsks_map''\<rparr>"

text \<open>The message depends on the target; the long dash is its three bytes in UTF-8.\<close>

definition stub_new :: "bool \<Rightarrow> af_xdp_config \<Rightarrow> string + af_xdp" where
  "stub_new target_linux config =
     Inl (if target_linux
          then ''AF_XDP support not compiled in '' @ [CHR 0xE2, CHR 0x80, CHR 0x94] @
               '' rebuild with --features af-xdp''
          else ''AF_XDP is only supported on Linux'')"

lemma stub_default_agrees: "stub_config_default = af_xdp_config_default"
  by (simp add: stub_config_default_def af_xdp_config_default_def PACKET_BUF_SIZE_def
      DEFAULT_NUM_FRAMES_def DEFAULT_FRAME_SIZE_def DEFAULT_RING_SIZE_def)

end
