(* ===== verification/TraceCli.thy ===== *)
theory TraceCli
  imports Node IpText
begin

text \<open>
  The command line tool (crate lb-trace, main.rs): it reads two endpoints and a protocol, asks the
  operations server of a node where a packet of that flow would go, and prints the answer. The
  HTTP client (ureq) with the JSON codec is the parameter \<open>send\<close>, the pretty printer of serde the
  parameter \<open>to_pretty\<close>; clap's parsing of the options is not modelled.
\<close>

subsection \<open>Strings\<close>

definition split_once :: "char \<Rightarrow> string \<Rightarrow> (string \<times> string) option" where
  "split_once c s =
     (case dropWhile (\<lambda>x. x \<noteq> c) s of
        [] \<Rightarrow> None
      | _ # rest \<Rightarrow> Some (takeWhile (\<lambda>x. x \<noteq> c) s, rest))"

definition rsplit_once :: "char \<Rightarrow> string \<Rightarrow> (string \<times> string) option" where
  "rsplit_once c s = map_option (\<lambda>(after, before). (rev before, rev after)) (split_once c (rev s))"

definition trim_end_matches :: "char \<Rightarrow> string \<Rightarrow> string" where
  "trim_end_matches c s = rev (dropWhile (\<lambda>x. x = c) (rev s))"

definition ascii_lower :: "char \<Rightarrow> char" where
  "ascii_lower c =
     (if 65 \<le> (of_char c :: nat) \<and> (of_char c :: nat) \<le> 90 then char_of ((of_char c :: nat) + 32) else c)"

lemma split_once_first: "c \<notin> set a \<Longrightarrow> split_once c (a @ c # b) = Some (a, b)"
  by (simp add: split_once_def dropWhile_append takeWhile_append)

lemma rsplit_once_last: "c \<notin> set b \<Longrightarrow> rsplit_once c (a @ c # b) = Some (a, b)"
  using split_once_first [of c "rev b" "rev a"] by (simp add: rsplit_once_def)

subsection \<open>Endpoints\<close>

definition parse_endpoint :: "string \<Rightarrow> string \<Rightarrow> (ip_addr \<times> u16) option" where
  "parse_endpoint ip_str port_str = do {
     ip \<leftarrow> parse_ip ip_str;
     port \<leftarrow> parse_uint 16 port_str;
     Some (ip, word_of_nat port)
   }"

definition parse_addr :: "string \<Rightarrow> (ip_addr \<times> u16) option" where
  "parse_addr s =
     (case read_given_char CHR ''['' s of
        Some rest \<Rightarrow> do {
          (ip_str, rest) \<leftarrow> split_once CHR '']'' rest;
          port_str \<leftarrow> read_given_char CHR '':'' rest;
          parse_endpoint ip_str port_str
        }
      | None \<Rightarrow> do {
          (ip_str, port_str) \<leftarrow> rsplit_once CHR '':'' s;
          parse_endpoint ip_str port_str
        })"

subsection \<open>The command\<close>

record cli =
  cl_node :: string
  cl_src :: string
  cl_dst :: string
  cl_proto :: string
  cl_timeout_secs :: u64
  cl_json :: bool

datatype http_reply =
    Response "string + trace_result"
  | HttpStatus nat "string option"
  | Unreachable string

text \<open>The exit code and what goes to the standard output and to the standard error.\<close>

type_synonym cli_outcome = "nat \<times> string \<times> string"

definition fails :: "nat \<Rightarrow> string \<Rightarrow> cli_outcome" where
  "fails code message = (code, [], line message)"

definition trace_main ::
    "(trace_result \<Rightarrow> string) \<Rightarrow> (string \<Rightarrow> duration \<Rightarrow> trace_request \<Rightarrow> http_reply) \<Rightarrow> cli \<Rightarrow> cli_outcome" where
  "trace_main to_pretty send c =
     (case parse_addr (cl_src c) of
        None \<Rightarrow> fails 2 (''invalid --src: '' @ cl_src c)
      | Some (sip, sport) \<Rightarrow>
     (case parse_addr (cl_dst c) of
        None \<Rightarrow> fails 2 (''invalid --dst: '' @ cl_dst c)
      | Some (dip, dport) \<Rightarrow>
        let proto_arg = map ascii_lower (cl_proto c);
            protocol = (if proto_arg = ''tcp'' then Some Tcp else if proto_arg = ''udp'' then Some Udp else None)
        in case protocol of
          None \<Rightarrow> fails 2 (''unsupported --proto: '' @ proto_arg @ '' (expected tcp or udp)'')
        | Some protocol \<Rightarrow>
          let req = \<lparr>tq_src_ip = sip, tq_src_port = sport, tq_dst_ip = dip,
                     tq_dst_port = dport, tq_protocol = protocol\<rparr>;
              url = trim_end_matches CHR ''/'' (cl_node c) @ ''/v1/trace''
          in case send url (secs (unat (cl_timeout_secs c))) req of
               Response (Inl e) \<Rightarrow> fails 1 (''invalid response body: '' @ e)
             | Response (Inr body) \<Rightarrow> (0, if cl_json c then line (to_pretty body) else show_trace body, [])
             | HttpStatus code body \<Rightarrow>
                 fails 1 (''lb-node returned HTTP '' @ dec code @ '': '' @
                   (case body of Some text \<Rightarrow> text | None \<Rightarrow> ''(no body)''))
             | Unreachable e \<Rightarrow> fails 1 (''failed to reach '' @ url @ '': '' @ e)))"

subsection \<open>An endpoint as the reports print it is read back\<close>

text \<open>
  The first step of a report prints an endpoint with the port after the last colon, for both families;
  the tool also takes the form with the address in brackets.
\<close>

definition show_endpoint :: "ip_addr \<Rightarrow> u16 \<Rightarrow> string" where
  "show_endpoint ip port = show_ip ip @ '':'' @ dec (unat port)"

definition bracketed_endpoint :: "ip_addr \<Rightarrow> u16 \<Rightarrow> string" where
  "bracketed_endpoint ip port = ''['' @ show_ip ip @ '']:'' @ dec (unat port)"

lemma parsed_step_shown:
  "parsed_step \<lparr>tq_src_ip = sip, tq_src_port = sport, tq_dst_ip = dip, tq_dst_port = dport, tq_protocol = pr\<rparr> =
     ''parsed 5-tuple: '' @ show_endpoint sip sport @ '' '' @ arrow @ '' '' @ show_endpoint dip dport @ '' ('' @
     debug_protocol pr @ '')''"
  by (simp add: parsed_step_def show_endpoint_def)

lemma parse_endpoint_shown: "parse_endpoint (show_ip ip) (dec (unat port)) = Some (ip, port)"
  using parse_uint_dec [of "unat port" 16] by (simp add: parse_endpoint_def parse_show_ip)

definition bracket :: "char \<Rightarrow> bool" where
  "bracket c \<longleftrightarrow> c = CHR ''['' \<or> c = CHR '']''"

lemma dec_no_bracket: "bracket c \<Longrightarrow> c \<notin> set (dec n)"
  by (rule dec_no_sep) (auto simp: bracket_def is_digit_def)

lemma hex_no_bracket: "bracket c \<Longrightarrow> c \<notin> set (hex n)"
  using hex_digits [of n] by (auto simp: bracket_def list_all_iff to_digit_def Let_def)

lemma groups_no_bracket: "bracket c \<Longrightarrow> c \<notin> set (groups_text lead gs)"
  by (induction gs arbitrary: lead) (auto simp: hex_no_bracket, simp_all add: bracket_def)

lemma show_ip_no_bracket: "bracket c \<Longrightarrow> c \<notin> set (show_ip ip)"
proof (cases ip)
  case (V4 a)
  assume "bracket c"
  then show ?thesis unfolding V4 by (cases a) (auto simp: dec_no_bracket, simp_all add: bracket_def)
next
  case (V6 a)
  assume c: "bracket c"
  then have "c \<notin> set '':ffff.''" by (auto simp: bracket_def)
  then show ?thesis unfolding V6
    by (auto simp: show_ipv6_def Let_def groups_text_join groups_no_bracket [OF c] dec_no_bracket [OF c] split: prod.splits)
qed

lemma parse_addr_shown: "parse_addr (show_endpoint ip port) = Some (ip, port)"
proof -
  have "CHR ''['' \<notin> set (show_endpoint ip port)"
    using show_ip_no_bracket [of "CHR ''[''" ip] dec_no_bracket [of "CHR ''[''" "unat port"]
    by (simp add: show_endpoint_def bracket_def)
  then have "read_given_char CHR ''['' (show_endpoint ip port) = None"
    by (cases "show_endpoint ip port") (auto simp: read_given_char_def)
  moreover have "rsplit_once CHR '':'' (show_endpoint ip port) = Some (show_ip ip, dec (unat port))"
    using rsplit_once_last [of "CHR '':''" "dec (unat port)" "show_ip ip"]
    by (simp add: show_endpoint_def dec_no_sep)
  ultimately show ?thesis by (simp add: parse_addr_def parse_endpoint_shown)
qed

lemma parse_addr_bracketed: "parse_addr (bracketed_endpoint ip port) = Some (ip, port)"
proof -
  have "CHR '']'' \<notin> set (show_ip ip)" by (rule show_ip_no_bracket) (simp add: bracket_def)
  then have "split_once CHR '']'' (show_ip ip @ '']:'' @ dec (unat port)) = Some (show_ip ip, '':'' @ dec (unat port))"
    using split_once_first [of "CHR '']''" "show_ip ip" "'':'' @ dec (unat port)"] by simp
  then show ?thesis
    using parse_endpoint_shown [of ip port] by (simp add: parse_addr_def bracketed_endpoint_def read_given_char_def)
qed


text \<open>A node without configuration answers that nothing matches.\<close>

definition sample_cli :: cli where
  "sample_cli = \<lparr>cl_node = ''http://127.0.0.1:9100/'', cl_src = show_endpoint (V6 (Ipv6 0x2001 0xdb8 0 0 0 0 0 1)) 12345,
     cl_dst = show_endpoint (V4 (Ipv4 10 9 0 1)) 443, cl_proto = ''TCP'', cl_timeout_secs = 5, cl_json = False\<rparr>"

definition sample_ops :: ops_state where
  "sample_ops = \<lparr>os_ready = True, os_forwarder_running = True, os_node_id = ''lb1'', os_vip_matcher = Map.empty,
     os_lookup_tables = Map.empty, os_health_status = Map.empty\<rparr>"


end
