(* ===== verification/Metrics.thy ===== *)
theory Metrics
  imports Node
begin

text \<open>
  What the process registers for exposition (crate lb-metrics) and what the handler of \<^verbatim>\<open>/metrics\<close>
  serves: the registered names with their help texts and the values behind them, in the order of
  registration. The text format itself is produced by the crate prometheus-client, the parameter
  \<open>encode\<close>; the histogram of the latency is registered and never observed.
\<close>

text \<open>A metric of the data plane; the members of a labelled family are created at registration.\<close>

datatype forwarder_metric =
    FmCounter fwd_counter
  | FmTableSize
  | FmFillBp
  | FmLatency
  | FmFamily "((string \<times> string) \<times> fwd_counter) list"

definition eviction_family :: "((string \<times> string) \<times> fwd_counter) list" where
  "eviction_family =
     [((''reason'', ''expired_on_insert''), EvictionExpiredOnInsert),
      ((''reason'', ''dropped_full''), EvictionDroppedFull)]"

definition tcp_transition_family :: "((string \<times> string) \<times> fwd_counter) list" where
  "tcp_transition_family =
     [((''to'', ''established''), TcpTransitionEstablished),
      ((''to'', ''closing_fin''), TcpTransitionClosingFin),
      ((''to'', ''closing_rst''), TcpTransitionClosingRst)]"

definition forwarder_register :: "(string \<times> string \<times> forwarder_metric) list" where
  "forwarder_register = [
      (''lb_packets_received_total'',
       ''Total packets received by the steering module'', FmCounter PacketsReceived),
      (''lb_packets_forwarded_total'',
       ''Total packets successfully GRE-forwarded'', FmCounter PacketsForwarded),
      (''lb_packets_dropped_total'',
       ''Total packets dropped'', FmCounter PacketsDropped),
      (''lb_connection_table_hits_total'',
       ''Connection tracking cache hits'', FmCounter ConnTableHits),
      (''lb_connection_table_misses_total'',
       ''Connection tracking cache misses'', FmCounter ConnTableMisses),
      (''lb_connection_table_size'',
       ''Current number of active entries in connection table'', FmTableSize),
      (''lb_packet_processing_latency_ns'',
       ''Per-packet processing latency in nanoseconds'', FmLatency),
      (''lb_mss_clamp_total'',
       ''TCP SYN packets where MSS was clamped'', FmCounter MssClampTotal),
      (''lb_mss_clamp_noop_total'',
       ''TCP SYN packets where MSS was already within limit'', FmCounter MssClampNoop),
      (''lb_mss_clamp_missing_total'',
       ''TCP SYN packets with no MSS option'', FmCounter MssClampMissing),
      (''lb_icmp_frag_needed_sent_total'',
       ''ICMP Fragmentation Needed responses generated'', FmCounter IcmpFragNeededSent),
      (''lb_icmp_frag_needed_ratelimited_total'',
       ''ICMP responses suppressed by rate limiter'', FmCounter IcmpFragNeededRatelimited),
      (''lb_packets_oversized_dropped_total'',
       ''Oversized packets dropped (DF set, exceeds inner MTU)'', FmCounter PacketsOversizedDropped),
      (''lb_fragment_first_total'',
       ''First IP fragments seen (MF=1, offset=0) '' @ dash @ '' these populate the fragment table'', FmCounter FragmentFirst),
      (''lb_fragment_subsequent_forwarded_total'',
       ''Non-first fragments forwarded by looking up the 3-tuple in the fragment table'', FmCounter FragmentSubsequentForwarded),
      (''lb_fragment_drop_no_mapping_total'',
       ''Non-first fragments dropped because no fragment-table mapping was found'', FmCounter FragmentDropNoMapping),
      (''lb_connection_table_inserts_total'',
       ''Connection tracking insertions (new or reclaimed expired slot)'', FmCounter ConnTableInserts),
      (''lb_connection_table_evictions_total'',
       ''Connection tracking evictions labelled by reason'', FmFamily eviction_family),
      (''lb_connection_table_tcp_transitions_total'',
       ''TCP flow state transitions observed by the connection tracker'', FmFamily tcp_transition_family),
      (''lb_connection_table_fallback_to_maglev_total'',
       ''Cache hit re-routed via Maglev because the cached backend became unhealthy'', FmCounter ConnTableFallbackToMaglev),
      (''lb_connection_table_fill_bp'',
       ''Connection table fill ratio in basis points (0-10000)'', FmFillBp)]"

datatype controller_metric =
    CmBgpState | CmLastReload | CmReloadErrors | CmPeerState | CmPeerConnects | CmPeerDisconnects
  | CmAnnounceFailures | CmWithdrawFailures | CmVipsAnnounced | CmPeerNotifications

definition bgp_register :: "(string \<times> string \<times> controller_metric) list" where
  "bgp_register = [
      (''lb_bgp_peer_state'',
       ''1=Established, 0=not Established (Idle/Connecting/Backoff/Disabled)'', CmPeerState),
      (''lb_bgp_peer_connects_total'',
       ''Successful BGP session establishments'', CmPeerConnects),
      (''lb_bgp_peer_disconnects_total'',
       ''BGP session disconnects (any reason)'', CmPeerDisconnects),
      (''lb_bgp_announce_failures_total'',
       ''Announce operations that failed on an established session'', CmAnnounceFailures),
      (''lb_bgp_withdraw_failures_total'',
       ''Withdraw operations that failed on an established session'', CmWithdrawFailures),
      (''lb_bgp_vips_announced'',
       ''Count of VIPs currently being announced to the fleet'', CmVipsAnnounced),
      (''lb_bgp_peer_notifications_total'',
       ''NOTIFICATION messages received from a peer (RFC 4271 '' @ [CHR 0xC2, CHR 0xA7] @ ''4.5); session is torn down after each'', CmPeerNotifications)]"

definition controller_register :: "(string \<times> string \<times> controller_metric) list" where
  "controller_register = [
      (''lb_bgp_state'',
       ''1=announcing (at least one peer established), 0=all peers down'', CmBgpState),
      (''lb_config_last_reload_timestamp'',
       ''Unix timestamp of last successful config reload'', CmLastReload),
      (''lb_config_reload_errors_total'',
       ''Number of failed config reload attempts'', CmReloadErrors)] @ bgp_register"

text \<open>\<^verbatim>\<open>LbMetrics::new\<close>: one registry for both planes.\<close>

datatype metric = Forwarder forwarder_metric | ControlPlane controller_metric

record lb_metrics =
  lm_registry :: "(string \<times> string \<times> metric) list"
  lm_forwarder :: forwarder_metrics
  lm_controller :: controller_metrics

definition lb_metrics_new :: lb_metrics where
  "lb_metrics_new =
     \<lparr>lm_registry = map (\<lambda>(name, help, m). (name, help, Forwarder m)) forwarder_register @
        map (\<lambda>(name, help, m). (name, help, ControlPlane m)) controller_register,
      lm_forwarder = forwarder_metrics_new, lm_controller = controller_metrics_new\<rparr>"

text \<open>The labelled values behind a metric of the data plane, as a scrape reads them.\<close>

fun forwarder_samples :: "forwarder_metrics \<Rightarrow> forwarder_metric \<Rightarrow> ((string \<times> string) list \<times> int) list" where
  "forwarder_samples m (FmCounter c) = [([], int (fm_counter m c))]"
| "forwarder_samples m FmTableSize = [([], fm_conn_table_size m)]"
| "forwarder_samples m FmFillBp = [([], fm_conn_table_fill_bp m)]"
| "forwarder_samples m FmLatency = []"
| "forwarder_samples m (FmFamily members) = map (\<lambda>(l, c). ([l], int (fm_counter m c))) members"

definition exposed :: "forwarder_metrics \<Rightarrow> (string \<times> (string \<times> string) list \<times> int) list" where
  "exposed m = concat (map (\<lambda>(name, help, metric).
     map (\<lambda>(labels, v). (name, labels, v)) (forwarder_samples m metric)) forwarder_register)"

definition metrics_handler :: "(lb_metrics \<Rightarrow> string) \<Rightarrow> lb_metrics \<Rightarrow> nat \<times> (string \<times> string) list \<times> string" where
  "metrics_handler encode s = (OK, [(''content-type'', ''text/plain; version=0.0.4'')], encode s)"

subsection \<open>Every counter has one exposed series\<close>

text \<open>The series of a counter: the position of its sample in the exposition.\<close>

fun metric_counters :: "forwarder_metric \<Rightarrow> fwd_counter option list" where
  "metric_counters (FmCounter c) = [Some c]"
| "metric_counters (FmFamily members) = map (Some \<circ> snd) members"
| "metric_counters FmLatency = []"
| "metric_counters _ = [None]"

definition series :: "fwd_counter option list" where
  "series = concat (map (\<lambda>(name, help, metric). metric_counters metric) forwarder_register)"

lemma series_eq:
  "series = [Some PacketsReceived, Some PacketsForwarded, Some PacketsDropped, Some ConnTableHits,
     Some ConnTableMisses, None, Some MssClampTotal, Some MssClampNoop, Some MssClampMissing,
     Some IcmpFragNeededSent, Some IcmpFragNeededRatelimited, Some PacketsOversizedDropped,
     Some FragmentFirst, Some FragmentSubsequentForwarded, Some FragmentDropNoMapping,
     Some ConnTableInserts, Some EvictionExpiredOnInsert, Some EvictionDroppedFull,
     Some TcpTransitionEstablished, Some TcpTransitionClosingFin, Some TcpTransitionClosingRst,
     Some ConnTableFallbackToMaglev, None]"
  by (simp add: series_def forwarder_register_def eviction_family_def tcp_transition_family_def)

lemma series_of_counter: "\<exists>!i. i < length series \<and> series ! i = Some c"
proof -
  have "distinct (filter (\<lambda>x. x \<noteq> None) series)" by (simp add: series_eq)
  moreover have "Some c \<in> set series" by (cases c) (simp_all add: series_eq)
  then obtain i where "i < length series" "series ! i = Some c" by (auto simp: in_set_conv_nth)
  moreover have "length (filter (\<lambda>x. x = Some c) series) = 1" by (cases c) (simp_all add: series_eq)
  then have "i = j" if "i < length series" "series ! i = Some c" "j < length series" "series ! j = Some c" for i j
  proof -
    have "card {k. k < length series \<and> series ! k = Some c} = 1"
      using \<open>length (filter (\<lambda>x. x = Some c) series) = 1\<close> by (simp add: length_filter_conv_card)
    with that show ?thesis by (metis (mono_tags, lifting) card_1_singletonE mem_Collect_eq singletonD)
  qed
  ultimately show ?thesis by blast
qed

text \<open>A scrape shows each counter at its position, so an increment is seen there.\<close>

lemma exposed_series: "list_all2 (\<lambda>k s. \<forall>c. k = Some c \<longrightarrow> snd (snd s) = int (fm_counter m c)) series (exposed m)"
  by (simp add: series_eq exposed_def forwarder_register_def eviction_family_def tcp_transition_family_def)

lemma scrape_counter: "\<exists>!i. i < length (exposed m) \<and> series ! i = Some c \<and> snd (snd (exposed m ! i)) = int (fm_counter m c)"
proof -
  have len: "length (exposed m) = length series" using exposed_series [of m] by (simp add: list_all2_lengthD)
  obtain i where i: "i < length series" "series ! i = Some c" and unique: "\<And>j. j < length series \<Longrightarrow> series ! j = Some c \<Longrightarrow> j = i"
    using series_of_counter [of c] by blast
  have "snd (snd (exposed m ! i)) = int (fm_counter m c)"
    using list_all2_nthD [OF exposed_series [of m] i(1)] i(2) by blast
  with i unique len show ?thesis by metis
qed

text \<open>No name is registered twice.\<close>

lemma registered_once: "distinct (map fst (lm_registry lb_metrics_new))"
  by (simp add: lb_metrics_new_def forwarder_register_def controller_register_def bgp_register_def)

end
