(* ===== verification/Spec2Isabelle.thy ===== *)
theory Spec2Isabelle
  imports Health Affinity NodeTraffic NodeDrain XdpSyscalls TraceCli Metrics
begin

text \<open>
  A verification development for the layer-4 load balancer \<^verbatim>\<open>lb\<close> (Rust, src/crates).

  \<^bold>\<open>The program.\<close> A node receives IP packets for virtual addresses (VIPs), picks a backend for each
  flow and sends the packet on inside a GRE tunnel. The data plane (crates lb-types, lb-io, lb-hashing,
  lb-forwarder) is a pipeline per thread: parse the 5-tuple, match the VIP, look the flow up in the
  thread's connection table or in the pool's Maglev table, clamp the TCP MSS, answer oversized
  packets with ICMP, encapsulate. The control plane (lb-config-manager, lb-controller, lb-bgp,
  lb-health) loads and watches the file of VIPs and pools, builds the Maglev tables, and announces
  the serviceable VIPs to the routers over BGP. Both share the matcher and the lookup tables. The
  binary (lb-node) starts and drains all of it; lb-metrics, lb-tracer and lb-trace let an operator look in.

  \<^bold>\<open>The theories\<close>, in the order of their imports, with the sources they model:

  \<^item> \<^verbatim>\<open>Prelude\<close>: machine types, panics, byte order, decimal numbers. \<^verbatim>\<open>NetTypes\<close> (lb-types: vip.rs,
    backend.rs, mtu.rs, error.rs): addresses and their text, VIPs, backends, pools, MTU. \<^verbatim>\<open>IpText\<close>:
    the address parser of \<^verbatim>\<open>std::net\<close>, which reads back every address that is printed.
  \<^item> \<^verbatim>\<open>Packet\<close> (lb-types/packet.rs): parsers and flow hashes. \<^verbatim>\<open>PacketIo\<close> (lb-io: lib.rs, mock.rs): packet
    buffers, the I/O contract as the locale \<^verbatim>\<open>packet_io\<close>, and the mock backends. \<^verbatim>\<open>AfXdp\<close>
    (lb-io/af_xdp.rs): the AF_XDP socket, whose memory is shared with the kernel. \<^verbatim>\<open>XdpSyscalls\<close>
    (the same file, and deploy/xdp/redirect.bpf.c): what its setup passes to the kernel and the allocator, as
    bytes, and the program that redirects packets to the sockets.
  \<^item> \<^verbatim>\<open>Checksum\<close>, \<^verbatim>\<open>Gre\<close>, \<^verbatim>\<open>MssClamp\<close>, \<^verbatim>\<open>Icmp\<close> (lb-forwarder: gre.rs, mss_clamp.rs, icmp.rs): what is done to the
    bytes of a packet.
  \<^item> \<^verbatim>\<open>RobinHood\<close>: Robin Hood hashing with expiring entries, once, in the locale \<^verbatim>\<open>robin_hood\<close>;
    \<^verbatim>\<open>ConnTable\<close> and \<^verbatim>\<open>FragmentTable\<close> (lb-forwarder: conn_table.rs, fragment_table.rs) are written as in
    the source and shown to be two instances.
  \<^item> \<^verbatim>\<open>Maglev\<close> (lb-hashing), \<^verbatim>\<open>VipMatcher\<close> (lb-forwarder: vip_matcher.rs, steering.rs).
  \<^item> \<^verbatim>\<open>Rewriter\<close> (rewriter.rs): the pipeline of one thread; \<^verbatim>\<open>Affinity\<close>: what its two tables keep while
    other packets come between, time passes and the shared values change. \<^verbatim>\<open>PacketPool\<close>, \<^verbatim>\<open>PoolRewriter\<close>, \<^verbatim>\<open>Threading\<close> and
    \<^verbatim>\<open>Engine\<close> (packet_pool.rs, threading.rs, lib.rs): the frame pool, the pipeline on pooled frames, the
    steering, rewriter and muxer threads as an interleaving step relation, the per-queue threads and
    the single-threaded engine.
  \<^item> \<^verbatim>\<open>Tracer\<close> (lb-tracer, lb-forwarder/tracer.rs): the read-only tracer and its report.
  \<^item> \<^verbatim>\<open>Health\<close> (lb-health): the state machine of a backend, the checker's tasks and the three probes.
  \<^item> \<^verbatim>\<open>Config\<close> (lb-types/config.rs): the node configuration. \<^verbatim>\<open>ConfigManager\<close> (lb-config-manager):
    loading, validating, watching, table building.
  \<^item> \<^verbatim>\<open>BgpMessages\<close> and \<^verbatim>\<open>BgpSpeaker\<close> (lb-bgp): the wire format, the session task as a state machine, the
    supervisor, and the contract the controller relies on as the locale \<^verbatim>\<open>bgp_announcer\<close>.
    \<^verbatim>\<open>Controller\<close> (lb-controller/orchestrator.rs): configuration, debounced rebuilds, announcements,
    and the controller together with the speaker's tasks.
  \<^item> \<^verbatim>\<open>Node\<close> (lb-node: main.rs, ops_server.rs; lb-metrics/controller_metrics.rs): the start of the process
    and the handlers of the operations server. \<^verbatim>\<open>NodeRun\<close> (main.rs): the running process: watcher,
    reload task, event pump, session tasks, signal handler and main loop, in any interleaving.
    On top of it \<^verbatim>\<open>NodeTraffic\<close> puts the two planes together (what the running node does to a packet)
    and \<^verbatim>\<open>NodeDrain\<close> shows that the drain can always complete.
  \<^item> \<^verbatim>\<open>Metrics\<close> (lb-metrics): registration and what a scrape shows. \<^verbatim>\<open>TraceCli\<close> (lb-trace): the command.

  \<^bold>\<open>State and effects.\<close> A struct is a record, an enum a datatype, a machine integer a word; operations
  pass the state explicitly. An expression that may panic has type \<open>'a panics\<close> and \<^const>\<open>None\<close> is the
  panic; an error the code returns is a value. Arithmetic wraps as in a release build. Values behind
  \<^verbatim>\<open>ArcSwap\<close>, \<^verbatim>\<open>Mutex\<close> and \<^verbatim>\<open>DashMap\<close> are held as values, and each locked operation or atomic swap is one step;
  threads and tasks interleave at these steps. Channels are lists.

  \<^bold>\<open>What the theorems show.\<close>

  \<^item> Data plane: every byte sequence is processed without a panic; what leaves is a GRE frame around
    the packet for the right backend; flows and fragments keep their backend over time, within their
    time to live and as long as no other flow was refused or reclaimed a slot; the tables refine finite
    maps, and a full one pays for a new flow with exactly one; the Maglev build ends, fills its table and shares it by weight; batches and threads
    neither lose nor duplicate frames and count every packet, and the threads panic only as they
    start, when a table size is not a power of two; the AF_XDP socket refines two queues
    although the kernel works on the same memory.
  \<^item> Control plane: only valid configurations are handed on; tables follow configuration and health;
    a BGP session refines a set of routes, its task never leaves its state machine and backs off
    exponentially between attempts, and a queued shutdown ends it; frames on the wire decode to what was asked.
  \<^item> The node: exactly when a start fails; that in every reachable state outside a reload a packet
    that is matched is sent to a backend of its service, that every peer with a handled connection
    has exactly the configured VIPs, that the metrics follow the sessions, that nothing is
    announced after the shutdown signal unless a reload is in flight, and that from every reachable
    state the node can drain and exit; and that the trace command reports what the tables say.
  \<^item> The setup: registration of a socket leaks no descriptor and changes nothing on errors.

  The lemmas that follow a definition give its result on every branch; a group \<^verbatim>\<open>*_ok\<close> is the
  preservation of the component's invariant, \<^verbatim>\<open>*_cases\<close> its case analysis, \<^verbatim>\<open>sample_*\<close> a concrete run that
  the witnesses share.

  \<^bold>\<open>Parameters.\<close> Code outside src/ is an argument: the hash functions xxh3 (nothing is assumed), the
  lock-free queue \<^verbatim>\<open>ArrayQueue\<close> (the laws of \<^verbatim>\<open>array_queue\<close>, satisfied by a bounded list), how many entries
  an xdpilone ring writer takes (\<^verbatim>\<open>ring_writer\<close>, satisfied by two different policies), the system call
  bpf(2) on a kernel of any type (\<^verbatim>\<open>bpf_documented\<close>, satisfied by a kernel of one descriptor), the JSON and
  TOML codecs, rustls and its PEM readers, the HTTP client, the Prometheus encoder, the environment, and the
  outcome of every system call (records such as \<^verbatim>\<open>connect_io\<close>, \<^verbatim>\<open>xdp_setup\<close> and \<^verbatim>\<open>boot_io\<close>).

  \<^bold>\<open>Bounds.\<close> Nothing runs on fuel: loops are structural recursions or functions with a measure, and
  repeated behaviour is a step relation. Theorems about time assume that the monotonic clock
  has run for less than 2^62 seconds; table sizes are prime and below 2^32 (the node's is the
  prime 65537); pools have fewer than 2^63 backends. Theorems about the node assume of the file of VIPs
  that pool ids are distinct, which the validator does not check.

  \<^bold>\<open>Not modelled.\<close> Option parsing (clap), logging, HTTP routing and listening (axum), the tokio runtime and thread
  parking, memory ordering below the granularity of one atomic operation, pinning system calls, the
  other system calls of xdpilone (their outcomes are parameters), the text of the Prometheus exposition and the TOML and JSON grammars. The crate
  roots only re-export; benchmarks and tests hold no logic of the program.
\<close>

end
